(* ===== verification/Double.thy ===== *)
theory Double
  imports Complex_Main
begin

text \<open>
  \<^verbatim>\<open>double\<close> arithmetic, for node and gateway: the exact result of each operation is rounded by \<open>fl64\<close> to the nearest
  number with 53 significant bits, ties to even. The results of the code are far from the largest and the smallest
  exponent of the format, which are left out.
\<close>

section \<open>Rounding\<close>

definition round_even :: "real \<Rightarrow> int" where
  "round_even y =
    (let f = \<lfloor>y\<rfloor>; d = y - of_int f in
     if d < 1 / 2 then f else if d > 1 / 2 then f + 1 else if even f then f else f + 1)"

definition ulp :: "real \<Rightarrow> real" where
  "ulp x = 2 powr of_int (\<lfloor>log 2 \<bar>x\<bar>\<rfloor> - 52)"

definition fl64 :: "real \<Rightarrow> real" where
  "fl64 x = (if x = 0 then 0 else of_int (round_even (x / ulp x)) * ulp x)"

lemma round_even_int [simp]: "round_even (of_int n) = n"
  by (simp add: round_even_def)

lemma round_even_bounds: "\<lfloor>y\<rfloor> \<le> round_even y" "round_even y \<le> \<lfloor>y\<rfloor> + 1"
  by (auto simp: round_even_def Let_def)

lemma round_even_le: "y \<le> of_int n \<Longrightarrow> round_even y \<le> n"
proof (cases "y = of_int n")
  case False
  assume "y \<le> of_int n"
  with False have "\<lfloor>y\<rfloor> < n" by (simp add: floor_less_iff)
  then show ?thesis using round_even_bounds(2)[of y] by linarith
qed simp

lemma ulp_pos [simp]: "0 < ulp x"
  by (simp add: ulp_def)

lemma fl64_0 [simp]: "fl64 0 = 0"
  by (simp add: fl64_def)

lemma fl64_nonneg: "0 \<le> x \<Longrightarrow> 0 \<le> fl64 x"
proof -
  assume "0 \<le> x"
  then have "0 \<le> \<lfloor>x / ulp x\<rfloor>" by (simp add: less_imp_le)
  then have "0 \<le> round_even (x / ulp x)" using round_even_bounds(1) order_trans by blast
  then show ?thesis by (simp add: fl64_def less_imp_le)
qed

text \<open>A number that is a multiple of the unit in the last place is represented.\<close>

lemma fl64_multiple: "x = of_int m * ulp x \<Longrightarrow> fl64 x = x"
proof -
  assume x: "x = of_int m * ulp x"
  then have "x / ulp x = of_int m" using ulp_pos[of x] by (metis less_irrefl nonzero_mult_div_cancel_right)
  with x show ?thesis by (simp add: fl64_def)
qed

lemma ulp_exponent: "x \<noteq> 0 \<Longrightarrow> \<bar>x\<bar> < 2 powr of_int (k + 1) \<Longrightarrow> \<exists>j :: nat. ulp x * 2 ^ j = 2 powr of_int (k - 52)"
proof -
  assume x: "x \<noteq> 0" "\<bar>x\<bar> < 2 powr of_int (k + 1)"
  then have "log 2 \<bar>x\<bar> < of_int (k + 1)" by (simp add: log_less_iff)
  then have "\<lfloor>log 2 \<bar>x\<bar>\<rfloor> \<le> k" by (simp add: floor_less_iff flip: zle_add1_eq_le)
  then have "ulp x * 2 ^ nat (k - \<lfloor>log 2 \<bar>x\<bar>\<rfloor>) = 2 powr of_int (k - 52)"
    by (simp add: ulp_def powr_add[symmetric] flip: powr_realpow)
  then show ?thesis ..
qed

lemma fl64_int: "\<bar>n\<bar> < 2 ^ 53 \<Longrightarrow> fl64 (of_int n) = of_int n"
proof (cases "n = 0")
  case False
  assume "\<bar>n\<bar> < 2 ^ 53"
  then have "real_of_int \<bar>n\<bar> < real_of_int (2 ^ 53)" by (simp only: of_int_less_iff)
  then have "\<bar>real_of_int n\<bar> < 2 powr of_int (52 + 1)" by (simp flip: powr_realpow)
  from ulp_exponent[OF _ this] False obtain j :: nat where "ulp (of_int n) * 2 ^ j = 2 powr of_int (52 - 52)" by auto
  then have "real_of_int n = of_int (n * 2 ^ j) * ulp (of_int n)" by simp (metis mult.commute mult.assoc mult_1_right)
  then show ?thesis by (rule fl64_multiple)
qed simp

text \<open>Rounding does not carry past a represented number above.\<close>

lemma fl64_le:
  assumes "0 \<le> x" "x \<le> c" "c = of_int m * 2 powr of_int (k - 52)" "c < 2 powr of_int (k + 1)"
  shows "fl64 x \<le> c"
proof (cases "x = 0")
  case False
  then have "\<bar>x\<bar> < 2 powr of_int (k + 1)" using assms by simp
  from ulp_exponent[OF False this] obtain j :: nat where j: "ulp x * 2 ^ j = 2 powr of_int (k - 52)" ..
  then have c: "c = of_int (m * 2 ^ j) * ulp x" using assms(3) by (simp add: mult.commute)
  then have "x / ulp x \<le> of_int (m * 2 ^ j)" using assms(2) ulp_pos[of x] by (simp add: divide_le_eq)
  then have "round_even (x / ulp x) \<le> m * 2 ^ j" by (rule round_even_le)
  then have "real_of_int (round_even (x / ulp x)) \<le> of_int (m * 2 ^ j)" by (simp only: of_int_le_iff)
  then show ?thesis unfolding c using False by (simp add: fl64_def mult_right_mono)
qed (use assms in simp)

end
