(* ===== verification/CPrelude.thy ===== *)
theory CPrelude
  imports Main "HOL-Library.Word" "HOL-Library.Monad_Syntax"
begin

unbundle bit_operations_syntax

text \<open>
  What the components share: C's fixed-width unsigned types as words, array accesses and block
  copies that fail outside the array, counting loops over an explicit state with their
  total-correctness rules, and the little-endian layout of integers in byte buffers.

  A C computation that may hit undefined behaviour (an access outside an array, a null pointer)
  or that stops the machine (\<^verbatim>\<open>BUG_ON\<close>) has an \<open>option\<close> result: \<open>None\<close> is that fault, and the
  \<open>do\<close> notation of the option monad sequences statements. C's \<open>int\<close> is HOL's \<open>int\<close>;
  unsigned fixed-width integers are words and wrap around.
\<close>

section \<open>Types\<close>

type_synonym u8 = "8 word"
type_synonym u16 = "16 word"
type_synonym u32 = "32 word"

named_theorems c_simps \<open>evaluation rules of checked accesses and loops\<close>
named_theorems bytes_simps \<open>layout of integers in byte buffers\<close>

section \<open>Arrays\<close>

definition ard :: "'a list \<Rightarrow> int \<Rightarrow> 'a option" where
  "ard xs i = (if 0 \<le> i \<and> i < int (length xs) then Some (xs ! nat i) else None)"

definition awr :: "'a list \<Rightarrow> int \<Rightarrow> 'a \<Rightarrow> 'a list option" where
  "awr xs i v = (if 0 \<le> i \<and> i < int (length xs) then Some (xs[nat i := v]) else None)"

text \<open>\<open>cmemmove xs d s n\<close>: the \<open>n\<close> cells from index \<open>s\<close> on are copied to index \<open>d\<close> of the
  same array, as \<^verbatim>\<open>memmove(&xs[d], &xs[s], n * sizeof)\<close> does.\<close>

definition cmemmove :: "'a list \<Rightarrow> int \<Rightarrow> int \<Rightarrow> int \<Rightarrow> 'a list option" where
  "cmemmove xs d s n =
     (if 0 \<le> n \<and> 0 \<le> d \<and> 0 \<le> s \<and> d + n \<le> int (length xs) \<and> s + n \<le> int (length xs)
      then Some (take (nat d) xs @ take (nat n) (drop (nat s) xs) @ drop (nat (d + n)) xs)
      else None)"

text \<open>\<open>cput xs d ys\<close>: the block \<open>ys\<close> is copied to index \<open>d\<close> of \<open>xs\<close>;
  \<open>cget xs s n\<close>: the block of \<open>n\<close> cells at index \<open>s\<close> (\<^verbatim>\<open>memcpy\<close> to and from a buffer).\<close>

definition cput :: "'a list \<Rightarrow> int \<Rightarrow> 'a list \<Rightarrow> 'a list option" where
  "cput xs d ys =
     (if 0 \<le> d \<and> d + int (length ys) \<le> int (length xs)
      then Some (take (nat d) xs @ ys @ drop (nat d + length ys) xs) else None)"

definition cget :: "'a list \<Rightarrow> int \<Rightarrow> int \<Rightarrow> 'a list option" where
  "cget xs s n =
     (if 0 \<le> n \<and> 0 \<le> s \<and> s + n \<le> int (length xs)
      then Some (take (nat n) (drop (nat s) xs)) else None)"

lemma ard_Some [c_simps]: "i < length xs \<Longrightarrow> ard xs (int i) = Some (xs ! i)"
  by (simp add: ard_def)

lemma ard_in [c_simps]: "0 \<le> i \<Longrightarrow> i < int (length xs) \<Longrightarrow> ard xs i = Some (xs ! nat i)"
  by (simp add: ard_def)

lemma ard_0 [simp]: "ard (x # xs) 0 = Some x"
  by (simp add: ard_def)

lemma awr_in [c_simps]: "0 \<le> i \<Longrightarrow> i < int (length xs) \<Longrightarrow> awr xs i v = Some (xs[nat i := v])"
  by (simp add: awr_def)

lemma ard_in_set: "ard xs i = Some x \<Longrightarrow> x \<in> set xs"
proof -
  assume "ard xs i = Some x"
  then have "nat i < length xs" "xs ! nat i = x" by (auto simp: ard_def split: if_splits)
  then show ?thesis using nth_mem by blast
qed

lemma awr_SomeD: "awr xs i v = Some ys \<Longrightarrow> length ys = length xs"
  by (auto simp: awr_def split: if_splits)

lemma cmemmove_down: "xs \<noteq> [] \<Longrightarrow>
    cmemmove xs 0 1 (int (length xs) - 1) = Some (tl xs @ [last xs])"
  by (cases xs; cases "tl xs" rule: rev_cases)
     (auto simp: cmemmove_def nat_diff_distrib nat_add_distrib)

lemma cmemmove_up: "xs \<noteq> [] \<Longrightarrow>
    cmemmove xs 1 0 (int (length xs) - 1) = Some (hd xs # butlast xs)"
  by (cases xs) (auto simp: cmemmove_def nat_diff_distrib butlast_conv_take)

text \<open>Shift down by one cell and store at the end, as a feedback register does.\<close>

lemma shift_in:
  assumes "xs \<noteq> []"
  shows "cmemmove xs 0 1 (int (length xs) - 1) \<bind> (\<lambda>p. awr p (int (length xs) - 1) v)
    = Some (tl xs @ [v])"
proof -
  have "nat (int (length xs) - 1) = length (tl xs)" using assms by (cases xs) auto
  then show ?thesis
    using assms by (simp add: cmemmove_down awr_def list_update_append)
qed

lemma cput_SomeD: "cput xs d ys = Some zs \<Longrightarrow> length zs = length xs"
  by (auto simp: cput_def split: if_splits)

lemma cget_SomeD: "cget xs s n = Some ys \<Longrightarrow> length ys = nat n"
  by (auto simp: cget_def split: if_splits)

lemma cget_cput: "cput xs d ys = Some zs \<Longrightarrow> cget zs d (int (length ys)) = Some ys"
  by (auto simp: cput_def cget_def split: if_splits)

section \<open>Loops\<close>

text \<open>\<open>cfor i n f s\<close> is \<^verbatim>\<open>for (; i < n; i++) s = f(i, s)\<close>;
  \<open>cford j m f s\<close> is \<^verbatim>\<open>for (; j > m; j--) s = f(j, s)\<close>.\<close>

function cfor :: "int \<Rightarrow> int \<Rightarrow> (int \<Rightarrow> 's \<Rightarrow> 's option) \<Rightarrow> 's \<Rightarrow> 's option" where
  "cfor i n f s = (if i < n then f i s \<bind> cfor (i + 1) n f else Some s)"
  by pat_completeness auto
termination
  by (relation "measure (\<lambda>(i, n, f, s). nat (n - i))") auto

function cford :: "int \<Rightarrow> int \<Rightarrow> (int \<Rightarrow> 's \<Rightarrow> 's option) \<Rightarrow> 's \<Rightarrow> 's option" where
  "cford j m f s = (if m < j then f j s \<bind> cford (j - 1) m f else Some s)"
  by pat_completeness auto
termination
  by (relation "measure (\<lambda>(j, m, f, s). nat (j - m))") auto

declare cfor.simps [simp del] cford.simps [simp del]

lemma cfor_end [c_simps]: "n \<le> i \<Longrightarrow> cfor i n f s = Some s"
  by (simp add: cfor.simps)

lemma cfor_step [c_simps]: "i < n \<Longrightarrow> cfor i n f s = f i s \<bind> cfor (i + 1) n f"
  by (simp add: cfor.simps)

lemma cford_end [c_simps]: "j \<le> m \<Longrightarrow> cford j m f s = Some s"
  by (simp add: cford.simps)

lemma cford_step [c_simps]: "m < j \<Longrightarrow> cford j m f s = f j s \<bind> cford (j - 1) m f"
  by (simp add: cford.simps)

text \<open>\<open>cforb i n f s\<close> is the same loop with a \<^verbatim>\<open>break\<close>: the body also says whether to leave.\<close>

function cforb :: "int \<Rightarrow> int \<Rightarrow> (int \<Rightarrow> 's \<Rightarrow> (bool \<times> 's) option) \<Rightarrow> 's \<Rightarrow> 's option" where
  "cforb i n f s =
     (if i < n then f i s \<bind> (\<lambda>(brk, s'). if brk then Some s' else cforb (i + 1) n f s')
      else Some s)"
  by pat_completeness auto
termination
  by (relation "measure (\<lambda>(i, n, f, s). nat (n - i))") auto

declare cforb.simps [simp del]

lemma cforb_end [c_simps]: "n \<le> i \<Longrightarrow> cforb i n f s = Some s"
  by (simp add: cforb.simps)

lemma cforb_step [c_simps]: "i < n \<Longrightarrow>
    cforb i n f s = f i s \<bind> (\<lambda>(brk, s'). if brk then Some s' else cforb (i + 1) n f s')"
  by (simp add: cforb.simps)

lemma cforb_total:
  assumes "I i s" and "i \<le> n"
    and "\<And>k t. i \<le> k \<Longrightarrow> k < n \<Longrightarrow> I k t \<Longrightarrow>
           \<exists>brk t'. f k t = Some (brk, t') \<and> (if brk then Q t' else I (k + 1) t')"
    and "\<And>t. I n t \<Longrightarrow> Q t"
  shows "\<exists>t. cforb i n f s = Some t \<and> Q t"
  using assms
proof (induction i n f s rule: cforb.induct)
  case (1 i n f s)
  show ?case
  proof (cases "i < n")
    case True
    with "1.prems" obtain brk t' where
      t': "f i s = Some (brk, t')" "if brk then Q t' else I (i + 1) t'" by blast
    show ?thesis
    proof (cases brk)
      case True
      with t' \<open>i < n\<close> show ?thesis by (simp add: cforb_step)
    next
      case False
      have "\<exists>t. cforb (i + 1) n f t' = Some t \<and> Q t"
        using t' "1.prems"(3,4) True False by (intro "1.IH"[OF True t'(1) refl False]) auto
      with t' True False show ?thesis by (simp add: cforb_step)
    qed
  next
    case False
    with "1.prems" show ?thesis by (auto simp: cforb_end)
  qed
qed

text \<open>Total correctness: a loop whose body never faults under the invariant ends, does not
  fault, and leaves the invariant true at its bound.\<close>

lemma cfor_total:
  assumes "I i s" and "i \<le> n"
    and "\<And>k t. i \<le> k \<Longrightarrow> k < n \<Longrightarrow> I k t \<Longrightarrow> \<exists>t'. f k t = Some t' \<and> I (k + 1) t'"
  shows "\<exists>t. cfor i n f s = Some t \<and> I n t"
  using assms
proof (induction i n f s rule: cfor.induct)
  case (1 i n f s)
  show ?case
  proof (cases "i < n")
    case True
    with "1.prems" obtain t' where t': "f i s = Some t'" "I (i + 1) t'" by blast
    have "\<exists>t. cfor (i + 1) n f t' = Some t \<and> I n t"
      using t' "1.prems"(3) True by (intro "1.IH") auto
    with t' True show ?thesis by (simp add: cfor_step)
  next
    case False
    with "1.prems" show ?thesis by (auto simp: cfor_end)
  qed
qed

lemma cford_total:
  assumes "I j s" and "m \<le> j"
    and "\<And>k t. m < k \<Longrightarrow> k \<le> j \<Longrightarrow> I k t \<Longrightarrow> \<exists>t'. f k t = Some t' \<and> I (k - 1) t'"
  shows "\<exists>t. cford j m f s = Some t \<and> I m t"
  using assms
proof (induction j m f s rule: cford.induct)
  case (1 j m f s)
  show ?case
  proof (cases "m < j")
    case True
    with "1.prems" obtain t' where t': "f j s = Some t'" "I (j - 1) t'" by blast
    have "\<exists>t. cford (j - 1) m f t' = Some t \<and> I m t"
      using t' "1.prems"(3) True by (intro "1.IH") auto
    with t' True show ?thesis by (simp add: cford_step)
  next
    case False
    with "1.prems" show ?thesis by (auto simp: cford_end)
  qed
qed

text \<open>Partial correctness, for loops whose body may fault.\<close>

lemma cfor_inv:
  assumes "cfor i n f s = Some t" and "I s"
    and "\<And>k u u'. i \<le> k \<Longrightarrow> k < n \<Longrightarrow> I u \<Longrightarrow> f k u = Some u' \<Longrightarrow> I u'"
  shows "I t"
  using assms
proof (induction i n f s rule: cfor.induct)
  case (1 i n f s)
  show ?case
  proof (cases "i < n")
    case True
    with "1.prems"(1) obtain s' where s': "f i s = Some s'" "cfor (i + 1) n f s' = Some t"
      by (auto simp: cfor_step split: Option.bind_splits)
    with "1.prems" True have "I s'" by blast
    have step: "I u'" if "i + 1 \<le> k" "k < n" "I u" "f k u = Some u'" for k u u'
      using that by (intro "1.prems"(3)[of k u u']) auto
    show ?thesis using step by (rule "1.IH"[OF True s'(1) s'(2) \<open>I s'\<close>])
  next
    case False
    with "1.prems" show ?thesis by (simp add: cfor_end)
  qed
qed

text \<open>A loop whose body is a total function is a fold.\<close>

lemma cfor_fold:
  "(\<And>k t. i \<le> k \<Longrightarrow> k < n \<Longrightarrow> f k t = Some (g k t)) \<Longrightarrow> cfor i n f s = Some (fold g [i..n - 1] s)"
proof (induction i n f s rule: cfor.induct)
  case (1 i n f s)
  show ?case
  proof (cases "i < n")
    case True
    with 1 show ?thesis by (simp add: cfor_step upto_rec1)
  next
    case False
    then show ?thesis by (simp add: cfor_end)
  qed
qed

lemma cford_inv:
  assumes "cford j m f s = Some t" and "I s"
    and "\<And>k u u'. m < k \<Longrightarrow> k \<le> j \<Longrightarrow> I u \<Longrightarrow> f k u = Some u' \<Longrightarrow> I u'"
  shows "I t"
  using assms
proof (induction j m f s rule: cford.induct)
  case (1 j m f s)
  show ?case
  proof (cases "m < j")
    case True
    with "1.prems"(1) obtain s' where s': "f j s = Some s'" "cford (j - 1) m f s' = Some t"
      by (auto simp: cford_step split: Option.bind_splits)
    with "1.prems" True have "I s'" by blast
    have step: "I u'" if "m < k" "k \<le> j - 1" "I u" "f k u = Some u'" for k u u'
      using that by (intro "1.prems"(3)[of k u u']) auto
    show ?thesis by (rule "1.IH"[OF True s'(1) s'(2) \<open>I s'\<close> step])
  next
    case False
    with "1.prems" show ?thesis by (simp add: cford_end)
  qed
qed

lemma cforb_inv:
  assumes "cforb i n f s = Some t" and "I s"
    and "\<And>k u b u'. i \<le> k \<Longrightarrow> k < n \<Longrightarrow> I u \<Longrightarrow> f k u = Some (b, u') \<Longrightarrow> I u'"
  shows "I t"
  using assms
proof (induction i n f s rule: cforb.induct)
  case (1 i n f s)
  show ?case
  proof (cases "i < n")
    case True
    with "1.prems"(1) obtain b s' where s': "f i s = Some (b, s')"
      "if b then s' = t else cforb (i + 1) n f s' = Some t"
      by (auto simp: cforb.simps[of i] split: Option.bind_splits if_splits)
    with "1.prems" True have "I s'" by blast
    have step: "I u'" if "i + 1 \<le> k" "k < n" "I u" "f k u = Some (c, u')" for k u c u'
      using that by (intro "1.prems"(3)[of k u c u']) auto
    show ?thesis
    proof (cases b)
      case True
      with s' \<open>I s'\<close> show ?thesis by simp
    next
      case False
      with s' have "cforb (i + 1) n f s' = Some t" by simp
      from "1.IH"[OF True s'(1) refl False this \<open>I s'\<close> step] show ?thesis .
    qed
  next
    case False
    with "1.prems" show ?thesis by (simp add: cforb.simps[of i])
  qed
qed

lemma cfor_split:
  "i \<le> m \<Longrightarrow> m \<le> n \<Longrightarrow> cfor i n f s = cfor i m f s \<bind> cfor m n f"
proof (induction i n f s rule: cfor.induct)
  case (1 i n f s)
  show ?case
  proof (cases "i < m")
    case True
    with 1 show ?thesis by (auto simp: cfor_step split: Option.bind_split)
  next
    case False
    with "1.prems" show ?thesis by (simp add: cfor_end)
  qed
qed

text \<open>A loop that reads and overwrites each cell once is a map.\<close>

lemma cfor_pointwise_from:
  assumes "length xs = nat n" and "0 \<le> lo" and "lo \<le> n"
    and "\<And>i ys. lo \<le> i \<Longrightarrow> i < n \<Longrightarrow> length ys = length xs \<Longrightarrow> ys ! nat i = xs ! nat i \<Longrightarrow>
           f i ys = awr ys i (g (nat i))"
  shows "cfor lo n f xs = Some (take (nat lo) xs @ map g [nat lo..<nat n])"
proof -
  let ?I = "\<lambda>i ys. ys = take (nat lo) xs @ map g [nat lo..<nat i] @ drop (nat i) xs"
  have "\<exists>t. cfor lo n f xs = Some t \<and> ?I n t"
  proof (rule cfor_total)
    fix k ys assume k: "lo \<le> k" "k < n" and inv: "?I k ys"
    have nk: "nat lo \<le> nat k" "nat k < length xs" using k assms(1-3) by linarith+
    then have split: "drop (nat k) xs = xs ! nat k # drop (Suc (nat k)) xs"
      by (simp add: Cons_nth_drop_Suc)
    have "f k ys = awr ys k (g (nat k))"
      using inv k nk by (intro assms(4)) (auto simp: nth_append)
    then show "\<exists>t'. f k ys = Some t' \<and> ?I (k + 1) t'"
      using inv k nk assms(2)
      by (simp add: awr_def split list_update_append nat_add_distrib)
  qed (use assms(2,3) in auto)
  then show ?thesis using assms(1) by simp
qed

lemma cfor_pointwise:
  assumes "length xs = nat n" and "0 \<le> n"
    and "\<And>i ys. 0 \<le> i \<Longrightarrow> i < n \<Longrightarrow> length ys = length xs \<Longrightarrow> ys ! nat i = xs ! nat i \<Longrightarrow>
           f i ys = awr ys i (g (nat i))"
  shows "cfor 0 n f xs = Some (map g [0..<nat n])"
  using cfor_pointwise_from[of xs n 0 f g] assms by simp

lemma cfor_cong [fundef_cong]:
  assumes "i = i'" "n = n'" "s = s'"
    and "\<And>k t. i' \<le> k \<Longrightarrow> k < n' \<Longrightarrow> f k t = f' k t"
  shows "cfor i n f s = cfor i' n' f' s'"
  using assms(4) unfolding assms(1-3)
proof (induction i' n' f s' rule: cfor.induct)
  case (1 i n f s)
  show ?case
  proof (cases "i < n")
    case True
    then have "f i s = f' i s" by (simp add: "1.prems")
    moreover have "cfor (i + 1) n f t = cfor (i + 1) n f' t" if "f i s = Some t" for t
      using True "1.prems" that by (intro "1.IH") auto
    ultimately show ?thesis using True by (auto simp: cfor_step split: Option.bind_split)
  next
    case False
    then show ?thesis by (simp add: cfor_end)
  qed
qed

section \<open>Little-endian integers in byte buffers\<close>

text \<open>The programs copy integers to and from buffers with \<^verbatim>\<open>memcpy\<close> on little-endian machines
  (BeagleBone, x86): \<open>le16\<close> and \<open>le32\<close> are the bytes of a \<^verbatim>\<open>uint16_t\<close> and of a \<^verbatim>\<open>uint32_t\<close>
  or \<^verbatim>\<open>int\<close>, and \<open>rd16\<close>, \<open>rd32\<close> read them back.\<close>

definition le16 :: "u16 \<Rightarrow> u8 list" where
  "le16 x = [ucast x, ucast (drop_bit 8 x)]"

definition le32 :: "u32 \<Rightarrow> u8 list" where
  "le32 x = [ucast x, ucast (drop_bit 8 x), ucast (drop_bit 16 x), ucast (drop_bit 24 x)]"

definition of_le16 :: "u8 \<Rightarrow> u8 \<Rightarrow> u16" where
  "of_le16 a b = ucast a OR push_bit 8 (ucast b)"

definition of_le32 :: "u8 \<Rightarrow> u8 \<Rightarrow> u8 \<Rightarrow> u8 \<Rightarrow> u32" where
  "of_le32 a b c d = ucast a OR push_bit 8 (ucast b) OR push_bit 16 (ucast c) OR push_bit 24 (ucast d)"

definition rd16 :: "u8 list \<Rightarrow> int \<Rightarrow> u16 option" where
  "rd16 buf i = do { a \<leftarrow> ard buf i; b \<leftarrow> ard buf (i + 1); Some (of_le16 a b) }"

definition rd32 :: "u8 list \<Rightarrow> int \<Rightarrow> u32 option" where
  "rd32 buf i = do { a \<leftarrow> ard buf i; b \<leftarrow> ard buf (i + 1); c \<leftarrow> ard buf (i + 2);
     d \<leftarrow> ard buf (i + 3); Some (of_le32 a b c d) }"

text \<open>A C \<^verbatim>\<open>int\<close> is stored as its two's complement.\<close>

definition le_int :: "int \<Rightarrow> u8 list" where
  "le_int x = le32 (word_of_int x)"

definition rd_int :: "u8 list \<Rightarrow> int \<Rightarrow> int option" where
  "rd_int buf i = map_option sint (rd32 buf i)"

definition c_int :: "int \<Rightarrow> bool" where
  "c_int x \<longleftrightarrow> - (2 ^ 31) \<le> x \<and> x < 2 ^ 31"

text \<open>The result of an \<^verbatim>\<open>int\<close> operation: overflow is a fault.\<close>

definition chk :: "int \<Rightarrow> int option" where
  "chk x = (if c_int x then Some x else None)"

lemma chk_in [c_simps]: "c_int x \<Longrightarrow> chk x = Some x"
  by (simp add: chk_def)

lemma chk_SomeD: "chk x = Some y \<Longrightarrow> y = x \<and> c_int x"
  by (simp add: chk_def split: if_splits)

lemma length_le16 [simp]: "length (le16 x) = 2"
  by (simp add: le16_def)

lemma length_le32 [simp]: "length (le32 x) = 4"
  by (simp add: le32_def)

lemma length_le_int [simp]: "length (le_int x) = 4"
  by (simp add: le_int_def)

lemma of_le16_bytes [simp]: "of_le16 (ucast x) (ucast (drop_bit 8 x)) = x"
  unfolding of_le16_def by (rule bit_eqI) (auto simp: bit_simps)

lemma of_le32_bytes [simp]:
  "of_le32 (ucast x) (ucast (drop_bit 8 x)) (ucast (drop_bit 16 x)) (ucast (drop_bit 24 x)) = x"
proof (unfold of_le32_def, rule bit_eqI)
  fix n :: nat
  assume "possible_bit TYPE(u32) n"
  then show "bit (ucast (ucast x :: u8) OR push_bit 8 (ucast (ucast (drop_bit 8 x) :: u8))
      OR push_bit 16 (ucast (ucast (drop_bit 16 x) :: u8))
      OR push_bit 24 (ucast (ucast (drop_bit 24 x) :: u8)) :: u32) n = bit x n"
    by (cases "n < 16"; cases "n < 24") (auto simp: bit_simps not_less)
qed

lemma byte_bit_high: "8 \<le> n \<Longrightarrow> \<not> bit (x :: u8) n"
  using bit_imp_le_length[of x n] by auto

lemma le16_of_le16: "le16 (of_le16 a b) = [a, b]"
  unfolding le16_def of_le16_def by (auto intro!: bit_eqI simp: bit_simps byte_bit_high)

lemma le32_of_le32: "le32 (of_le32 a b c d) = [a, b, c, d]"
  unfolding le32_def of_le32_def by (auto intro!: bit_eqI simp: bit_simps byte_bit_high)

lemma ard_append2 [bytes_simps]:
  "int (length xs) \<le> i \<Longrightarrow> ard (xs @ ys) i = ard ys (i - int (length xs))"
  by (auto simp: ard_def nth_append nat_diff_distrib)

lemma ard_append1 [bytes_simps]:
  "i < int (length xs) \<Longrightarrow> ard (xs @ ys) i = ard xs i"
  by (auto simp: ard_def nth_append)

lemma rd16_le16 [bytes_simps]: "i = int (length xs) \<Longrightarrow> rd16 (xs @ le16 x @ ys) i = Some x"
  by (simp add: rd16_def le16_def bytes_simps) (simp add: ard_def)

lemma rd32_le32 [bytes_simps]: "i = int (length xs) \<Longrightarrow> rd32 (xs @ le32 x @ ys) i = Some x"
  by (simp add: rd32_def le32_def bytes_simps) (simp add: ard_def)

lemma sint_word_of_int_c_int: "c_int x \<Longrightarrow> sint (word_of_int x :: u32) = x"
  by (simp add: c_int_def sint_sbintrunc' signed_take_bit_int_eq_self)

lemma rd_int_le_int [bytes_simps]:
  "i = int (length xs) \<Longrightarrow> c_int x \<Longrightarrow> rd_int (xs @ le_int x @ ys) i = Some x"
  by (simp add: rd_int_def le_int_def rd32_le32 sint_word_of_int_c_int)

text \<open>Reading past a prefix, and at the front.\<close>

lemma rd16_skip [bytes_simps]: "int (length xs) \<le> i \<Longrightarrow> rd16 (xs @ ys) i = rd16 ys (i - int (length xs))"
  by (simp add: rd16_def ard_append2 algebra_simps)

lemma rd32_skip [bytes_simps]: "int (length xs) \<le> i \<Longrightarrow> rd32 (xs @ ys) i = rd32 ys (i - int (length xs))"
  by (simp add: rd32_def ard_append2 algebra_simps)

lemma rd16_here [bytes_simps]: "rd16 (le16 x @ ys) 0 = Some x"
  using rd16_le16[of 0 "[]"] by simp

lemma rd32_here [bytes_simps]: "rd32 (le32 x @ ys) 0 = Some x"
  using rd32_le32[of 0 "[]"] by simp

lemma rd_int_skip [bytes_simps]: "int (length xs) \<le> i \<Longrightarrow> rd_int (xs @ ys) i = rd_int ys (i - int (length xs))"
  by (simp add: rd_int_def rd32_skip)

lemma rd_int_here [bytes_simps]: "c_int x \<Longrightarrow> rd_int (le_int x @ ys) 0 = Some x"
  using rd_int_le_int[of 0 "[]"] by simp

lemma uint_unat: "uint x = int (unat x)"
  by simp

section \<open>Filling a buffer\<close>

text \<open>A frame is built by writing field after field behind what is already there.\<close>

lemma cput_skip [bytes_simps]:
  "int (length xs) \<le> d \<Longrightarrow> cput (xs @ zs) d ys = map_option (\<lambda>b. xs @ b) (cput zs (d - int (length xs)) ys)"
  by (auto simp: cput_def nat_diff_distrib)

lemma cput_0 [bytes_simps]:
  "length ys \<le> length zs \<Longrightarrow> cput zs 0 ys = Some (ys @ drop (length ys) zs)"
  by (simp add: cput_def)

lemma cput_Cons [bytes_simps]:
  "1 \<le> d \<Longrightarrow> cput (x # zs) d ys = map_option (\<lambda>b. x # b) (cput zs (d - 1) ys)"
  using cput_skip[of "[x]" d zs ys] by simp

lemma ard_Cons [bytes_simps]: "0 < i \<Longrightarrow> ard (x # xs) i = ard xs (i - 1)"
  using ard_append2[of "[x]" i xs] by simp

lemma copy_loop:
  assumes "n \<le> length src" and "n \<le> length zs" and "d = int (length xs)"
  shows "cfor 0 (int n) (\<lambda>i (buf, tx_len). do {
       b \<leftarrow> ard src i;
       buf \<leftarrow> awr buf tx_len b;
       Some (buf, tx_len + 1) }) (xs @ zs, d)
    = Some (xs @ take n src @ drop n zs, d + int n)"
proof -
  let ?I = "\<lambda>i s. s = (xs @ take (nat i) src @ drop (nat i) zs, d + i)"
  let ?f = "\<lambda>i (buf, tx_len). do {
       b \<leftarrow> ard src i;
       buf \<leftarrow> awr buf tx_len b;
       Some (buf, tx_len + 1) }"
  have "\<exists>t. cfor 0 (int n) ?f (xs @ zs, d) = Some t \<and> ?I (int n) t"
  proof (rule cfor_total)
    fix k t assume k: "0 \<le> k" "k < int n" and t: "?I k t"
    have nk: "nat k < length src" "nat k < length zs" using k assms by linarith+
    then have z: "drop (nat k) zs = zs ! nat k # drop (Suc (nat k)) zs"
      by (simp add: Cons_nth_drop_Suc)
    have "ard src k = Some (src ! nat k)" using nk k by (simp add: ard_def)
    moreover have "awr (xs @ take (nat k) src @ drop (nat k) zs) (d + k) v
        = Some (xs @ take (nat k) src @ v # drop (Suc (nat k)) zs)" for v
      using nk k assms(3) unfolding z by (simp add: awr_def nat_add_distrib list_update_append)
    ultimately show "\<exists>t'. ?f k t = Some t' \<and> ?I (k + 1) t'"
      using t k nk by (simp add: nat_add_distrib take_Suc_conv_app_nth)
  qed auto
  then show ?thesis by simp
qed

text \<open>The converse: a field copied out of a buffer into a block of its own.\<close>

lemma read_loop:
  assumes "n \<le> length dst" and "j + n \<le> length src"
  shows "cfor 0 (int n) (\<lambda>i (dst, idx). do {
       b \<leftarrow> ard src idx;
       dst \<leftarrow> awr dst i b;
       Some (dst, idx + 1) }) (dst, int j)
    = Some (take n (drop j src) @ drop n dst, int j + int n)"
proof -
  let ?I = "\<lambda>i s. s = (take (nat i) (drop j src) @ drop (nat i) dst, int j + i)"
  let ?f = "\<lambda>i (dst, idx). do {
       b \<leftarrow> ard src idx;
       dst \<leftarrow> awr dst i b;
       Some (dst, idx + 1) }"
  have "\<exists>t. cfor 0 (int n) ?f (dst, int j) = Some t \<and> ?I (int n) t"
  proof (rule cfor_total)
    fix k t assume k: "0 \<le> k" "k < int n" and t: "?I k t"
    have nk: "nat k < length dst" "nat k < length (drop j src)" "j + nat k < length src"
      using k assms by auto
    then have z: "drop (nat k) dst = dst ! nat k # drop (Suc (nat k)) dst"
      by (simp add: Cons_nth_drop_Suc)
    have "ard src (int j + k) = Some (src ! (j + nat k))"
      using nk k by (simp add: ard_def nat_add_distrib)
    moreover have "awr (take (nat k) (drop j src) @ drop (nat k) dst) k v
        = Some (take (nat k) (drop j src) @ v # drop (Suc (nat k)) dst)" for v
      using nk k unfolding z by (simp add: awr_def list_update_append)
    ultimately show "\<exists>t'. ?f k t = Some t' \<and> ?I (k + 1) t'"
      using t k nk by (simp add: nat_add_distrib take_Suc_conv_app_nth[OF nk(2)] add.assoc)
  qed auto
  then show ?thesis by simp
qed

section \<open>Truncating division\<close>

text \<open>C's \<^verbatim>\<open>/\<close> and \<^verbatim>\<open>%\<close> truncate towards zero; division by zero is undefined.\<close>

definition cdiv :: "int \<Rightarrow> int \<Rightarrow> int option" where
  "cdiv a b = (if b = 0 then None else Some (sgn a * sgn b * (\<bar>a\<bar> div \<bar>b\<bar>)))"

definition cmod :: "int \<Rightarrow> int \<Rightarrow> int option" where
  "cmod a b = (if b = 0 then None else Some (sgn a * (\<bar>a\<bar> mod \<bar>b\<bar>)))"

lemma cdiv_pos [c_simps]: "0 \<le> a \<Longrightarrow> 0 < b \<Longrightarrow> cdiv a b = Some (a div b)"
  by (cases "a = 0") (simp_all add: cdiv_def)

lemma cmod_pos [c_simps]: "0 \<le> a \<Longrightarrow> 0 < b \<Longrightarrow> cmod a b = Some (a mod b)"
  by (cases "a = 0") (simp_all add: cmod_def)

end
