(* ===== verification/Packet_Queue.thy ===== *)
theory Packet_Queue
  imports CPrelude
begin

text \<open>
  The packet queues: \<^verbatim>\<open>packet_queue.c\<close> of the gateway and of the node (one code, two element
  types) and \<^verbatim>\<open>packet_queue.c\<close> of the VLC transmitter. The nodes of the linked lists live in an
  explicit store, so that sharing and dangling pointers can be spoken about; a dereference of
  \<^verbatim>\<open>NULL\<close> or of a cell that is not allocated is the result \<open>None\<close>.

  The interface of a bounded first-in-first-out queue is the locale \<open>bounded_fifo\<close>; both linked
  lists and the list-valued queue \<open>fifo\<close> the other components are modelled with interpret it.
\<close>

section \<open>The store\<close>

type_synonym ptr = "nat option"

record 'a qnode =
  nd_data :: 'a
  nd_next :: ptr

type_synonym 'a heap = "nat \<rightharpoonup> 'a qnode"

record packet_queue =
  q_head :: ptr
  q_tail :: ptr
  q_size :: int
  q_limit :: int

definition free_node :: "'a heap \<Rightarrow> ptr \<Rightarrow> 'a heap" where
  "free_node h p = (case p of None \<Rightarrow> h | Some a \<Rightarrow> h(a := None))"

section \<open>The queue of the gateway and the node\<close>

definition construct_queue :: "bool \<Rightarrow> int \<Rightarrow> packet_queue option" where
  "construct_queue malloc_ok limit =
     (if \<not> malloc_ok then None
      else let limit = (if limit \<le> 0 then 65535 else limit) in
        Some \<lparr>q_head = None, q_tail = None, q_size = 0, q_limit = limit\<rparr>)"

definition is_empty :: "packet_queue option \<Rightarrow> bool" where
  "is_empty pQueue = (case pQueue of None \<Rightarrow> False | Some q \<Rightarrow> q_size q = 0)"

definition push ::
    "'a heap \<Rightarrow> packet_queue option \<Rightarrow> ptr \<Rightarrow> (bool \<times> 'a heap \<times> packet_queue option) option" where
  "push h pQueue item =
     (case (pQueue, item) of
        (Some q, Some a) \<Rightarrow>
          if q_size q \<ge> q_limit q then Some (False, h, pQueue)
          else do {
            n \<leftarrow> h a;
            let h = h(a \<mapsto> n\<lparr>nd_next := None\<rparr>);
            (h, q) \<leftarrow>
              (if q_size q = 0 then Some (h, q\<lparr>q_head := item, q_tail := item\<rparr>)
               else do {
                 t \<leftarrow> q_tail q;
                 nt \<leftarrow> h t;
                 Some (h(t \<mapsto> nt\<lparr>nd_next := item\<rparr>), q\<lparr>q_tail := item\<rparr>) });
            Some (True, h, Some (q\<lparr>q_size := q_size q + 1\<rparr>)) }
      | _ \<Rightarrow> Some (False, h, pQueue))"

definition pop :: "'a heap \<Rightarrow> packet_queue option \<Rightarrow> (ptr \<times> packet_queue option) option" where
  "pop h pQueue =
     (if is_empty pQueue then Some (None, pQueue)
      else do {
        q \<leftarrow> pQueue;
        a \<leftarrow> q_head q;
        n \<leftarrow> h a;
        Some (Some a, Some (q\<lparr>q_head := nd_next n, q_size := q_size q - 1\<rparr>)) })"

text \<open>The loop of \<^verbatim>\<open>destruct_queue\<close>; the queue record itself is then freed.\<close>

partial_function (option) destruct_queue :: "'a heap \<Rightarrow> packet_queue option \<Rightarrow> 'a heap option" where
  "destruct_queue h queue =
     (if is_empty queue then Some h
      else do {
        (pN, queue) \<leftarrow> pop h queue;
        destruct_queue (free_node h pN) queue })"

text \<open>\<^verbatim>\<open>print_queue\<close>: the packets it prints, in order.\<close>

definition print_queue :: "'a heap \<Rightarrow> packet_queue option \<Rightarrow> 'a list option" where
  "print_queue h queue = do {
     q \<leftarrow> queue;
     a \<leftarrow> q_head q;
     n \<leftarrow> h a;
     (out, n) \<leftarrow> cfor 1 (q_size q) (\<lambda>i (out, temp). do {
       b \<leftarrow> nd_next temp;
       temp \<leftarrow> h b;
       Some (out @ [nd_data temp], temp) }) ([nd_data n], n);
     Some out }"

section \<open>The queue of the VLC transmitter\<close>

text \<open>The same structure with the link called \<^verbatim>\<open>prev\<close>.\<close>

definition ConstructQueue :: "bool \<Rightarrow> int \<Rightarrow> packet_queue option" where
  "ConstructQueue malloc_ok limit =
     (if malloc_ok
      then Some \<lparr>q_head = None, q_tail = None, q_size = 0, q_limit = (if limit \<le> 0 then 65535 else limit)\<rparr>
      else None)"

definition isEmpty :: "packet_queue option \<Rightarrow> bool" where
  "isEmpty pQueue = (pQueue \<noteq> None \<and> q_size (the pQueue) = 0)"

definition Enqueue ::
    "'a heap \<Rightarrow> packet_queue option \<Rightarrow> ptr \<Rightarrow> (bool \<times> 'a heap \<times> packet_queue option) option" where
  "Enqueue h pQueue item =
     (if pQueue = None \<or> item = None then Some (False, h, pQueue)
      else do {
        q \<leftarrow> pQueue;
        a \<leftarrow> item;
        if q_size q \<ge> q_limit q then Some (False, h, pQueue)
        else do {
          n \<leftarrow> h a;
          let h = h(a \<mapsto> n\<lparr>nd_next := None\<rparr>);
          if q_size q = 0
          then Some (True, h, Some (q\<lparr>q_head := item, q_tail := item, q_size := q_size q + 1\<rparr>))
          else do {
            t \<leftarrow> q_tail q;
            nt \<leftarrow> h t;
            Some (True, h(t \<mapsto> nt\<lparr>nd_next := item\<rparr>), Some (q\<lparr>q_tail := item, q_size := q_size q + 1\<rparr>)) } } })"

definition Dequeue :: "'a heap \<Rightarrow> packet_queue option \<Rightarrow> (ptr \<times> packet_queue option) option" where
  "Dequeue h pQueue =
     (if isEmpty pQueue then Some (None, pQueue)
      else do {
        q \<leftarrow> pQueue;
        item \<leftarrow> q_head q;
        n \<leftarrow> h item;
        Some (Some item, Some (q\<lparr>q_head := nd_next n, q_size := q_size q - 1\<rparr>)) })"

partial_function (option) DestructQueue :: "'a heap \<Rightarrow> packet_queue option \<Rightarrow> 'a heap option" where
  "DestructQueue h queue =
     (if isEmpty queue then Some h
      else do {
        (pN, queue) \<leftarrow> Dequeue h queue;
        DestructQueue (free_node h pN) queue })"

section \<open>The list a queue stands for\<close>

text \<open>The addresses of the first \<open>n\<close> nodes from \<open>p\<close>, and the chain they must form.\<close>

fun walk :: "'a heap \<Rightarrow> ptr \<Rightarrow> nat \<Rightarrow> nat list" where
  "walk h p 0 = []"
| "walk h None (Suc n) = []"
| "walk h (Some a) (Suc n) = a # walk h (h a \<bind> nd_next) n"

fun chain :: "'a heap \<Rightarrow> ptr \<Rightarrow> nat list \<Rightarrow> bool" where
  "chain h p [] = (p = None)"
| "chain h p (a # as) = (p = Some a \<and> h a \<noteq> None \<and> chain h (h a \<bind> nd_next) as)"

definition q_addrs :: "'a heap \<times> packet_queue \<Rightarrow> nat list" where
  "q_addrs = (\<lambda>(h, q). walk h (q_head q) (nat (q_size q)))"

definition q_items :: "'a heap \<times> packet_queue \<Rightarrow> 'a list" where
  "q_items s = map (\<lambda>a. nd_data (the (fst s a))) (q_addrs s)"

definition queue_at :: "'a heap \<Rightarrow> packet_queue \<Rightarrow> nat list \<Rightarrow> bool" where
  "queue_at h q as \<longleftrightarrow> chain h (q_head q) as \<and> distinct as \<and> q_size q = int (length as)
     \<and> (as \<noteq> [] \<longrightarrow> q_tail q = Some (last as)) \<and> q_size q \<le> q_limit q \<and> 0 < q_limit q"

definition q_inv :: "'a heap \<times> packet_queue \<Rightarrow> bool" where
  "q_inv s \<longleftrightarrow> queue_at (fst s) (snd s) (q_addrs s)"

definition q_fresh :: "nat \<Rightarrow> 'a heap \<times> packet_queue \<Rightarrow> bool" where
  "q_fresh a s \<longleftrightarrow> fst s a \<noteq> None \<and> a \<notin> set (q_addrs s)"

lemma walk_chain: "chain h p as \<Longrightarrow> walk h p (length as) = as"
  by (induction as arbitrary: p) auto

lemma queue_at_addrs: "queue_at h q as \<Longrightarrow> q_addrs (h, q) = as"
  by (simp add: queue_at_def q_addrs_def walk_chain)

lemma q_invI: "queue_at h q as \<Longrightarrow> q_inv (h, q)"
  by (simp add: q_inv_def queue_at_addrs)

lemma chain_cong: "chain h p as \<Longrightarrow> (\<And>a. a \<in> set as \<Longrightarrow> h' a = h a) \<Longrightarrow> chain h' p as"
  by (induction as arbitrary: p) auto

lemma chain_nodes: "chain h p as \<Longrightarrow> a \<in> set as \<Longrightarrow> h a \<noteq> None"
  by (induction as arbitrary: p) auto

text \<open>Linking a fresh node after the last one.\<close>

lemma chain_snoc:
  assumes "chain h p as" and "distinct as" and "as \<noteq> []" and "a \<notin> set as"
    and "h' a \<noteq> None" "(h' a \<bind> nd_next) = None"
    and "h' (last as) \<noteq> None" "(h' (last as) \<bind> nd_next) = Some a"
    and "\<And>b. b \<in> set (butlast as) \<Longrightarrow> h' b = h b"
  shows "chain h' p (as @ [a])"
  using assms
proof (induction as arbitrary: p)
  case (Cons b as)
  show ?case
  proof (cases "as = []")
    case True
    with Cons.prems show ?thesis by simp
  next
    case False
    have "chain h' (h b \<bind> nd_next) (as @ [a])"
      using Cons.prems False by (intro Cons.IH) auto
    moreover have "h' b = h b" using Cons.prems(9) False by simp
    ultimately show ?thesis using Cons.prems(1) by simp
  qed
qed simp

lemma push_full: "q_size q \<ge> q_limit q \<Longrightarrow> push h (Some q) item = Some (False, h, Some q)"
  by (simp add: push_def split: option.split)

lemma push_ok:
  assumes at: "queue_at h q as" and room: "q_size q < q_limit q"
    and a: "h a = Some n" "a \<notin> set as"
  obtains h' q' where "push h (Some q) (Some a) = Some (True, h', Some q')"
    "queue_at h' q' (as @ [a])" "q_limit q' = q_limit q"
    "\<And>b. map_option nd_data (h' b) = map_option nd_data (h b)"
proof (cases "as = []")
  case True
  with at have "q_size q = 0" by (simp add: queue_at_def)
  with a room True show ?thesis
    by (intro that[of "h(a \<mapsto> n\<lparr>nd_next := None\<rparr>)"
          "q\<lparr>q_head := Some a, q_tail := Some a, q_size := q_size q + 1\<rparr>"])
       (auto simp: push_def queue_at_def)
next
  case False
  with at have t: "q_tail q = Some (last as)" "q_size q \<noteq> 0" "distinct as" "chain h (q_head q) as"
    by (auto simp: queue_at_def)
  obtain nt where nt: "h (last as) = Some nt"
    using chain_nodes[OF t(4), of "last as"] False by auto
  have "last as \<noteq> a" using a(2) False by auto
  moreover have "b \<noteq> last as \<and> b \<noteq> a" if "b \<in> set (butlast as)" for b
    using that t(3) a(2) False
    by (metis append_butlast_last_id distinct_append disjoint_iff in_set_butlastD list.set_intros(1))
  ultimately have "chain (h(a \<mapsto> n\<lparr>nd_next := None\<rparr>, last as \<mapsto> nt\<lparr>nd_next := Some a\<rparr>)) (q_head q) (as @ [a])"
    using a(2) t False by (intro chain_snoc[of h]) auto
  with \<open>last as \<noteq> a\<close> a room t nt at False show ?thesis
    by (intro that[of "h(a \<mapsto> n\<lparr>nd_next := None\<rparr>, last as \<mapsto> nt\<lparr>nd_next := Some a\<rparr>)"
          "q\<lparr>q_tail := Some a, q_size := q_size q + 1\<rparr>"])
       (auto simp: push_def queue_at_def)
qed

lemma pop_ok:
  assumes "queue_at h q (a # as)"
  shows "\<exists>q'. pop h (Some q) = Some (Some a, Some q') \<and> queue_at h q' as \<and> q_limit q' = q_limit q"
  using assms by (auto simp: pop_def is_empty_def queue_at_def)

lemma pop_empty: "queue_at h q [] \<Longrightarrow> pop h (Some q) = Some (None, Some q)"
  by (simp add: pop_def is_empty_def queue_at_def)

lemma construct_queue_at:
  "queue_at h (the (construct_queue True limit)) []"
  by (simp add: construct_queue_def queue_at_def)

text \<open>Destruction frees every node of the queue and nothing else.\<close>

lemma chain_free: "chain h p as \<Longrightarrow> b \<notin> set as \<Longrightarrow> chain (h(b := None)) p as"
  by (erule chain_cong) auto

lemma destruct_queue_frees:
  "queue_at h q as \<Longrightarrow> destruct_queue h (Some q) = Some (h |` (- set as))"
proof (induction as arbitrary: h q)
  case Nil
  then show ?case by (simp add: destruct_queue.simps is_empty_def queue_at_def restrict_map_def)
next
  case (Cons a as)
  then obtain q' where q': "pop h (Some q) = Some (Some a, Some q')" "queue_at h q' as"
    using pop_ok by blast
  moreover have "a \<notin> set as" using Cons.prems by (simp add: queue_at_def)
  ultimately have "queue_at (h(a := None)) q' as" by (simp add: queue_at_def chain_free)
  note ih = Cons.IH[OF this]
  have "h(a := None) |` (- set as) = h |` (- set (a # as))"
    by (rule ext) (simp add: restrict_map_def)
  with ih have "destruct_queue (free_node h (Some a)) (Some q') = Some (h |` (- set (a # as)))"
    by (simp only: free_node_def option.case)
  then show ?case
    using q'(1) Cons.prems by (subst destruct_queue.simps) (simp add: is_empty_def queue_at_def)
qed

lemma print_queue_items:
  assumes "queue_at h q as" and "as \<noteq> []"
  shows "print_queue h (Some q) = Some (map (\<lambda>a. nd_data (the (h a))) as)"
proof -
  let ?d = "\<lambda>a. nd_data (the (h a))"
  let ?f = "\<lambda>i :: int. \<lambda>(out, temp). do {
       b \<leftarrow> nd_next temp;
       temp \<leftarrow> h b;
       Some (out @ [nd_data temp], temp) }"
  have run: "\<exists>m. cfor i (i + int (length bs)) ?f (out, n) = Some (out @ map ?d bs, m)"
    if "chain h (nd_next n) bs" for i bs out n
    using that
  proof (induction bs arbitrary: i out n)
    case Nil
    then show ?case by (simp add: cfor_end)
  next
    case (Cons b bs)
    then obtain m where m: "h b = Some m" "nd_next n = Some b" "chain h (nd_next m) bs" by auto
    from Cons.IH[OF m(3), of "i + 1" "out @ [nd_data m]"]
    show ?case using m by (simp add: cfor_step add.assoc)
  qed
  obtain a bs where as: "as = a # bs" using assms(2) by (cases as) auto
  then obtain n where n: "h a = Some n" "q_head q = Some a" "chain h (nd_next n) bs"
    and sz: "q_size q = 1 + int (length bs)"
    using assms(1) by (auto simp: queue_at_def)
  from run[OF n(3), of 1 "[nd_data n]"] show ?thesis
    using n sz by (auto simp: print_queue_def as)
qed

lemma TX_queue_same:
  "ConstructQueue = construct_queue" "isEmpty = is_empty" "Enqueue = push" "Dequeue = pop"
  by (intro ext; simp add: ConstructQueue_def construct_queue_def isEmpty_def is_empty_def
        Enqueue_def push_def Dequeue_def pop_def Let_def split: option.split Option.bind_split)+

text \<open>Pushing a node that is already the last one makes the list a cycle: the node becomes its own
  successor. Nothing in \<^verbatim>\<open>push\<close> prevents it.\<close>

lemma push_twice_cycle:
  assumes "queue_at h q []" and "h a = Some n" and "2 \<le> q_limit q"
  shows "\<exists>h1 q1 h2 q2. push h (Some q) (Some a) = Some (True, h1, Some q1)
     \<and> push h1 (Some q1) (Some a) = Some (True, h2, Some q2)
     \<and> q_size q2 = 2 \<and> (h2 a \<bind> nd_next) = Some a"
  using assms by (auto simp: push_def queue_at_def)

section \<open>Bounded first-in-first-out queues\<close>

text \<open>\<open>enq p s\<close> stores the item behind the handle \<open>p\<close> unless the queue is full; \<open>deq s\<close> hands out
  the handle of the oldest item.\<close>

locale bounded_fifo =
  fixes inv :: "'s \<Rightarrow> bool"
    and items :: "'s \<Rightarrow> 'a list"
    and cap :: "'s \<Rightarrow> int"
    and fresh :: "'p \<Rightarrow> 's \<Rightarrow> bool"
    and val :: "'p \<Rightarrow> 's \<Rightarrow> 'a"
    and enq :: "'p \<Rightarrow> 's \<Rightarrow> (bool \<times> 's) option"
    and deq :: "'s \<Rightarrow> ('p option \<times> 's) option"
  assumes enq_ok: "inv s \<Longrightarrow> fresh p s \<Longrightarrow> int (length (items s)) < cap s \<Longrightarrow>
      \<exists>s'. enq p s = Some (True, s') \<and> inv s' \<and> items s' = items s @ [val p s] \<and> cap s' = cap s
        \<and> (\<forall>p'. p' \<noteq> p \<longrightarrow> fresh p' s \<longrightarrow> fresh p' s' \<and> val p' s' = val p' s)"
    and enq_full: "inv s \<Longrightarrow> cap s \<le> int (length (items s)) \<Longrightarrow> enq p s = Some (False, s)"
    and deq_ok: "inv s \<Longrightarrow> items s = x # xs \<Longrightarrow>
      \<exists>p s'. deq s = Some (Some p, s') \<and> inv s' \<and> items s' = xs \<and> cap s' = cap s
        \<and> fresh p s' \<and> val p s' = x"
    and deq_empty: "inv s \<Longrightarrow> items s = [] \<Longrightarrow> deq s = Some (None, s)"
    and bounded: "inv s \<Longrightarrow> int (length (items s)) \<le> cap s"

fun enq_all :: "('p \<Rightarrow> 's \<Rightarrow> (bool \<times> 's) option) \<Rightarrow> 'p list \<Rightarrow> 's \<Rightarrow> 's option" where
  "enq_all enq [] s = Some s"
| "enq_all enq (p # ps) s = do { (ok, s) \<leftarrow> enq p s; enq_all enq ps s }"

fun deq_n :: "('s \<Rightarrow> ('p option \<times> 's) option) \<Rightarrow> ('p \<Rightarrow> 's \<Rightarrow> 'a) \<Rightarrow> nat \<Rightarrow> 's \<Rightarrow> ('a list \<times> 's) option" where
  "deq_n deq val 0 s = Some ([], s)"
| "deq_n deq val (Suc n) s = do {
     (p, s) \<leftarrow> deq s;
     (case p of
        None \<Rightarrow> Some ([], s)
      | Some p \<Rightarrow> do { (xs, s') \<leftarrow> deq_n deq val n s; Some (val p s # xs, s') }) }"

context bounded_fifo
begin

text \<open>A batch is stored in order as far as it fits, and the rest of it is refused.\<close>

lemma enq_all_items:
  assumes "inv s" and "distinct ps" and "\<And>p. p \<in> set ps \<Longrightarrow> fresh p s"
  shows "\<exists>s'. enq_all enq ps s = Some s' \<and> inv s' \<and> cap s' = cap s
    \<and> items s' = items s @ take (nat (cap s) - length (items s)) (map (\<lambda>p. val p s) ps)"
  using assms
proof (induction ps arbitrary: s)
  case (Cons p ps)
  show ?case
  proof (cases "int (length (items s)) < cap s")
    case True
    with enq_ok[of s p] Cons.prems obtain s1 where s1: "enq p s = Some (True, s1)" "inv s1"
      "items s1 = items s @ [val p s]" "cap s1 = cap s"
      and fr: "\<forall>p'. p' \<noteq> p \<longrightarrow> fresh p' s \<longrightarrow> fresh p' s1 \<and> val p' s1 = val p' s" by auto
    have keep: "fresh p' s1 \<and> val p' s1 = val p' s" if "p' \<in> set ps" for p'
      using fr that Cons.prems(2) Cons.prems(3)[of p'] by auto
    have k: "nat (cap s) - length (items s) = Suc (nat (cap s) - length (items s1))"
      using True s1(3) by simp
    have "\<exists>s'. enq_all enq ps s1 = Some s' \<and> inv s' \<and> cap s' = cap s1
        \<and> items s' = items s1 @ take (nat (cap s1) - length (items s1)) (map (\<lambda>p. val p s1) ps)"
      using Cons.prems keep s1(2) by (intro Cons.IH) auto
    moreover have "map (\<lambda>p. val p s1) ps = map (\<lambda>p. val p s) ps" using keep by simp
    ultimately show ?thesis using s1 unfolding k by simp
  next
    case False
    then have "enq p s = Some (False, s)" using enq_full Cons.prems(1) by simp
    moreover have "\<exists>s'. enq_all enq ps s = Some s' \<and> inv s' \<and> cap s' = cap s
        \<and> items s' = items s @ take (nat (cap s) - length (items s)) (map (\<lambda>p. val p s) ps)"
      using Cons.prems by (intro Cons.IH) auto
    moreover have "nat (cap s) - length (items s) = 0" using False by simp
    ultimately show ?thesis by simp
  qed
qed simp

lemma deq_n_items:
  "inv s \<Longrightarrow> \<exists>s'. deq_n deq val n s = Some (take n (items s), s') \<and> inv s' \<and> items s' = drop n (items s)"
proof (induction n arbitrary: s)
  case (Suc n)
  show ?case
  proof (cases "items s")
    case Nil
    then show ?thesis using deq_empty[OF Suc.prems] Suc.prems by simp
  next
    case (Cons x xs)
    from deq_ok[OF Suc.prems Cons] obtain p s1 where
      "deq s = Some (Some p, s1)" "inv s1" "items s1 = xs" "val p s1 = x" by blast
    with Suc.IH[of s1] Cons show ?thesis by auto
  qed
qed simp

text \<open>First in, first out.\<close>

lemma fifo_order:
  assumes "inv s" and "items s = []" and "distinct ps" and "\<And>p. p \<in> set ps \<Longrightarrow> fresh p s"
    and "int (length ps) \<le> cap s"
  shows "\<exists>s1 s2. enq_all enq ps s = Some s1 \<and> deq_n deq val (length ps) s1 = Some (map (\<lambda>p. val p s) ps, s2)
    \<and> items s2 = []"
proof -
  from enq_all_items[OF assms(1,3,4)] obtain s1 where s1: "enq_all enq ps s = Some s1" "inv s1"
    "items s1 = take (nat (cap s)) (map (\<lambda>p. val p s) ps)" using assms(2) by auto
  then have "items s1 = map (\<lambda>p. val p s) ps" using assms(5) by simp
  with deq_n_items[OF s1(2), of "length ps"] s1(1) show ?thesis by auto
qed

end

text \<open>A queue that stores a copy of what it is given: the same item may be enqueued again and again.\<close>

locale by_value_fifo = bounded_fifo +
  assumes reusable: "inv s \<Longrightarrow> fresh p s \<Longrightarrow> enq p s = Some (True, s') \<Longrightarrow> fresh p s' \<and> val p s' = val p s"
begin

lemma enq_all_values:
  assumes "inv s" and "\<And>p. p \<in> set ps \<Longrightarrow> fresh p s" and "int (length (items s) + length ps) \<le> cap s"
  shows "\<exists>s'. enq_all enq ps s = Some s' \<and> inv s' \<and> cap s' = cap s
    \<and> items s' = items s @ map (\<lambda>p. val p s) ps"
  using assms
proof (induction ps arbitrary: s)
  case (Cons p ps)
  with enq_ok[of s p] obtain s1 where s1: "enq p s = Some (True, s1)" "inv s1"
    "items s1 = items s @ [val p s]" "cap s1 = cap s"
    and fr: "\<forall>p'. p' \<noteq> p \<longrightarrow> fresh p' s \<longrightarrow> fresh p' s1 \<and> val p' s1 = val p' s" by auto
  have keep: "fresh p' s1 \<and> val p' s1 = val p' s" if "p' \<in> set ps" for p'
    using that fr Cons.prems reusable[OF Cons.prems(1) _ s1(1)] by (cases "p' = p") auto
  have "\<exists>s'. enq_all enq ps s1 = Some s' \<and> inv s' \<and> cap s' = cap s1
      \<and> items s' = items s1 @ map (\<lambda>p. val p s1) ps"
    using keep s1(2-4) Cons.prems(3) by (intro Cons.IH) auto
  moreover have "map (\<lambda>p. val p s1) ps = map (\<lambda>p. val p s) ps" using keep by simp
  ultimately show ?case using s1 by simp
qed simp

lemma fifo_values:
  assumes "inv s" and "items s = []" and "\<And>p. p \<in> set ps \<Longrightarrow> fresh p s" and "int (length ps) \<le> cap s"
  shows "\<exists>s1 s2. enq_all enq ps s = Some s1 \<and> deq_n deq val (length ps) s1 = Some (map (\<lambda>p. val p s) ps, s2)
    \<and> inv s2 \<and> items s2 = []"
proof -
  from enq_all_values[OF assms(1,3)] assms(2,4) obtain s1 where
    s1: "enq_all enq ps s = Some s1" "inv s1" "items s1 = map (\<lambda>p. val p s) ps" by auto
  with deq_n_items[OF s1(2), of "length ps"] show ?thesis by auto
qed

end

section \<open>The linked lists are bounded first-in-first-out queues\<close>

definition push_op :: "nat \<Rightarrow> 'a heap \<times> packet_queue \<Rightarrow> (bool \<times> 'a heap \<times> packet_queue) option" where
  "push_op a = (\<lambda>(h, q). do { (ok, h, pq) \<leftarrow> push h (Some q) (Some a); q \<leftarrow> pq; Some (ok, h, q) })"

definition pop_op :: "'a heap \<times> packet_queue \<Rightarrow> (ptr \<times> 'a heap \<times> packet_queue) option" where
  "pop_op = (\<lambda>(h, q). do { (p, pq) \<leftarrow> pop h (Some q); q \<leftarrow> pq; Some (p, h, q) })"

definition Enqueue_op :: "nat \<Rightarrow> 'a heap \<times> packet_queue \<Rightarrow> (bool \<times> 'a heap \<times> packet_queue) option" where
  "Enqueue_op a = (\<lambda>(h, q). do { (ok, h, pq) \<leftarrow> Enqueue h (Some q) (Some a); q \<leftarrow> pq; Some (ok, h, q) })"

definition Dequeue_op :: "'a heap \<times> packet_queue \<Rightarrow> (ptr \<times> 'a heap \<times> packet_queue) option" where
  "Dequeue_op = (\<lambda>(h, q). do { (p, pq) \<leftarrow> Dequeue h (Some q); q \<leftarrow> pq; Some (p, h, q) })"

definition node_val :: "nat \<Rightarrow> 'a heap \<times> packet_queue \<Rightarrow> 'a" where
  "node_val a s = nd_data (the (fst s a))"

definition q_cap :: "'a heap \<times> packet_queue \<Rightarrow> int" where
  "q_cap s = q_limit (snd s)"

lemma length_q_items: "q_inv s \<Longrightarrow> int (length (q_items s)) = q_size (snd s)"
  by (cases s) (simp add: q_inv_def q_items_def queue_at_def)

lemma TX_ops_same: "Enqueue_op = push_op" "Dequeue_op = pop_op"
  by (simp_all add: fun_eq_iff Enqueue_op_def push_op_def Dequeue_op_def pop_op_def TX_queue_same)

lemma push_op_ok:
  assumes inv: "q_inv s" and fr: "q_fresh a s" and room: "int (length (q_items s)) < q_cap s"
  shows "\<exists>s'. push_op a s = Some (True, s') \<and> q_inv s' \<and> q_items s' = q_items s @ [node_val a s]
      \<and> q_cap s' = q_cap s
      \<and> (\<forall>b. b \<noteq> a \<longrightarrow> q_fresh b s \<longrightarrow> q_fresh b s' \<and> node_val b s' = node_val b s)"
proof -
  obtain h q where s: "s = (h, q)" by (cases s)
  let ?as = "q_addrs (h, q)"
  have at: "queue_at h q ?as" using inv by (simp add: s q_inv_def)
  obtain n where a: "h a = Some n" "a \<notin> set ?as" using fr by (auto simp: s q_fresh_def)
  have "q_size q < q_limit q" using room length_q_items[OF inv] by (simp add: s q_cap_def)
  from push_ok[OF at this a] obtain h' q' where p: "push h (Some q) (Some a) = Some (True, h', Some q')"
    "queue_at h' q' (?as @ [a])" "q_limit q' = q_limit q"
    and d: "\<And>b. map_option nd_data (h' b) = map_option nd_data (h b)" by metis
  have v: "nd_data (the (h' b)) = nd_data (the (h b))" if "h b \<noteq> None" for b
    using d[of b] that by (cases "h' b") auto
  have al: "h' b \<noteq> None \<longleftrightarrow> h b \<noteq> None" for b
    using d[of b] by (cases "h' b"; cases "h b") auto
  have "\<forall>b\<in>set ?as. h b \<noteq> None" using at chain_nodes by (auto simp: queue_at_def)
  then have "q_items (h', q') = q_items (h, q) @ [nd_data (the (h a))]"
    using v a(1) by (simp add: q_items_def queue_at_addrs[OF p(2)])
  then show ?thesis
    using p v al q_invI[OF p(2)]
    by (auto simp: s push_op_def q_cap_def node_val_def q_fresh_def queue_at_addrs[OF p(2)])
qed

lemma pop_op_ok:
  assumes inv: "q_inv s" and it: "q_items s = x # xs"
  shows "\<exists>p s'. pop_op s = Some (Some p, s') \<and> q_inv s' \<and> q_items s' = xs \<and> q_cap s' = q_cap s
      \<and> q_fresh p s' \<and> node_val p s' = x"
proof -
  obtain h q where s: "s = (h, q)" by (cases s)
  obtain a as where as: "q_addrs (h, q) = a # as"
    using it by (cases "q_addrs (h, q)") (auto simp: s q_items_def)
  have at: "queue_at h q (a # as)" using inv as by (simp add: s q_inv_def)
  from pop_ok[OF at] obtain q' where q': "pop h (Some q) = Some (Some a, Some q')"
    "queue_at h q' as" "q_limit q' = q_limit q" by blast
  have "h a \<noteq> None" "a \<notin> set as" using at by (auto simp: queue_at_def)
  then show ?thesis
    using q' it as q_invI[OF q'(2)]
    by (auto simp: s pop_op_def q_items_def q_cap_def q_fresh_def node_val_def queue_at_addrs[OF q'(2)])
qed

interpretation gq: bounded_fifo q_inv q_items q_cap q_fresh node_val push_op pop_op
proof
  show "push_op p s = Some (False, s)" if "q_inv s" "q_cap s \<le> int (length (q_items s))" for s p
    using that length_q_items[of s] by (cases s) (simp add: push_op_def q_cap_def push_full)
  show "pop_op s = Some (None, s)" if "q_inv s" "q_items s = []" for s
    using that by (cases s) (simp add: pop_op_def q_inv_def q_items_def pop_empty)
  show "int (length (q_items s)) \<le> q_cap s" if "q_inv s" for s
    using that length_q_items[OF that] by (simp add: q_cap_def q_inv_def queue_at_def)
qed (blast intro: push_op_ok pop_op_ok)+

interpretation tq: bounded_fifo q_inv q_items q_cap q_fresh node_val Enqueue_op Dequeue_op
  unfolding TX_ops_same by (rule gq.bounded_fifo_axioms)

section \<open>The list-valued queue\<close>

text \<open>The other components keep their queues as lists with a limit; a popped node is the packet it
  holds. The lemmas \<open>push_refines\<close> and \<open>pop_refines\<close> justify this for the linked lists.\<close>

record 'a fifo =
  fq_items :: "'a list"
  fq_limit :: int

definition fq_new :: "int \<Rightarrow> 'a fifo" where
  "fq_new limit = \<lparr>fq_items = [], fq_limit = (if limit \<le> 0 then 65535 else limit)\<rparr>"

definition fq_empty :: "'a fifo \<Rightarrow> bool" where
  "fq_empty q \<longleftrightarrow> fq_items q = []"

definition fq_push :: "'a \<Rightarrow> 'a fifo \<Rightarrow> bool \<times> 'a fifo" where
  "fq_push x q =
     (if int (length (fq_items q)) \<ge> fq_limit q then (False, q)
      else (True, q\<lparr>fq_items := fq_items q @ [x]\<rparr>))"

definition fq_pop :: "'a fifo \<Rightarrow> 'a option \<times> 'a fifo" where
  "fq_pop q = (case fq_items q of [] \<Rightarrow> (None, q) | x # xs \<Rightarrow> (Some x, q\<lparr>fq_items := xs\<rparr>))"

definition fq_ok :: "'a fifo \<Rightarrow> bool" where
  "fq_ok q \<longleftrightarrow> int (length (fq_items q)) \<le> fq_limit q"

interpretation lq: by_value_fifo fq_ok fq_items fq_limit "\<lambda>_ _. True" "\<lambda>x _. x"
    "\<lambda>x q. Some (fq_push x q)" "\<lambda>q. Some (fq_pop q)"
  by unfold_locales (auto simp: fq_ok_def fq_push_def fq_pop_def)

definition q_abs :: "'a heap \<times> packet_queue \<Rightarrow> 'a fifo" where
  "q_abs s = \<lparr>fq_items = q_items s, fq_limit = q_cap s\<rparr>"

lemma push_refines:
  assumes "q_inv s" and "q_fresh a s"
  shows "\<exists>s'. push_op a s = Some (fst (fq_push (node_val a s) (q_abs s)), s')
    \<and> q_inv s' \<and> q_abs s' = snd (fq_push (node_val a s) (q_abs s))"
proof (cases "int (length (q_items s)) < q_cap s")
  case True
  from push_op_ok[OF assms True] True show ?thesis by (auto simp: fq_push_def q_abs_def)
next
  case False
  with gq.enq_full[OF assms(1), of a] assms(1) show ?thesis by (auto simp: fq_push_def q_abs_def)
qed

lemma pop_refines:
  assumes "q_inv s"
  shows "\<exists>p s'. pop_op s = Some (p, s') \<and> q_inv s' \<and> q_abs s' = snd (fq_pop (q_abs s))
    \<and> map_option (\<lambda>a. node_val a s') p = fst (fq_pop (q_abs s))
    \<and> (\<forall>a. p = Some a \<longrightarrow> q_fresh a s')"
proof (cases "q_items s")
  case Nil
  with gq.deq_empty[OF assms] assms show ?thesis by (auto simp: fq_pop_def q_abs_def)
next
  case (Cons x xs)
  from pop_op_ok[OF assms Cons] Cons show ?thesis by (fastforce simp: fq_pop_def q_abs_def)
qed

lemma fq_ok_new [simp]: "fq_ok (fq_new limit)"
  by (simp add: fq_ok_def fq_new_def)

lemma fq_ok_push [simp]: "fq_ok q \<Longrightarrow> fq_ok (snd (fq_push x q))"
  by (auto simp: fq_ok_def fq_push_def)

lemma fq_ok_pop [simp]: "fq_ok q \<Longrightarrow> fq_ok (snd (fq_pop q))"
  by (auto simp: fq_ok_def fq_pop_def split: list.split)

lemma fq_pop_ok: "fq_pop q = (x, q') \<Longrightarrow> fq_ok q \<Longrightarrow> fq_ok q'"
  using fq_ok_pop[of q] by simp

lemma fq_push_ok: "fq_push x q = (ok, q') \<Longrightarrow> fq_ok q \<Longrightarrow> fq_ok q'"
  using fq_ok_push[of q x] by simp

lemma fq_limit_push [simp]: "fq_limit (snd (fq_push x q)) = fq_limit q"
  by (simp add: fq_push_def)

lemma fq_limit_pop [simp]: "fq_limit (snd (fq_pop q)) = fq_limit q"
  by (simp add: fq_pop_def split: list.split)

end
