(* ===== verification/Packets.thy ===== *)
theory Packets
  imports CPrelude
begin

text \<open>
  The packets and the frames that carry them: the structures of \<^verbatim>\<open>gateway_packet.c\<close> and
  \<^verbatim>\<open>node_packet.c\<close>, the frame builders of the gateway (\<^verbatim>\<open>transmit_packet_rf\<close>,
  \<^verbatim>\<open>transmit_packet_vlc\<close>), of the VLC transmitter (\<^verbatim>\<open>transmit_to_vlc\<close>, the queue report of
  \<^verbatim>\<open>send_queue_report\<close>), the parsers at the other end, and the address filters. A frame buffer is
  a list of \<^verbatim>\<open>BUF_SIZ\<close> bytes; a write or read outside it is \<open>None\<close>. Sending is a parameter that
  gives the result of \<^verbatim>\<open>sendto\<close> for the bytes handed to it.
\<close>

unbundle bit_operations_syntax

section \<open>Structures\<close>

record gateway_packet =
  gp_node_id :: u16
  gp_vlc_id :: u16
  gp_payload_len :: u16
  gp_seq_number :: u32
  gp_data :: "u8 list"

record node_packet =
  np_node_id :: u16
  np_vlc_id :: u16
  np_payload_len :: u16
  np_seq_number :: u32
  np_data :: "u8 list"

definition generate_gateway_packet :: "u16 \<Rightarrow> u16 \<Rightarrow> u16 \<Rightarrow> u32 \<Rightarrow> u8 list \<Rightarrow> gateway_packet" where
  "generate_gateway_packet node_id vlc_id payload_len seq_number data =
     \<lparr>gp_node_id = node_id, gp_vlc_id = vlc_id, gp_payload_len = payload_len,
      gp_seq_number = seq_number, gp_data = data\<rparr>"

definition generate_node_packet :: "u16 \<Rightarrow> u16 \<Rightarrow> u16 \<Rightarrow> u32 \<Rightarrow> u8 list \<Rightarrow> node_packet" where
  "generate_node_packet node_id vlc_id payload_len seq_number data =
     \<lparr>np_node_id = node_id, np_vlc_id = vlc_id, np_payload_len = payload_len,
      np_seq_number = seq_number, np_data = data\<rparr>"

definition BUF_SIZ :: int where "BUF_SIZ = 1024"

definition ETHER_HDR :: int where "ETHER_HDR = 14"

text \<open>Destination, source and type of an Ethernet header; \<^verbatim>\<open>htons(ETH_P_ALL)\<close> is \<open>[0, 3]\<close>.\<close>

definition ETH_P_ALL_be :: "u8 list" where "ETH_P_ALL_be = [0, 3]"

definition RF_MAC :: "u8 list" where "RF_MAC = [0x18, 0xa6, 0xf7, 0x1a, 0xa9, 0x04]"
definition MY_MAC :: "u8 list" where "MY_MAC = [0xa0, 0xf6, 0xfd, 0x64, 0xaf, 0xfc]"
definition VLC_MAC :: "u8 list" where "VLC_MAC = [0xb0, 0xd5, 0xcc, 0xfc, 0xfe, 0x85]"
definition NODE_MAC :: "u8 list" where "NODE_MAC = [0xec, 0x08, 0x6b, 0x13, 0x1e, 0x5c]"

lemmas mac_defs = RF_MAC_def MY_MAC_def VLC_MAC_def NODE_MAC_def

text \<open>What \<^verbatim>\<open>memset\<close> and the assignments to the header fields leave in a send buffer.\<close>

definition eth_header :: "u8 list \<Rightarrow> u8 list \<Rightarrow> u8 list option" where
  "eth_header shost dhost = do {
     src \<leftarrow> cget shost 0 6;
     buf \<leftarrow> cput (replicate (nat BUF_SIZ) 0) 6 src;
     buf \<leftarrow> cput buf 0 dhost;
     cput buf 12 ETH_P_ALL_be }"

definition ether_shost :: "u8 list \<Rightarrow> u8 list" where "ether_shost buf = take 6 (drop 6 buf)"
definition ether_dhost :: "u8 list \<Rightarrow> u8 list" where "ether_dhost buf = take 6 buf"

section \<open>The gateway sends\<close>

definition transmit_packet_rf ::
    "(u8 list \<Rightarrow> int) \<Rightarrow> u8 list \<Rightarrow> gateway_packet \<Rightarrow> (int \<times> u8 list) option" where
  "transmit_packet_rf sendto rf_if_mac data =
    (let vlc_id = 0 :: u16; tx_len = ETHER_HDR in do {
       sendbuf \<leftarrow> eth_header rf_if_mac NODE_MAC;
       sendbuf \<leftarrow> cput sendbuf tx_len (le16 (gp_node_id data));
       let tx_len = tx_len + 2;
       sendbuf \<leftarrow> cput sendbuf tx_len (le16 vlc_id);
       let tx_len = tx_len + 2;
       sendbuf \<leftarrow> cput sendbuf tx_len (le16 (gp_payload_len data));
       let tx_len = tx_len + 2;
       sendbuf \<leftarrow> cput sendbuf tx_len (le32 (gp_seq_number data));
       let tx_len = tx_len + 4;
       (sendbuf, tx_len) \<leftarrow> cfor 0 (uint (gp_payload_len data)) (\<lambda>i (sendbuf, tx_len). do {
         b \<leftarrow> ard (gp_data data) i;
         sendbuf \<leftarrow> awr sendbuf tx_len b;
         Some (sendbuf, tx_len + 1) }) (sendbuf, tx_len);
       let frame = take (nat tx_len) sendbuf;
       Some (sendto frame, frame) })"

definition transmit_packet_vlc ::
    "(u8 list \<Rightarrow> int) \<Rightarrow> u8 list \<Rightarrow> gateway_packet \<Rightarrow> (int \<times> u8 list) option" where
  "transmit_packet_vlc sendto eth_if_mac content =
    (let vlc_id = uint (gp_vlc_id content); tx_len = ETHER_HDR in do {
       sendbuf \<leftarrow> eth_header eth_if_mac VLC_MAC;
       let vlc_id = vlc_id + 1;
       sendbuf \<leftarrow> cput sendbuf tx_len (le16 (gp_node_id content));
       let tx_len = tx_len + 2;
       sendbuf \<leftarrow> cput sendbuf tx_len (take 2 (le_int vlc_id));
       let tx_len = tx_len + 2;
       sendbuf \<leftarrow> cput sendbuf tx_len (le16 (gp_payload_len content));
       let tx_len = tx_len + 2;
       sendbuf \<leftarrow> cput sendbuf tx_len (le32 (gp_seq_number content));
       let tx_len = tx_len + 4;
       (sendbuf, tx_len) \<leftarrow> cfor 0 (uint (gp_payload_len content)) (\<lambda>i (sendbuf, tx_len). do {
         b \<leftarrow> ard (gp_data content) i;
         sendbuf \<leftarrow> awr sendbuf tx_len b;
         Some (sendbuf, tx_len + 1) }) (sendbuf, tx_len);
       let frame = take (nat tx_len) sendbuf;
       Some (sendto frame, frame) })"

section \<open>Address tables and filters\<close>

text \<open>The address tables are filled at index 0 and at index 1; \<open>n\<close> is the number of entries the block from \<^verbatim>\<open>malloc\<close> has room
  for. The programs ask for one entry (\<^verbatim>\<open>N_NODE\<close>, \<^verbatim>\<open>N_VLC\<close>), so the second write is a fault, unless the allocator
  has rounded the block up.\<close>

definition setup_node_address :: "nat \<Rightarrow> u8 list list option" where
  "setup_node_address n = do {
     t \<leftarrow> awr (replicate n []) 0 [0xec, 0x08, 0x6b, 0x13, 0x1e, 0x5c];
     awr t 1 [0xec, 0x08, 0x6b, 0x13, 0x1e, 0x5c] }"

definition setup_vlc_address :: "nat \<Rightarrow> u8 list list option" where
  "setup_vlc_address n = do {
     t \<leftarrow> awr (replicate n []) 0 [0xb0, 0xd5, 0xcc, 0xfc, 0xfe, 0x85];
     awr t 1 [0xb0, 0xd5, 0xcc, 0xff, 0x7b, 0xef] }"

lemma setup_tables:
  "setup_node_address n = (if n < 2 then None else Some (NODE_MAC # NODE_MAC # replicate (n - 2) []))"
  "setup_vlc_address n = (if n < 2 then None
     else Some (VLC_MAC # [0xb0, 0xd5, 0xcc, 0xff, 0x7b, 0xef] # replicate (n - 2) []))"
proof -
  consider "n < 2" | k where "n = Suc (Suc k)" by (metis add_2_eq_Suc le_Suc_ex not_le)
  then show "setup_node_address n = (if n < 2 then None else Some (NODE_MAC # NODE_MAC # replicate (n - 2) []))"
    "setup_vlc_address n = (if n < 2 then None
     else Some (VLC_MAC # [0xb0, 0xd5, 0xcc, 0xff, 0x7b, 0xef] # replicate (n - 2) []))"
    by (cases; auto simp: setup_node_address_def setup_vlc_address_def awr_def NODE_MAC_def VLC_MAC_def
        split: Option.bind_splits if_splits)+
qed

definition is_from_node :: "int \<Rightarrow> u8 list list \<Rightarrow> u8 list \<Rightarrow> bool option" where
  "is_from_node n_node node_addresses eh =
     cforb 0 n_node (\<lambda>i _. do {
       addr \<leftarrow> ard node_addresses i;
       let is_node = (ether_shost eh = addr \<and> ether_dhost eh = RF_MAC);
       Some (is_node, is_node) }) False"

definition is_vlc_tx_address :: "int \<Rightarrow> u8 list list \<Rightarrow> u8 list \<Rightarrow> bool option" where
  "is_vlc_tx_address n_vlc vlc_addresses eh =
     cforb 0 n_vlc (\<lambda>i _. do {
       addr \<leftarrow> ard vlc_addresses 0;
       let is_valid_vlc_address = (ether_shost eh = addr \<and> ether_dhost eh = MY_MAC);
       Some (is_valid_vlc_address, is_valid_vlc_address) }) False"

definition is_from_gateway :: "u8 list \<Rightarrow> bool" where
  "is_from_gateway eh \<longleftrightarrow>
     ether_shost eh = [0x18, 0xa6, 0xf7, 0x1a, 0xa9, 0x04]
     \<and> ether_dhost eh = [0xec, 0x08, 0x6b, 0x13, 0x1e, 0x5c]"

definition is_for_this_tx :: "u8 list \<Rightarrow> bool" where
  "is_for_this_tx eh \<longleftrightarrow>
     ether_shost eh = [0xa0, 0xf6, 0xfd, 0x64, 0xaf, 0xfc]
     \<and> ether_dhost eh = [0xb0, 0xd5, 0xcc, 0xfc, 0xfe, 0x85]"

section \<open>Receiving\<close>

text \<open>\<^verbatim>\<open>recvfrom\<close> into a buffer that keeps its old bytes behind the received ones; \<open>None\<close> is an error.\<close>

definition recvfrom :: "u8 list option \<Rightarrow> u8 list \<Rightarrow> int \<times> u8 list" where
  "recvfrom rx buf =
     (case rx of
        None \<Rightarrow> (- 1, buf)
      | Some bs \<Rightarrow> let n = min (length bs) (length buf) in (int n, take n bs @ drop n buf))"

text \<open>The VLC transmitter rebuilds the packet from the bytes behind the header.\<close>

definition generate_gateway_packet_from_bytes :: "u8 list \<Rightarrow> gateway_packet option" where
  "generate_gateway_packet_from_bytes buff = do {
     let idx = 0;
     node_id \<leftarrow> rd16 buff idx;
     let idx = idx + 2;
     vlc_id \<leftarrow> rd16 buff idx;
     let idx = idx + 2;
     payload_len \<leftarrow> rd16 buff idx;
     let idx = idx + 2;
     seq_number \<leftarrow> rd32 buff idx;
     let idx = idx + 4;
     (data, idx) \<leftarrow> cfor 0 (uint payload_len) (\<lambda>i (data, idx). do {
       b \<leftarrow> ard buff idx;
       data \<leftarrow> awr data i b;
       Some (data, idx + 1) }) (replicate (unat payload_len) 0, idx);
     Some (generate_gateway_packet node_id vlc_id payload_len seq_number data) }"

text \<open>The node's reading of an RF frame: the part of \<^verbatim>\<open>receive_rf\<close> behind the filter.\<close>

definition rf_arrived_packet :: "u8 list \<Rightarrow> node_packet option" where
  "rf_arrived_packet report_content = do {
     let idx = 0;
     node_id \<leftarrow> rd16 report_content idx;
     let idx = idx + 2;
     vlc_id \<leftarrow> rd16 report_content idx;
     let idx = idx + 2;
     payload_len \<leftarrow> rd16 report_content idx;
     let idx = idx + 2;
     seq_number \<leftarrow> rd32 report_content idx;
     let idx = idx + 4;
     (data, idx) \<leftarrow> cfor 0 (uint payload_len) (\<lambda>i (data, idx). do {
       b \<leftarrow> ard report_content idx;
       data \<leftarrow> awr data i b;
       Some (data, idx + 1) }) (replicate (unat payload_len) 0, idx);
     Some \<lparr>np_node_id = node_id, np_vlc_id = vlc_id, np_payload_len = payload_len,
       np_seq_number = seq_number, np_data = data\<rparr> }"

text \<open>The node's reading of a VLC frame, whose length comes first.\<close>

definition generate_from_bytes :: "u8 list \<Rightarrow> node_packet option" where
  "generate_from_bytes buff = do {
     b1 \<leftarrow> ard buff 1; b0 \<leftarrow> ard buff 0;
     let payload_len = (push_bit 8 (ucast b1) + ucast b0 :: u16);
     b3 \<leftarrow> ard buff 3; b2 \<leftarrow> ard buff 2;
     let node_id = (push_bit 8 (ucast b3) + ucast b2 :: u16);
     b5 \<leftarrow> ard buff 5; b4 \<leftarrow> ard buff 4;
     let vlc_id = (push_bit 8 (ucast b5) + ucast b4 :: u16);
     let idx = 6;
     seq_number \<leftarrow> rd32 buff idx;
     let idx = idx + 4;
     data \<leftarrow> cget buff idx (uint payload_len);
     Some (generate_node_packet node_id vlc_id payload_len seq_number data) }"

section \<open>The VLC transmitter sends\<close>

text \<open>What \<^verbatim>\<open>transmit_to_vlc\<close> writes into the global \<^verbatim>\<open>vlc_buff\<close>, with the number of bytes, and the whole function, which
  hands them to \<^verbatim>\<open>write\<close>. The loop \<^verbatim>\<open>while (write(...) < 0)\<close> repeats the same call until it succeeds: \<open>tries\<close> are the
  results of the successive calls, and running out of them is \<open>None\<close>.\<close>

fun write_until :: "int list \<Rightarrow> int option" where
  "write_until [] = None"
| "write_until (n # tries) = (if n < 0 then write_until tries else Some 1)"

definition fill_vlc_buff :: "u8 list \<Rightarrow> gateway_packet \<Rightarrow> (u8 list \<times> int) option" where
  "fill_vlc_buff vlc_buff packet = do {
     let len = 0;
     vlc_buff \<leftarrow> cput vlc_buff len (le16 (gp_payload_len packet));
     let len = len + 2;
     vlc_buff \<leftarrow> cput vlc_buff len (le16 (gp_node_id packet));
     let len = len + 2;
     vlc_buff \<leftarrow> cput vlc_buff len (le16 (gp_vlc_id packet));
     let len = len + 2;
     vlc_buff \<leftarrow> cput vlc_buff len (le32 (gp_seq_number packet));
     let len = len + 4;
     cfor 0 (uint (gp_payload_len packet)) (\<lambda>i (vlc_buff, len). do {
       b \<leftarrow> ard (gp_data packet) i;
       vlc_buff \<leftarrow> awr vlc_buff len b;
       Some (vlc_buff, len + 1) }) (vlc_buff, len) }"

definition transmit_to_vlc ::
    "int list \<Rightarrow> u8 list \<Rightarrow> gateway_packet \<Rightarrow> (int \<times> u8 list \<times> u8 list) option" where
  "transmit_to_vlc tries vlc_buff packet = do {
     (vlc_buff, len) \<leftarrow> fill_vlc_buff vlc_buff packet;
     ret \<leftarrow> write_until tries;
     Some (ret, vlc_buff, take (nat len) vlc_buff) }"

text \<open>The report of the queue length, and the gateway's reading of it (identifier and length).\<close>

definition send_queue_report :: "u8 list \<Rightarrow> int \<Rightarrow> u8 list option" where
  "send_queue_report eth_if_mac queue_size = do {
     sendbuf \<leftarrow> eth_header eth_if_mac MY_MAC;
     let tx_len = ETHER_HDR;
     sendbuf \<leftarrow> awr sendbuf tx_len (1 AND 0xff);
     let tx_len = tx_len + 1;
     sendbuf \<leftarrow> cput sendbuf tx_len (le_int queue_size);
     let tx_len = tx_len + 4;
     Some (take (nat tx_len) sendbuf) }"

section \<open>The bytes of a frame\<close>

lemma eth_header_bytes:
  assumes "6 \<le> length mac" and "length dhost = 6"
  shows "eth_header mac dhost = Some (dhost @ take 6 mac @ ETH_P_ALL_be @ replicate 1010 0)"
proof -
  have "replicate (nat BUF_SIZ) 0 = replicate 6 (0 :: u8) @ replicate 1018 0"
    by (simp add: BUF_SIZ_def replicate_add[symmetric])
  moreover have "replicate 6 (0 :: u8) @ xs = [] @ replicate 6 0 @ xs" for xs by simp
  moreover have "dhost @ take 6 mac @ xs = (dhost @ take 6 mac) @ xs" for xs by simp
  ultimately show ?thesis
    using assms unfolding eth_header_def ETH_P_ALL_be_def
    by (simp add: cget_def cput_def)
qed

text \<open>The packet header the gateway puts behind the Ethernet header.\<close>

definition gp_header :: "gateway_packet \<Rightarrow> u16 \<Rightarrow> u8 list" where
  "gp_header p vlc = le16 (gp_node_id p) @ le16 vlc @ le16 (gp_payload_len p) @ le32 (gp_seq_number p)"

lemma length_gp_header [simp]: "length (gp_header p vlc) = 10"
  by (simp add: gp_header_def)

definition gp_payload :: "gateway_packet \<Rightarrow> u8 list" where
  "gp_payload p = take (unat (gp_payload_len p)) (gp_data p)"

definition gp_wf :: "gateway_packet \<Rightarrow> bool" where
  "gp_wf p \<longleftrightarrow> unat (gp_payload_len p) = length (gp_data p)"

text \<open>The payload loop behind a header \<open>H\<close>, in a buffer of zeros.\<close>

lemma payload_loop:
  assumes "unat n \<le> length src" and "unat n \<le> length zs" and "d = int (length H)"
  shows "cfor 0 (uint n) (\<lambda>i (buf, tx_len). do {
       b \<leftarrow> ard src i;
       buf \<leftarrow> awr buf tx_len b;
       Some (buf, tx_len + 1) }) (H @ zs, d)
    = Some (H @ take (unat n) src @ drop (unat n) zs, d + uint n)"
  using copy_loop[OF assms(1,2,3)] by (simp only: uint_unat)

lemma length_gp_payload:
  "unat (gp_payload_len p) \<le> length (gp_data p) \<Longrightarrow> length (gp_payload p) = unat (gp_payload_len p)"
  by (simp add: gp_payload_def)

lemma finish_frame:
  assumes "length H = 24" and "unat (gp_payload_len p) \<le> 1000"
    and "unat (gp_payload_len p) \<le> length (gp_data p)"
  shows "(do {
      (sendbuf, tx_len) \<leftarrow> cfor 0 (uint (gp_payload_len p)) (\<lambda>i (sendbuf, tx_len). do {
         b \<leftarrow> ard (gp_data p) i;
         sendbuf \<leftarrow> awr sendbuf tx_len b;
         Some (sendbuf, tx_len + 1) }) (H @ replicate 1000 0, 24);
       let frame = take (nat tx_len) sendbuf;
       Some (sendto frame, frame) })
    = Some (sendto (H @ gp_payload p), H @ gp_payload p)"
proof -
  note loop = payload_loop[where H = H and zs = "replicate 1000 0", OF assms(3), of 24]
  have "24 + uint (gp_payload_len p) = int (24 + unat (gp_payload_len p))" by simp
  then have n: "nat (24 + uint (gp_payload_len p)) = 24 + unat (gp_payload_len p)" by linarith
  show ?thesis
    using loop assms length_gp_payload[OF assms(3)]
    by (simp add: n gp_payload_def[symmetric] Let_def)
qed

lemma frame_lengths [simp]:
  "length NODE_MAC = 6" "length VLC_MAC = 6" "length MY_MAC = 6" "length RF_MAC = 6"
  "length ETH_P_ALL_be = 2"
  by (simp_all add: mac_defs ETH_P_ALL_be_def)

theorem transmit_packet_rf_frame:
  assumes "6 \<le> length mac" and "unat (gp_payload_len p) \<le> 1000"
    and "unat (gp_payload_len p) \<le> length (gp_data p)"
  defines "F \<equiv> NODE_MAC @ take 6 mac @ ETH_P_ALL_be @ gp_header p 0 @ gp_payload p"
  shows "transmit_packet_rf sendto mac p = Some (sendto F, F)"
proof -
  let ?H = "NODE_MAC @ take 6 mac @ ETH_P_ALL_be @ gp_header p 0"
  have "length ?H = 24" using assms(1) by simp
  from finish_frame[OF this assms(2,3)] show ?thesis
    using assms(1) unfolding F_def
    by (simp add: transmit_packet_rf_def eth_header_bytes ETHER_HDR_def bytes_simps gp_header_def)
qed

text \<open>The identifier of the transmitter is sent plus one, truncated to 16 bits.\<close>

lemma take2_le_int: "take 2 (le_int x) = le16 (word_of_int x)"
  by (auto simp: le_int_def le32_def le16_def numeral_2_eq_2 intro!: bit_eqI simp: bit_simps)

theorem transmit_packet_vlc_frame:
  assumes "6 \<le> length mac" and "unat (gp_payload_len p) \<le> 1000"
    and "unat (gp_payload_len p) \<le> length (gp_data p)"
  defines "F \<equiv> VLC_MAC @ take 6 mac @ ETH_P_ALL_be @ gp_header p (gp_vlc_id p + 1) @ gp_payload p"
  shows "transmit_packet_vlc sendto mac p = Some (sendto F, F)"
proof -
  let ?H = "VLC_MAC @ take 6 mac @ ETH_P_ALL_be @ gp_header p (gp_vlc_id p + 1)"
  have "length ?H = 24" using assms(1) by simp
  from finish_frame[OF this assms(2,3)] show ?thesis
    using assms(1) unfolding F_def
    by (simp add: transmit_packet_vlc_def eth_header_bytes ETHER_HDR_def bytes_simps gp_header_def
        take2_le_int)
qed

section \<open>Round trips\<close>

lemma parse_header:
  "rd16 (gp_header p v @ xs) 0 = Some (gp_node_id p)"
  "rd16 (gp_header p v @ xs) 2 = Some v"
  "rd16 (gp_header p v @ xs) 4 = Some (gp_payload_len p)"
  "rd32 (gp_header p v @ xs) 6 = Some (gp_seq_number p)"
  by (simp_all add: gp_header_def bytes_simps)

lemma parse_payload:
  assumes "gp_wf p"
  shows "cfor 0 (uint (gp_payload_len p)) (\<lambda>i (data, idx). do {
       b \<leftarrow> ard (gp_header p v @ gp_payload p @ rest) idx;
       data \<leftarrow> awr data i b;
       Some (data, idx + 1) }) (replicate (unat (gp_payload_len p)) 0, 10)
    = Some (gp_data p, 10 + uint (gp_payload_len p))"
proof -
  have n: "unat (gp_payload_len p) = length (gp_data p)" "gp_payload p = gp_data p"
    using assms by (simp_all add: gp_wf_def gp_payload_def)
  show ?thesis
    using read_loop[of "length (gp_data p)" "replicate (length (gp_data p)) 0" 10
        "gp_header p v @ gp_data p @ rest"]
    unfolding uint_unat n by simp
qed

theorem vlc_tx_reads_frame:
  assumes "gp_wf p"
  shows "generate_gateway_packet_from_bytes (gp_header p v @ gp_payload p @ rest)
    = Some (p\<lparr>gp_vlc_id := v\<rparr>)"
  using assms
  by (simp add: generate_gateway_packet_from_bytes_def parse_header parse_payload
      generate_gateway_packet_def)

definition to_node_packet :: "gateway_packet \<Rightarrow> node_packet" where
  "to_node_packet p = \<lparr>np_node_id = gp_node_id p, np_vlc_id = gp_vlc_id p,
     np_payload_len = gp_payload_len p, np_seq_number = gp_seq_number p, np_data = gp_data p\<rparr>"

theorem node_reads_rf_frame:
  assumes "gp_wf p"
  shows "rf_arrived_packet (gp_header p v @ gp_payload p @ rest)
    = Some (to_node_packet (p\<lparr>gp_vlc_id := v\<rparr>))"
  using assms
  by (simp add: rf_arrived_packet_def parse_header parse_payload to_node_packet_def)

text \<open>Between the VLC transmitter and the node the length comes first.\<close>

lemma shift_add_le16: "push_bit 8 (ucast (b :: u8)) + ucast (a :: u8) = of_le16 a b"
proof -
  have "push_bit 8 (ucast b) AND ucast a = (0 :: u16)"
  proof (rule bit_eqI)
    fix n
    show "bit (push_bit 8 (ucast b) AND ucast a :: u16) n = bit 0 n"
      using bit_imp_le_length[of a n] by (cases "8 \<le> n") (auto simp: bit_simps)
  qed
  then have "push_bit 8 (ucast b) + ucast a = (push_bit 8 (ucast b) OR ucast a :: u16)"
    by (rule disjunctive_add_eq_or)
  then show ?thesis by (simp add: of_le16_def or.commute)
qed

definition vlc_header_bytes :: "gateway_packet \<Rightarrow> u8 list" where
  "vlc_header_bytes p =
     le16 (gp_payload_len p) @ le16 (gp_node_id p) @ le16 (gp_vlc_id p) @ le32 (gp_seq_number p)"

lemma length_vlc_header_bytes [simp]: "length (vlc_header_bytes p) = 10"
  by (simp add: vlc_header_bytes_def)

theorem transmit_to_vlc_bytes:
  assumes "length vlc_buff = 1024" and "unat (gp_payload_len p) \<le> 1014"
    and "unat (gp_payload_len p) \<le> length (gp_data p)" and "\<exists>n\<in>set tries. 0 \<le> n"
  shows "\<exists>buff. length buff = 1024 \<and>
    transmit_to_vlc tries vlc_buff p = Some (1, buff, vlc_header_bytes p @ gp_payload p)"
proof -
  let ?H = "vlc_header_bytes p"
  have w: "write_until tries = Some 1" using assms(4) by (induction tries) auto
  note loop = payload_loop[where H = ?H and zs = "drop 10 vlc_buff", OF assms(3), of 10]
  have "10 + uint (gp_payload_len p) = int (10 + unat (gp_payload_len p))" by simp
  then have n: "nat (10 + uint (gp_payload_len p)) = 10 + unat (gp_payload_len p)" by linarith
  let ?R = "vlc_header_bytes p @ gp_payload p @ drop (unat (gp_payload_len p)) (drop 10 vlc_buff)"
  have L: "cfor 0 (uint (gp_payload_len p)) (\<lambda>i (vlc_buff, len). do {
       b \<leftarrow> ard (gp_data p) i;
       vlc_buff \<leftarrow> awr vlc_buff len b;
       Some (vlc_buff, len + 1) }) (?H @ drop 10 vlc_buff, 10)
    = Some (?R, 10 + uint (gp_payload_len p))"
    unfolding gp_payload_def by (rule loop) (use assms(1,2) in auto)
  have "transmit_to_vlc tries vlc_buff p = do {
     (vlc_buff, len) \<leftarrow> cfor 0 (uint (gp_payload_len p)) (\<lambda>i (vlc_buff, len). do {
       b \<leftarrow> ard (gp_data p) i;
       vlc_buff \<leftarrow> awr vlc_buff len b;
       Some (vlc_buff, len + 1) }) (?H @ drop 10 vlc_buff, 10);
     Some (1, vlc_buff, take (nat len) vlc_buff) }"
    using assms(1) w by (simp add: transmit_to_vlc_def fill_vlc_buff_def bytes_simps vlc_header_bytes_def)
  also have "\<dots> = Some (1, ?R, vlc_header_bytes p @ gp_payload p)"
    unfolding L using length_gp_payload[OF assms(3)] by (simp add: n)
  finally have "transmit_to_vlc tries vlc_buff p = Some (1, ?R, vlc_header_bytes p @ gp_payload p)" .
  moreover have "length ?R = 1024"
    using assms(1,2) length_gp_payload[OF assms(3)] by simp
  ultimately show ?thesis by blast
qed

lemma transmit_to_vlc_length:
  assumes "transmit_to_vlc tries b p = Some (ret, b', frame)"
  shows "length b' = length b"
proof -
  from assms obtain b4 n where b4: "length b4 = length b"
    and loop: "cfor 0 (uint (gp_payload_len p)) (\<lambda>i (vlc_buff, len). do {
       x \<leftarrow> ard (gp_data p) i;
       vlc_buff \<leftarrow> awr vlc_buff len x;
       Some (vlc_buff, len + 1) }) (b4, 10) = Some (b', n)"
    by (auto simp: transmit_to_vlc_def fill_vlc_buff_def dest!: cput_SomeD split: Option.bind_splits)
  from loop have "length (fst (b', n)) = length b"
    by (rule cfor_inv[where I = "\<lambda>s. length (fst s) = length b"])
       (auto simp: b4 awr_def split: Option.bind_splits if_splits)
  then show ?thesis by simp
qed

theorem node_reads_vlc_frame:
  assumes "gp_wf p"
  shows "generate_from_bytes (vlc_header_bytes p @ gp_payload p @ rest) = Some (to_node_packet p)"
proof -
  let ?B = "vlc_header_bytes p @ gp_payload p @ rest"
  have b: "ard ?B 0 = Some (ucast (gp_payload_len p))" "ard ?B 1 = Some (ucast (drop_bit 8 (gp_payload_len p)))"
    "ard ?B 2 = Some (ucast (gp_node_id p))" "ard ?B 3 = Some (ucast (drop_bit 8 (gp_node_id p)))"
    "ard ?B 4 = Some (ucast (gp_vlc_id p))" "ard ?B 5 = Some (ucast (drop_bit 8 (gp_vlc_id p)))"
    unfolding vlc_header_bytes_def le16_def append_Cons append_Nil append_assoc
    by (simp_all add: ard_Cons)
  have s: "rd32 ?B 6 = Some (gp_seq_number p)"
    by (simp add: vlc_header_bytes_def bytes_simps)
  have n: "uint (gp_payload_len p) = int (length (gp_data p))" "gp_payload p = gp_data p"
    using assms uint_unat[of "gp_payload_len p"] by (simp_all add: gp_wf_def gp_payload_def)
  have "cget ?B 10 (uint (gp_payload_len p)) = Some (gp_data p)"
    by (simp add: n cget_def)
  then show ?thesis
    by (simp add: generate_from_bytes_def b s shift_add_le16 generate_node_packet_def to_node_packet_def)
qed

text \<open>The queue report.\<close>

theorem send_queue_report_bytes:
  assumes "6 \<le> length mac"
  shows "send_queue_report mac n = Some (MY_MAC @ take 6 mac @ ETH_P_ALL_be @ [1] @ le_int n)"
proof -
  have r: "replicate 1010 (0 :: u8) = [0] @ replicate 4 0 @ replicate 1005 0"
    by (simp add: replicate_add[symmetric] del: replicate.simps flip: replicate_Suc)
  have "awr (MY_MAC @ take 6 mac @ ETH_P_ALL_be @ replicate 1010 0) 14 1
      = Some (MY_MAC @ take 6 mac @ ETH_P_ALL_be @ [1] @ replicate 4 0 @ replicate 1005 0)"
    using assms unfolding r by (simp add: awr_def list_update_append)
  then show ?thesis
    using assms
    by (simp add: send_queue_report_def eth_header_bytes ETHER_HDR_def bytes_simps Let_def)
qed

text \<open>The filters pass the frames meant for them.\<close>

theorem filters_accept:
  "is_from_gateway (NODE_MAC @ RF_MAC @ rest)"
  "is_for_this_tx (VLC_MAC @ MY_MAC @ rest)"
  by (simp_all add: is_from_gateway_def is_for_this_tx_def ether_shost_def ether_dhost_def mac_defs)

end
