(* ===== verification/Status_Report.thy ===== *)
theory Status_Report
  imports CPrelude
begin

text \<open>
  The status report a node sends to the gateway: acknowledgement number, bit pattern of the packets
  received behind it, link quality per VLC transmitter. The packing is in
  \<^verbatim>\<open>status_report_packet.c\<close> of the node (and again in \<^verbatim>\<open>send_report\<close>), the parser in
  \<^verbatim>\<open>status_report_packet.c\<close> of the gateway. The main lemma is the round trip: parsing the packed
  bytes gives the report back, each pattern byte reduced to its lowest bit.
\<close>

unbundle bit_operations_syntax

section \<open>Structures\<close>

record vlc_information =
  vlc_tx_id :: int
  vlc_link_quality :: int

record status_report_packet =
  sr_node_id :: int
  ACK_number :: int
  pattern_length :: int
  ACK_bit_pattern :: "u8 list"
  n_vlc :: int
  vlc_data :: "vlc_information list"

text \<open>The arrays come from \<^verbatim>\<open>malloc\<close>; \<open>u\<close> and \<open>v\<close> stand for what they hold.\<close>

definition generate_status_report_packet ::
    "u8 \<Rightarrow> vlc_information \<Rightarrow> int \<Rightarrow> int \<Rightarrow> status_report_packet" where
  "generate_status_report_packet u v n_vlctx bit_pattern_length =
     \<lparr>sr_node_id = 0, ACK_number = 0, pattern_length = bit_pattern_length,
      ACK_bit_pattern = replicate (nat bit_pattern_length) u, n_vlc = n_vlctx,
      vlc_data = replicate (nat n_vlctx) v\<rparr>"

section \<open>Packing\<close>

text \<open>The number of bytes of a pattern, with C's truncating division.\<close>

definition pattern_bytes :: "int \<Rightarrow> int option" where
  "pattern_bytes len = do {
     d \<leftarrow> cdiv len 8;
     m \<leftarrow> cmod len 8;
     Some (d + (if m = 0 then 0 else 1)) }"

text \<open>One byte: the entries \<open>cur_idx\<close> up to \<open>cur_last_idx\<close>, first entry in the highest bit.\<close>

definition pack_byte :: "(int \<Rightarrow> u8 option) \<Rightarrow> int \<Rightarrow> int \<Rightarrow> u8 option" where
  "pack_byte entry cur_idx cur_last_idx = do {
     (temp_byte, n_shift) \<leftarrow> cfor cur_idx cur_last_idx (\<lambda>j (temp_byte, n_shift). do {
       x \<leftarrow> entry j;
       if n_shift < 0 then None
       else Some (temp_byte OR push_bit (nat n_shift) (x AND 1), n_shift - 1) }) (0, 7);
     Some temp_byte }"

definition pack_pattern ::
    "(int \<Rightarrow> u8 option) \<Rightarrow> int \<Rightarrow> u8 list \<Rightarrow> int \<Rightarrow> (u8 list \<times> int) option" where
  "pack_pattern entry plen buff idx = do {
     n \<leftarrow> pattern_bytes plen;
     (buff, idx, remaining) \<leftarrow> cfor 0 n (\<lambda>i (buff, idx, remaining). do {
       let cur_idx = i * 8;
       let cur_last_idx = (if remaining > 8 then cur_idx + 8 else cur_idx + remaining);
       temp_byte \<leftarrow> pack_byte entry cur_idx cur_last_idx;
       buff \<leftarrow> awr buff idx temp_byte;
       Some (buff, idx + 1, remaining - 8) }) (buff, idx, plen);
     Some (buff, idx) }"

definition convert_report_packet_to_string ::
    "u8 list \<Rightarrow> status_report_packet \<Rightarrow> int \<Rightarrow> (u8 list \<times> int) option" where
  "convert_report_packet_to_string buff packet vlc_tx_number = do {
     let idx = 0;
     buff \<leftarrow> awr buff idx (word_of_int (sr_node_id packet) AND 0xff);
     let idx = idx + 1;
     buff \<leftarrow> cput buff idx (le_int (ACK_number packet));
     let idx = idx + 4;
     buff \<leftarrow> cput buff idx (le_int (pattern_length packet));
     let idx = idx + 4;
     (buff, idx) \<leftarrow> pack_pattern (ard (ACK_bit_pattern packet)) (pattern_length packet) buff idx;
     buff \<leftarrow> awr buff idx (word_of_int vlc_tx_number AND 0xff);
     let idx = idx + 1;
     cfor 0 vlc_tx_number (\<lambda>i (buff, idx). do {
       v \<leftarrow> ard (vlc_data packet) i;
       buff \<leftarrow> awr buff idx (word_of_int (vlc_tx_id v) AND 0xff);
       let idx = idx + 1;
       buff \<leftarrow> awr buff idx (word_of_int (vlc_link_quality v) AND 0xff);
       Some (buff, idx + 1) }) (buff, idx) }"

text \<open>The gateway's function of the same name returns a constant.\<close>

definition gateway_convert_report_packet_to_string :: "status_report_packet \<Rightarrow> string" where
  "gateway_convert_report_packet_to_string packet = ''dummy''"

definition generate_dummy_report_for_testing :: status_report_packet where
  "generate_dummy_report_for_testing =
     \<lparr>sr_node_id = 1, ACK_number = 199720, pattern_length = 24,
      ACK_bit_pattern = map (\<lambda>b. if b then 0x31 else 0x30)
        [True, True, False, False, False, False, False, True,
         True, False, False, False, True, False, False, False,
         True, False, False, False, False, False, False, False],
      n_vlc = 1, vlc_data = [\<lparr>vlc_tx_id = 1, vlc_link_quality = 100\<rparr>]\<rparr>"

section \<open>Parsing\<close>

definition unpack_byte :: "u8 \<Rightarrow> int \<Rightarrow> u8 list \<Rightarrow> int \<Rightarrow> (u8 list \<times> int) option" where
  "unpack_byte byte_temp conv_shift_until pattern convert_idx =
     cford 7 (conv_shift_until - 1) (\<lambda>j (pattern, convert_idx). do {
       pattern \<leftarrow> awr pattern convert_idx (drop_bit (nat j) byte_temp AND 1);
       Some (pattern, convert_idx + 1) }) (pattern, convert_idx)"

definition unpack_pattern :: "u8 list \<Rightarrow> int \<Rightarrow> int \<Rightarrow> (u8 list \<times> int) option" where
  "unpack_pattern report_bytes idx plen = do {
     n \<leftarrow> pattern_bytes plen;
     (pattern, convert_idx, idx, remaining) \<leftarrow>
       cfor 0 n (\<lambda>i (pattern, convert_idx, idx, remaining). do {
         byte_temp \<leftarrow> ard report_bytes idx;
         let conv_shift_until = (if remaining \<ge> 8 then 0 else 8 - remaining);
         (pattern, convert_idx) \<leftarrow> unpack_byte byte_temp conv_shift_until pattern convert_idx;
         Some (pattern, convert_idx, idx + 1, remaining - 8) })
       (replicate (nat plen) 0, 0, idx, plen);
     Some (pattern, idx) }"

definition generate_status_report_from_string :: "u8 list \<Rightarrow> status_report_packet option" where
  "generate_status_report_from_string report_bytes = do {
     let idx = 0;
     b \<leftarrow> ard report_bytes idx;
     let idx = idx + 1;
     ack \<leftarrow> rd_int report_bytes idx;
     let idx = idx + 4;
     plen \<leftarrow> rd_int report_bytes idx;
     let idx = idx + 4;
     (pattern, idx) \<leftarrow> unpack_pattern report_bytes idx plen;
     n \<leftarrow> ard report_bytes idx;
     let idx = idx + 1;
     (vs, idx) \<leftarrow> cfor 0 (uint n) (\<lambda>i (vs, idx). do {
       t \<leftarrow> ard report_bytes idx;
       q \<leftarrow> ard report_bytes (idx + 1);
       vs \<leftarrow> awr vs i \<lparr>vlc_tx_id = uint t, vlc_link_quality = uint q\<rparr>;
       Some (vs, idx + 2) }) (replicate (unat n) \<lparr>vlc_tx_id = 0, vlc_link_quality = 0\<rparr>, idx);
     Some \<lparr>sr_node_id = uint b, ACK_number = ack, pattern_length = plen, ACK_bit_pattern = pattern,
       n_vlc = uint n, vlc_data = vs\<rparr> }"

section \<open>Bits of a byte\<close>

fun pack_bits :: "nat \<Rightarrow> u8 list \<Rightarrow> u8" where
  "pack_bits s [] = 0"
| "pack_bits s (b # bs) = push_bit s (b AND 1) OR pack_bits (s - 1) bs"

lemma bit_and_1: "bit (b AND 1 :: u8) n \<longleftrightarrow> n = 0 \<and> bit b 0"
  by (auto simp: bit_simps)

lemma bit_pack_bits:
  "length bs \<le> Suc s \<Longrightarrow> s < 8 \<Longrightarrow>
   bit (pack_bits s bs) n \<longleftrightarrow> n \<le> s \<and> s - n < length bs \<and> bit (bs ! (s - n)) 0"
proof (induction bs arbitrary: s)
  case (Cons b bs)
  show ?case
  proof (cases bs)
    case Nil
    with Cons.prems show ?thesis by (auto simp: bit_simps)
  next
    case (Cons c cs)
    with Cons.prems have s: "s - 1 < 8" "length bs \<le> Suc (s - 1)" "0 < s" by auto
    have f1: "bit (push_bit s (b AND 1)) n \<longleftrightarrow> n = s \<and> bit b 0"
      using Cons.prems(2) by (auto simp: bit_simps)
    have f2: "bit (pack_bits (s - 1) bs) n
        \<longleftrightarrow> n \<le> s - 1 \<and> s - 1 - n < length bs \<and> bit (bs ! (s - 1 - n)) 0"
      using Cons.IH[OF s(2,1)] .
    show ?thesis
      unfolding pack_bits.simps bit_or_iff f1 f2 using s(3)
      by (cases "n < s"; cases "n = s") (auto simp: nth_Cons' diff_commute Suc_diff_Suc)
  qed
qed simp

lemma unpack_pack_bit:
  assumes "length bs \<le> 8" and "k < length bs"
  shows "drop_bit (7 - k) (pack_bits 7 bs) AND 1 = bs ! k AND 1"
proof (rule bit_eqI)
  fix n
  show "bit (drop_bit (7 - k) (pack_bits 7 bs) AND 1) n = bit (bs ! k AND 1) n"
    using assms by (cases n) (auto simp: bit_simps bit_pack_bits)
qed

section \<open>The loops\<close>

lemma pattern_bytes_eq: "0 \<le> n \<Longrightarrow> pattern_bytes n = Some ((n + 7) div 8)"
proof -
  assume n: "0 \<le> n"
  have "(n + 7) div 8 = n div 8 + (if n mod 8 = 0 then 0 else 1)"
  proof (cases "n mod 8 = 0")
    case True
    have "n + 7 = 8 * (n div 8) + 7" using True mult_div_mod_eq[of 8 n] by linarith
    from int_div_pos_eq[OF this] True show ?thesis by simp
  next
    case False
    have "0 \<le> n mod 8" "n mod 8 < 8" by simp_all
    moreover from this(1) False have "0 < n mod 8" by linarith
    moreover have "n + 7 = 8 * (n div 8 + 1) + (n mod 8 - 1)"
      by (simp add: distrib_left)
    ultimately show ?thesis using int_div_pos_eq[of "n + 7" 8 "n div 8 + 1" "n mod 8 - 1"] False by simp
  qed
  with n show ?thesis by (simp add: pattern_bytes_def c_simps)
qed

definition chunk :: "'a list \<Rightarrow> nat \<Rightarrow> 'a list" where
  "chunk xs i = take 8 (drop (8 * i) xs)"

lemma length_chunk: "length (chunk xs i) = min 8 (length xs - 8 * i)"
  by (simp add: chunk_def)

lemma nth_chunk: "k < length (chunk xs i) \<Longrightarrow> chunk xs i ! k = xs ! (8 * i + k)"
proof -
  assume k: "k < length (chunk xs i)"
  then have "8 * i \<le> length xs" unfolding length_chunk by linarith
  with k show ?thesis by (simp add: chunk_def)
qed

lemma pack_byte_loop:
  assumes "int (length bs) \<le> sh + 1" and "\<And>k. k < length bs \<Longrightarrow> entry (cur + int k) = Some (bs ! k)"
  shows "cfor cur (cur + int (length bs)) (\<lambda>j (temp_byte, n_shift). do {
       x \<leftarrow> entry j;
       if n_shift < 0 then None
       else Some (temp_byte OR push_bit (nat n_shift) (x AND 1), n_shift - 1) }) (acc, sh)
     = Some (acc OR pack_bits (nat sh) bs, sh - int (length bs))"
  using assms
proof (induction bs arbitrary: cur acc sh)
  case Nil
  then show ?case by (simp add: cfor_end)
next
  case (Cons b bs)
  have e: "entry (cur + 1 + int k) = Some (bs ! k)" if "k < length bs" for k
    using Cons.prems(2)[of "Suc k"] that by (simp add: add.assoc)
  have "entry cur = Some b" using Cons.prems(2)[of 0] by simp
  moreover have "0 \<le> sh" "nat (sh - 1) = nat sh - 1" using Cons.prems(1) by auto
  ultimately show ?case
    using Cons.IH[of "sh - 1" "cur + 1" "acc OR push_bit (nat sh) (b AND 1)", OF _ e] Cons.prems(1)
    by (simp add: cfor_step or.assoc add.assoc)
qed

lemma pack_byte_bits:
  assumes "length bs \<le> 8" and "\<And>k. k < length bs \<Longrightarrow> entry (cur + int k) = Some (bs ! k)"
  shows "pack_byte entry cur (cur + int (length bs)) = Some (pack_bits 7 bs)"
  using pack_byte_loop[of bs 7 entry cur 0] assms by (simp add: pack_byte_def)

lemma pack_pattern_loop:
  assumes entry: "\<And>k. k < length pat \<Longrightarrow> entry (int k) = Some (pat ! k)"
    and m: "m \<le> length zs" "m \<le> (length pat + 7) div 8" and d: "d = int (length xs)"
  shows "cfor 0 (int m) (\<lambda>i (buff, idx, remaining). do {
       let cur_idx = i * 8;
       let cur_last_idx = (if remaining > 8 then cur_idx + 8 else cur_idx + remaining);
       temp_byte \<leftarrow> pack_byte entry cur_idx cur_last_idx;
       buff \<leftarrow> awr buff idx temp_byte;
       Some (buff, idx + 1, remaining - 8) }) (xs @ zs, d, int (length pat))
    = Some (xs @ map (\<lambda>i. pack_bits 7 (chunk pat i)) [0..<m] @ drop m zs, d + int m,
        int (length pat) - 8 * int m)"
proof -
  let ?B = "\<lambda>i. pack_bits 7 (chunk pat i)"
  let ?f = "\<lambda>i (buff, idx, remaining). do {
       let cur_idx = i * 8;
       let cur_last_idx = (if remaining > 8 then cur_idx + 8 else cur_idx + remaining);
       temp_byte \<leftarrow> pack_byte entry cur_idx cur_last_idx;
       buff \<leftarrow> awr buff idx temp_byte;
       Some (buff, idx + 1, remaining - 8) }"
  let ?I = "\<lambda>i s. s = (xs @ map ?B [0..<nat i] @ drop (nat i) zs, d + i, int (length pat) - 8 * i)"
  have "\<exists>t. cfor 0 (int m) ?f (xs @ zs, d, int (length pat)) = Some t \<and> ?I (int m) t"
  proof (rule cfor_total)
    fix k t assume k: "0 \<le> k" "k < int m" and t: "?I k t"
    obtain i where i: "k = int i" "i < m" using k by (metis nonneg_int_cases of_nat_less_iff)
    have lt: "8 * i < length pat" using i(2) m(2) by linarith
    have iz: "i < length zs" using i(2) m(1) by linarith
    have last: "(if int (length pat) - 8 * k > 8 then k * 8 + 8 else k * 8 + (int (length pat) - 8 * k))
        = k * 8 + int (length (chunk pat i))"
      using lt i by (auto simp: length_chunk)
    have "entry (k * 8 + int j) = Some (chunk pat i ! j)" if "j < length (chunk pat i)" for j
    proof -
      have "8 * i + j < length pat" using that lt unfolding length_chunk by linarith
      from entry[OF this] show ?thesis using that i by (simp add: nth_chunk mult.commute)
    qed
    then have pb: "pack_byte entry (k * 8) (k * 8 + int (length (chunk pat i))) = Some (?B i)"
      by (intro pack_byte_bits) (auto simp: length_chunk)
    have aw: "awr (xs @ map ?B [0..<nat k] @ drop (nat k) zs) (d + k) v
        = Some (xs @ map ?B [0..<i] @ v # drop (Suc i) zs)" for v
      using iz i d by (simp add: awr_def nat_add_distrib list_update_append Cons_nth_drop_Suc[symmetric])
    have "?f k t = Some (xs @ map ?B [0..<i] @ ?B i # drop (Suc i) zs, d + k + 1,
        int (length pat) - 8 * k - 8)"
      unfolding t Let_def prod.case last pb by (simp add: aw)
    then show "\<exists>t'. ?f k t = Some t' \<and> ?I (k + 1) t'"
      using i by (simp add: nat_add_distrib)
  qed auto
  then show ?thesis by simp
qed

lemma pattern_bytes_length: "pattern_bytes (int (length pat)) = Some (int ((length pat + 7) div 8))"
  by (simp add: pattern_bytes_eq zdiv_int)

lemma pack_pattern_bytes:
  assumes entry: "\<And>k. k < length pat \<Longrightarrow> entry (int k) = Some (pat ! k)"
    and room: "(length pat + 7) div 8 \<le> length zs" and d: "d = int (length xs)"
  defines "n \<equiv> (length pat + 7) div 8"
  shows "pack_pattern entry (int (length pat)) (xs @ zs) d
    = Some (xs @ map (\<lambda>i. pack_bits 7 (chunk pat i)) [0..<n] @ drop n zs, d + int n)"
  using pack_pattern_loop[OF entry room order_refl d]
  by (simp add: pack_pattern_def pattern_bytes_length n_def)

text \<open>A pattern of more bytes than the buffer has left is written past its end.\<close>

lemma pack_pattern_overflow:
  assumes entry: "\<And>k. k < length pat \<Longrightarrow> entry (int k) = Some (pat ! k)"
    and full: "length zs < (length pat + 7) div 8" and d: "d = int (length xs)"
  shows "pack_pattern entry (int (length pat)) (xs @ zs) d = None"
proof -
  let ?f = "\<lambda>i (buff, idx, remaining). do {
       let cur_idx = i * 8;
       let cur_last_idx = (if remaining > 8 then cur_idx + 8 else cur_idx + remaining);
       temp_byte \<leftarrow> pack_byte entry cur_idx cur_last_idx;
       buff \<leftarrow> awr buff idx temp_byte;
       Some (buff, idx + 1, remaining - 8) }"
  let ?m = "int (length zs)" and ?n = "int ((length pat + 7) div 8)"
  let ?t = "(xs @ map (\<lambda>i. pack_bits 7 (chunk pat i)) [0..<length zs], d + ?m, int (length pat) - 8 * ?m)"
  have "cfor 0 ?m ?f (xs @ zs, d, int (length pat)) = Some ?t"
    using pack_pattern_loop[OF entry order_refl less_imp_le[OF full] d] by simp
  moreover have "?f ?m ?t = None"
    using d by (simp add: Let_def awr_def split: Option.bind_split)
  then have "cfor ?m ?n ?f ?t = None" using full by (subst cfor_step) (simp_all del: prod.case)
  ultimately have "cfor 0 ?n ?f (xs @ zs, d, int (length pat)) = None"
    using full by (subst cfor_split[of 0 ?m]) simp_all
  then show ?thesis unfolding pack_pattern_def pattern_bytes_length by simp
qed

lemma unpack_byte_bits:
  assumes "length bs \<le> 8" and "length bs \<le> length zs" and "c = int (length xs)"
  shows "unpack_byte (pack_bits 7 bs) (8 - int (length bs)) (xs @ zs) c
    = Some (xs @ map (\<lambda>b. b AND 1) bs @ drop (length bs) zs, c + int (length bs))"
proof -
  let ?f = "\<lambda>j (pattern, convert_idx). do {
       pattern \<leftarrow> awr pattern convert_idx (drop_bit (nat j) (pack_bits 7 bs) AND 1);
       Some (pattern, convert_idx + 1) }"
  let ?I = "\<lambda>j s. s = (xs @ map (\<lambda>b. b AND 1) (take (nat (7 - j)) bs) @ drop (nat (7 - j)) zs, c + (7 - j))"
  have "\<exists>t. cford 7 (8 - int (length bs) - 1) ?f (xs @ zs, c) = Some t \<and> ?I (8 - int (length bs) - 1) t"
  proof (rule cford_total)
    fix j t assume j: "8 - int (length bs) - 1 < j" "j \<le> 7" and t: "?I j t"
    define k where "k = nat (7 - j)"
    have k: "k < length bs" "7 - j = int k" "nat j = 7 - k" "nat (7 - (j - 1)) = Suc k"
      using j assms(1) unfolding k_def by linarith+
    have "awr (xs @ map (\<lambda>b. b AND 1) (take k bs) @ drop k zs) (c + int k) v
        = Some (xs @ map (\<lambda>b. b AND 1) (take k bs) @ v # drop (Suc k) zs)" for v
      using k(1) assms(2,3)
      by (simp add: awr_def nat_add_distrib list_update_append Cons_nth_drop_Suc[symmetric])
    then show "\<exists>t'. ?f j t = Some t' \<and> ?I (j - 1) t'"
      using t k unpack_pack_bit[OF assms(1) k(1)]
      by (simp add: take_Suc_conv_app_nth k_def[symmetric])
  qed (use assms(1) in auto)
  then show ?thesis by (simp add: unpack_byte_def)
qed

lemma map_take_chunk: "take (8 * Suc i) xs = take (8 * i) xs @ chunk xs i"
  using take_add[of "8 * i" 8 xs] by (simp add: chunk_def add.commute)

text \<open>Parsing what was packed, anywhere in a buffer.\<close>

lemma unpack_pack_pattern:
  assumes bytes: "\<And>i. i < (length pat + 7) div 8 \<Longrightarrow> ard bytes (d + int i) = Some (pack_bits 7 (chunk pat i))"
  defines "n \<equiv> (length pat + 7) div 8"
  shows "unpack_pattern bytes d (int (length pat)) = Some (map (\<lambda>b. b AND 1) pat, d + int n)"
proof -
  let ?Z = "replicate (length pat) (0 :: u8)"
  let ?f = "\<lambda>i (pattern, convert_idx, idx, remaining). do {
         byte_temp \<leftarrow> ard bytes idx;
         let conv_shift_until = (if remaining \<ge> 8 then 0 else 8 - remaining);
         (pattern, convert_idx) \<leftarrow> unpack_byte byte_temp conv_shift_until pattern convert_idx;
         Some (pattern, convert_idx, idx + 1, remaining - 8) }"
  let ?I = "\<lambda>i s. s = (map (\<lambda>b. b AND 1) (take (8 * nat i) pat) @ drop (8 * nat i) ?Z,
      int (length (take (8 * nat i) pat)), d + i, int (length pat) - 8 * i)"
  have nb: "pattern_bytes (int (length pat)) = Some (int n)"
    unfolding n_def by (simp add: pattern_bytes_eq zdiv_int)
  have "\<exists>t. cfor 0 (int n) ?f (?Z, 0, d, int (length pat)) = Some t \<and> ?I (int n) t"
  proof (rule cfor_total)
    fix k t assume k: "0 \<le> k" "k < int n" and t: "?I k t"
    obtain i where i: "k = int i" "i < n" using k by (metis nonneg_int_cases of_nat_less_iff)
    have lt: "8 * i < length pat" using i(2) unfolding n_def by linarith
    let ?c = "chunk pat i"
    have su: "(if int (length pat) - 8 * k \<ge> 8 then 0 else 8 - (int (length pat) - 8 * k))
        = 8 - int (length ?c)"
      using lt i by (auto simp: length_chunk)
    have rd: "ard bytes (d + k) = Some (pack_bits 7 ?c)" using bytes i unfolding n_def by simp
    have ub: "unpack_byte (pack_bits 7 ?c) (8 - int (length ?c))
        (map (\<lambda>b. b AND 1) (take (8 * nat k) pat) @ drop (8 * nat k) ?Z) (int (length (take (8 * nat k) pat)))
      = Some (map (\<lambda>b. b AND 1) (take (8 * Suc i) pat) @ drop (8 * Suc i) ?Z,
          int (length (take (8 * Suc i) pat)))"
    proof -
      have "drop (length ?c) (drop (8 * i) ?Z) = drop (8 * Suc i) ?Z"
        using lt by (auto simp: length_chunk)
      then show ?thesis
        using lt i by (subst unpack_byte_bits)
          (auto simp: length_chunk map_take_chunk simp del: mult_Suc_right)
    qed
    have "?f k t = Some (map (\<lambda>b. b AND 1) (take (8 * Suc i) pat) @ drop (8 * Suc i) ?Z,
          int (length (take (8 * Suc i) pat)), d + k + 1, int (length pat) - 8 * k - 8)"
      unfolding t Let_def prod.case rd Option.bind.simps su ub by simp
    then show "\<exists>t'. ?f k t = Some t' \<and> ?I (k + 1) t'"
      using i by (simp add: nat_add_distrib del: mult_Suc_right)
  qed auto
  moreover have "length pat \<le> 8 * n" unfolding n_def by linarith
  ultimately show ?thesis by (simp add: unpack_pattern_def nb)
qed

section \<open>The round trip\<close>

definition byte_int :: "int \<Rightarrow> bool" where
  "byte_int x \<longleftrightarrow> 0 \<le> x \<and> x < 256"

lemma uint_low_byte: "byte_int x \<Longrightarrow> uint (word_of_int x AND 0xff :: u8) = x"
proof -
  assume x: "byte_int x"
  have "(0xff :: u8) = - 1" by simp
  then have "word_of_int x AND 0xff = (word_of_int x :: u8)" by (simp only: and.right_neutral)
  then show ?thesis using x by (simp add: byte_int_def uint_word_of_int)
qed

text \<open>A report that fits: fields in range and as many entries as it announces.\<close>

definition report_wf :: "status_report_packet \<Rightarrow> bool" where
  "report_wf r \<longleftrightarrow> byte_int (sr_node_id r) \<and> c_int (ACK_number r) \<and> c_int (pattern_length r)
     \<and> pattern_length r = int (length (ACK_bit_pattern r))
     \<and> n_vlc r = int (length (vlc_data r)) \<and> n_vlc r < 256
     \<and> list_all (\<lambda>v. byte_int (vlc_tx_id v) \<and> byte_int (vlc_link_quality v)) (vlc_data r)"

definition vlc_bytes :: "vlc_information list \<Rightarrow> u8 list" where
  "vlc_bytes vs = concat (map (\<lambda>v. [word_of_int (vlc_tx_id v) AND 0xff,
     word_of_int (vlc_link_quality v) AND 0xff]) vs)"

lemma length_vlc_bytes [simp]: "length (vlc_bytes vs) = 2 * length vs"
  by (induction vs) (auto simp: vlc_bytes_def)

lemma vlc_bytes_Cons: "vlc_bytes (v # vs) =
    (word_of_int (vlc_tx_id v) AND 0xff) # (word_of_int (vlc_link_quality v) AND 0xff) # vlc_bytes vs"
  by (simp add: vlc_bytes_def)

text \<open>The bytes of a report.\<close>

definition pattern_block :: "u8 list \<Rightarrow> u8 list" where
  "pattern_block pat = map (\<lambda>i. pack_bits 7 (chunk pat i)) [0..<(length pat + 7) div 8]"

definition report_bytes :: "int \<Rightarrow> int \<Rightarrow> u8 list \<Rightarrow> vlc_information list \<Rightarrow> u8 list" where
  "report_bytes node ack pat vs = (word_of_int node AND 0xff) # le_int ack @ le_int (int (length pat))
     @ pattern_block pat @ (word_of_int (int (length vs)) AND 0xff) # vlc_bytes vs"

lemma length_pattern_block [simp]: "length (pattern_block pat) = (length pat + 7) div 8"
  by (simp add: pattern_block_def)

lemma awr_here: "i = int (length xs) \<Longrightarrow> zs \<noteq> [] \<Longrightarrow> awr (xs @ zs) i v = Some (xs @ v # tl zs)"
  by (cases zs) (auto simp: awr_def list_update_append)

lemma vlc_write_loop:
  assumes "2 * length vs \<le> length zs" and "d = int (length xs)" and "\<And>k. k < length vs \<Longrightarrow> ard ws (i + int k) = Some (vs ! k)"
  shows "cfor i (i + int (length vs)) (\<lambda>i (buff, idx). do {
       v \<leftarrow> ard ws i;
       buff \<leftarrow> awr buff idx (word_of_int (vlc_tx_id v) AND 0xff);
       let idx = idx + 1;
       buff \<leftarrow> awr buff idx (word_of_int (vlc_link_quality v) AND 0xff);
       Some (buff, idx + 1) }) (xs @ zs, d)
     = Some (xs @ vlc_bytes vs @ drop (2 * length vs) zs, d + 2 * int (length vs))"
  using assms
proof (induction vs arbitrary: i xs zs d)
  case Nil
  then show ?case by (simp add: cfor_end vlc_bytes_def)
next
  case (Cons v vs)
  obtain z1 z2 zs' where zs: "zs = z1 # z2 # zs'"
    using Cons.prems(1) by (cases zs; cases "tl zs") auto
  let ?a = "word_of_int (vlc_tx_id v) AND 0xff :: u8"
  let ?b = "word_of_int (vlc_link_quality v) AND 0xff :: u8"
  have e: "ard ws (i + 1 + int k) = Some (vs ! k)" if "k < length vs" for k
    using Cons.prems(3)[of "Suc k"] that by (simp add: add.assoc)
  have r: "ard ws i = Some v" using Cons.prems(3)[of 0] by simp
  have w1: "awr (xs @ zs) d ?a = Some (xs @ ?a # z2 # zs')"
    using Cons.prems(2) by (simp add: zs awr_here)
  have w2: "awr (xs @ ?a # z2 # zs') (d + 1) ?b = Some ((xs @ [?a, ?b]) @ zs')"
    using awr_here[of "d + 1" "xs @ [?a]" "z2 # zs'" ?b] Cons.prems(2) by simp
  have ih: "cfor (i + 1) (i + 1 + int (length vs)) (\<lambda>i (buff, idx). do {
       v \<leftarrow> ard ws i;
       buff \<leftarrow> awr buff idx (word_of_int (vlc_tx_id v) AND 0xff);
       let idx = idx + 1;
       buff \<leftarrow> awr buff idx (word_of_int (vlc_link_quality v) AND 0xff);
       Some (buff, idx + 1) }) ((xs @ [?a, ?b]) @ zs', 2 + d)
     = Some ((xs @ [?a, ?b]) @ vlc_bytes vs @ drop (2 * length vs) zs', 2 + d + 2 * int (length vs))"
    by (rule Cons.IH[OF _ _ e]) (use Cons.prems(1,2) zs in auto)
  have n: "i + int (length (v # vs)) = i + 1 + int (length vs)" by simp
  show ?case
    unfolding n cfor.simps[of i] r Let_def prod.case Option.bind.simps w1 w2
    using ih by (simp add: zs vlc_bytes_Cons Let_def)
qed

lemma vlc_read_loop:
  assumes "list_all (\<lambda>v. byte_int (vlc_tx_id v) \<and> byte_int (vlc_link_quality v)) vs"
    and "length vs \<le> length ws"
  shows "cfor (int (length xs)) (int (length xs) + int (length vs)) (\<lambda>i (us, idx). do {
       t \<leftarrow> ard (pre @ vlc_bytes vs0 @ vlc_bytes vs @ rest) idx;
       q \<leftarrow> ard (pre @ vlc_bytes vs0 @ vlc_bytes vs @ rest) (idx + 1);
       us \<leftarrow> awr us i \<lparr>vlc_tx_id = uint t, vlc_link_quality = uint q\<rparr>;
       Some (us, idx + 2) }) (xs @ ws, int (length pre + 2 * length vs0))
     = Some (xs @ vs @ drop (length vs) ws, int (length pre + 2 * length vs0 + 2 * length vs))"
  using assms
proof (induction vs arbitrary: xs ws vs0)
  case Nil
  then show ?case by (simp add: cfor_end)
next
  case (Cons v vs)
  obtain w ws' where ws: "ws = w # ws'" using Cons.prems(2) by (cases ws) auto
  let ?B = "pre @ vlc_bytes vs0 @ vlc_bytes (v # vs) @ rest"
  have B: "?B = pre @ vlc_bytes (vs0 @ [v]) @ vlc_bytes vs @ rest"
    by (simp add: vlc_bytes_def)
  let ?f = "\<lambda>i (us, idx). do {
       t \<leftarrow> ard ?B idx;
       q \<leftarrow> ard ?B (idx + 1);
       us \<leftarrow> awr us i \<lparr>vlc_tx_id = uint t, vlc_link_quality = uint q\<rparr>;
       Some (us, idx + 2) }"
  let ?d = "int (length pre + 2 * length vs0)"
  have r: "ard ?B ?d = Some (word_of_int (vlc_tx_id v) AND 0xff)"
    "ard ?B (?d + 1) = Some (word_of_int (vlc_link_quality v) AND 0xff)"
    by (simp_all add: vlc_bytes_Cons bytes_simps)
  have v: "\<lparr>vlc_tx_id = uint (word_of_int (vlc_tx_id v) AND 0xff :: u8),
      vlc_link_quality = uint (word_of_int (vlc_link_quality v) AND 0xff :: u8)\<rparr> = v"
    using Cons.prems(1) by (simp add: uint_low_byte del: word_of_int_numeral)
  have w: "awr (xs @ ws) (int (length xs)) v = Some ((xs @ [v]) @ ws')" by (simp add: ws awr_here)
  have s: "?f (int (length xs)) (xs @ ws, ?d) = Some ((xs @ [v]) @ ws', ?d + 2)"
    unfolding prod.case r Option.bind.simps v w ..
  have e: "int (length (xs @ [v])) = int (length xs) + 1"
    "int (length xs) + 1 + int (length vs) = int (length xs) + int (length (v # vs))"
    "int (length pre + 2 * length (vs0 @ [v])) = ?d + 2"
    "int (length pre + 2 * length (vs0 @ [v]) + 2 * length vs)
      = int (length pre + 2 * length vs0 + 2 * length (v # vs))" by simp_all
  have "cfor (int (length (xs @ [v]))) (int (length (xs @ [v])) + int (length vs)) ?f
        ((xs @ [v]) @ ws', int (length pre + 2 * length (vs0 @ [v])))
      = Some ((xs @ [v]) @ vs @ drop (length vs) ws', int (length pre + 2 * length (vs0 @ [v]) + 2 * length vs))"
    unfolding B using Cons.prems ws
    by (intro Cons.IH[where xs = "xs @ [v]" and ws = ws' and ?vs0.0 = "vs0 @ [v]"]) simp_all
  from this[unfolded e(4) e(1-3)]
  show ?case
    by (subst cfor.simps, simp only: s[unfolded ws] Option.bind.simps ws) simp
qed

lemma length_report_bytes:
  "length (report_bytes node ack pat vs) = 10 + (length pat + 7) div 8 + 2 * length vs"
  by (simp add: report_bytes_def)

text \<open>Everything from the pattern on, behind a header \<open>H\<close>; \<^verbatim>\<open>send_report\<close> shares it.\<close>

lemma pack_report_tail:
  assumes entry: "\<And>k. k < length pat \<Longrightarrow> entry (int k) = Some (pat ! k)"
    and vs: "\<And>k. k < length vs \<Longrightarrow> ard ws (int k) = Some (vs ! k)"
    and room: "(length pat + 7) div 8 + 1 + 2 * length vs \<le> length zs" and d: "d = int (length H)"
  shows "(do {
       (buff, idx) \<leftarrow> pack_pattern entry (int (length pat)) (H @ zs) d;
       buff \<leftarrow> awr buff idx n;
       let idx = idx + 1;
       cfor 0 (int (length vs)) (\<lambda>i (buff, idx). do {
         v \<leftarrow> ard ws i;
         buff \<leftarrow> awr buff idx (word_of_int (vlc_tx_id v) AND 0xff);
         let idx = idx + 1;
         buff \<leftarrow> awr buff idx (word_of_int (vlc_link_quality v) AND 0xff);
         Some (buff, idx + 1) }) (buff, idx) })
     = Some (H @ pattern_block pat @ [n] @ vlc_bytes vs
           @ drop ((length pat + 7) div 8 + 1 + 2 * length vs) zs,
         d + int ((length pat + 7) div 8 + 1 + 2 * length vs))"
proof -
  let ?n = "(length pat + 7) div 8"
  have p: "pack_pattern entry (int (length pat)) (H @ zs) d
      = Some ((H @ pattern_block pat) @ drop ?n zs, d + int ?n)"
    using pack_pattern_bytes[OF entry _ d, of zs] room by (simp add: pattern_block_def)
  have w: "awr ((H @ pattern_block pat) @ drop ?n zs) (d + int ?n) n
      = Some ((H @ pattern_block pat @ [n]) @ drop (Suc ?n) zs)"
    using awr_here[of "d + int ?n" "H @ pattern_block pat" "drop ?n zs" n] d room
    by (simp add: tl_drop drop_Suc)
  have l: "cfor 0 (0 + int (length vs)) (\<lambda>i (buff, idx). do {
         v \<leftarrow> ard ws i;
         buff \<leftarrow> awr buff idx (word_of_int (vlc_tx_id v) AND 0xff);
         let idx = idx + 1;
         buff \<leftarrow> awr buff idx (word_of_int (vlc_link_quality v) AND 0xff);
         Some (buff, idx + 1) }) ((H @ pattern_block pat @ [n]) @ drop (Suc ?n) zs, d + int ?n + 1)
     = Some ((H @ pattern_block pat @ [n]) @ vlc_bytes vs @ drop (2 * length vs) (drop (Suc ?n) zs),
         d + int ?n + 1 + 2 * int (length vs))"
    by (rule vlc_write_loop) (use d room vs in auto)
  show ?thesis
    unfolding p Option.bind.simps prod.case w Let_def
    using l by (simp add: Let_def add.commute add.left_commute)
qed

lemma convert_report_bytes:
  assumes wf: "report_wf r" and buff: "length buff = 1000"
  defines "B \<equiv> report_bytes (sr_node_id r) (ACK_number r) (ACK_bit_pattern r) (vlc_data r)"
  assumes fits: "length B \<le> 1000"
  shows "convert_report_packet_to_string buff r (n_vlc r) = Some (B @ drop (length B) buff, int (length B))"
proof -
  let ?H = "(word_of_int (sr_node_id r) AND 0xff) # le_int (ACK_number r) @ le_int (pattern_length r)"
  obtain b bs where b: "buff = b # bs" using buff by (cases buff) auto
  have n: "n_vlc r = int (length (vlc_data r))" "pattern_length r = int (length (ACK_bit_pattern r))"
    using wf by (simp_all add: report_wf_def)
  have h: "awr buff 0 x = Some (x # bs)" for x by (simp add: b awr_def)
  have "convert_report_packet_to_string buff r (n_vlc r) = (do {
       (buff, idx) \<leftarrow> pack_pattern (ard (ACK_bit_pattern r)) (int (length (ACK_bit_pattern r))) (?H @ drop 8 bs) 9;
       buff \<leftarrow> awr buff idx (word_of_int (int (length (vlc_data r))) AND 0xff);
       let idx = idx + 1;
       cfor 0 (int (length (vlc_data r))) (\<lambda>i (buff, idx). do {
         v \<leftarrow> ard (vlc_data r) i;
         buff \<leftarrow> awr buff idx (word_of_int (vlc_tx_id v) AND 0xff);
         let idx = idx + 1;
         buff \<leftarrow> awr buff idx (word_of_int (vlc_link_quality v) AND 0xff);
         Some (buff, idx + 1) }) (buff, idx) })"
  proof -
    have w1: "cput (x # bs) 1 (le_int a) = Some (x # le_int a @ drop 4 bs)" for x a
      using buff b by (simp add: bytes_simps)
    have w2: "cput (x # le_int a @ drop 4 bs) 5 (le_int a') = Some (x # le_int a @ le_int a' @ drop 8 bs)"
      for x a a' using buff b by (simp add: bytes_simps)
    show ?thesis
      by (simp add: convert_report_packet_to_string_def h w1 w2 n Let_def)
  qed
  also have "\<dots> = Some (?H @ pattern_block (ACK_bit_pattern r) @ [word_of_int (int (length (vlc_data r))) AND 0xff]
      @ vlc_bytes (vlc_data r) @ drop ((length (ACK_bit_pattern r) + 7) div 8 + 1 + 2 * length (vlc_data r)) (drop 8 bs),
      9 + int ((length (ACK_bit_pattern r) + 7) div 8 + 1 + 2 * length (vlc_data r)))"
    using fits buff b unfolding B_def length_report_bytes
    by (intro pack_report_tail) (auto simp: ard_Some n)
  also have "\<dots> = Some (B @ drop (length B) buff, int (length B))"
    by (simp add: B_def length_report_bytes report_bytes_def b n drop_Cons')
  finally show ?thesis .
qed

text \<open>Parsing a report from the front of a buffer.\<close>

lemma parse_report_bytes:
  assumes "byte_int node" and "c_int ack" and "c_int (int (length pat))" and "length vs < 256"
    and vs: "list_all (\<lambda>v. byte_int (vlc_tx_id v) \<and> byte_int (vlc_link_quality v)) vs"
  shows "generate_status_report_from_string (report_bytes node ack pat vs @ rest)
    = Some \<lparr>sr_node_id = node, ACK_number = ack, pattern_length = int (length pat),
        ACK_bit_pattern = map (\<lambda>b. b AND 1) pat, n_vlc = int (length vs), vlc_data = vs\<rparr>"
proof -
  let ?R = "report_bytes node ack pat vs @ rest"
  let ?n = "(length pat + 7) div 8"
  let ?nv = "word_of_int (int (length vs)) AND 0xff :: u8"
  have R: "?R = (word_of_int node AND 0xff) # le_int ack @ le_int (int (length pat))
     @ pattern_block pat @ ?nv # vlc_bytes vs @ rest" by (simp add: report_bytes_def)
  have r0: "ard ?R 0 = Some (word_of_int node AND 0xff)" by (simp add: R)
  have R1: "?R = [word_of_int node AND 0xff] @ le_int ack @ le_int (int (length pat))
     @ pattern_block pat @ ?nv # vlc_bytes vs @ rest" by (simp add: report_bytes_def)
  have r1: "rd_int ?R 1 = Some ack" "rd_int ?R 5 = Some (int (length pat))"
    unfolding R1 using assms(2,3) by (simp_all add: rd_int_skip rd_int_here del: append_Cons)
  have "ard ?R (9 + int i) = Some (pack_bits 7 (chunk pat i))" if "i < ?n" for i
    using that unfolding R1
    by (simp add: ard_append2 ard_append1 ard_Some pattern_block_def nth_append del: append_Cons)
  then have u: "unpack_pattern ?R 9 (int (length pat)) = Some (map (\<lambda>b. b AND 1) pat, 9 + int ?n)"
    by (rule unpack_pack_pattern)
  have rn: "ard ?R (9 + int ?n) = Some ?nv"
    unfolding R1 by (simp add: ard_append2 del: append_Cons)
  have nv: "uint ?nv = int (length vs)" "unat ?nv = length vs"
  proof -
    show "uint ?nv = int (length vs)" using assms(4) by (intro uint_low_byte) (simp add: byte_int_def)
    then show "unat ?nv = length vs" using uint_unat[of ?nv] by linarith
  qed
  let ?pre = "[word_of_int node AND 0xff] @ le_int ack @ le_int (int (length pat)) @ pattern_block pat @ [?nv]"
  have R2: "?R = ?pre @ vlc_bytes [] @ vlc_bytes vs @ rest" by (simp add: report_bytes_def vlc_bytes_def)
  have "cfor 0 (int (length vs)) (\<lambda>i (us, idx). do {
       t \<leftarrow> ard ?R idx;
       q \<leftarrow> ard ?R (idx + 1);
       us \<leftarrow> awr us i \<lparr>vlc_tx_id = uint t, vlc_link_quality = uint q\<rparr>;
       Some (us, idx + 2) }) (replicate (length vs) \<lparr>vlc_tx_id = 0, vlc_link_quality = 0\<rparr>, 9 + int ?n + 1)
     = Some (vs, 9 + int ?n + 1 + 2 * int (length vs))"
    using vlc_read_loop[OF vs, of "replicate (length vs) \<lparr>vlc_tx_id = 0, vlc_link_quality = 0\<rparr>" "[]" ?pre "[]" rest]
    unfolding R2[symmetric] by (simp add: add.commute add.left_commute)
  then show ?thesis
    using assms(1) by (simp add: generate_status_report_from_string_def r0 r1 u rn uint_low_byte Let_def
        nv[unfolded of_int_of_nat_eq])
qed

section \<open>What the parser can deliver\<close>

definition bits :: "u8 list \<Rightarrow> bool" where
  "bits xs \<longleftrightarrow> (\<forall>x\<in>set xs. x = 0 \<or> x = 1)"

lemma and_1_bit: "(x AND 1 :: u8) = 0 \<or> (x AND 1) = 1"
  by (simp add: and_one_eq mod_2_eq_odd)

lemma bits_awr: "awr xs i (x AND 1) = Some ys \<Longrightarrow> bits xs \<Longrightarrow> bits ys"
  using and_1_bit[of x] set_update_subset_insert[of xs "nat i" "x AND 1"]
  by (auto simp: bits_def awr_def split: if_splits)

lemma unpack_byte_pattern: "unpack_byte b u pat c = Some (pat', c') \<Longrightarrow> bits pat \<Longrightarrow> bits pat'"
  unfolding unpack_byte_def
  by (drule cford_inv[where I = "\<lambda>s. bits (fst s)"])
     (auto dest: bits_awr split: Option.bind_splits)

lemma unpack_pattern_bits: "unpack_pattern bytes d n = Some (pat, idx) \<Longrightarrow> bits pat"
proof -
  assume a: "unpack_pattern bytes d n = Some (pat, idx)"
  then obtain m ci idx' rm where "cfor 0 m (\<lambda>i (pattern, convert_idx, idx, remaining). do {
         byte_temp \<leftarrow> ard bytes idx;
         let conv_shift_until = (if remaining \<ge> 8 then 0 else 8 - remaining);
         (pattern, convert_idx) \<leftarrow> unpack_byte byte_temp conv_shift_until pattern convert_idx;
         Some (pattern, convert_idx, idx + 1, remaining - 8) })
       (replicate (nat n) 0, 0, d, n) = Some (pat, ci, idx', rm)"
    by (auto simp: unpack_pattern_def split: Option.bind_splits)
  then show ?thesis
    by (drule_tac cfor_inv[where I = "\<lambda>s. bits (fst s)"])
       (auto simp: bits_def[of "replicate _ _"] Let_def dest: unpack_byte_pattern split: Option.bind_splits)
qed

lemma parsed_pattern_bits:
  "generate_status_report_from_string b = Some rep \<Longrightarrow> bits (ACK_bit_pattern rep)"
  by (auto simp: generate_status_report_from_string_def split: Option.bind_splits)
     (erule unpack_pattern_bits)

end
