(* ===== verification/Node.thy ===== *)
theory Node
  imports Double Packet_Queue Packets Status_Report
begin

text \<open>
  The receiving node: \<^verbatim>\<open>node.c\<close> and \<^verbatim>\<open>main.c\<close> of \<^verbatim>\<open>node1\<close>. The globals are the record
  \<open>node_state\<close>; one iteration of each thread is a function on it, and a run is any interleaving of
  iterations. \<open>None\<close> is an access outside an array or a \<^verbatim>\<open>do ... while\<close> that never gets its packet
  sent. The array \<^verbatim>\<open>rcv_state\<close> of \<^verbatim>\<open>MAX_SEQ_NUMBER\<close> entries is a function read and written under a
  bounds check; \<^verbatim>\<open>double\<close> arithmetic is rounded by \<open>fl64\<close>, and \<^verbatim>\<open>ALPHA\<close> is the value of the
  literal \<^verbatim>\<open>0.05f\<close>. The counters printed for debugging do not wrap.
\<close>

unbundle bit_operations_syntax

section \<open>State\<close>

definition MAX_SEQ_NUMBER :: int where "MAX_SEQ_NUMBER = 500000"
definition max_ACK_bit_pattern :: int where "max_ACK_bit_pattern = 100000"
definition MAX_PROCESS_QUEUE :: int where "MAX_PROCESS_QUEUE = 1000000"
definition N_VLC :: int where "N_VLC = 1"
definition SELF_ID :: u16 where "SELF_ID = 1"
definition DUMMY_PACKET_NODE_ID :: u16 where "DUMMY_PACKET_NODE_ID = 99"
definition RS_ERROR_ID :: u16 where "RS_ERROR_ID = 98"
definition MTU_VALUE :: u16 where "MTU_VALUE = 100"
definition ALPHA :: real where "ALPHA = 13421773 / 268435456"

record node_status =
  rcv_seq :: int
  rcv_state :: "int \<Rightarrow> int"
  last_rcv_seq :: int

definition initialize_node_status :: "int \<Rightarrow> node_status" where
  "initialize_node_status max_sequence = \<lparr>rcv_seq = 0, rcv_state = (\<lambda>i. 0), last_rcv_seq = 0\<rparr>"

definition rcv_get :: "node_status \<Rightarrow> int \<Rightarrow> int option" where
  "rcv_get st i = (if 0 \<le> i \<and> i < MAX_SEQ_NUMBER then Some (rcv_state st i) else None)"

definition rcv_set :: "node_status \<Rightarrow> int \<Rightarrow> int \<Rightarrow> node_status option" where
  "rcv_set st i v =
     (if 0 \<le> i \<and> i < MAX_SEQ_NUMBER then Some (st\<lparr>rcv_state := (rcv_state st)(i := v)\<rparr>) else None)"

text \<open>The locals \<^verbatim>\<open>receive_vlc\<close> keeps from one packet to the next.\<close>

record vlc_rx_locals =
  curr_seq_number :: u32
  dropped_bytes :: int
  total_packet :: int
  uncorrected_bytes :: int
  is_first_received :: bool
  total_bytes :: int

record node_state =
  status :: node_status
  VLC_LQ :: "real list"
  Frame_Rx :: "int list"
  process_queue :: "node_packet fifo"
  buff :: "u8 list"
  rf_buf :: "u8 list"
  from_vlc :: int
  from_rf :: int
  rs_error_bytes :: int
  rxl :: vlc_rx_locals

definition init_vlc_quality :: "real list" where
  "init_vlc_quality = replicate (nat N_VLC) 0"

definition node_init :: "u8 list \<Rightarrow> node_state" where
  "node_init garbage =
     \<lparr>status = initialize_node_status MAX_SEQ_NUMBER, VLC_LQ = init_vlc_quality,
      Frame_Rx = replicate (nat N_VLC) 0, process_queue = fq_new MAX_PROCESS_QUEUE,
      buff = replicate 1024 0, rf_buf = garbage, from_vlc = 0, from_rf = 0, rs_error_bytes = 0,
      rxl = \<lparr>curr_seq_number = 0, dropped_bytes = 0, total_packet = 0, uncorrected_bytes = 0,
        is_first_received = True, total_bytes = 0\<rparr>\<rparr>"

section \<open>Threads\<close>

text \<open>The statistics \<^verbatim>\<open>receive_vlc\<close> keeps on the sequence numbers. The product is taken and added in
  unsigned arithmetic and stored in an \<^verbatim>\<open>int\<close>.\<close>

definition count_dropped :: "u32 \<Rightarrow> u16 \<Rightarrow> vlc_rx_locals \<Rightarrow> vlc_rx_locals" where
  "count_dropped seq packet_length l =
     (let l = (if is_first_received l then l\<lparr>curr_seq_number := seq, is_first_received := False\<rparr>
               else if uint (curr_seq_number l) = MAX_SEQ_NUMBER - 1 then
                 (if seq \<noteq> 0
                  then l\<lparr>dropped_bytes := sint (word_of_int (dropped_bytes l) + seq * ucast packet_length :: u32)\<rparr>
                  else l)
               else if seq \<noteq> curr_seq_number l + 1
               then l\<lparr>dropped_bytes := dropped_bytes l + uint packet_length\<rparr>
               else l)
      in l\<lparr>curr_seq_number := seq, total_bytes := total_bytes l + uint packet_length\<rparr>)"

text \<open>One iteration of \<^verbatim>\<open>receive_vlc\<close>: \<open>rx\<close> is what \<^verbatim>\<open>recvfrom\<close> delivers.\<close>

definition receive_vlc :: "u8 list option \<Rightarrow> node_state \<Rightarrow> node_state option" where
  "receive_vlc rx s =
    (let (vlc_bytes, b) = recvfrom rx (buff s); s = s\<lparr>buff := b\<rparr> in
     if vlc_bytes > 0 then do {
       b1 \<leftarrow> ard b 1;
       b0 \<leftarrow> ard b 0;
       let packet_length = (push_bit 8 (ucast b1) + ucast b0 :: u16);
       if packet_length > 0 \<and> packet_length \<le> MTU_VALUE then do {
         arrived_packet \<leftarrow> generate_from_bytes b;
         let s = s\<lparr>rxl := (rxl s)\<lparr>total_packet := total_packet (rxl s) + 1\<rparr>\<rparr>;
         if np_node_id arrived_packet = SELF_ID \<or> np_node_id arrived_packet = DUMMY_PACKET_NODE_ID
           \<or> np_node_id arrived_packet = RS_ERROR_ID then do {
           s \<leftarrow> (if np_vlc_id arrived_packet > 0 \<and> uint (np_vlc_id arrived_packet) \<le> N_VLC
                then do {
                  fr \<leftarrow> awr (Frame_Rx s) (uint (np_vlc_id arrived_packet) - 1) 1;
                  Some (s\<lparr>Frame_Rx := fr\<rparr>) }
                else Some s);
           if np_node_id arrived_packet = SELF_ID \<or> np_node_id arrived_packet = RS_ERROR_ID then do {
             (s, arrived_packet) \<leftarrow>
               (if np_node_id arrived_packet = RS_ERROR_ID then do {
                  curr_num_error \<leftarrow> rd_int (np_data arrived_packet) 0;
                  let s = (if curr_num_error < 0
                           then s\<lparr>rxl := (rxl s)\<lparr>uncorrected_bytes := uncorrected_bytes (rxl s) - curr_num_error\<rparr>\<rparr>
                           else s\<lparr>rs_error_bytes := rs_error_bytes s + curr_num_error\<rparr>);
                  Some (s, arrived_packet\<lparr>np_node_id := SELF_ID\<rparr>) }
                else Some (s, arrived_packet));
             let s = s\<lparr>process_queue := snd (fq_push arrived_packet (process_queue s))\<rparr>;
             let s = s\<lparr>from_vlc := from_vlc s + 1\<rparr>;
             Some (s\<lparr>rxl := count_dropped (np_seq_number arrived_packet) packet_length (rxl s)\<rparr>) }
           else Some s }
         else Some s }
       else Some s }
     else Some s)"

definition receive_rf :: "u8 list option \<Rightarrow> node_state \<Rightarrow> node_state option" where
  "receive_rf rx s =
    (let (numbytes, b) = recvfrom rx (rf_buf s); s = s\<lparr>rf_buf := b\<rparr> in
     if is_from_gateway b then do {
       arrived_packet \<leftarrow> rf_arrived_packet (drop (nat ETHER_HDR) b);
       let s = s\<lparr>process_queue := snd (fq_push arrived_packet (process_queue s))\<rparr>;
       Some (s\<lparr>from_rf := from_rf s + 1\<rparr>) }
     else Some s)"

text \<open>The loop \<^verbatim>\<open>while (rcv_state[rcv_seq] == 1) rcv_seq += 1\<close>.\<close>

function advance_rcv_seq :: "node_status \<Rightarrow> node_status option" where
  "advance_rcv_seq st =
     (if 0 \<le> rcv_seq st \<and> rcv_seq st < MAX_SEQ_NUMBER then
        if rcv_state st (rcv_seq st) = 1 then advance_rcv_seq (st\<lparr>rcv_seq := rcv_seq st + 1\<rparr>)
        else Some st
      else None)"
  by pat_completeness auto
termination
  by (relation "measure (\<lambda>st. nat (MAX_SEQ_NUMBER - rcv_seq st))") auto

declare advance_rcv_seq.simps [simp del]

definition process_packet :: "node_packet \<Rightarrow> node_status \<Rightarrow> node_status option" where
  "process_packet processed_data st = do {
     let i = sint (np_seq_number processed_data);
     st \<leftarrow> (if i \<ge> rcv_seq st then rcv_set st i 1 else Some st);
     let st = (if i > last_rcv_seq st then st\<lparr>last_rcv_seq := i\<rparr> else st);
     st \<leftarrow> advance_rcv_seq st;
     Some (if last_rcv_seq st - rcv_seq st + 1 > max_ACK_bit_pattern
           then st\<lparr>rcv_seq := last_rcv_seq st - max_ACK_bit_pattern + 1\<rparr> else st) }"

definition process_data :: "node_state \<Rightarrow> node_state option" where
  "process_data s =
     (if \<not> fq_empty (process_queue s) then
        (let (temp, q) = fq_pop (process_queue s); s = s\<lparr>process_queue := q\<rparr> in
         case temp of
           None \<Rightarrow> Some s
         | Some processed_data \<Rightarrow> do {
             st \<leftarrow> process_packet processed_data (status s);
             Some (s\<lparr>status := st\<rparr>) })
      else Some s)"

text \<open>The moving average of the link quality; the flags of all transmitters are cleared inside the
  loop over the transmitters.\<close>

definition quality_loop :: "int \<Rightarrow> real list \<times> int list \<Rightarrow> (real list \<times> int list) option" where
  "quality_loop n = cfor 0 n (\<lambda>i (lq, frame_rx). do {
     q \<leftarrow> ard lq i;
     f \<leftarrow> ard frame_rx i;
     lq \<leftarrow> awr lq i (fl64 (fl64 (fl64 (1 - ALPHA) * q) + fl64 (ALPHA * of_int f)));
     Some (lq, replicate (nat n) 0) })"

definition vlc_quality_measurement :: "node_state \<Rightarrow> node_state option" where
  "vlc_quality_measurement s = do {
     (lq, fr) \<leftarrow> quality_loop N_VLC (VLC_LQ s, Frame_Rx s);
     Some (s\<lparr>VLC_LQ := lq, Frame_Rx := fr\<rparr>) }"

text \<open>\<^verbatim>\<open>(int) x\<close> of a \<^verbatim>\<open>double\<close>.\<close>

definition c_trunc :: "real \<Rightarrow> int" where
  "c_trunc x = (if 0 \<le> x then floor x else ceiling x)"

text \<open>The report frame. The entries of the pattern are read from \<^verbatim>\<open>rcv_state\<close> behind \<^verbatim>\<open>rcv_seq\<close>;
  \<open>tries\<close> are the results of the successive \<^verbatim>\<open>sendto\<close> calls of the \<^verbatim>\<open>do ... while\<close>.\<close>

definition report_entry :: "node_status \<Rightarrow> int \<Rightarrow> u8 option" where
  "report_entry st j = map_option word_of_int (rcv_get st (rcv_seq st + j))"

definition build_report :: "u8 list \<Rightarrow> node_state \<Rightarrow> (u8 list \<times> int) option" where
  "build_report rf_if_mac s = do {
     sendbuf \<leftarrow> eth_header rf_if_mac RF_MAC;
     let tx_len = ETHER_HDR;
     sendbuf \<leftarrow> awr sendbuf tx_len (ucast SELF_ID AND 0xff);
     let tx_len = tx_len + 1;
     sendbuf \<leftarrow> cput sendbuf tx_len (le_int (rcv_seq (status s)));
     let tx_len = tx_len + 4;
     let pattern_len = last_rcv_seq (status s) - rcv_seq (status s) + 1;
     sendbuf \<leftarrow> cput sendbuf tx_len (le_int pattern_len);
     let tx_len = tx_len + 4;
     (sendbuf, tx_len) \<leftarrow> pack_pattern (report_entry (status s)) pattern_len sendbuf tx_len;
     sendbuf \<leftarrow> awr sendbuf tx_len (word_of_int N_VLC AND 0xff);
     let tx_len = tx_len + 1;
     cfor 0 N_VLC (\<lambda>i (sendbuf, tx_len). do {
       sendbuf \<leftarrow> awr sendbuf tx_len (word_of_int (i + 1) AND 0xff);
       let tx_len = tx_len + 1;
       q \<leftarrow> ard (VLC_LQ s) i;
       let in_255_range = c_trunc (fl64 (q * 255));
       sendbuf \<leftarrow> awr sendbuf tx_len (word_of_int in_255_range AND 0xff);
       Some (sendbuf, tx_len + 1) }) (sendbuf, tx_len) }"

definition send_report :: "int list \<Rightarrow> u8 list \<Rightarrow> node_state \<Rightarrow> u8 list option" where
  "send_report tries rf_if_mac s = do {
     (sendbuf, tx_len) \<leftarrow> build_report rf_if_mac s;
     ok \<leftarrow> write_until tries;
     Some (take (nat tx_len) sendbuf) }"

section \<open>Advancing the acknowledgement number\<close>

lemma advance_Some:
  assumes "0 \<le> rcv_seq st" and "rcv_seq st \<le> j" and "j < MAX_SEQ_NUMBER" and "rcv_state st j \<noteq> 1"
  shows "\<exists>r. advance_rcv_seq st = Some (st\<lparr>rcv_seq := r\<rparr>) \<and> rcv_seq st \<le> r \<and> r \<le> j
    \<and> rcv_state st r \<noteq> 1 \<and> (\<forall>k. rcv_seq st \<le> k \<longrightarrow> k < r \<longrightarrow> rcv_state st k = 1)"
  using assms
proof (induction st rule: advance_rcv_seq.induct)
  case (1 st)
  have lt: "rcv_seq st < MAX_SEQ_NUMBER" using "1.prems" by linarith
  show ?case
  proof (cases "rcv_state st (rcv_seq st) = 1")
    case True
    then have "rcv_seq st \<noteq> j" using "1.prems" by auto
    let ?s = "st\<lparr>rcv_seq := rcv_seq st + 1\<rparr>"
    have "\<exists>r. advance_rcv_seq ?s = Some (?s\<lparr>rcv_seq := r\<rparr>) \<and> rcv_seq ?s \<le> r \<and> r \<le> j
      \<and> rcv_state ?s r \<noteq> 1 \<and> (\<forall>k. rcv_seq ?s \<le> k \<longrightarrow> k < r \<longrightarrow> rcv_state ?s k = 1)"
      using "1.prems" lt True \<open>rcv_seq st \<noteq> j\<close> by (intro "1.IH") auto
    then obtain r where r: "advance_rcv_seq ?s = Some (st\<lparr>rcv_seq := r\<rparr>)" "rcv_seq st + 1 \<le> r" "r \<le> j"
      "rcv_state st r \<noteq> 1" "\<And>k. rcv_seq st + 1 \<le> k \<Longrightarrow> k < r \<Longrightarrow> rcv_state st k = 1" by auto
    have "rcv_state st k = 1" if "rcv_seq st \<le> k" "k < r" for k
      using that True r(5)[of k] by (cases "k = rcv_seq st") auto
    with r(1-4) show ?thesis
      using "1.prems"(1) lt True by (subst advance_rcv_seq.simps) auto
  next
    case False
    then show ?thesis
      using "1.prems"(1,2) lt by (subst advance_rcv_seq.simps) (intro exI[of _ "rcv_seq st"], simp)
  qed
qed

lemma advance_None:
  assumes "\<And>k. rcv_seq st \<le> k \<Longrightarrow> k < MAX_SEQ_NUMBER \<Longrightarrow> rcv_state st k = 1"
  shows "advance_rcv_seq st = None"
  using assms
proof (induction st rule: advance_rcv_seq.induct)
  case (1 st)
  show ?case
  proof (cases "0 \<le> rcv_seq st \<and> rcv_seq st < MAX_SEQ_NUMBER")
    case True
    with "1.prems" have "rcv_state st (rcv_seq st) = 1" by auto
    moreover from this True "1.prems" have "advance_rcv_seq (st\<lparr>rcv_seq := rcv_seq st + 1\<rparr>) = None"
      by (intro "1.IH") auto
    ultimately show ?thesis using True by (subst advance_rcv_seq.simps) simp
  next
    case False
    then show ?thesis by (subst advance_rcv_seq.simps) auto
  qed
qed

lemma advance_SomeD:
  assumes "advance_rcv_seq st = Some st'"
  shows "\<exists>r. st' = st\<lparr>rcv_seq := r\<rparr> \<and> 0 \<le> rcv_seq st \<and> rcv_seq st \<le> r \<and> r < MAX_SEQ_NUMBER
    \<and> rcv_state st r \<noteq> 1 \<and> (\<forall>k. rcv_seq st \<le> k \<longrightarrow> k < r \<longrightarrow> rcv_state st k = 1)"
proof -
  have "0 \<le> rcv_seq st"
    using assms by (subst (asm) advance_rcv_seq.simps) (auto split: if_splits)
  moreover obtain j where "rcv_seq st \<le> j" "j < MAX_SEQ_NUMBER" "rcv_state st j \<noteq> 1"
    using advance_None[of st] assms by fastforce
  ultimately show ?thesis using advance_Some[of st j] assms by force
qed

section \<open>The status invariant\<close>

text \<open>The acknowledgement number never passes the largest sequence number by more than one, the
  window between them is bounded, and only entries up to the largest sequence number are set.\<close>

definition status_ok :: "node_status \<Rightarrow> bool" where
  "status_ok st \<longleftrightarrow> 0 \<le> rcv_seq st \<and> rcv_seq st \<le> last_rcv_seq st + 1
     \<and> 0 \<le> last_rcv_seq st \<and> last_rcv_seq st < MAX_SEQ_NUMBER
     \<and> last_rcv_seq st - rcv_seq st + 1 \<le> max_ACK_bit_pattern
     \<and> (\<forall>j. rcv_state st j = 0 \<or> rcv_state st j = 1)
     \<and> (\<forall>j. rcv_state st j = 1 \<longrightarrow> 0 \<le> j \<and> j \<le> last_rcv_seq st)"

lemma status_ok_init: "status_ok (initialize_node_status n)"
  by (simp add: status_ok_def initialize_node_status_def MAX_SEQ_NUMBER_def max_ACK_bit_pattern_def)

text \<open>The status after the packet \<open>i\<close> was entered, before the loop.\<close>

definition enter_seq :: "int \<Rightarrow> node_status \<Rightarrow> node_status" where
  "enter_seq i st = st\<lparr>rcv_state := (if i \<ge> rcv_seq st then (rcv_state st)(i := 1) else rcv_state st),
     last_rcv_seq := max (last_rcv_seq st) i\<rparr>"

lemma process_packet_enter:
  assumes "status_ok st" and "sint (np_seq_number p) < MAX_SEQ_NUMBER"
  shows "process_packet p st = do {
     st \<leftarrow> advance_rcv_seq (enter_seq (sint (np_seq_number p)) st);
     Some (if last_rcv_seq st - rcv_seq st + 1 > max_ACK_bit_pattern
           then st\<lparr>rcv_seq := last_rcv_seq st - max_ACK_bit_pattern + 1\<rparr> else st) }"
proof -
  let ?i = "sint (np_seq_number p)"
  have r: "0 \<le> rcv_seq st" using assms(1) by (simp add: status_ok_def)
  have e: "enter_seq ?i st = (let st = (if ?i \<ge> rcv_seq st then st\<lparr>rcv_state := (rcv_state st)(?i := 1)\<rparr> else st)
      in if ?i > last_rcv_seq st then st\<lparr>last_rcv_seq := ?i\<rparr> else st)"
    by (simp add: enter_seq_def Let_def max_def)
  show ?thesis
    using assms(2) r by (simp add: process_packet_def e rcv_set_def Let_def)
qed

lemma process_packet_bound:
  assumes "process_packet p st = Some st'" and "status_ok st"
  shows "sint (np_seq_number p) < MAX_SEQ_NUMBER"
proof (rule ccontr)
  assume "\<not> sint (np_seq_number p) < MAX_SEQ_NUMBER"
  with assms(2) have "rcv_set st (sint (np_seq_number p)) 1 = None" "sint (np_seq_number p) \<ge> rcv_seq st"
    by (auto simp: rcv_set_def status_ok_def)
  with assms(1) show False by (simp add: process_packet_def)
qed

lemma process_packet_ok:
  assumes "status_ok st" and "process_packet p st = Some st'"
  shows "status_ok st' \<and> rcv_seq st \<le> rcv_seq st' \<and> last_rcv_seq st \<le> last_rcv_seq st'
    \<and> (\<forall>j. rcv_state st j = 1 \<longrightarrow> rcv_state st' j = 1)"
proof -
  let ?i = "sint (np_seq_number p)"
  let ?e = "enter_seq ?i st"
  have i: "?i < MAX_SEQ_NUMBER" using process_packet_bound[OF assms(2,1)] .
  from assms process_packet_enter[OF assms(1) i] obtain st1 where
    st1: "advance_rcv_seq ?e = Some st1" and
    st': "st' = (if last_rcv_seq st1 - rcv_seq st1 + 1 > max_ACK_bit_pattern
           then st1\<lparr>rcv_seq := last_rcv_seq st1 - max_ACK_bit_pattern + 1\<rparr> else st1)"
    by (auto split: Option.bind_splits)
  from advance_SomeD[OF st1] obtain r where r: "st1 = ?e\<lparr>rcv_seq := r\<rparr>" "rcv_seq st \<le> r"
    "r < MAX_SEQ_NUMBER" "\<And>k. rcv_seq st \<le> k \<Longrightarrow> k < r \<Longrightarrow> rcv_state ?e k = 1"
    by (auto simp: enter_seq_def)
  have le: "0 \<le> rcv_seq st" using assms(1) by (simp add: status_ok_def)
  have set1: "rcv_state ?e j = 1 \<Longrightarrow> 0 \<le> j \<and> j \<le> max (last_rcv_seq st) ?i" for j
    using assms(1) le by (force simp: enter_seq_def status_ok_def split: if_splits)
  have "r \<le> max (last_rcv_seq st) ?i + 1"
    using r(2) r(4)[of "r - 1"] set1[of "r - 1"] assms(1) by (cases "r = rcv_seq st") (auto simp: status_ok_def)
  moreover have "rcv_state ?e j = 0 \<or> rcv_state ?e j = 1" for j
    using assms(1) by (auto simp: enter_seq_def status_ok_def)
  moreover have "rcv_state st j = 1 \<Longrightarrow> rcv_state ?e j = 1" for j by (simp add: enter_seq_def)
  moreover have "last_rcv_seq ?e = max (last_rcv_seq st) ?i" by (simp add: enter_seq_def)
  ultimately show ?thesis
    using r(1,2) set1 le i assms(1) unfolding st' status_ok_def
    by (auto simp: max_ACK_bit_pattern_def)
qed

text \<open>A packet is processed without a fault as long as some other one is still missing.\<close>

lemma process_packet_total:
  assumes ok: "status_ok st" and i: "sint (np_seq_number p) < MAX_SEQ_NUMBER"
    and j: "rcv_seq st \<le> j" "j < MAX_SEQ_NUMBER" "j \<noteq> sint (np_seq_number p)" "rcv_state st j \<noteq> 1"
  shows "\<exists>st'. process_packet p st = Some st'"
proof -
  let ?e = "enter_seq (sint (np_seq_number p)) st"
  have "0 \<le> rcv_seq ?e" "rcv_seq ?e \<le> j" "rcv_state ?e j \<noteq> 1"
    using ok j by (simp_all add: enter_seq_def status_ok_def)
  from advance_Some[OF this(1,2) j(2) this(3)] show ?thesis
    unfolding process_packet_enter[OF ok i] by auto
qed

text \<open>The last missing one makes the loop run past the array.\<close>

lemma process_packet_last:
  assumes ok: "status_ok st" and i: "rcv_seq st \<le> sint (np_seq_number p)"
    and full: "\<And>j. rcv_seq st \<le> j \<Longrightarrow> j < MAX_SEQ_NUMBER \<Longrightarrow> j \<noteq> sint (np_seq_number p) \<Longrightarrow>
      rcv_state st j = 1"
  shows "process_packet p st = None"
proof (cases "sint (np_seq_number p) < MAX_SEQ_NUMBER")
  case True
  have "advance_rcv_seq (enter_seq (sint (np_seq_number p)) st) = None"
    using i full by (intro advance_None) (simp add: enter_seq_def)
  then show ?thesis unfolding process_packet_enter[OF ok True] by simp
next
  case False
  then show ?thesis using process_packet_bound[OF _ ok] by (cases "process_packet p st") auto
qed

section \<open>Link quality\<close>

lemma quality_loop_1:
  "quality_loop 1 ([q], [f]) = Some ([fl64 (fl64 (fl64 (1 - ALPHA) * q) + fl64 (ALPHA * of_int f))], [0])"
  by (simp add: quality_loop_def cfor_step cfor_end awr_def)

text \<open>With two transmitters the flag of the second one is cleared before it is read.\<close>

lemma quality_loop_2:
  "quality_loop 2 ([p, q], [f, g])
    = Some ([fl64 (fl64 (fl64 (1 - ALPHA) * p) + fl64 (ALPHA * of_int f)), fl64 (fl64 (fl64 (1 - ALPHA) * q))], [0, 0])"
  by (simp add: quality_loop_def cfor_step cfor_end awr_def ard_def numeral_2_eq_2)

lemma ALPHA_range: "0 < ALPHA" "ALPHA < 1"
  by (simp_all add: ALPHA_def)

text \<open>Rounding keeps the average between 0 and 1, as the bounds of the summands are represented.\<close>

lemma rounded_bounds:
  assumes "0 \<le> x"
  shows "x \<le> 1 - ALPHA \<Longrightarrow> fl64 x \<le> 1 - ALPHA" and "x \<le> ALPHA \<Longrightarrow> fl64 x \<le> ALPHA"
    and "x \<le> 1 \<Longrightarrow> fl64 x \<le> 1" and "x \<le> 255 \<Longrightarrow> fl64 x \<le> 255"
proof -
  have p: "2 powr (- 53 :: real) = 1 / 2 ^ 53" "2 powr (- 57 :: real) = 1 / 2 ^ 57" "2 powr (- 4 :: real) = 1 / 2 ^ 4"
    "2 powr (- 52 :: real) = 1 / 2 ^ 52" "2 powr (- 45 :: real) = 1 / 2 ^ 45" by (simp_all only: powr_neg_numeral zero_less_numeral)
  show "x \<le> 1 - ALPHA \<Longrightarrow> fl64 x \<le> 1 - ALPHA"
    by (rule fl64_le[OF assms, of _ "255013683 * 2 ^ 25" "- 1"]) (simp_all add: ALPHA_def p(1))
  show "x \<le> ALPHA \<Longrightarrow> fl64 x \<le> ALPHA"
    by (rule fl64_le[OF assms, of _ "13421773 * 2 ^ 29" "- 5"]) (simp_all add: ALPHA_def p(2,3))
  show "x \<le> 1 \<Longrightarrow> fl64 x \<le> 1"
    by (rule fl64_le[OF assms, of _ "2 ^ 52" 0]) (simp_all add: p(4))
  show "x \<le> 255 \<Longrightarrow> fl64 x \<le> 255"
    by (rule fl64_le[OF assms, of _ "255 * 2 ^ 45" 7]) (simp_all add: p(5))
qed

lemma average_range:
  assumes "0 \<le> q" "q \<le> 1" "0 \<le> f" "f \<le> 1"
  shows "0 \<le> fl64 (fl64 (fl64 (1 - ALPHA) * q) + fl64 (ALPHA * f))" "fl64 (fl64 (fl64 (1 - ALPHA) * q) + fl64 (ALPHA * f)) \<le> 1"
proof -
  have a: "0 \<le> fl64 (1 - ALPHA)" "fl64 (1 - ALPHA) \<le> 1 - ALPHA"
    using ALPHA_range by (auto intro: fl64_nonneg rounded_bounds(1))
  have p: "0 \<le> fl64 (1 - ALPHA) * q" "fl64 (1 - ALPHA) * q \<le> 1 - ALPHA"
    using assms a ALPHA_range mult_mono[of "fl64 (1 - ALPHA)" "1 - ALPHA" q 1] by simp_all
  have r: "0 \<le> ALPHA * f" "ALPHA * f \<le> ALPHA" using assms ALPHA_range by (simp_all add: mult_left_le)
  have "0 \<le> fl64 (fl64 (1 - ALPHA) * q) + fl64 (ALPHA * f)" "fl64 (fl64 (1 - ALPHA) * q) + fl64 (ALPHA * f) \<le> 1"
    using fl64_nonneg[OF p(1)] fl64_nonneg[OF r(1)] rounded_bounds(1)[OF p] rounded_bounds(2)[OF r] by linarith+
  then show "0 \<le> fl64 (fl64 (fl64 (1 - ALPHA) * q) + fl64 (ALPHA * f))" "fl64 (fl64 (fl64 (1 - ALPHA) * q) + fl64 (ALPHA * f)) \<le> 1"
    using fl64_nonneg rounded_bounds(3) by blast+
qed

section \<open>Runs of the node\<close>

datatype node_event =
    Receive_vlc "u8 list option"
  | Receive_rf "u8 list option"
  | Process_data
  | Quality
  | Send_report "int list" "u8 list"

fun node_exec :: "node_event \<Rightarrow> node_state \<Rightarrow> node_state option" where
  "node_exec (Receive_vlc rx) s = receive_vlc rx s"
| "node_exec (Receive_rf rx) s = receive_rf rx s"
| "node_exec Process_data s = process_data s"
| "node_exec Quality s = vlc_quality_measurement s"
| "node_exec (Send_report tries mac) s = do { frame \<leftarrow> send_report tries mac s; Some s }"

inductive node_reach :: "node_state \<Rightarrow> bool" where
  node_reach_init: "length garbage = 1024 \<Longrightarrow> node_reach (node_init garbage)"
| node_reach_step: "node_reach s \<Longrightarrow> node_exec ev s = Some s' \<Longrightarrow> node_reach s'"

definition node_inv :: "node_state \<Rightarrow> bool" where
  "node_inv s \<longleftrightarrow> status_ok (status s) \<and> fq_ok (process_queue s)
     \<and> (\<exists>q. VLC_LQ s = [q] \<and> 0 \<le> q \<and> q \<le> 1) \<and> (\<exists>f. Frame_Rx s = [f] \<and> (f = 0 \<or> f = 1))
     \<and> length (buff s) = 1024 \<and> length (rf_buf s) = 1024"

lemma length_recvfrom: "length (snd (recvfrom rx b)) = length b"
  by (auto simp: recvfrom_def Let_def split: option.split)

lemma node_inv_init: "length garbage = 1024 \<Longrightarrow> node_inv (node_init garbage)"
  by (simp add: node_inv_def node_init_def status_ok_init init_vlc_quality_def N_VLC_def)

lemma receive_vlc_inv: "node_inv s \<Longrightarrow> receive_vlc rx s = Some s' \<Longrightarrow> node_inv s'"
  using length_recvfrom[of rx "buff s"]
  by (auto simp: receive_vlc_def node_inv_def Let_def N_VLC_def awr_def
      split: prod.splits if_splits Option.bind_splits)

lemma receive_rf_inv: "node_inv s \<Longrightarrow> receive_rf rx s = Some s' \<Longrightarrow> node_inv s'"
  using length_recvfrom[of rx "rf_buf s"]
  by (auto simp: receive_rf_def node_inv_def Let_def split: prod.splits if_splits Option.bind_splits)

lemma process_data_inv: "node_inv s \<Longrightarrow> process_data s = Some s' \<Longrightarrow> node_inv s'"
  using process_packet_ok[of "status s"]
  by (auto simp: process_data_def node_inv_def Let_def dest: fq_pop_ok
      split: prod.splits if_splits Option.bind_splits option.splits)

lemma quality_inv: "node_inv s \<Longrightarrow> vlc_quality_measurement s = Some s' \<Longrightarrow> node_inv s'"
  using average_range[of _ 0] average_range[of _ 1]
  by (auto simp: vlc_quality_measurement_def node_inv_def N_VLC_def quality_loop_1)

lemma node_exec_inv: "node_inv s \<Longrightarrow> node_exec ev s = Some s' \<Longrightarrow> node_inv s'"
  by (cases ev) (auto intro: receive_vlc_inv receive_rf_inv process_data_inv quality_inv split: Option.bind_splits)

lemma node_reach_inv: "node_reach s \<Longrightarrow> node_inv s"
  by (induction rule: node_reach.induct) (blast intro: node_inv_init node_exec_inv)+

section \<open>The report\<close>

text \<open>The pattern and the link information of a state, as the gateway will read them.\<close>

definition report_pattern :: "node_status \<Rightarrow> u8 list" where
  "report_pattern st = map (\<lambda>k. word_of_int (rcv_state st (rcv_seq st + int k)))
     [0..<nat (last_rcv_seq st - rcv_seq st + 1)]"

definition report_links :: "real list \<Rightarrow> vlc_information list" where
  "report_links lq = map (\<lambda>i. \<lparr>vlc_tx_id = int i + 1, vlc_link_quality = c_trunc (fl64 (lq ! i * 255))\<rparr>) [0..<length lq]"

lemma length_report_pattern:
  "status_ok st \<Longrightarrow> int (length (report_pattern st)) = last_rcv_seq st - rcv_seq st + 1"
  by (simp add: report_pattern_def status_ok_def)

lemma report_entry_pattern:
  assumes "status_ok st" and "k < length (report_pattern st)"
  shows "report_entry st (int k) = Some (report_pattern st ! k)"
proof -
  have "0 \<le> rcv_seq st + int k" "rcv_seq st + int k < MAX_SEQ_NUMBER"
    using assms length_report_pattern[OF assms(1)] by (auto simp: status_ok_def)
  then show ?thesis using assms(2) by (simp add: report_entry_def rcv_get_def report_pattern_def)
qed

lemma report_link_loop:
  assumes "length lq = 1"
  shows "cfor 0 1 (\<lambda>i (sendbuf, tx_len). do {
       sendbuf \<leftarrow> awr sendbuf tx_len (word_of_int (i + 1) AND 0xff :: u8);
       let tx_len = tx_len + 1;
       q \<leftarrow> ard lq i;
       let in_255_range = c_trunc (fl64 (q * 255));
       sendbuf \<leftarrow> awr sendbuf tx_len (word_of_int in_255_range AND 0xff);
       Some (sendbuf, tx_len + 1) }) st
   = cfor 0 (int (length (report_links lq))) (\<lambda>i (buff, idx). do {
         v \<leftarrow> ard (report_links lq) i;
         buff \<leftarrow> awr buff idx (word_of_int (vlc_tx_id v) AND 0xff);
         let idx = idx + 1;
         buff \<leftarrow> awr buff idx (word_of_int (vlc_link_quality v) AND 0xff);
         Some (buff, idx + 1) }) st"
proof (rule cfor_cong)
  obtain q where q: "lq = [q]" using assms by (cases lq) auto
  fix k t assume "0 \<le> k" "k < int (length (report_links lq))"
  then have k: "k = 0" using q by (simp add: report_links_def)
  show "(case t of (sendbuf, tx_len) \<Rightarrow> do {
       sendbuf \<leftarrow> awr sendbuf tx_len (word_of_int (k + 1) AND 0xff :: u8);
       let tx_len = tx_len + 1;
       q \<leftarrow> ard lq k;
       let in_255_range = c_trunc (fl64 (q * 255));
       sendbuf \<leftarrow> awr sendbuf tx_len (word_of_int in_255_range AND 0xff);
       Some (sendbuf, tx_len + 1) })
    = (case t of (bf, idx) \<Rightarrow> do {
         v \<leftarrow> ard (report_links lq) k;
         bf \<leftarrow> awr bf idx (word_of_int (vlc_tx_id v) AND 0xff);
         let idx = idx + 1;
         bf \<leftarrow> awr bf idx (word_of_int (vlc_link_quality v) AND 0xff);
         Some (bf, idx + 1) })"
    by (simp add: q k report_links_def Let_def)
qed (use assms in \<open>simp_all add: report_links_def\<close>)

text \<open>The buffer in front of the pattern.\<close>

definition report_head :: "u8 list \<Rightarrow> node_status \<Rightarrow> u8 list" where
  "report_head mac st = RF_MAC @ take 6 mac @ ETH_P_ALL_be @ [1] @ le_int (rcv_seq st)
     @ le_int (last_rcv_seq st - rcv_seq st + 1)"

lemma build_report_head:
  assumes "6 \<le> length mac"
  shows "build_report mac s = do {
     (sendbuf, tx_len) \<leftarrow> pack_pattern (report_entry (status s))
       (last_rcv_seq (status s) - rcv_seq (status s) + 1)
       (report_head mac (status s) @ replicate 1001 0) 23;
     sendbuf \<leftarrow> awr sendbuf tx_len (word_of_int N_VLC AND 0xff);
     let tx_len = tx_len + 1;
     cfor 0 N_VLC (\<lambda>i (sendbuf, tx_len). do {
       sendbuf \<leftarrow> awr sendbuf tx_len (word_of_int (i + 1) AND 0xff);
       let tx_len = tx_len + 1;
       q \<leftarrow> ard (VLC_LQ s) i;
       let in_255_range = c_trunc (fl64 (q * 255));
       sendbuf \<leftarrow> awr sendbuf tx_len (word_of_int in_255_range AND 0xff);
       Some (sendbuf, tx_len + 1) }) (sendbuf, tx_len) }"
proof -
  have w0: "awr (RF_MAC @ take 6 mac @ ETH_P_ALL_be @ replicate 1010 0) 14 v
      = Some (RF_MAC @ take 6 mac @ ETH_P_ALL_be @ v # replicate 1009 0)" for v
    using awr_here[of 14 "RF_MAC @ take 6 mac @ ETH_P_ALL_be" "replicate 1010 0" v] assms by simp
  have w1: "cput (RF_MAC @ take 6 mac @ ETH_P_ALL_be @ v # replicate 1009 0) 15 (le_int a)
      = Some (RF_MAC @ take 6 mac @ ETH_P_ALL_be @ v # le_int a @ replicate 1005 0)" for v a
    using assms by (simp add: bytes_simps)
  have w2: "cput (RF_MAC @ take 6 mac @ ETH_P_ALL_be @ v # le_int a @ replicate 1005 0) 19 (le_int b)
      = Some (RF_MAC @ take 6 mac @ ETH_P_ALL_be @ v # le_int a @ le_int b @ replicate 1001 0)" for v a b
    using assms by (simp add: bytes_simps)
  have one: "ucast SELF_ID AND 0xff = (1 :: u8)" by (simp add: SELF_ID_def)
  show ?thesis
    using assms
    by (simp add: build_report_def eth_header_bytes ETHER_HDR_def w0 w1 w2 one report_head_def Let_def)
qed

lemma send_report_frame:
  assumes inv: "node_inv s" and mac: "6 \<le> length mac" and sent: "\<exists>n\<in>set tries. 0 \<le> n"
    and fits: "last_rcv_seq (status s) - rcv_seq (status s) + 1 \<le> 7984"
  shows "send_report tries mac s = Some (RF_MAC @ take 6 mac @ ETH_P_ALL_be
     @ report_bytes 1 (rcv_seq (status s)) (report_pattern (status s)) (report_links (VLC_LQ s)))"
proof -
  let ?st = "status s" and ?H = "report_head mac (status s)"
  let ?pat = "report_pattern (status s)" and ?vs = "report_links (VLC_LQ s)"
  have ok: "status_ok ?st" and lq: "length (VLC_LQ s) = 1" using inv by (auto simp: node_inv_def)
  have vs: "length ?vs = 1" using lq by (simp add: report_links_def)
  have n: "last_rcv_seq ?st - rcv_seq ?st + 1 = int (length ?pat)"
    using length_report_pattern[OF ok] by simp
  have room: "(length ?pat + 7) div 8 + 1 + 2 * length ?vs \<le> 1001" using fits n vs by simp
  have H: "length ?H = 23" using mac by (simp add: report_head_def)
  have w: "write_until tries = Some 1" using sent by (induction tries) auto
  have "build_report mac s = Some (?H @ pattern_block ?pat @ [word_of_int N_VLC AND 0xff] @ vlc_bytes ?vs
      @ drop ((length ?pat + 7) div 8 + 1 + 2 * length ?vs) (replicate 1001 0),
      23 + int ((length ?pat + 7) div 8 + 1 + 2 * length ?vs))"
    unfolding build_report_head[OF mac] n N_VLC_def report_link_loop[OF lq]
    by (rule pack_report_tail) (use ok room H in \<open>auto simp: report_entry_pattern ard_Some\<close>)
  then show ?thesis
    using mac room
    by (simp add: send_report_def w report_head_def report_bytes_def N_VLC_def n vs nat_add_distrib
        nat_int_add take_Cons')
qed

text \<open>The window may hold far more entries than the send buffer has room for.\<close>

lemma send_report_overflow:
  assumes ok: "status_ok (status s)" and mac: "6 \<le> length mac"
    and big: "7984 < last_rcv_seq (status s) - rcv_seq (status s) + 1"
  shows "send_report tries mac s = None"
proof -
  let ?pat = "report_pattern (status s)" and ?H = "report_head mac (status s)"
  let ?c = "(length ?pat + 7) div 8"
  have n: "last_rcv_seq (status s) - rcv_seq (status s) + 1 = int (length ?pat)"
    using length_report_pattern[OF ok] by simp
  have c: "998 < ?c" using big n by simp
  have H: "length ?H = 23" using mac by (simp add: report_head_def)
  show ?thesis
  proof (cases "1001 < ?c")
    case True
    then have "pack_pattern (report_entry (status s)) (int (length ?pat)) (?H @ replicate 1001 0) 23 = None"
      using ok H by (intro pack_pattern_overflow) (simp_all add: report_entry_pattern)
    then show ?thesis by (simp add: send_report_def build_report_head[OF mac] n)
  next
    case False
    then obtain b where b: "pack_pattern (report_entry (status s)) (int (length ?pat)) (?H @ replicate 1001 0) 23
        = Some (b, 23 + int ?c)" "length b = 1024"
      using pack_pattern_bytes[of ?pat "report_entry (status s)" "replicate 1001 0" 23 ?H] ok H
      by (simp add: report_entry_pattern)
    have off: "awr (b'[i := v]) (25 + int ?c) w = None" if "length b' = 1024" for b' i and v w :: u8
      using that c by (simp add: awr_def)
    show ?thesis
      unfolding send_report_def build_report_head[OF mac] n b(1) using b(2) c
      by (auto simp: N_VLC_def cfor_step cfor_end Let_def off awr_def split: Option.bind_splits)
  qed
qed

section \<open>The report and the converter\<close>

text \<open>\<^verbatim>\<open>send_report\<close> does not call \<^verbatim>\<open>convert_report_packet_to_string\<close>: it repeats it on the state. The report it repeats it
  for.\<close>

definition state_report :: "node_state \<Rightarrow> status_report_packet" where
  "state_report s = \<lparr>sr_node_id = 1, ACK_number = rcv_seq (status s),
     pattern_length = last_rcv_seq (status s) - rcv_seq (status s) + 1, ACK_bit_pattern = report_pattern (status s),
     n_vlc = N_VLC, vlc_data = report_links (VLC_LQ s)\<rparr>"

lemma c_trunc_byte: "0 \<le> q \<Longrightarrow> q \<le> 1 \<Longrightarrow> byte_int (c_trunc (fl64 (q * 255)))"
proof -
  assume q: "0 \<le> q" "q \<le> 1"
  then have "0 \<le> fl64 (q * 255)" "fl64 (q * 255) \<le> 255" by (auto intro: fl64_nonneg rounded_bounds(4))
  then show ?thesis by (simp add: byte_int_def c_trunc_def floor_less_iff)
qed

lemma state_report_wf:
  assumes "node_inv s"
  shows "report_wf (state_report s)"
proof -
  from assms obtain q where q: "VLC_LQ s = [q]" "0 \<le> q" "q \<le> 1" and ok: "status_ok (status s)" by (auto simp: node_inv_def)
  have l: "report_links (VLC_LQ s) = [\<lparr>vlc_tx_id = 1, vlc_link_quality = c_trunc (fl64 (q * 255))\<rparr>]" by (simp add: report_links_def q(1))
  show ?thesis
    using ok length_report_pattern[OF ok] c_trunc_byte[OF q(2,3)] unfolding report_wf_def state_report_def l
    by (auto simp: byte_int_def c_int_def N_VLC_def status_ok_def MAX_SEQ_NUMBER_def)
qed

lemma send_report_converts:
  assumes inv: "node_inv s" and mac: "6 \<le> length mac" and sent: "\<exists>n\<in>set tries. 0 \<le> n" and buff: "length b0 = 1000"
    and fits: "last_rcv_seq (status s) - rcv_seq (status s) + 1 \<le> 7904"
  shows "\<exists>out n. convert_report_packet_to_string b0 (state_report s) N_VLC = Some (out, n)
    \<and> send_report tries mac s = Some (RF_MAC @ take 6 mac @ ETH_P_ALL_be @ take (nat n) out)"
proof -
  let ?B = "report_bytes 1 (rcv_seq (status s)) (report_pattern (status s)) (report_links (VLC_LQ s))"
  have ok: "status_ok (status s)" and lq: "length (VLC_LQ s) = 1" using inv by (auto simp: node_inv_def)
  have "length ?B \<le> 1000"
    using length_report_pattern[OF ok] fits lq by (simp add: length_report_bytes report_links_def)
  then have "convert_report_packet_to_string b0 (state_report s) N_VLC = Some (?B @ drop (length ?B) b0, int (length ?B))"
    using convert_report_bytes[OF state_report_wf[OF inv] buff] by (simp add: state_report_def)
  with send_report_frame[OF inv mac sent] fits show ?thesis by simp
qed

end
