(* ===== verification/Gateway.thy ===== *)
theory Gateway
  imports Double "HOL-Library.Sublist" Packet_Queue Packets Status_Report
begin

text \<open>
  The gateway: \<^verbatim>\<open>gateway.c\<close> and \<^verbatim>\<open>main.c\<close>. Its globals are the record \<open>gw_state\<close>; one iteration of
  each thread function is a function on it. \<open>None\<close> is an access outside an array or an \<^verbatim>\<open>int\<close> overflow. The arrays of
  \<^verbatim>\<open>MAX_SEQ_NUMBER\<close> and \<^verbatim>\<open>MAX_UNACKED_VLC_PACKET\<close> entries are functions read and written under a
  bounds check; \<^verbatim>\<open>double\<close> arithmetic is rounded by \<open>fl64\<close>. Signed overflow is a fault where the operands are not bounded
  by the state invariant: in the counter \<^verbatim>\<open>r\<close>, in the departures \<^verbatim>\<open>d_vlc\<close>, in what the scheduler computes from the reported queue
  lengths, and in the sequence numbers computed from a report. Clock readings, random numbers, received
  frames and the results of sending are inputs of the iteration that uses them. The scheduler is the
  one of \<^verbatim>\<open>main.c\<close>; \<^verbatim>\<open>scheduler.c\<close> is not linked in (its include is commented out).
\<close>

unbundle bit_operations_syntax

section \<open>Constants and state\<close>

definition N_NODE :: int where "N_NODE = 1"
definition GW_N_VLC :: int where "GW_N_VLC = 1"
definition NODE_QUEUE_SIZE :: int where "NODE_QUEUE_SIZE = 1000000"
definition RF_QUEUE_SIZE :: int where "RF_QUEUE_SIZE = 300000"
definition PAYLOAD_SIZE :: u16 where "PAYLOAD_SIZE = 74"
definition GENERATED_PACKET_PER_N_MICROSECOND :: int where "GENERATED_PACKET_PER_N_MICROSECOND = 1"
definition TOKEN_RATE :: int where "TOKEN_RATE = 1"
definition LIMIT :: int where "LIMIT = 1"
definition BURST :: int where "BURST = 6"
definition MAX_UNACKED_VLC_PACKET :: int where "MAX_UNACKED_VLC_PACKET = 500000"
definition GW_MAX_SEQ_NUMBER :: int where "GW_MAX_SEQ_NUMBER = 500000"
definition TIMEOUT_SECOND :: int where "TIMEOUT_SECOND = 0"
definition TIMEOUT_NANOSECOND :: int where "TIMEOUT_NANOSECOND = 600000"

definition IDLE_MODE :: int where "IDLE_MODE = - 1"
definition RF_MODE :: int where "RF_MODE = 0"
definition VLC_MODE :: int where "VLC_MODE = 1"

definition VLC_unacked :: int where "VLC_unacked = 1"
definition VLC_acked :: int where "VLC_acked = 2"
definition RF :: int where "RF = 3"

lemmas gw_consts = N_NODE_def GW_N_VLC_def LIMIT_def BURST_def TOKEN_RATE_def
  NODE_QUEUE_SIZE_def RF_QUEUE_SIZE_def GENERATED_PACKET_PER_N_MICROSECOND_def
  GW_MAX_SEQ_NUMBER_def

record timespec =
  tv_sec :: int
  tv_nsec :: int

record gateway_status =
  unacked_seq :: "int list"
  unsched_seq :: "int list"
  arr_seq :: "int list"
  pkt_state :: "(int \<Rightarrow> int) list"
  expire_time :: "(int \<Rightarrow> timespec) list"

record scheduling_result =
  mode :: int
  vlc_tgt_set :: "int list"
  n_vlc_tgt :: int

record gw_state =
  gw_status :: gateway_status
  node_queues :: "gateway_packet fifo list"
  rf_queue :: "gateway_packet fifo"
  vlc_queue :: "gateway_packet fifo"
  tbf_queue :: "gateway_packet fifo"
  gn :: "int list"
  gw_sn :: "int list"
  gw_an :: "int list"
  d_rf :: int
  d_vlc :: "int list"
  gw_r :: int
  gw_e :: "real list list"
  gw_E :: "int list list"
  vk :: "int list"
  n_token :: int
  tbf_queue_length :: int
  n_unacked_vlc_packet :: int
  unacked_vlc_packet :: "int \<Rightarrow> gateway_packet"
  node_addresses :: "u8 list list"
  vlc_addresses :: "u8 list list"
  report_buf :: "u8 list"
  vlc_report_buf :: "u8 list"

section \<open>Initialisation\<close>

definition initializeGatewayStatus :: "int \<Rightarrow> int \<Rightarrow> gateway_status" where
  "initializeGatewayStatus node maxSeqNumber =
     \<lparr>unacked_seq = replicate (nat node) 0, unsched_seq = replicate (nat node) 0,
      arr_seq = replicate (nat node) 0, pkt_state = replicate (nat node) (\<lambda>j. 0),
      expire_time = replicate (nat node) (\<lambda>j. \<lparr>tv_sec = 0, tv_nsec = 0\<rparr>)\<rparr>"

definition initialize_algorithm_3_variables :: "gw_state \<Rightarrow> gw_state" where
  "initialize_algorithm_3_variables s = s\<lparr>
     gw_r := 0, d_rf := 0, d_vlc := replicate (nat GW_N_VLC) 0,
     gn := replicate (nat N_NODE) 0, gw_sn := replicate (nat N_NODE) 0, gw_an := replicate (nat N_NODE) 0,
     gw_e := replicate (nat GW_N_VLC) (replicate (nat N_NODE) 0),
     vk := replicate (nat GW_N_VLC) 0,
     gw_E := replicate (nat GW_N_VLC) (replicate (nat N_NODE) 0)\<rparr>"

text \<open>The state when \<^verbatim>\<open>main\<close> starts the threads. \<open>nodes\<close> and \<open>vlcs\<close> are the address tables as \<open>setup_node_address\<close> and
  \<open>setup_vlc_address\<close> left them.\<close>

definition gw_init :: "u8 list list \<Rightarrow> u8 list list \<Rightarrow> (int \<Rightarrow> gateway_packet) \<Rightarrow> u8 list \<Rightarrow> u8 list \<Rightarrow> gw_state" where
  "gw_init nodes vlcs blank garbage1 garbage2 = initialize_algorithm_3_variables
     \<lparr>gw_status = initializeGatewayStatus N_NODE GW_MAX_SEQ_NUMBER,
      node_queues = replicate (nat N_NODE) (fq_new NODE_QUEUE_SIZE),
      rf_queue = fq_new RF_QUEUE_SIZE, vlc_queue = fq_new RF_QUEUE_SIZE, tbf_queue = fq_new LIMIT,
      gn = [], gw_sn = [], gw_an = [], d_rf = 0, d_vlc = [], gw_r = 0, gw_e = [], gw_E = [], vk = [],
      n_token = 0, tbf_queue_length = 0, n_unacked_vlc_packet = 0, unacked_vlc_packet = blank,
      node_addresses = nodes, vlc_addresses = vlcs,
      report_buf = garbage1, vlc_report_buf = garbage2\<rparr>"

section \<open>Sets of transmitters as bit masks\<close>

text \<open>A shift by a count outside the width of \<^verbatim>\<open>int\<close> is undefined.\<close>

definition c_shl1 :: "int \<Rightarrow> int option" where
  "c_shl1 k = (if 0 \<le> k \<and> k < 31 then Some (push_bit (nat k) 1) else None)"

definition generate_m :: "int list \<Rightarrow> int \<Rightarrow> int option" where
  "generate_m vlc_ids n = cfor 0 n (\<lambda>i retval. do {
     v \<leftarrow> ard vlc_ids i;
     temp \<leftarrow> c_shl1 (v - 1);
     Some (retval OR temp) }) 0"

definition is_k_in_sn :: "int \<Rightarrow> int \<Rightarrow> int option" where
  "is_k_in_sn vlc_id sn =
     (if sn \<le> 0 then Some 0
      else do {
        m \<leftarrow> c_shl1 (vlc_id - 1);
        Some (if m AND sn > 0 then 1 else 0) })"

definition calculate_v :: "gw_state \<Rightarrow> int \<Rightarrow> int option" where
  "calculate_v s vlc_id = do {
     v \<leftarrow> ard (vk s) vlc_id;
     d \<leftarrow> ard (d_vlc s) vlc_id;
     diff \<leftarrow> chk (v - d);
     let temp = (if diff > 0 then diff else 0);
     cfor 0 N_NODE (\<lambda>i temp. do {
       x \<leftarrow> ard (gw_sn s) i;
       b \<leftarrow> is_k_in_sn (vlc_id + 1) x;
       chk (temp + b) }) temp }"

section \<open>The scheduler\<close>

text \<open>\<open>vlc_cost\<close> is the expression compared with \<^verbatim>\<open>tgt\<close>; \<open>best_vlc\<close> the loop over the remaining
  transmitters, \<open>index_in_src\<close> the search for the chosen one in \<^verbatim>\<open>vlc_src_set\<close>.\<close>

definition vlc_cost :: "gw_state \<Rightarrow> int \<Rightarrow> int \<Rightarrow> real \<Rightarrow> int \<Rightarrow> real option" where
  "vlc_cost s node_id v_sum err i = do {
     g \<leftarrow> ard (gn s) node_id;
     v \<leftarrow> ard (vk s) i;
     row \<leftarrow> ard (gw_e s) i;
     p \<leftarrow> ard row node_id;
     k \<leftarrow> chk (g * - 1);
     k \<leftarrow> chk (k + v_sum);
     k \<leftarrow> chk (k + v);
     Some (fl64 (of_int k + fl64 (fl64 (of_int (gw_r s) * err) * p))) }"

definition best_vlc :: "gw_state \<Rightarrow> int \<Rightarrow> int \<Rightarrow> real \<Rightarrow> int \<Rightarrow> real \<Rightarrow> (int \<times> real) option" where
  "best_vlc s node_id v_sum err n_vlc_src tgt =
     cfor 0 n_vlc_src (\<lambda>i (vlc_tmp, tgt). do {
       temp \<leftarrow> vlc_cost s node_id v_sum err i;
       Some (if temp < tgt then (i, temp) else (vlc_tmp, tgt)) }) (- 1, tgt)"

definition index_in_src :: "int list \<Rightarrow> int \<Rightarrow> int \<Rightarrow> int option" where
  "index_in_src vlc_src_set n_vlc_src vlc_tmp =
     cforb 0 n_vlc_src (\<lambda>i idx. do {
       x \<leftarrow> ard vlc_src_set i;
       Some (if x = vlc_tmp then (True, i) else (False, idx)) }) (- 1)"

text \<open>The \<^verbatim>\<open>while\<close> loop. Every round stores into \<^verbatim>\<open>vlc_tgt_set\<close>, which has \<^verbatim>\<open>N_VLC\<close> cells.\<close>

function schedule_loop ::
    "gw_state \<Rightarrow> int \<Rightarrow> int \<Rightarrow> int list \<Rightarrow> int list \<Rightarrow> int \<Rightarrow> int \<Rightarrow> real \<Rightarrow> real \<Rightarrow> int \<Rightarrow>
     (int \<times> int list \<times> int) option" where
  "schedule_loop s node_id n_vlc_src vlc_src_set tgt_set n_tgt v_sum err tgt mode_temp =
     (if n_vlc_src > 0 then do {
        (vlc_tmp, tgt) \<leftarrow> best_vlc s node_id v_sum err n_vlc_src tgt;
        if vlc_tmp \<noteq> - 1 then do {
          v \<leftarrow> ard (vk s) vlc_tmp;
          row \<leftarrow> ard (gw_e s) vlc_tmp;
          p \<leftarrow> ard row node_id;
          v_sum \<leftarrow> chk (v_sum + v);
          vlc_tmp_idx \<leftarrow> index_in_src vlc_src_set n_vlc_src vlc_tmp;
          (vlc_src_set, n_vlc_src) \<leftarrow>
            (if vlc_tmp_idx \<ge> 0 then do {
               x \<leftarrow> ard vlc_src_set (n_vlc_src - 1);
               set' \<leftarrow> awr vlc_src_set vlc_tmp_idx x;
               Some (set', n_vlc_src - 1) }
             else Some (vlc_src_set, n_vlc_src));
          if 0 \<le> n_tgt \<and> n_tgt < int (length tgt_set)
          then schedule_loop s node_id n_vlc_src vlc_src_set (tgt_set[nat n_tgt := vlc_tmp]) (n_tgt + 1)
                 v_sum (fl64 (err * p)) tgt VLC_MODE
          else None }
        else Some (mode_temp, tgt_set, n_tgt) }
      else Some (mode_temp, tgt_set, n_tgt))"
  by pat_completeness auto
termination
  by (relation "measure (\<lambda>(s, node_id, n_vlc_src, vlc_src_set, tgt_set, n_tgt, v_sum, err, tgt, mode_temp).
        nat (int (length tgt_set) - n_tgt))") auto

declare schedule_loop.simps [simp del]

definition schedule_search :: "gw_state \<Rightarrow> int \<Rightarrow> (int \<times> int list \<times> int) option" where
  "schedule_search s node_id = do {
     g \<leftarrow> ard (gn s) node_id;
     k \<leftarrow> chk (g * - 1);
     k \<leftarrow> chk (k + gw_r s);
     let (mode_temp, tgt) = (if k < 0 then (RF_MODE, of_int k) else (IDLE_MODE, 0));
     let vlc_src_set = map int [0..<nat GW_N_VLC];
     let tgt_set = replicate (nat GW_N_VLC) 0;
     schedule_loop s node_id GW_N_VLC vlc_src_set tgt_set 0 0 1 tgt mode_temp }"

text \<open>What the search found is then replaced by a fixed result.\<close>

definition schedule :: "gw_state \<Rightarrow> int \<Rightarrow> scheduling_result option" where
  "schedule s node_id = do {
     (mode_temp, tgt_set, n_tgt) \<leftarrow> schedule_search s node_id;
     tgt_set \<leftarrow> awr tgt_set 0 0;
     Some \<lparr>mode = 0, vlc_tgt_set = tgt_set, n_vlc_tgt = 1\<rparr> }"

section \<open>Threads\<close>

definition pkt_get :: "gw_state \<Rightarrow> int \<Rightarrow> int \<Rightarrow> int option" where
  "pkt_get s i j = do {
     row \<leftarrow> ard (pkt_state (gw_status s)) i;
     if 0 \<le> j \<and> j < GW_MAX_SEQ_NUMBER then Some (row j) else None }"

definition pkt_set :: "gw_state \<Rightarrow> int \<Rightarrow> int \<Rightarrow> int \<Rightarrow> gw_state option" where
  "pkt_set s i j v = do {
     row \<leftarrow> ard (pkt_state (gw_status s)) i;
     if 0 \<le> j \<and> j < GW_MAX_SEQ_NUMBER
     then do {
       st \<leftarrow> awr (pkt_state (gw_status s)) i (row(j := v));
       Some (s\<lparr>gw_status := (gw_status s)\<lparr>pkt_state := st\<rparr>\<rparr>) }
     else None }"

definition transmit_rf :: "gw_state \<Rightarrow> gw_state option" where
  "transmit_rf s =
     (if \<not> fq_empty (rf_queue s) \<and> tbf_queue_length s < LIMIT then
        (let (temp, q) = fq_pop (rf_queue s); s = s\<lparr>rf_queue := q\<rparr> in
         case temp of
           None \<Rightarrow> Some s
         | Some p \<Rightarrow> do {
             r \<leftarrow> chk (gw_r s - 1);
             Some (s\<lparr>tbf_queue := snd (fq_push p (tbf_queue s)),
               tbf_queue_length := tbf_queue_length s + 1, gw_r := r\<rparr>) })
      else Some s)"

text \<open>Removal from the array of unacknowledged packets: the last one takes the place.\<close>

definition remove_unacked :: "int \<Rightarrow> gw_state \<Rightarrow> gw_state" where
  "remove_unacked l s = s\<lparr>
     unacked_vlc_packet := (unacked_vlc_packet s)(l := unacked_vlc_packet s (n_unacked_vlc_packet s - 1)),
     n_unacked_vlc_packet := n_unacked_vlc_packet s - 1\<rparr>"

definition unacked_match :: "gw_state \<Rightarrow> int \<Rightarrow> int \<Rightarrow> int \<Rightarrow> bool" where
  "unacked_match s l node_idx seq \<longleftrightarrow>
     uint (gp_node_id (unacked_vlc_packet s l)) - 1 = node_idx
     \<and> gp_seq_number (unacked_vlc_packet s l) = word_of_int seq"

text \<open>The acknowledgement loop of \<^verbatim>\<open>receive_report\<close>: \<^verbatim>\<open>'1'\<close> is \<open>0x31\<close>.\<close>

definition ack_entry :: "status_report_packet \<Rightarrow> int \<Rightarrow> int \<Rightarrow> gw_state \<Rightarrow> gw_state option" where
  "ack_entry report idx i s = do {
     u \<leftarrow> ard (unacked_seq (gw_status s)) idx;
     k \<leftarrow> chk (u + i);
     curr_unacked_packet \<leftarrow> chk (k - 1);
     if curr_unacked_packet < GW_MAX_SEQ_NUMBER then do {
       st \<leftarrow> pkt_get s idx curr_unacked_packet;
       bit_char \<leftarrow> (if st = VLC_unacked then ard (ACK_bit_pattern report) i else Some 0);
       if st = VLC_unacked \<and> bit_char = 0x31 then do {
         s \<leftarrow> pkt_set s idx curr_unacked_packet VLC_acked;
         cforb 0 (n_unacked_vlc_packet s) (\<lambda>l s.
           Some (if unacked_match s l idx curr_unacked_packet then (True, remove_unacked l s)
                 else (False, s))) s }
       else Some s }
     else Some s }"

definition set_error :: "status_report_packet \<Rightarrow> int \<Rightarrow> int \<Rightarrow> gw_state \<Rightarrow> gw_state option" where
  "set_error report idx i s = do {
     temp \<leftarrow> ard (vlc_data report) i;
     let vlc_tx_idx = vlc_tx_id temp - 1;
     row \<leftarrow> ard (gw_e s) vlc_tx_idx;
     row \<leftarrow> awr row idx (fl64 (1 - fl64 (of_int (vlc_link_quality temp) / 255)));
     e' \<leftarrow> awr (gw_e s) vlc_tx_idx row;
     Some (s\<lparr>gw_e := e'\<rparr>) }"

definition receive_report :: "u8 list option \<Rightarrow> gw_state \<Rightarrow> gw_state option" where
  "receive_report rx s =
    (let (numbytes, buf) = recvfrom rx (report_buf s); s = s\<lparr>report_buf := buf\<rparr> in
     if numbytes > 0 then do {
       from_node \<leftarrow> is_from_node N_NODE (node_addresses s) buf;
       if from_node then do {
         report \<leftarrow> generate_status_report_from_string (drop (nat ETHER_HDR) buf);
         if sr_node_id report > 0 \<and> sr_node_id report \<le> N_NODE then do {
           let idx = sr_node_id report - 1;
           u \<leftarrow> awr (unacked_seq (gw_status s)) idx (ACK_number report);
           let s = s\<lparr>gw_status := (gw_status s)\<lparr>unacked_seq := u\<rparr>\<rparr>;
           s \<leftarrow> cfor 0 (pattern_length report) (ack_entry report idx) s;
           cfor 0 (n_vlc report) (set_error report idx) s }
         else Some s }
       else Some s }
     else Some s)"

definition receive_vlc_report :: "u8 list option \<Rightarrow> gw_state \<Rightarrow> gw_state option" where
  "receive_vlc_report rx s =
    (let (numbytes, buf) = recvfrom rx (vlc_report_buf s); s = s\<lparr>vlc_report_buf := buf\<rparr> in do {
     valid \<leftarrow> is_vlc_tx_address GW_N_VLC (vlc_addresses s) buf;
     if valid then do {
       let report_content = drop (nat ETHER_HDR) buf;
       b \<leftarrow> ard report_content 0;
       let vlc_id = uint b;
       if vlc_id \<le> GW_N_VLC \<and> vlc_id > 0 then do {
         temp_queue \<leftarrow> rd_int report_content 1;
         v \<leftarrow> awr (vk s) (vlc_id - 1) temp_queue;
         Some (s\<lparr>vk := v\<rparr>) }
       else Some s }
     else Some s })"

text \<open>\<^verbatim>\<open>do ... while (sent_vlc_bytes <= 0)\<close> over the results of the successive calls.\<close>

fun send_vlc_until :: "u8 list \<Rightarrow> gateway_packet \<Rightarrow> int list \<Rightarrow> u8 list list option" where
  "send_vlc_until mac p [] = None"
| "send_vlc_until mac p (n # ns) = do {
     (sent_vlc_bytes, frame) \<leftarrow> transmit_packet_vlc (\<lambda>_. n) mac p;
     if sent_vlc_bytes \<le> 0 then send_vlc_until mac p ns else Some [frame] }"

definition transmit_vlc :: "u8 list \<Rightarrow> int list \<Rightarrow> gw_state \<Rightarrow> (gw_state \<times> u8 list list) option" where
  "transmit_vlc mac tries s =
     (if \<not> fq_empty (vlc_queue s) then
        (let (temp, q) = fq_pop (vlc_queue s); s = s\<lparr>vlc_queue := q\<rparr> in
         case temp of
           None \<Rightarrow> Some (s, [])
         | Some vlc_packet \<Rightarrow> do {
             frames \<leftarrow> send_vlc_until mac vlc_packet tries;
             d \<leftarrow> ard (d_vlc s) (uint (gp_vlc_id vlc_packet));
             d \<leftarrow> chk (d - 1);
             d' \<leftarrow> awr (d_vlc s) (uint (gp_vlc_id vlc_packet)) d;
             Some (s\<lparr>d_vlc := d'\<rparr>, frames) })
      else Some (s, []))"

definition add_token :: "gw_state \<Rightarrow> gw_state" where
  "add_token s =
     (if BURST - n_token s \<ge> TOKEN_RATE then s\<lparr>n_token := n_token s + TOKEN_RATE\<rparr> else s)"

text \<open>The packets handed to the RF interface successfully are the second result.\<close>

definition tbf_transmit ::
    "u8 list \<Rightarrow> int \<Rightarrow> gw_state \<Rightarrow> (gw_state \<times> gateway_packet list) option" where
  "tbf_transmit mac sent s =
     (if \<not> fq_empty (tbf_queue s) \<and> n_token s > 0 then
        (let (temp, q) = fq_pop (tbf_queue s); s = s\<lparr>tbf_queue := q\<rparr> in
         case temp of
           None \<Rightarrow> Some (s, [])
         | Some p \<Rightarrow> do {
             (n, frame) \<leftarrow> transmit_packet_rf (\<lambda>_. sent) mac p;
             if n > 0 then Some (s\<lparr>n_token := n_token s - 1, tbf_queue_length := tbf_queue_length s - 1\<rparr>, [p])
             else Some (s, []) })
      else Some (s, []))"

definition generate_random_node :: "(int \<Rightarrow> int) \<Rightarrow> int \<Rightarrow> gateway_packet" where
  "generate_random_node rand node_id =
     \<lparr>gp_node_id = word_of_int node_id, gp_vlc_id = 1, gp_payload_len = PAYLOAD_SIZE, gp_seq_number = 0,
      gp_data = map (\<lambda>i. word_of_int (rand (int i)) AND 0xff) [0..<unat PAYLOAD_SIZE]\<rparr>"

text \<open>One packet for node \<open>i\<close>; \<open>rand i j\<close> are the random numbers of the \<open>j\<close>-th packet. The packets
  generated are the second result.\<close>

definition generate_one ::
    "(int \<Rightarrow> int) \<Rightarrow> int \<Rightarrow> gw_state \<times> gateway_packet list \<Rightarrow> (gw_state \<times> gateway_packet list) option" where
  "generate_one rand i = (\<lambda>(s, log). do {
     a \<leftarrow> ard (arr_seq (gw_status s)) i;
     let pN = (generate_random_node rand (i + 1))\<lparr>gp_seq_number := word_of_int a\<rparr>;
     a' \<leftarrow> awr (arr_seq (gw_status s)) i ((a + 1) mod GW_MAX_SEQ_NUMBER);
     let s = s\<lparr>gw_status := (gw_status s)\<lparr>arr_seq := a'\<rparr>\<rparr>;
     q \<leftarrow> ard (node_queues s) i;
     qs \<leftarrow> awr (node_queues s) i (snd (fq_push pN q));
     g \<leftarrow> ard (gn s) i;
     g' \<leftarrow> awr (gn s) i (g + 1);
     Some (s\<lparr>node_queues := qs, gn := g'\<rparr>, log @ [pN]) })"

definition generate_packet ::
    "(int \<Rightarrow> int \<Rightarrow> int \<Rightarrow> int) \<Rightarrow> gw_state \<Rightarrow> (gw_state \<times> gateway_packet list) option" where
  "generate_packet rand s = cfor 0 N_NODE (\<lambda>i (s, log). do {
     let n_generated_packets = GENERATED_PACKET_PER_N_MICROSECOND;
     g \<leftarrow> ard (gn s) i;
     if g + n_generated_packets < NODE_QUEUE_SIZE
     then cfor 0 n_generated_packets (\<lambda>j. generate_one (rand i j) i) (s, log)
     else Some (s, log) }) (s, [])"

text \<open>The time left, in nanoseconds.\<close>

definition time_left :: "timespec \<Rightarrow> timespec \<Rightarrow> int" where
  "time_left expire now =
     (tv_sec expire - tv_sec now) * 1000000000 + (tv_nsec expire - tv_nsec now)"

definition resend_entry :: "int \<Rightarrow> int \<Rightarrow> int \<Rightarrow> gw_state \<Rightarrow> (bool \<times> gw_state) option" where
  "resend_entry i j l s =
     (if unacked_match s l i j then do {
        let s = s\<lparr>rf_queue := snd (fq_push (unacked_vlc_packet s l) (rf_queue s))\<rparr>;
        s \<leftarrow> pkt_set s i j RF;
        r \<leftarrow> chk (gw_r s + 1);
        let s = s\<lparr>gw_r := r\<rparr>;
        Some (True, remove_unacked l s) }
      else Some (False, s))"

definition check_unacked :: "(int \<Rightarrow> int \<Rightarrow> timespec) \<Rightarrow> gw_state \<Rightarrow> gw_state option" where
  "check_unacked clock s = cfor 0 N_NODE (\<lambda>i s. do {
     a \<leftarrow> ard (unacked_seq (gw_status s)) i;
     b \<leftarrow> ard (unsched_seq (gw_status s)) i;
     cfor a b (\<lambda>j s. do {
       row \<leftarrow> ard (expire_time (gw_status s)) i;
       st \<leftarrow> pkt_get s i j;
       if st = VLC_unacked \<and> time_left (row j) (clock i j) \<le> 0
       then cforb 0 (n_unacked_vlc_packet s) (resend_entry i j) s
       else Some s }) s }) s"

text \<open>The transmission of one packet to the VLC transmitters. The same list node is pushed for every
  transmitter of the set; a second push would tie it into a cycle (\<open>push_twice_cycle\<close>) and is \<open>None\<close>.\<close>

definition schedule_vlc ::
    "timespec \<Rightarrow> int \<Rightarrow> int \<Rightarrow> scheduling_result \<Rightarrow> gateway_packet \<Rightarrow> gw_state \<Rightarrow> gw_state option" where
  "schedule_vlc current_time i unsched_pkt_idx res temp s = do {
     (s, temp) \<leftarrow> cfor 0 (n_vlc_tgt res) (\<lambda>j (s, temp). do {
       k \<leftarrow> ard (vlc_tgt_set res) j;
       let temp = temp\<lparr>gp_vlc_id := word_of_int k\<rparr>;
       q \<leftarrow> (if j = 0 then Some (snd (fq_push temp (vlc_queue s))) else None);
       d \<leftarrow> ard (d_vlc s) k;
       d \<leftarrow> chk (d + 1);
       d' \<leftarrow> awr (d_vlc s) k d;
       Some (s\<lparr>vlc_queue := q, d_vlc := d'\<rparr>, temp) }) (s, temp);
     s \<leftarrow> pkt_set s i unsched_pkt_idx VLC_unacked;
     let expire = \<lparr>tv_sec = tv_sec current_time + TIMEOUT_SECOND,
       tv_nsec = tv_nsec current_time + TIMEOUT_NANOSECOND\<rparr>;
     row \<leftarrow> ard (expire_time (gw_status s)) i;
     rows \<leftarrow> awr (expire_time (gw_status s)) i (row(unsched_pkt_idx := expire));
     let s = s\<lparr>gw_status := (gw_status s)\<lparr>expire_time := rows\<rparr>\<rparr>;
     Some (if n_unacked_vlc_packet s + 1 < MAX_UNACKED_VLC_PACKET
           then s\<lparr>unacked_vlc_packet := (unacked_vlc_packet s)(n_unacked_vlc_packet s := temp),
             n_unacked_vlc_packet := n_unacked_vlc_packet s + 1\<rparr>
           else s) }"

definition schedule_node :: "timespec \<Rightarrow> int \<Rightarrow> gw_state \<Rightarrow> gw_state option" where
  "schedule_node current_time i s = do {
     sched_result \<leftarrow> schedule s i;
     if mode sched_result \<noteq> IDLE_MODE then do {
       q \<leftarrow> ard (node_queues s) i;
       let (temp, q) = fq_pop q;
       qs \<leftarrow> awr (node_queues s) i q;
       let s = s\<lparr>node_queues := qs\<rparr>;
       unsched_pkt_idx \<leftarrow> ard (unsched_seq (gw_status s)) i;
       us \<leftarrow> awr (unsched_seq (gw_status s)) i ((unsched_pkt_idx + 1) mod GW_MAX_SEQ_NUMBER);
       let s = s\<lparr>gw_status := (gw_status s)\<lparr>unsched_seq := us\<rparr>\<rparr>;
       (case temp of
          None \<Rightarrow> Some s
        | Some temp \<Rightarrow> do {
            g \<leftarrow> ard (gn s) i;
            g' \<leftarrow> awr (gn s) i (g - 1);
            let s = s\<lparr>gn := g'\<rparr>;
            if mode sched_result = RF_MODE then do {
              let s = s\<lparr>rf_queue := snd (fq_push temp (rf_queue s))\<rparr>;
              s \<leftarrow> pkt_set s i unsched_pkt_idx RF;
              r \<leftarrow> chk (gw_r s + 1);
              Some (s\<lparr>gw_r := r\<rparr>) }
            else schedule_vlc current_time i unsched_pkt_idx sched_result temp s }) }
     else Some s }"

definition schedule_packet :: "(int \<Rightarrow> timespec) \<Rightarrow> gw_state \<Rightarrow> gw_state option" where
  "schedule_packet clock s = cfor 0 N_NODE (\<lambda>i. schedule_node (clock i) i) s"

section \<open>Masks\<close>

lemma c_shl1_Some: "0 \<le> k \<Longrightarrow> k < 31 \<Longrightarrow> c_shl1 k = Some (2 ^ nat k)"
  by (simp add: c_shl1_def push_bit_eq_mult)

lemma generate_m_bits:
  assumes "\<And>v. v \<in> set ids \<Longrightarrow> 1 \<le> v \<and> v \<le> 31"
  shows "\<exists>m. generate_m ids (int (length ids)) = Some m \<and> 0 \<le> m
    \<and> (\<forall>n. bit m n \<longleftrightarrow> int n + 1 \<in> set ids)"
proof -
  let ?f = "\<lambda>i retval. do { v \<leftarrow> ard ids i; temp \<leftarrow> c_shl1 (v - 1); Some (retval OR temp) }"
  let ?I = "\<lambda>i m. 0 \<le> m \<and> (\<forall>n. bit m n \<longleftrightarrow> int n + 1 \<in> set (take (nat i) ids))"
  have "\<exists>t. cfor 0 (int (length ids)) ?f 0 = Some t \<and> ?I (int (length ids)) t"
  proof (rule cfor_total)
    fix k :: int and m :: int assume k: "0 \<le> k" "k < int (length ids)" and m: "?I k m"
    let ?v = "ids ! nat k"
    have nk: "nat k < length ids" using k by linarith
    have v: "1 \<le> ?v" "?v \<le> 31" using assms[of ?v] nk by auto
    have f: "?f k m = Some (m OR 2 ^ nat (?v - 1))"
      using k v nk by (simp add: ard_in c_shl1_Some)
    have b: "bit (2 ^ nat (?v - 1) :: int) n \<longleftrightarrow> int n + 1 = ?v" for n
      using v by (auto simp: bit_exp_iff)
    have "0 \<le> m OR 2 ^ nat (?v - 1)" using m by (simp add: or_nonnegative_int_iff)
    moreover have "bit (m OR 2 ^ nat (?v - 1)) n \<longleftrightarrow> int n + 1 \<in> set (take (nat (k + 1)) ids)" for n
      using m nk k by (auto simp: bit_or_iff b nat_add_distrib take_Suc_conv_app_nth)
    ultimately show "\<exists>t'. ?f k m = Some t' \<and> ?I (k + 1) t'" using f by blast
  qed auto
  then show ?thesis by (simp add: generate_m_def)
qed

lemma is_k_in_sn_bit:
  assumes "0 \<le> m" and "1 \<le> k" and "k \<le> 31"
  shows "is_k_in_sn k m = Some (if bit m (nat (k - 1)) then 1 else 0)"
proof (cases "m = 0")
  case False
  have "2 ^ nat (k - 1) AND m > 0 \<longleftrightarrow> m AND 2 ^ nat (k - 1) \<noteq> 0"
    using assms(1) by (auto simp: and.commute order_less_le)
  also have "\<dots> \<longleftrightarrow> bit m (nat (k - 1))"
    using and_exp_eq_0_iff_not_bit[of m "nat (k - 1)"] by simp
  finally show ?thesis using assms False by (simp add: is_k_in_sn_def c_shl1_Some)
qed (simp add: is_k_in_sn_def)

section \<open>What the scheduler computes\<close>

text \<open>One node, one transmitter.\<close>

definition gw_shape :: "gw_state \<Rightarrow> bool" where
  "gw_shape s \<longleftrightarrow> length (unacked_seq (gw_status s)) = 1 \<and> length (unsched_seq (gw_status s)) = 1
     \<and> length (arr_seq (gw_status s)) = 1 \<and> length (pkt_state (gw_status s)) = 1
     \<and> length (expire_time (gw_status s)) = 1 \<and> length (node_queues s) = 1
     \<and> length (gn s) = 1 \<and> length (d_vlc s) = 1 \<and> length (vk s) = 1
     \<and> length (gw_e s) = 1 \<and> length (gw_e s ! 0) = 1
     \<and> length (report_buf s) = 1024 \<and> length (vlc_report_buf s) = 1024
     \<and> ard (node_addresses s) 0 = Some NODE_MAC \<and> ard (vlc_addresses s) 0 = Some VLC_MAC"

text \<open>What is compared with \<^verbatim>\<open>tgt\<close> in the first round, and whether the \<^verbatim>\<open>int\<close> operations before it stay in range.\<close>

definition first_cost :: "gw_state \<Rightarrow> real" where
  "first_cost s = fl64 (of_int (vk s ! 0 - gn s ! 0) + fl64 (of_int (gw_r s) * gw_e s ! 0 ! 0))"

definition schedule_in_range :: "gw_state \<Rightarrow> bool" where
  "schedule_in_range s \<longleftrightarrow> c_int (- (gn s ! 0)) \<and> c_int (gw_r s - gn s ! 0) \<and> c_int (vk s ! 0 - gn s ! 0)"

lemma schedule_search_1:
  assumes "length (gn s) = 1" "length (vk s) = 1" "length (gw_e s) = 1" "length (gw_e s ! 0) = 1"
    and "c_int (vk s ! 0)" "c_int (gw_r s)"
  shows "schedule_search s 0 =
    (if \<not> schedule_in_range s then None
     else if first_cost s < of_int (min 0 (gw_r s - gn s ! 0)) then Some (VLC_MODE, [0], 1)
     else Some (if gw_r s < gn s ! 0 then RF_MODE else IDLE_MODE, [0], 0))"
proof -
  obtain g v p where l: "gn s = [g]" "vk s = [v]" "gw_e s = [[p]]"
    using assms(1-4) by (auto simp: length_Suc_conv)
  have r: "fl64 (of_int (gw_r s)) = of_int (gw_r s)" using assms(6) by (intro fl64_int) (auto simp: c_int_def)
  have f: "first_cost s = fl64 (of_int (v - g) + fl64 (of_int (gw_r s) * p))" by (simp add: first_cost_def l)
  have cost: "vlc_cost s 0 0 1 0 = (if c_int (- g) \<and> c_int (v - g) then Some (first_cost s) else None)"
    by (auto simp: vlc_cost_def l r f chk_def)
  have b: "best_vlc s 0 0 1 1 t = (if c_int (- g) \<and> c_int (v - g)
      then Some (if first_cost s < t then (0, first_cost s) else (- 1, t)) else None)" for t
    by (simp add: best_vlc_def cost cfor_step cfor_end)
  have i: "index_in_src [0] 1 0 = Some 0" by (simp add: index_in_src_def cforb.simps)
  have v: "chk v = Some v" using assms(5) by (simp add: l chk_def)
  have loop: "schedule_loop s 0 1 [0] [0] 0 0 1 t m = (if c_int (- g) \<and> c_int (v - g)
      then Some (if first_cost s < t then (VLC_MODE, [0], 1) else (m, [0], 0)) else None)" for t m
    by (subst schedule_loop.simps, subst schedule_loop.simps) (simp add: b i l v awr_def)
  show ?thesis
    by (simp add: schedule_search_def l GW_N_VLC_def loop schedule_in_range_def chk_def min_def)
qed

text \<open>With a link that loses nothing the comparison is one of integers.\<close>

lemma first_cost_lossless:
  assumes "gw_e s ! 0 ! 0 = 0" "c_int (vk s ! 0 - gn s ! 0)"
  shows "first_cost s = of_int (vk s ! 0 - gn s ! 0)"
proof -
  have "\<bar>vk s ! 0 - gn s ! 0\<bar> < 2 ^ 53" using assms(2) by (auto simp: c_int_def)
  from fl64_int[OF this] show ?thesis using assms(1) by (simp add: first_cost_def)
qed

lemma schedule_1:
  assumes "length (gn s) = 1" "length (vk s) = 1" "length (gw_e s) = 1" "length (gw_e s ! 0) = 1"
    and "c_int (vk s ! 0)" "c_int (gw_r s)"
  shows "schedule s 0 = (if schedule_in_range s then Some \<lparr>mode = 0, vlc_tgt_set = [0], n_vlc_tgt = 1\<rparr> else None)"
  using schedule_search_1[OF assms] by (simp add: schedule_def awr_def split: if_splits)

text \<open>Whatever the numbers are, the answer is RF, if there is one.\<close>

lemma schedule_answer:
  assumes "schedule s i = Some res"
  shows "mode res = 0 \<and> n_vlc_tgt res = 1"
  using assms by (auto simp: schedule_def split: Option.bind_splits prod.splits)

section \<open>Runs of the gateway\<close>

text \<open>One event is one iteration of a thread \<^verbatim>\<open>main\<close> starts; \<^verbatim>\<open>check_unacked\<close> is not started. An
  iteration delivers the packets it generated and the packets it sent over RF.\<close>

datatype gw_event =
    Transmit_rf
  | Receive_report "u8 list option"
  | Receive_vlc_report "u8 list option"
  | Transmit_vlc "u8 list" "int list"
  | Add_token
  | Tbf_transmit "u8 list" int
  | Generate_packet "int \<Rightarrow> int \<Rightarrow> int \<Rightarrow> int"
  | Schedule_packet "int \<Rightarrow> timespec"

type_synonym packets = "gateway_packet list"

fun gw_exec :: "gw_event \<Rightarrow> gw_state \<Rightarrow> (gw_state \<times> packets \<times> packets) option" where
  "gw_exec Transmit_rf s = map_option (\<lambda>s. (s, [], [])) (transmit_rf s)"
| "gw_exec (Receive_report rx) s = map_option (\<lambda>s. (s, [], [])) (receive_report rx s)"
| "gw_exec (Receive_vlc_report rx) s = map_option (\<lambda>s. (s, [], [])) (receive_vlc_report rx s)"
| "gw_exec (Transmit_vlc mac tries) s = map_option (\<lambda>(s, frames). (s, [], [])) (transmit_vlc mac tries s)"
| "gw_exec Add_token s = Some (add_token s, [], [])"
| "gw_exec (Tbf_transmit mac n) s = map_option (\<lambda>(s, sent). (s, [], sent)) (tbf_transmit mac n s)"
| "gw_exec (Generate_packet rand) s = map_option (\<lambda>(s, gen). (s, gen, [])) (generate_packet rand s)"
| "gw_exec (Schedule_packet clock) s = map_option (\<lambda>s. (s, [], [])) (schedule_packet clock s)"

text \<open>A run with its logs: all packets generated, all packets sent.\<close>

fun gw_run :: "gw_event list \<Rightarrow> gw_state \<Rightarrow> (gw_state \<times> packets \<times> packets) option" where
  "gw_run [] s = Some (s, [], [])"
| "gw_run (ev # evs) s = do {
     (s, gen, sent) \<leftarrow> gw_exec ev s;
     (s, gen', sent') \<leftarrow> gw_run evs s;
     Some (s, gen @ gen', sent @ sent') }"

text \<open>The two threads that parse what the network delivers.\<close>

definition parses_input :: "gw_event \<Rightarrow> bool" where
  "parses_input ev = (case ev of Receive_report rx \<Rightarrow> True | Receive_vlc_report rx \<Rightarrow> True | _ \<Rightarrow> False)"

section \<open>Reports\<close>

text \<open>The parser delivers the bits 0 and 1, the loop looks for the character \<^verbatim>\<open>'1'\<close>: no report ever
  acknowledges a packet.\<close>

lemma ack_entry_same:
  assumes "ack_entry rep idx i s = Some s'" and "bits (ACK_bit_pattern rep)"
  shows "s' = s"
proof -
  have no: "ard (ACK_bit_pattern rep) i \<noteq> Some 0x31"
  proof
    assume "ard (ACK_bit_pattern rep) i = Some 0x31"
    then have "(0x31 :: u8) \<in> set (ACK_bit_pattern rep)" by (rule ard_in_set)
    with assms(2) show False by (auto simp: bits_def)
  qed
  with assms(1) show ?thesis
    by (auto simp: ack_entry_def Let_def split: Option.bind_splits if_splits)
qed

lemma ack_loop_same:
  assumes "cfor 0 n (ack_entry rep idx) s = Some s'" and "bits (ACK_bit_pattern rep)"
  shows "s' = s"
  using assms(1) by (rule cfor_inv[where I = "\<lambda>t. t = s"]) (use ack_entry_same[OF _ assms(2)] in auto)

text \<open>What a report changes: the acknowledged sequence number and the error probabilities.\<close>

definition report_frame_eq :: "gw_state \<Rightarrow> gw_state \<Rightarrow> bool" where
  "report_frame_eq s s' \<longleftrightarrow> (\<exists>u e' b. s' = s\<lparr>gw_status := (gw_status s)\<lparr>unacked_seq := u\<rparr>, gw_e := e', report_buf := b\<rparr>
     \<and> length u = length (unacked_seq (gw_status s)) \<and> length b = length (report_buf s)
     \<and> map length e' = map length (gw_e s))"

lemma set_error_e:
  "set_error rep idx i s = Some s' \<Longrightarrow> \<exists>e'. s' = s\<lparr>gw_e := e'\<rparr> \<and> map length e' = map length (gw_e s)"
  by (auto simp: set_error_def Let_def awr_def ard_def map_update split: Option.bind_splits if_splits)
     (metis length_list_update list_update_id map_update nth_map)

lemma set_error_loop:
  assumes "cfor 0 n (set_error rep idx) s = Some s'"
  shows "\<exists>e'. s' = s\<lparr>gw_e := e'\<rparr> \<and> map length e' = map length (gw_e s)"
  using assms
proof (rule cfor_inv[where I = "\<lambda>t. \<exists>e'. t = s\<lparr>gw_e := e'\<rparr> \<and> map length e' = map length (gw_e s)"])
  show "\<exists>e'. s = s\<lparr>gw_e := e'\<rparr> \<and> map length e' = map length (gw_e s)"
    by (rule exI[of _ "gw_e s"]) simp
next
  fix k u u' assume "\<exists>e'. u = s\<lparr>gw_e := e'\<rparr> \<and> map length e' = map length (gw_e s)"
    and "set_error rep idx k u = Some u'"
  then show "\<exists>e'. u' = s\<lparr>gw_e := e'\<rparr> \<and> map length e' = map length (gw_e s)"
    using set_error_e[of rep idx k u u'] by auto
qed

lemma receive_report_frame:
  assumes "receive_report rx s = Some s'"
  shows "report_frame_eq s s'"
proof -
  obtain n buf where rv: "recvfrom rx (report_buf s) = (n, buf)" by fastforce
  have lb: "length buf = length (report_buf s)"
    using rv by (auto simp: recvfrom_def Let_def split: option.splits)
  let ?s = "s\<lparr>report_buf := buf\<rparr>"
  have base: "report_frame_eq s ?s"
    unfolding report_frame_eq_def
    by (intro exI[of _ "unacked_seq (gw_status s)"] exI[of _ "gw_e s"] exI[of _ buf]) (simp add: lb)
  show ?thesis
  proof (cases "s' = ?s")
    case False
    with assms rv obtain rep u s1 where
      rep: "generate_status_report_from_string (drop (nat ETHER_HDR) buf) = Some rep"
      and u: "awr (unacked_seq (gw_status s)) (sr_node_id rep - 1) (ACK_number rep) = Some u"
      and l1: "cfor 0 (pattern_length rep) (ack_entry rep (sr_node_id rep - 1))
        (?s\<lparr>gw_status := (gw_status s)\<lparr>unacked_seq := u\<rparr>\<rparr>) = Some s1"
      and l2: "cfor 0 (n_vlc rep) (set_error rep (sr_node_id rep - 1)) s1 = Some s'"
      by (auto simp: receive_report_def Let_def split: if_splits Option.bind_splits)
    have s1: "s1 = ?s\<lparr>gw_status := (gw_status s)\<lparr>unacked_seq := u\<rparr>\<rparr>"
      using ack_loop_same[OF l1 parsed_pattern_bits[OF rep]] .
    from set_error_loop[OF l2] obtain e' where "s' = s1\<lparr>gw_e := e'\<rparr>"
      "map length e' = map length (gw_e s)" by (auto simp: s1)
    then show ?thesis
      unfolding report_frame_eq_def
      by (intro exI[of _ u] exI[of _ e'] exI[of _ buf]) (simp add: s1 lb awr_SomeD[OF u])
  qed (use base in simp)
qed

section \<open>The state invariant\<close>

text \<open>The tokens are bounded by the burst, the token bucket filter holds at most one packet, the
  counters \<^verbatim>\<open>gn\<close> and \<^verbatim>\<open>r\<close> agree with their queues (\<^verbatim>\<open>r\<close> may only overcount), the sequence
  numbers stay in range, \<^verbatim>\<open>r\<close> and the reported queue length are values of \<^verbatim>\<open>int\<close>, and every queued packet is well formed and fits a frame. Since the
  scheduler always answers RF, nothing reaches the VLC queue.\<close>

definition packet_ok :: "gateway_packet \<Rightarrow> bool" where
  "packet_ok p \<longleftrightarrow> gp_wf p \<and> gp_payload_len p = PAYLOAD_SIZE"

definition node_queue :: "gw_state \<Rightarrow> gateway_packet fifo" where
  "node_queue s = node_queues s ! 0"

definition gw_inv :: "gw_state \<Rightarrow> bool" where
  "gw_inv s \<longleftrightarrow> gw_shape s
     \<and> 0 \<le> n_token s \<and> n_token s \<le> BURST
     \<and> int (length (fq_items (tbf_queue s))) \<le> tbf_queue_length s \<and> tbf_queue_length s \<le> LIMIT
     \<and> fq_limit (tbf_queue s) = LIMIT
     \<and> fq_ok (rf_queue s) \<and> int (length (fq_items (rf_queue s))) \<le> gw_r s
     \<and> fq_items (vlc_queue s) = [] \<and> n_unacked_vlc_packet s = 0
     \<and> gn s ! 0 = int (length (fq_items (node_queue s))) \<and> fq_limit (node_queue s) = NODE_QUEUE_SIZE
     \<and> gn s ! 0 \<le> NODE_QUEUE_SIZE \<and> c_int (gw_r s) \<and> c_int (vk s ! 0)
     \<and> 0 \<le> arr_seq (gw_status s) ! 0 \<and> arr_seq (gw_status s) ! 0 < GW_MAX_SEQ_NUMBER
     \<and> 0 \<le> unsched_seq (gw_status s) ! 0 \<and> unsched_seq (gw_status s) ! 0 < GW_MAX_SEQ_NUMBER
     \<and> (\<forall>p\<in>set (fq_items (tbf_queue s) @ fq_items (rf_queue s) @ fq_items (node_queue s)). packet_ok p)"

lemma gw_inv_init:
  "setup_node_address n = Some nodes \<Longrightarrow> setup_vlc_address m = Some vlcs \<Longrightarrow> length g1 = 1024 \<Longrightarrow> length g2 = 1024
     \<Longrightarrow> gw_inv (gw_init nodes vlcs blank g1 g2)"
  by (auto simp add: gw_inv_def gw_init_def initialize_algorithm_3_variables_def gw_shape_def
      initializeGatewayStatus_def gw_consts node_queue_def fq_new_def fq_ok_def c_int_def
      setup_tables split: if_splits)

lemma packet_ok_generated: "packet_ok ((generate_random_node rand i)\<lparr>gp_seq_number := a\<rparr>)"
  by (simp add: packet_ok_def gp_wf_def generate_random_node_def)

text \<open>The packets on their way from generation to the RF interface, oldest first.\<close>

definition pipeline :: "gw_state \<Rightarrow> packets" where
  "pipeline s = fq_items (tbf_queue s) @ fq_items (rf_queue s) @ fq_items (node_queue s)"

text \<open>What one iteration guarantees.\<close>

definition step_ok :: "int \<Rightarrow> gw_state \<Rightarrow> gw_state \<times> packets \<times> packets \<Rightarrow> bool" where
  "step_ok tok s = (\<lambda>(s', gen, sent). gw_inv s'
     \<and> subseq (sent @ pipeline s') (pipeline s @ gen)
     \<and> n_token s' + int (length sent) \<le> n_token s + tok)"

lemma step_ok_quiet:
  "gw_inv s' \<Longrightarrow> pipeline s' = pipeline s \<Longrightarrow> n_token s' = n_token s \<Longrightarrow> step_ok 0 s (s', [], [])"
  by (simp add: step_ok_def)

lemma fq_pop_Cons: "fq_items q = x # xs \<Longrightarrow> fq_pop q = (Some x, q\<lparr>fq_items := xs\<rparr>)"
  by (simp add: fq_pop_def)

lemma fq_pop_Nil: "fq_items q = [] \<Longrightarrow> fq_pop q = (None, q)"
  by (simp add: fq_pop_def)

lemma transmit_rf_step:
  assumes inv: "gw_inv s"
  shows "\<exists>s'. transmit_rf s = Some s' \<and> step_ok 0 s (s', [], []) \<and> gw_r s' \<le> gw_r s \<and> vk s' = vk s"
proof (cases "fq_items (rf_queue s) = [] \<or> \<not> tbf_queue_length s < LIMIT")
  case True
  then show ?thesis
    using step_ok_quiet[OF inv refl refl] by (auto simp: transmit_rf_def fq_empty_def)
next
  case False
  obtain p ps where rf: "fq_items (rf_queue s) = p # ps" using False by (cases "fq_items (rf_queue s)") auto
  have "int (length (fq_items (tbf_queue s))) \<le> tbf_queue_length s" "tbf_queue_length s < 1"
    "fq_limit (tbf_queue s) = 1" using inv False by (auto simp: gw_inv_def LIMIT_def)
  then have tb: "fq_items (tbf_queue s) = []" "tbf_queue_length s = 0" "fq_limit (tbf_queue s) = 1"
    by (cases "fq_items (tbf_queue s)"; simp)+
  have "int (length (fq_items (rf_queue s))) \<le> gw_r s" "c_int (gw_r s)" using inv by (simp_all add: gw_inv_def)
  then have r: "c_int (gw_r s - 1)" by (simp add: c_int_def rf)
  have "transmit_rf s = Some (s\<lparr>rf_queue := (rf_queue s)\<lparr>fq_items := ps\<rparr>,
      tbf_queue := (tbf_queue s)\<lparr>fq_items := [p]\<rparr>, tbf_queue_length := 1, gw_r := gw_r s - 1\<rparr>)"
    using rf tb r by (simp add: transmit_rf_def fq_empty_def fq_pop_Cons fq_push_def LIMIT_def chk_in)
  then show ?thesis
    using inv rf tb r
    by (auto simp: step_ok_def gw_inv_def gw_shape_def pipeline_def node_queue_def fq_ok_def LIMIT_def)
qed

lemma add_token_step: "gw_inv s \<Longrightarrow> step_ok 1 s (add_token s, [], [])"
  by (auto simp: step_ok_def add_token_def gw_inv_def gw_shape_def pipeline_def node_queue_def gw_consts)

lemma transmit_packet_rf_ok:
  "packet_ok p \<Longrightarrow> 6 \<le> length mac \<Longrightarrow> \<exists>frame. transmit_packet_rf sendto mac p = Some (sendto frame, frame)"
  by (subst transmit_packet_rf_frame) (auto simp: packet_ok_def gp_wf_def PAYLOAD_SIZE_def)

lemma tbf_transmit_cases:
  assumes "gw_inv s" and "6 \<le> length mac"
  obtains "fq_items (tbf_queue s) = [] \<or> n_token s = 0" "tbf_transmit mac n s = Some (s, [])"
  | p where "fq_items (tbf_queue s) = [p]" "0 < n_token s" "0 < n"
      "tbf_transmit mac n s = Some (s\<lparr>tbf_queue := (tbf_queue s)\<lparr>fq_items := []\<rparr>,
         n_token := n_token s - 1, tbf_queue_length := tbf_queue_length s - 1\<rparr>, [p])"
  | p where "fq_items (tbf_queue s) = [p]" "0 < n_token s" "n \<le> 0"
      "tbf_transmit mac n s = Some (s\<lparr>tbf_queue := (tbf_queue s)\<lparr>fq_items := []\<rparr>\<rparr>, [])"
proof (cases "fq_items (tbf_queue s) = [] \<or> n_token s = 0")
  case True
  moreover have "0 \<le> n_token s" using assms(1) by (simp add: gw_inv_def)
  ultimately have "tbf_transmit mac n s = Some (s, [])" by (auto simp: tbf_transmit_def fq_empty_def)
  with True that(1) show thesis by blast
next
  case False
  have "length (fq_items (tbf_queue s)) \<le> 1" "0 < n_token s"
    using assms(1) False by (auto simp: gw_inv_def LIMIT_def)
  with False obtain p where p: "fq_items (tbf_queue s) = [p]"
    by (cases "fq_items (tbf_queue s)") auto
  have "packet_ok p" using assms(1) p by (simp add: gw_inv_def)
  then obtain frame where "transmit_packet_rf (\<lambda>_. n) mac p = Some (n, frame)"
    using transmit_packet_rf_ok[OF _ assms(2), of p "\<lambda>_. n"] by auto
  then show thesis
    using p \<open>0 < n_token s\<close> that(2,3)[of p]
    by (cases "0 < n") (auto simp: tbf_transmit_def fq_empty_def fq_pop_Cons)
qed

lemma tbf_transmit_step:
  assumes "gw_inv s" and "6 \<le> length mac"
  shows "\<exists>s' sent. tbf_transmit mac n s = Some (s', sent) \<and> step_ok 0 s (s', [], sent)"
  using assms
  by (rule tbf_transmit_cases[of s mac n])
     (use assms(1) in \<open>auto simp: step_ok_def gw_inv_def gw_shape_def pipeline_def node_queue_def gw_consts fq_ok_def\<close>)

lemma generate_packet_cases:
  assumes inv: "gw_inv s"
  obtains "generate_packet rand s = Some (s, [])"
  | p where "packet_ok p" "gp_seq_number p = word_of_int (arr_seq (gw_status s) ! 0)"
      "gn s ! 0 + 1 < NODE_QUEUE_SIZE"
      "generate_packet rand s = Some (s\<lparr>
         gw_status := (gw_status s)\<lparr>arr_seq := [(arr_seq (gw_status s) ! 0 + 1) mod GW_MAX_SEQ_NUMBER]\<rparr>,
         node_queues := [(node_queue s)\<lparr>fq_items := fq_items (node_queue s) @ [p]\<rparr>],
         gn := [gn s ! 0 + 1]\<rparr>, [p])"
proof (cases "gn s ! 0 + 1 < NODE_QUEUE_SIZE")
  case False
  have "ard (gn s) 0 = Some (gn s ! 0)" using inv by (simp add: gw_inv_def gw_shape_def ard_def)
  with False have "generate_packet rand s = Some (s, [])"
    by (simp add: generate_packet_def N_NODE_def GENERATED_PACKET_PER_N_MICROSECOND_def cfor_step cfor_end)
  with that(1) show thesis by blast
next
  case True
  let ?p = "(generate_random_node (rand 0 0) 1)\<lparr>gp_seq_number := word_of_int (arr_seq (gw_status s) ! 0)\<rparr>"
  have l: "length (arr_seq (gw_status s)) = 1" "length (node_queues s) = 1" "length (gn s) = 1"
    using inv by (simp_all add: gw_inv_def gw_shape_def)
  then obtain a q g where x: "arr_seq (gw_status s) = [a]" "node_queues s = [q]" "gn s = [g]"
    by (auto simp: length_Suc_conv)
  have "int (length (fq_items q)) < fq_limit q"
    using inv True x by (simp add: gw_inv_def node_queue_def)
  with True x have "generate_packet rand s = Some (s\<lparr>
         gw_status := (gw_status s)\<lparr>arr_seq := [(arr_seq (gw_status s) ! 0 + 1) mod GW_MAX_SEQ_NUMBER]\<rparr>,
         node_queues := [(node_queue s)\<lparr>fq_items := fq_items (node_queue s) @ [?p]\<rparr>],
         gn := [gn s ! 0 + 1]\<rparr>, [?p])"
    by (simp add: generate_packet_def N_NODE_def GENERATED_PACKET_PER_N_MICROSECOND_def cfor_step cfor_end
        generate_one_def awr_def node_queue_def fq_push_def Let_def)
  with True that(2)[of ?p] packet_ok_generated show thesis by simp
qed

lemma generate_packet_step:
  assumes "gw_inv s"
  shows "\<exists>s' gen. generate_packet rand s = Some (s', gen) \<and> step_ok 0 s (s', gen, [])"
  using assms
proof (rule generate_packet_cases[of s rand])
  fix p assume p: "packet_ok p" "gn s ! 0 + 1 < NODE_QUEUE_SIZE"
    "generate_packet rand s = Some (s\<lparr>
         gw_status := (gw_status s)\<lparr>arr_seq := [(arr_seq (gw_status s) ! 0 + 1) mod GW_MAX_SEQ_NUMBER]\<rparr>,
         node_queues := [(node_queue s)\<lparr>fq_items := fq_items (node_queue s) @ [p]\<rparr>],
         gn := [gn s ! 0 + 1]\<rparr>, [p])"
  then show ?thesis
    using assms by (auto simp: step_ok_def gw_inv_def gw_shape_def pipeline_def node_queue_def GW_MAX_SEQ_NUMBER_def)
qed (use assms in \<open>simp add: step_ok_def\<close>)

text \<open>The scheduling thread answers when what it computes stays in the range of \<^verbatim>\<open>int\<close>.\<close>

definition schedule_room :: "gw_state \<Rightarrow> bool" where
  "schedule_room s \<longleftrightarrow> gw_r s + 1 < 2 ^ 31 \<and> NODE_QUEUE_SIZE - 2 ^ 31 \<le> vk s ! 0"

lemma schedule_fixed:
  assumes "gw_inv s"
  shows "schedule s 0 = (if schedule_in_range s then Some \<lparr>mode = 0, vlc_tgt_set = [0], n_vlc_tgt = 1\<rparr> else None)"
  using assms by (intro schedule_1) (simp_all add: gw_inv_def gw_shape_def)

lemma schedule_room_in_range: "gw_inv s \<Longrightarrow> schedule_room s \<Longrightarrow> schedule_in_range s"
  by (auto simp: schedule_room_def schedule_in_range_def gw_inv_def c_int_def NODE_QUEUE_SIZE_def)

lemma schedule_packet_cases:
  assumes inv: "gw_inv s"
  defines "u \<equiv> unsched_seq (gw_status s) ! 0"
  obtains "\<not> schedule_room s" "schedule_packet clock s = None"
  | "fq_items (node_queue s) = []"
      "schedule_packet clock s = Some (s\<lparr>
         gw_status := (gw_status s)\<lparr>unsched_seq := [(u + 1) mod GW_MAX_SEQ_NUMBER]\<rparr>\<rparr>)"
  | p ps where "fq_items (node_queue s) = p # ps" "c_int (gw_r s + 1)"
      "schedule_packet clock s = Some (s\<lparr>
         gw_status := (gw_status s)\<lparr>unsched_seq := [(u + 1) mod GW_MAX_SEQ_NUMBER],
           pkt_state := [(pkt_state (gw_status s) ! 0)(u := RF)]\<rparr>,
         node_queues := [(node_queue s)\<lparr>fq_items := ps\<rparr>],
         rf_queue := snd (fq_push p (rf_queue s)),
         gn := [gn s ! 0 - 1], gw_r := gw_r s + 1\<rparr>)"
proof -
  have sh: "gw_shape s" and u: "0 \<le> u" "u < GW_MAX_SEQ_NUMBER" using inv by (simp_all add: gw_inv_def u_def)
  then obtain q g w row where x: "node_queues s = [q]" "gn s = [g]" "unsched_seq (gw_status s) = [w]"
      "pkt_state (gw_status s) = [row]"
    by (auto simp: gw_shape_def length_Suc_conv)
  have w: "w = u" by (simp add: u_def x)
  note unf = schedule_packet_def N_NODE_def schedule_node_def schedule_fixed[OF inv] IDLE_MODE_def
    RF_MODE_def x w awr_def node_queue_def cfor_step cfor_end Let_def
  show thesis
  proof (cases "schedule_in_range s")
    case False
    then have "schedule_packet clock s = None" by (simp add: unf)
    with False that(1) schedule_room_in_range[OF inv] show thesis by blast
  next
    case range: True
    show thesis
    proof (cases "fq_items q")
      case Nil
      then have "schedule_packet clock s = Some (s\<lparr>
           gw_status := (gw_status s)\<lparr>unsched_seq := [(u + 1) mod GW_MAX_SEQ_NUMBER]\<rparr>\<rparr>)"
        using range by (simp add: unf fq_pop_Nil)
      with Nil that(2) show thesis by (simp add: node_queue_def x)
    next
      case (Cons p ps)
      have run: "schedule_packet clock s = map_option (\<lambda>r. s\<lparr>
           gw_status := (gw_status s)\<lparr>unsched_seq := [(u + 1) mod GW_MAX_SEQ_NUMBER],
             pkt_state := [(pkt_state (gw_status s) ! 0)(u := RF)]\<rparr>,
           node_queues := [(node_queue s)\<lparr>fq_items := ps\<rparr>],
           rf_queue := snd (fq_push p (rf_queue s)),
           gn := [gn s ! 0 - 1], gw_r := r\<rparr>) (chk (gw_r s + 1))"
        using u Cons range by (cases "chk (gw_r s + 1)") (simp_all add: unf fq_pop_Cons pkt_set_def)
      show thesis
      proof (cases "c_int (gw_r s + 1)")
        case True
        with run Cons that(3) show thesis by (simp add: node_queue_def x chk_def)
      next
        case False
        moreover have "0 \<le> gw_r s" using inv by (simp add: gw_inv_def)
        ultimately have "\<not> schedule_room s" by (simp add: schedule_room_def c_int_def)
        with False run that(1) show thesis by (simp add: chk_def)
      qed
    qed
  qed
qed

lemma schedule_packet_step:
  assumes "gw_inv s" and "schedule_packet clock s = Some s'"
  shows "step_ok 0 s (s', [], []) \<and> gw_r s' \<le> gw_r s + 1 \<and> vk s' = vk s"
  using assms(1)
proof (rule schedule_packet_cases[of s clock])
  fix p ps assume p: "fq_items (node_queue s) = p # ps" and r: "c_int (gw_r s + 1)"
    and eq: "schedule_packet clock s = Some (s\<lparr>
         gw_status := (gw_status s)\<lparr>unsched_seq := [(unsched_seq (gw_status s) ! 0 + 1) mod GW_MAX_SEQ_NUMBER],
           pkt_state := [(pkt_state (gw_status s) ! 0)(unsched_seq (gw_status s) ! 0 := RF)]\<rparr>,
         node_queues := [(node_queue s)\<lparr>fq_items := ps\<rparr>],
         rf_queue := snd (fq_push p (rf_queue s)),
         gn := [gn s ! 0 - 1], gw_r := gw_r s + 1\<rparr>)" (is "_ = Some ?s'")
  have "pipeline ?s' = fq_items (tbf_queue s) @ fq_items (snd (fq_push p (rf_queue s))) @ ps"
    by (simp add: pipeline_def node_queue_def)
  moreover have "subseq (fq_items (snd (fq_push p (rf_queue s)))) (fq_items (rf_queue s) @ [p])"
    by (simp add: fq_push_def subseq_rev_drop_many)
  ultimately have "subseq (pipeline ?s') (pipeline s)"
    using p by (simp add: pipeline_def) (metis append.assoc append_Cons append_Nil list_emb_append_mono subseq_order.refl)
  moreover have "gw_inv ?s'"
    using assms(1) p r
    by (auto simp: gw_inv_def gw_shape_def node_queue_def GW_MAX_SEQ_NUMBER_def fq_push_def fq_ok_def)
  ultimately show ?thesis using eq assms(2) by (auto simp: step_ok_def)
qed (use assms in \<open>auto simp: step_ok_def gw_inv_def gw_shape_def pipeline_def node_queue_def GW_MAX_SEQ_NUMBER_def\<close>)

lemma schedule_packet_total:
  assumes "gw_inv s" and "schedule_room s"
  shows "\<exists>s'. schedule_packet clock s = Some s'"
  using assms(1) by (rule schedule_packet_cases[of s clock]) (use assms(2) in auto)

lemma report_frame_inv:
  assumes "gw_inv s" and "report_frame_eq s s'"
  shows "step_ok 0 s (s', [], [])"
proof -
  obtain u e' b where s': "s' = s\<lparr>gw_status := (gw_status s)\<lparr>unacked_seq := u\<rparr>, gw_e := e', report_buf := b\<rparr>"
    "length u = length (unacked_seq (gw_status s))" "length b = length (report_buf s)"
    "map length e' = map length (gw_e s)"
    using assms(2) by (auto simp: report_frame_eq_def)
  have e1: "length (gw_e s) = 1" "length (gw_e s ! 0) = 1" using assms(1) by (simp_all add: gw_inv_def gw_shape_def)
  then obtain p where "gw_e s = [[p]]" by (auto simp: length_Suc_conv)
  with s'(4) have "length e' = 1" "length (e' ! 0) = 1" by (auto simp: length_Suc_conv)
  then show ?thesis
    using assms(1) s'(1-3) by (auto simp: step_ok_def gw_inv_def gw_shape_def pipeline_def node_queue_def)
qed

lemma rd_int_range: "rd_int b i = Some x \<Longrightarrow> c_int x"
  using sint_range_size[where 'a = 32] by (auto simp: rd_int_def c_int_def word_size split: Option.bind_splits)

lemma receive_vlc_report_step:
  assumes "gw_inv s" and "receive_vlc_report rx s = Some s'"
  shows "step_ok 0 s (s', [], [])"
proof -
  obtain n buf where rv: "recvfrom rx (vlc_report_buf s) = (n, buf)" by fastforce
  then have "length buf = length (vlc_report_buf s)"
    by (auto simp: recvfrom_def Let_def split: option.splits)
  with assms rv consider "s' = s\<lparr>vlc_report_buf := buf\<rparr>"
    | b v i where "s' = s\<lparr>vlc_report_buf := buf, vk := v\<rparr>" "awr (vk s) i b = Some v" "c_int b"
    by (auto simp: receive_vlc_report_def Let_def dest: rd_int_range split: if_splits Option.bind_splits)
  then show ?thesis
  proof cases
    case (2 b v i)
    have "length (vk s) = 1" using assms(1) by (simp add: gw_inv_def gw_shape_def)
    with 2(2) have "v = [b]" by (auto simp: awr_def length_Suc_conv split: if_splits)
    with 2 show ?thesis using assms(1) \<open>length buf = length (vlc_report_buf s)\<close>
      by (auto simp: step_ok_def gw_inv_def gw_shape_def pipeline_def node_queue_def)
  qed (use assms(1) \<open>length buf = length (vlc_report_buf s)\<close> in
      \<open>auto simp: step_ok_def gw_inv_def gw_shape_def pipeline_def node_queue_def\<close>)
qed

definition macs_ok :: "gw_event \<Rightarrow> bool" where
  "macs_ok ev = (case ev of Tbf_transmit mac n \<Rightarrow> 6 \<le> length mac | _ \<Rightarrow> True)"

definition scheduled :: "gw_event \<Rightarrow> int" where
  "scheduled ev = (case ev of Schedule_packet clock \<Rightarrow> 1 | _ \<Rightarrow> 0)"

definition tokens_of :: "gw_event \<Rightarrow> int" where
  "tokens_of ev = (if ev = Add_token then 1 else 0)"

lemma gw_exec_step:
  assumes inv: "gw_inv s" and mac: "macs_ok ev" and ex: "gw_exec ev s = Some res"
  shows "step_ok (tokens_of ev) s res"
proof (cases ev)
  case Transmit_rf
  from transmit_rf_step[OF inv] obtain s' where "transmit_rf s = Some s'" "step_ok 0 s (s', [], [])" by blast
  with ex Transmit_rf show ?thesis by (simp add: tokens_of_def)
next
  case (Receive_report rx)
  with ex obtain s' where "receive_report rx s = Some s'" "res = (s', [], [])" by auto
  with report_frame_inv[OF inv receive_report_frame] Receive_report show ?thesis by (simp add: tokens_of_def)
next
  case (Receive_vlc_report rx)
  with ex receive_vlc_report_step[OF inv] show ?thesis by (auto simp: tokens_of_def)
next
  case (Transmit_vlc m tries)
  have "transmit_vlc m tries s = Some (s, [])"
    using inv by (simp add: transmit_vlc_def fq_empty_def gw_inv_def)
  with ex Transmit_vlc inv show ?thesis by (auto simp: tokens_of_def intro: step_ok_quiet)
next
  case Add_token
  with ex add_token_step[OF inv] show ?thesis by (auto simp: tokens_of_def)
next
  case (Tbf_transmit m n)
  with mac have "6 \<le> length m" by (simp add: macs_ok_def)
  from tbf_transmit_step[OF inv this, of n] ex Tbf_transmit show ?thesis by (auto simp: tokens_of_def)
next
  case (Generate_packet rand)
  with ex generate_packet_step[OF inv, of rand] show ?thesis by (auto simp: tokens_of_def)
next
  case (Schedule_packet clock)
  with ex obtain s' where "schedule_packet clock s = Some s'" "res = (s', [], [])" by auto
  with schedule_packet_step[OF inv, of clock] Schedule_packet show ?thesis by (simp add: tokens_of_def)
qed

text \<open>Everything but the two receivers is free of faults while \<^verbatim>\<open>r\<close> and the reported queue length leave room.\<close>

lemma gw_exec_total:
  assumes inv: "gw_inv s" and mac: "macs_ok ev" and room: "scheduled ev = 1 \<Longrightarrow> schedule_room s"
    and ev: "\<And>rx. ev \<noteq> Receive_report rx" "\<And>rx. ev \<noteq> Receive_vlc_report rx"
  shows "\<exists>res. gw_exec ev s = Some res"
proof (cases ev)
  case Transmit_rf
  with transmit_rf_step[OF inv] show ?thesis by auto
next
  case (Transmit_vlc m tries)
  then show ?thesis using inv by (simp add: transmit_vlc_def fq_empty_def gw_inv_def)
next
  case (Tbf_transmit m n)
  with mac have "6 \<le> length m" by (simp add: macs_ok_def)
  from tbf_transmit_step[OF inv this, of n] Tbf_transmit show ?thesis by auto
next
  case (Generate_packet rand)
  with generate_packet_step[OF inv, of rand] show ?thesis by auto
next
  case (Schedule_packet clock)
  with room schedule_packet_total[OF inv, of clock] show ?thesis by (auto simp: scheduled_def)
qed (use ev in auto)

lemma gw_exec_counts:
  assumes inv: "gw_inv s" and mac: "macs_ok ev" and ex: "gw_exec ev s = Some (s', gen, sent)"
    and ev: "\<And>rx. ev \<noteq> Receive_report rx" "\<And>rx. ev \<noteq> Receive_vlc_report rx"
  shows "gw_r s' \<le> gw_r s + scheduled ev \<and> vk s' = vk s"
proof (cases ev)
  case Transmit_rf
  with ex transmit_rf_step[OF inv] show ?thesis by (auto simp: scheduled_def)
next
  case (Transmit_vlc m tries)
  then show ?thesis using inv ex by (auto simp: transmit_vlc_def fq_empty_def gw_inv_def scheduled_def)
next
  case Add_token
  with ex show ?thesis by (auto simp: add_token_def scheduled_def)
next
  case (Tbf_transmit m n)
  with mac have "6 \<le> length m" by (simp add: macs_ok_def)
  then show ?thesis using ex Tbf_transmit
    by (rule_tac tbf_transmit_cases[OF inv, of m n]) (auto simp: scheduled_def)
next
  case (Generate_packet rand)
  then show ?thesis using ex by (rule_tac generate_packet_cases[OF inv, of rand]) (auto simp: scheduled_def)
next
  case (Schedule_packet clock)
  with ex schedule_packet_step[OF inv, of clock] show ?thesis by (auto simp: scheduled_def)
qed (use ev in auto)

lemma scheduled_nonneg: "0 \<le> (\<Sum>ev\<leftarrow>evs. scheduled ev)"
  by (rule sum_list_nonneg) (auto simp: scheduled_def split: gw_event.splits)

lemma gw_run_total:
  assumes "gw_inv s" and "list_all macs_ok evs" and "\<And>ev. ev \<in> set evs \<Longrightarrow> \<not> parses_input ev"
    and "gw_r s + (\<Sum>ev\<leftarrow>evs. scheduled ev) < 2 ^ 31" and "NODE_QUEUE_SIZE - 2 ^ 31 \<le> vk s ! 0"
  shows "\<exists>res. gw_run evs s = Some res"
  using assms
proof (induction evs arbitrary: s)
  case (Cons ev evs)
  have mac: "macs_ok ev" and ni: "\<And>rx. ev \<noteq> Receive_report rx" "\<And>rx. ev \<noteq> Receive_vlc_report rx"
    using Cons.prems(2) Cons.prems(3)[of ev] by (auto simp: parses_input_def)
  have "scheduled ev = 1 \<Longrightarrow> schedule_room s"
    using Cons.prems(4,5) scheduled_nonneg[of evs] by (simp add: schedule_room_def)
  from gw_exec_total[OF Cons.prems(1) mac this ni] obtain s1 gen sent where ex: "gw_exec ev s = Some (s1, gen, sent)" by auto
  with gw_exec_step[OF Cons.prems(1) mac] have "gw_inv s1" by (force simp: step_ok_def)
  moreover note gw_exec_counts[OF Cons.prems(1) mac ex ni]
  ultimately have "\<exists>res. gw_run evs s1 = Some res" by (intro Cons.IH) (use Cons.prems(2-5) in auto)
  with ex show ?case by (auto split: prod.splits)
qed simp

lemma gw_run_ok:
  assumes "gw_inv s" and "list_all macs_ok evs" and "gw_run evs s = Some (s', gen, sent)"
  shows "gw_inv s' \<and> subseq (sent @ pipeline s') (pipeline s @ gen)
    \<and> n_token s' + int (length sent) \<le> n_token s + (\<Sum>ev\<leftarrow>evs. tokens_of ev)"
  using assms
proof (induction evs arbitrary: s gen sent)
  case Nil
  then show ?case by simp
next
  case (Cons ev evs)
  from Cons.prems(3) obtain s1 g1 t1 g2 t2 where 1: "gw_exec ev s = Some (s1, g1, t1)"
    and 2: "gw_run evs s1 = Some (s', g2, t2)" and l: "gen = g1 @ g2" "sent = t1 @ t2"
    by (auto split: Option.bind_splits)
  have st: "step_ok (tokens_of ev) s (s1, g1, t1)"
    using gw_exec_step[OF Cons.prems(1) _ 1] Cons.prems(2) by simp
  then have inv1: "gw_inv s1" by (simp add: step_ok_def)
  note ih = Cons.IH[OF inv1 _ 2]
  have "subseq (t1 @ t2 @ pipeline s') (t1 @ pipeline s1 @ g2)"
    using ih Cons.prems(2) by (simp add: list_emb_append_mono)
  moreover have "subseq ((t1 @ pipeline s1) @ g2) ((pipeline s @ g1) @ g2)"
    using st by (rule_tac list_emb_append_mono[OF _ subseq_order.refl]) (simp add: step_ok_def)
  ultimately have "subseq (t1 @ t2 @ pipeline s') (pipeline s @ g1 @ g2)"
    using subseq_order.trans by fastforce
  then show ?case using ih st Cons.prems(2) by (simp add: l step_ok_def)
qed

section \<open>Starvation\<close>

text \<open>A failed send takes the packet out of the filter without giving its place back. From then on
  nothing is sent over RF any more.\<close>

definition starved :: "gw_state \<Rightarrow> bool" where
  "starved s \<longleftrightarrow> fq_items (tbf_queue s) = [] \<and> tbf_queue_length s = LIMIT"

lemma failed_send_starves:
  assumes "gw_inv s" and "6 \<le> length mac" and "fq_items (tbf_queue s) \<noteq> []" and "0 < n_token s" and "n \<le> 0"
  shows "\<exists>s'. tbf_transmit mac n s = Some (s', []) \<and> starved s'"
proof -
  have "tbf_queue_length s = LIMIT"
    using assms(1,3) by (cases "fq_items (tbf_queue s)") (auto simp: gw_inv_def LIMIT_def)
  with assms show ?thesis
    by (rule_tac tbf_transmit_cases[OF assms(1,2), of n]) (auto simp: starved_def)
qed

lemma starved_step:
  assumes "gw_inv s" and "macs_ok ev" and "starved s" and "gw_exec ev s = Some (s', gen, sent)"
  shows "starved s' \<and> sent = []"
proof (cases ev)
  case Transmit_rf
  with assms show ?thesis by (auto simp: starved_def transmit_rf_def split: if_splits)
next
  case (Receive_report rx)
  with assms(3,4) receive_report_frame[of rx s s'] show ?thesis
    by (auto simp: starved_def report_frame_eq_def)
next
  case (Receive_vlc_report rx)
  with assms(3,4) show ?thesis
    by (auto simp: starved_def receive_vlc_report_def Let_def split: prod.splits if_splits Option.bind_splits)
next
  case (Transmit_vlc m tries)
  with assms show ?thesis by (auto simp: starved_def transmit_vlc_def fq_empty_def gw_inv_def)
next
  case Add_token
  with assms show ?thesis by (auto simp: starved_def add_token_def)
next
  case (Tbf_transmit m n)
  with assms show ?thesis by (auto simp: starved_def tbf_transmit_def fq_empty_def)
next
  case (Generate_packet rand)
  then show ?thesis
    using assms(3,4) by (rule_tac generate_packet_cases[OF assms(1), of rand]) (auto simp: starved_def)
next
  case (Schedule_packet clock)
  then show ?thesis
    using assms(3,4) by (rule_tac schedule_packet_cases[OF assms(1), of clock]) (auto simp: starved_def)
qed

lemma starved_run:
  assumes "gw_inv s" and "list_all macs_ok evs" and "starved s" and "gw_run evs s = Some (s', gen, sent)"
  shows "starved s' \<and> sent = []"
  using assms
proof (induction evs arbitrary: s gen sent)
  case (Cons ev evs)
  from Cons.prems(4) obtain s1 g1 t1 g2 t2 where 1: "gw_exec ev s = Some (s1, g1, t1)"
    and 2: "gw_run evs s1 = Some (s', g2, t2)" and l: "sent = t1 @ t2"
    by (auto split: Option.bind_splits)
  have "gw_inv s1" using gw_exec_step[OF Cons.prems(1) _ 1] Cons.prems(2) by (simp add: step_ok_def)
  with starved_step[OF Cons.prems(1) _ Cons.prems(3) 1] Cons.IH[OF _ _ _ 2] Cons.prems(2) l
  show ?case by auto
qed auto

end
