(* ===== verification/Parsers.thy ===== *)
theory Parsers
  imports Packets
begin

text \<open>
  The three packet parsers on arbitrary bytes: what they accept is exactly a header, the payload it announces and
  anything behind, and what they return is a well formed packet whose serialisation these bytes are. Reading past the
  end of the buffer, which the C code does not check, is the only way they fail.
\<close>

unbundle bit_operations_syntax

lemma ard_SomeD: "ard xs i = Some x \<Longrightarrow> 0 \<le> i \<and> i < int (length xs) \<and> x = xs ! nat i"
  by (auto simp: ard_def split: if_splits)

text \<open>A word that can be read stands there.\<close>

lemma rd16_SomeD:
  assumes "rd16 b (int i) = Some x"
  shows "drop i b = le16 x @ drop (i + 2) b" "i + 2 \<le> length b"
proof -
  from assms have i: "i + 1 < length b" "x = of_le16 (b ! i) (b ! (i + 1))"
    by (auto simp: rd16_def nat_add_distrib dest!: ard_SomeD split: Option.bind_splits)
  then show "drop i b = le16 x @ drop (i + 2) b" by (simp add: le16_of_le16 Cons_nth_drop_Suc)
  show "i + 2 \<le> length b" using i(1) by simp
qed

lemma rd32_SomeD:
  assumes "rd32 b (int i) = Some x"
  shows "drop i b = le32 x @ drop (i + 4) b" "i + 4 \<le> length b"
proof -
  from assms have i: "i + 3 < length b" "x = of_le32 (b ! i) (b ! (i + 1)) (b ! (i + 2)) (b ! (i + 3))"
    by (auto simp: rd32_def nat_add_distrib dest!: ard_SomeD split: Option.bind_splits)
  then show "drop i b = le32 x @ drop (i + 4) b" by (simp add: le32_of_le32 Cons_nth_drop_Suc eval_nat_numeral)
  show "i + 4 \<le> length b" using i(1) by simp
qed

lemma header_reads:
  assumes "rd16 b 0 = Some x" "rd16 b 2 = Some y" "rd16 b 4 = Some z" "rd32 b 6 = Some s"
  shows "b = le16 x @ le16 y @ le16 z @ le32 s @ drop 10 b" "10 \<le> length b"
proof -
  have "drop 0 b = le16 x @ drop 2 b" "drop 2 b = le16 y @ drop 4 b"
    using rd16_SomeD(1)[of b 0 x] rd16_SomeD(1)[of b 2 y] assms by (simp_all add: numeral_2_eq_2 numeral_3_eq_3 numeral_eq_Suc)
  moreover have "drop 4 b = le16 z @ drop 6 b" "drop 6 b = le32 s @ drop 10 b" "10 \<le> length b"
    using rd16_SomeD[of b 4 z] rd32_SomeD[of b 6 s] assms by simp_all
  ultimately show "b = le16 x @ le16 y @ le16 z @ le32 s @ drop 10 b" "10 \<le> length b" by (metis drop0)+
qed

text \<open>The payload loop succeeds only where all its bytes can be read.\<close>

lemma read_loop_len:
  assumes "cfor i n (\<lambda>i (data, idx). do { b \<leftarrow> ard src idx; data \<leftarrow> awr data i b; Some (data, idx + 1) }) (d, k) = Some t"
    "i \<le> n" "k \<le> int (length src)"
  shows "k + n - i \<le> int (length src)"
  using assms
proof (induction "nat (n - i)" arbitrary: i d k)
  case (Suc m)
  from Suc.hyps(2) have "i < n" by simp
  with Suc.prems(1) obtain b d' where "ard src k = Some b" and
    l: "cfor (i + 1) n (\<lambda>i (data, idx). do { b \<leftarrow> ard src idx; data \<leftarrow> awr data i b; Some (data, idx + 1) }) (d', k + 1) = Some t"
    by (auto simp: cfor_step split: Option.bind_splits)
  then have "k + 1 \<le> int (length src)" by (auto dest: ard_SomeD)
  moreover have "m = nat (n - (i + 1))" "i + 1 \<le> n" using Suc.hyps(2) by simp_all
  ultimately show ?case using Suc.hyps(1)[OF _ l] by simp
qed simp

text \<open>The two parsers of RF and Ethernet frames, whose header begins with the node.\<close>

definition header_first :: "u8 list \<Rightarrow> gateway_packet \<Rightarrow> bool" where
  "header_first b p \<longleftrightarrow> gp_wf p \<and> take (10 + length (gp_data p)) b = gp_header p (gp_vlc_id p) @ gp_payload p"

lemma header_firstD: "header_first b p \<Longrightarrow> \<exists>rest. b = gp_header p (gp_vlc_id p) @ gp_payload p @ rest"
  unfolding header_first_def by (metis append.assoc append_take_drop_id)

lemma header_first_parsed:
  assumes rd: "rd16 b 0 = Some i" "rd16 b 2 = Some v" "rd16 b 4 = Some l" "rd32 b 6 = Some s"
    and loop: "cfor 0 (uint l) (\<lambda>i (data, idx). do { x \<leftarrow> ard b idx; data \<leftarrow> awr data i x; Some (data, idx + 1) })
      (replicate (unat l) 0, 10) = Some t"
  defines "p \<equiv> \<lparr>gp_node_id = i, gp_vlc_id = v, gp_payload_len = l, gp_seq_number = s, gp_data = take (unat l) (drop 10 b)\<rparr>"
  shows "header_first b p"
proof -
  note d = header_reads[OF rd]
  have b: "b = gp_header p (gp_vlc_id p) @ drop 10 b" using d(1) by (simp add: gp_header_def p_def)
  obtain n where n: "uint l = int n" "unat l = n" by (metis uint_unat)
  have "10 + unat l \<le> length b" using read_loop_len[OF loop] d(2) unfolding n by simp
  then have w: "gp_wf p" "length (gp_data p) = unat l" by (simp_all add: gp_wf_def p_def)
  have "take (10 + unat l) (gp_header p (gp_vlc_id p) @ drop 10 b) = gp_header p (gp_vlc_id p) @ gp_payload p"
    by (simp add: gp_payload_def p_def)
  with w b show ?thesis by (simp add: header_first_def)
qed

lemma from_bytes_exact: "generate_gateway_packet_from_bytes b = Some p \<longleftrightarrow> header_first b p"
proof
  assume "generate_gateway_packet_from_bytes b = Some p"
  then obtain i v l s t where "rd16 b 0 = Some i" "rd16 b 2 = Some v" "rd16 b 4 = Some l" "rd32 b 6 = Some s"
    "cfor 0 (uint l) (\<lambda>i (data, idx). do { x \<leftarrow> ard b idx; data \<leftarrow> awr data i x; Some (data, idx + 1) })
      (replicate (unat l) 0, 10) = Some t"
    by (auto simp: generate_gateway_packet_from_bytes_def split: Option.bind_splits)
  from header_first_parsed[OF this] obtain q where q: "header_first b q" by blast
  with header_firstD[OF q] vlc_tx_reads_frame[of q "gp_vlc_id q"] \<open>generate_gateway_packet_from_bytes b = Some p\<close>
  show "header_first b p" by (auto simp: header_first_def)
next
  assume p: "header_first b p"
  with header_firstD[OF p] vlc_tx_reads_frame[of p "gp_vlc_id p"] show "generate_gateway_packet_from_bytes b = Some p"
    by (auto simp: header_first_def)
qed

lemma rf_arrived_exact: "rf_arrived_packet b = Some np \<longleftrightarrow> (\<exists>p. np = to_node_packet p \<and> header_first b p)"
proof
  assume np: "rf_arrived_packet b = Some np"
  then obtain i v l s t where "rd16 b 0 = Some i" "rd16 b 2 = Some v" "rd16 b 4 = Some l" "rd32 b 6 = Some s"
    "cfor 0 (uint l) (\<lambda>i (data, idx). do { x \<leftarrow> ard b idx; data \<leftarrow> awr data i x; Some (data, idx + 1) })
      (replicate (unat l) 0, 10) = Some t"
    by (auto simp: rf_arrived_packet_def split: Option.bind_splits)
  from header_first_parsed[OF this] obtain q where q: "header_first b q" by blast
  with header_firstD[OF q] node_reads_rf_frame[of q "gp_vlc_id q"] np
  show "\<exists>p. np = to_node_packet p \<and> header_first b p" by (auto simp: header_first_def)
next
  assume "\<exists>p. np = to_node_packet p \<and> header_first b p"
  then obtain p where p: "np = to_node_packet p" "header_first b p" by blast
  with header_firstD[OF p(2)] node_reads_rf_frame[of p "gp_vlc_id p"] show "rf_arrived_packet b = Some np"
    by (auto simp: header_first_def)
qed

text \<open>The parser of VLC frames, whose header begins with the length.\<close>

definition length_first :: "u8 list \<Rightarrow> gateway_packet \<Rightarrow> bool" where
  "length_first b p \<longleftrightarrow> gp_wf p \<and> take (10 + length (gp_data p)) b = vlc_header_bytes p @ gp_payload p"

lemma length_firstD: "length_first b p \<Longrightarrow> \<exists>rest. b = vlc_header_bytes p @ gp_payload p @ rest"
  unfolding length_first_def by (metis append.assoc append_take_drop_id)

lemma generate_from_bytes_reads:
  "generate_from_bytes b = do {
     payload_len \<leftarrow> rd16 b 0; node_id \<leftarrow> rd16 b 2; vlc_id \<leftarrow> rd16 b 4; seq_number \<leftarrow> rd32 b 6;
     data \<leftarrow> cget b 10 (uint payload_len);
     Some (generate_node_packet node_id vlc_id payload_len seq_number data) }"
proof (cases "6 \<le> length b")
  case True
  then have "ard b 0 = Some (b ! 0)" "ard b 1 = Some (b ! 1)" "ard b 2 = Some (b ! 2)" "ard b 3 = Some (b ! 3)"
    "ard b 4 = Some (b ! 4)" "ard b 5 = Some (b ! 5)" by (auto simp: ard_def)
  then show ?thesis by (simp add: generate_from_bytes_def rd16_def shift_add_le16 Let_def)
next
  case False
  then have "ard b 5 = None" by (simp add: ard_def)
  then show ?thesis by (auto simp: generate_from_bytes_def rd16_def Let_def split: Option.bind_splits)
qed

lemma generate_from_bytes_exact: "generate_from_bytes b = Some np \<longleftrightarrow> (\<exists>p. np = to_node_packet p \<and> length_first b p)"
proof
  assume np: "generate_from_bytes b = Some np"
  then obtain i v l s d where rd: "rd16 b 0 = Some l" "rd16 b 2 = Some i" "rd16 b 4 = Some v" "rd32 b 6 = Some s"
    and d: "cget b 10 (uint l) = Some d"
    unfolding generate_from_bytes_reads by (auto split: Option.bind_splits)
  let ?p = "\<lparr>gp_node_id = i, gp_vlc_id = v, gp_payload_len = l, gp_seq_number = s, gp_data = d\<rparr>"
  have h: "b = vlc_header_bytes ?p @ drop 10 b" using header_reads(1)[OF rd] by (simp add: vlc_header_bytes_def)
  obtain n where n: "uint l = int n" "unat l = n" by (metis uint_unat)
  have dd: "d = take (unat l) (drop 10 b)" "length d = unat l"
    using d unfolding n by (auto simp: cget_def min_def split: if_splits)
  have "take (10 + unat l) (vlc_header_bytes ?p @ drop 10 b) = vlc_header_bytes ?p @ gp_payload ?p"
    using dd by (simp add: gp_payload_def)
  then have "length_first b ?p" using dd(2) h by (simp add: length_first_def gp_wf_def)
  with length_firstD[of b ?p] node_reads_vlc_frame[of ?p] np
  show "\<exists>p. np = to_node_packet p \<and> length_first b p" by (auto simp: length_first_def)
next
  assume "\<exists>p. np = to_node_packet p \<and> length_first b p"
  then obtain p where p: "np = to_node_packet p" "length_first b p" by blast
  with length_firstD[OF p(2)] node_reads_vlc_frame[of p] show "generate_from_bytes b = Some np"
    by (auto simp: length_first_def)
qed

end
