(* ===== verification/Vlc_Tx.thy ===== *)
theory Vlc_Tx
  imports Packet_Queue Parsers
begin

text \<open>
  The user-level VLC transmitter, \<^verbatim>\<open>main.c\<close> of \<^verbatim>\<open>vlc_tx\<close>: the Ethernet receiver loop of \<^verbatim>\<open>main\<close>, the
  thread that hands packets to the VLC interface, and the thread that reports the queue length to
  the gateway. They share the queue and the counter \<^verbatim>\<open>queue_size\<close> without a lock, and the transmitting thread retries \<^verbatim>\<open>write\<close>
  between taking a packet and counting it off. So a thread is a sequence of steps on the record \<open>tx_state\<close>, with a program
  counter (\<open>tx_pc\<close>, \<open>rx_pc\<close>), and a run of the program interleaves them: one call of \<^verbatim>\<open>Enqueue\<close>, \<^verbatim>\<open>Dequeue\<close> or \<^verbatim>\<open>write\<close> is a
  step, and so are the load and the store of \<^verbatim>\<open>queue_size++\<close> and \<^verbatim>\<open>queue_size--\<close>.
\<close>

section \<open>State\<close>

definition QUEUE_LIMIT :: int where "QUEUE_LIMIT = 1000000"

record tx_state =
  tx_vlc_queue :: "gateway_packet fifo"
  queue_size :: int
  tx_vlc_buff :: "u8 list"
  eth_buf :: "u8 list"

definition tx_init :: "u8 list \<Rightarrow> tx_state" where
  "tx_init garbage = \<lparr>tx_vlc_queue = fq_new QUEUE_LIMIT, queue_size = 0,
     tx_vlc_buff = replicate 1024 0, eth_buf = garbage\<rparr>"

section \<open>The receiver loop of main\<close>

text \<open>A frame arrives; the payload is copied into a block of its own. \<open>None\<close> as second result: the frame is not for this
  transmitter.\<close>

definition tx_arrival :: "u8 list option \<Rightarrow> tx_state \<Rightarrow> (tx_state \<times> gateway_packet option) option" where
  "tx_arrival rx s =
    (let (numbytes, buf) = recvfrom rx (eth_buf s); s = s\<lparr>eth_buf := buf\<rparr> in
     if is_for_this_tx buf then do {
       buffer_content \<leftarrow> generate_gateway_packet_from_bytes (drop (nat ETHER_HDR) buf);
       data \<leftarrow> cfor 0 (uint (gp_payload_len buffer_content)) (\<lambda>i data. do {
         b \<leftarrow> ard (gp_data buffer_content) i;
         awr data i b }) (replicate (unat (gp_payload_len buffer_content)) 0);
       Some (s, Some \<lparr>gp_node_id = gp_node_id buffer_content, gp_vlc_id = gp_vlc_id buffer_content,
         gp_payload_len = gp_payload_len buffer_content, gp_seq_number = gp_seq_number buffer_content,
         gp_data = data\<rparr>) }
     else Some (s, None))"

text \<open>The loop waits for a frame; looks whether there is room; puts the packet into the queue; loads the counter; stores it.\<close>

datatype rx_pc = R_recv | R_check gateway_packet | R_enqueue gateway_packet | R_load | R_store int

fun r_step :: "u8 list option \<Rightarrow> rx_pc \<times> tx_state \<Rightarrow> (rx_pc \<times> tx_state) option" where
  "r_step rx (R_recv, s) = do {
     (s, p) \<leftarrow> tx_arrival rx s;
     Some (case p of None \<Rightarrow> R_recv | Some temp \<Rightarrow> R_check temp, s) }"
| "r_step rx (R_check temp, s) = Some (if queue_size s + 1 < QUEUE_LIMIT then R_enqueue temp else R_recv, s)"
| "r_step rx (R_enqueue temp, s) = Some (R_load, s\<lparr>tx_vlc_queue := snd (fq_push temp (tx_vlc_queue s))\<rparr>)"
| "r_step rx (R_load, s) = Some (R_store (queue_size s), s)"
| "r_step rx (R_store n, s) = Some (R_recv, s\<lparr>queue_size := n + 1\<rparr>)"

text \<open>An iteration that nothing interrupts.\<close>

definition r_next :: "rx_pc \<times> tx_state \<Rightarrow> (rx_pc \<times> tx_state) option" where
  "r_next x = (if fst x = R_recv then Some x else r_step None x)"

definition tx_receive :: "u8 list option \<Rightarrow> tx_state \<Rightarrow> tx_state option" where
  "tx_receive rx s = do {
     x \<leftarrow> r_step rx (R_recv, s);
     x \<leftarrow> r_next x;
     x \<leftarrow> r_next x;
     x \<leftarrow> r_next x;
     x \<leftarrow> r_next x;
     Some (snd x) }"

section \<open>The transmitting thread\<close>

text \<open>The thread looks into the queue and takes a packet; fills the buffer; calls \<^verbatim>\<open>write\<close>, with result \<open>n\<close>, until it
  succeeds; loads the counter; stores it. The bytes handed to a successful \<^verbatim>\<open>write\<close> are the last result.\<close>

datatype tx_pc = T_idle | T_fill gateway_packet | T_write int | T_load | T_store int

fun t_step :: "int \<Rightarrow> tx_pc \<times> tx_state \<Rightarrow> (tx_pc \<times> tx_state \<times> u8 list list) option" where
  "t_step n (T_idle, s) =
     (if \<not> fq_empty (tx_vlc_queue s) then
        (let (from_queue, q) = fq_pop (tx_vlc_queue s); s = s\<lparr>tx_vlc_queue := q\<rparr> in
         case from_queue of
           None \<Rightarrow> Some (T_idle, s, [])
         | Some vlc_packet \<Rightarrow> Some (T_fill vlc_packet, s, []))
      else Some (T_idle, s, []))"
| "t_step n (T_fill vlc_packet, s) = do {
     (b, len) \<leftarrow> fill_vlc_buff (tx_vlc_buff s) vlc_packet;
     Some (T_write len, s\<lparr>tx_vlc_buff := b\<rparr>, []) }"
| "t_step n (T_write len, s) =
     Some (if n < 0 then (T_write len, s, []) else (T_load, s, [take (nat len) (tx_vlc_buff s)]))"
| "t_step n (T_load, s) = Some (T_store (queue_size s), s, [])"
| "t_step n (T_store k, s) = Some (T_idle, s\<lparr>queue_size := k - 1\<rparr>, [])"

text \<open>An iteration that nothing interrupts; \<open>tries\<close> are the results of \<^verbatim>\<open>write\<close>, and running out of them is \<open>None\<close>.\<close>

definition t_next :: "tx_pc \<times> tx_state \<Rightarrow> (tx_pc \<times> tx_state) option" where
  "t_next x = (if fst x = T_idle then Some x else map_option (\<lambda>(t, s, out). (t, s)) (t_step 0 x))"

fun t_writes :: "int list \<Rightarrow> tx_pc \<times> tx_state \<Rightarrow> (tx_pc \<times> tx_state \<times> u8 list list) option" where
  "t_writes tries (T_write len, s) =
     (case tries of
        [] \<Rightarrow> None
      | n # tries \<Rightarrow> do {
          (t, s, out) \<leftarrow> t_step n (T_write len, s);
          (t, s, out') \<leftarrow> t_writes tries (t, s);
          Some (t, s, out @ out') })"
| "t_writes tries (t, s) = Some (t, s, [])"

definition tx_transmit_vlc :: "int list \<Rightarrow> tx_state \<Rightarrow> (tx_state \<times> u8 list list) option" where
  "tx_transmit_vlc tries s = do {
     (t, s, _) \<leftarrow> t_step 0 (T_idle, s);
     x \<leftarrow> t_next (t, s);
     (t, s, out) \<leftarrow> t_writes tries x;
     x \<leftarrow> t_next (t, s);
     x \<leftarrow> t_next x;
     Some (snd x, out) }"

text \<open>The reporting thread reads the counter at any time.\<close>

definition tx_report :: "u8 list \<Rightarrow> tx_state \<Rightarrow> u8 list option" where
  "tx_report eth_if_mac s = send_queue_report eth_if_mac (queue_size s)"

section \<open>Runs\<close>

type_synonym tx_prog = "tx_pc \<times> rx_pc \<times> tx_state"

inductive tx_step :: "tx_prog \<Rightarrow> tx_prog \<Rightarrow> bool" where
  step_transmit: "t_step n (t, s) = Some (t', s', out) \<Longrightarrow> tx_step (t, r, s) (t', r, s')"
| step_receive: "r_step rx (r, s) = Some (r', s') \<Longrightarrow> tx_step (t, r, s) (t, r', s')"
| step_report: "tx_report mac s = Some frame \<Longrightarrow> tx_step (t, r, s) (t, r, s)"

inductive_cases tx_stepE: "tx_step (t, r, s) y"

text \<open>The runs in which every state fulfils \<open>A\<close>.\<close>

inductive tx_runs :: "(tx_prog \<Rightarrow> bool) \<Rightarrow> tx_prog \<Rightarrow> bool" for A where
  runs_init: "length garbage = 1024 \<Longrightarrow> tx_runs A (T_idle, R_recv, tx_init garbage)"
| runs_step: "tx_runs A x \<Longrightarrow> tx_step x y \<Longrightarrow> A y \<Longrightarrow> tx_runs A y"

text \<open>The two updates of the counter do not overlap: not both threads have loaded and not yet stored it.\<close>

definition updates_apart :: "tx_prog \<Rightarrow> bool" where
  "updates_apart = (\<lambda>(t, r, s). (case t of T_store k \<Rightarrow> (case r of R_store n \<Rightarrow> False | _ \<Rightarrow> True) | _ \<Rightarrow> True))"

text \<open>Packets taken out and not yet counted off; packets put in and not yet counted.\<close>

fun t_pending :: "tx_pc \<Rightarrow> int" where
  "t_pending T_idle = 0"
| "t_pending t = 1"

fun r_pending :: "rx_pc \<Rightarrow> int" where
  "r_pending R_load = 1"
| "r_pending (R_store n) = 1"
| "r_pending r = 0"

fun r_room :: "rx_pc \<Rightarrow> bool" where
  "r_room R_recv = False"
| "r_room (R_check p) = False"
| "r_room r = True"

text \<open>Between iterations the counter is the length of the queue, and the queue never refuses.\<close>

definition tx_inv :: "tx_state \<Rightarrow> bool" where
  "tx_inv s \<longleftrightarrow> queue_size s = int (length (fq_items (tx_vlc_queue s)))
     \<and> queue_size s < QUEUE_LIMIT \<and> fq_limit (tx_vlc_queue s) = QUEUE_LIMIT
     \<and> length (tx_vlc_buff s) = 1024 \<and> length (eth_buf s) = 1024
     \<and> (\<forall>p\<in>set (fq_items (tx_vlc_queue s)). gp_wf p)"

text \<open>Inside them it is off by the packets on their way.\<close>

definition tx_prog_inv :: "tx_prog \<Rightarrow> bool" where
  "tx_prog_inv = (\<lambda>(t, r, s). queue_size s + r_pending r = int (length (fq_items (tx_vlc_queue s))) + t_pending t
     \<and> queue_size s < QUEUE_LIMIT \<and> (r_room r \<longrightarrow> queue_size s + 1 < QUEUE_LIMIT) \<and> fq_limit (tx_vlc_queue s) = QUEUE_LIMIT
     \<and> (\<forall>p\<in>set (fq_items (tx_vlc_queue s)). gp_wf p) \<and> (\<forall>p. r = R_check p \<or> r = R_enqueue p \<longrightarrow> gp_wf p)
     \<and> (\<forall>k. t = T_store k \<longrightarrow> k = queue_size s) \<and> (\<forall>n. r = R_store n \<longrightarrow> n = queue_size s))"

lemma payload_copy:
  assumes "unat n = length src"
  shows "cfor 0 (uint n) (\<lambda>i data. do { b \<leftarrow> ard src i; awr data i b }) (replicate (unat n) 0) = Some src"
proof -
  have "cfor 0 (uint n) (\<lambda>i data. do { b \<leftarrow> ard src i; awr data i b }) (replicate (unat n) 0)
      = Some (map (\<lambda>i. src ! i) [0..<nat (uint n)])"
  proof (rule cfor_pointwise)
    fix i ys assume "0 \<le> i" "i < uint n"
    moreover from this have "i < int (length src)" using assms uint_unat[of n] by linarith
    ultimately show "(do { b \<leftarrow> ard src i; awr ys i b }) = awr ys i (src ! nat i)"
      by (simp add: ard_in)
  qed (use uint_unat[of n] in simp_all)
  then show ?thesis using assms by (simp add: map_nth)
qed

lemma from_bytes_wf: "generate_gateway_packet_from_bytes b = Some p \<Longrightarrow> gp_wf p"
  by (simp add: from_bytes_exact header_first_def)

text \<open>What arrives: a well formed packet, or nothing; only the buffer changes.\<close>

lemma tx_arrival_packet:
  assumes "generate_gateway_packet_from_bytes (drop (nat ETHER_HDR) buf) = Some p" "is_for_this_tx buf" "recvfrom rx (eth_buf s) = (n, buf)"
  shows "tx_arrival rx s = Some (s\<lparr>eth_buf := buf\<rparr>, Some p)"
proof -
  have cp: "cfor 0 (uint (gp_payload_len p)) (\<lambda>i data. do { b \<leftarrow> ard (gp_data p) i; awr data i b })
      (replicate (unat (gp_payload_len p)) 0) = Some (gp_data p)"
    using from_bytes_wf[OF assms(1)] by (intro payload_copy) (simp add: gp_wf_def)
  show ?thesis
    by (simp add: tx_arrival_def assms cp Let_def)
qed

lemma tx_arrival_cases:
  assumes "tx_arrival rx s = Some (s', p)"
  obtains buf where "s' = s\<lparr>eth_buf := buf\<rparr>" "length buf = length (eth_buf s)" "\<forall>q. p = Some q \<longrightarrow> gp_wf q"
proof -
  obtain n buf where rv: "recvfrom rx (eth_buf s) = (n, buf)" by fastforce
  then have lb: "length buf = length (eth_buf s)"
    by (auto simp: recvfrom_def Let_def split: option.splits)
  show thesis
  proof (cases "is_for_this_tx buf")
    case True
    then obtain q where q: "generate_gateway_packet_from_bytes (drop (nat ETHER_HDR) buf) = Some q"
      using assms rv by (auto simp: tx_arrival_def Let_def split: Option.bind_splits)
    from tx_arrival_packet[OF q True rv] assms from_bytes_wf[OF q] lb that show thesis by auto
  qed (use assms rv lb that in \<open>auto simp: tx_arrival_def\<close>)
qed

text \<open>Iterations that nothing interrupts, in one piece.\<close>

lemma tx_receive_whole:
  "tx_receive rx s = do {
     (s, p) \<leftarrow> tx_arrival rx s;
     Some (case p of
         None \<Rightarrow> s
       | Some temp \<Rightarrow> if queue_size s + 1 < QUEUE_LIMIT
           then s\<lparr>tx_vlc_queue := snd (fq_push temp (tx_vlc_queue s)), queue_size := queue_size s + 1\<rparr> else s) }"
  by (cases "tx_arrival rx s") (auto simp: tx_receive_def r_next_def split: option.splits)

lemma t_writes_until:
  "t_writes tries (T_write len, s) = map_option (\<lambda>_. (T_load, s, [take (nat len) (tx_vlc_buff s)])) (write_until tries)"
  by (induction tries) auto

lemma tx_transmit_whole:
  "tx_transmit_vlc tries s =
     (if \<not> fq_empty (tx_vlc_queue s) then
        (let (from_queue, q) = fq_pop (tx_vlc_queue s); s = s\<lparr>tx_vlc_queue := q\<rparr> in
         case from_queue of
           None \<Rightarrow> Some (s, [])
         | Some vlc_packet \<Rightarrow> do {
             (ret, b, frame) \<leftarrow> transmit_to_vlc tries (tx_vlc_buff s) vlc_packet;
             Some (s\<lparr>tx_vlc_buff := b, queue_size := queue_size s - 1\<rparr>, [frame]) })
      else Some (s, []))"
proof (cases "fq_empty (tx_vlc_queue s)")
  case False
  obtain p q where pop: "fq_pop (tx_vlc_queue s) = (p, q)" by fastforce
  show ?thesis
  proof (cases p)
    case (Some vlc_packet)
    show ?thesis
      by (cases "fill_vlc_buff (tx_vlc_buff s) vlc_packet"; cases "write_until tries")
         (auto simp: tx_transmit_vlc_def transmit_to_vlc_def False pop Some t_next_def t_writes_until simp del: t_writes.simps(1))
  qed (simp add: tx_transmit_vlc_def False pop t_next_def)
qed (simp add: tx_transmit_vlc_def t_next_def)

lemma tx_receive_inv: "tx_inv s \<Longrightarrow> tx_receive rx s = Some s' \<Longrightarrow> tx_inv s'"
proof -
  assume inv: "tx_inv s" and rx: "tx_receive rx s = Some s'"
  then obtain s1 p where a: "tx_arrival rx s = Some (s1, p)"
    and s': "s' = (case p of None \<Rightarrow> s1 | Some temp \<Rightarrow> if queue_size s1 + 1 < QUEUE_LIMIT
       then s1\<lparr>tx_vlc_queue := snd (fq_push temp (tx_vlc_queue s1)), queue_size := queue_size s1 + 1\<rparr> else s1)"
    by (auto simp: tx_receive_whole split: Option.bind_splits)
  from a obtain buf where "s1 = s\<lparr>eth_buf := buf\<rparr>" "length buf = length (eth_buf s)" "\<forall>q. p = Some q \<longrightarrow> gp_wf q"
    by (rule tx_arrival_cases)
  then show ?thesis unfolding s' using inv by (auto simp: tx_inv_def fq_push_def split: option.splits)
qed

lemma tx_transmit_inv:
  assumes "tx_inv s" and "tx_transmit_vlc tries s = Some (s', out)"
  shows "tx_inv s'"
proof (cases "fq_items (tx_vlc_queue s)")
  case Nil
  with assms show ?thesis by (simp add: tx_transmit_whole fq_empty_def)
next
  case (Cons p ps)
  with assms(2) obtain ret b f where "transmit_to_vlc tries (tx_vlc_buff s) p = Some (ret, b, f)"
    and "s' = s\<lparr>tx_vlc_queue := (tx_vlc_queue s)\<lparr>fq_items := ps\<rparr>, tx_vlc_buff := b, queue_size := queue_size s - 1\<rparr>"
    by (auto simp: tx_transmit_whole fq_empty_def fq_pop_def split: Option.bind_splits)
  with transmit_to_vlc_length[OF this(1)] assms(1) Cons show ?thesis by (simp add: tx_inv_def)
qed

lemma tx_inv_init: "length garbage = 1024 \<Longrightarrow> tx_inv (tx_init garbage)"
  by (simp add: tx_inv_def tx_init_def QUEUE_LIMIT_def fq_new_def)

text \<open>Steps that keep the updates of the counter apart keep the invariant.\<close>

lemma t_step_inv:
  assumes "tx_prog_inv (t, r, s)" and "t_step n (t, s) = Some (t', s', out)" and "updates_apart (t, r, s)"
  shows "tx_prog_inv (t', r, s')"
proof (cases t)
  case T_idle
  with assms show ?thesis
    by (cases "fq_items (tx_vlc_queue s)") (auto simp: tx_prog_inv_def fq_empty_def fq_pop_def)
next
  case (T_store k)
  with assms show ?thesis by (cases r) (auto simp: tx_prog_inv_def updates_apart_def)
qed (use assms in \<open>auto simp: tx_prog_inv_def split: if_splits Option.bind_splits\<close>)

lemma r_step_inv:
  assumes "tx_prog_inv (t, r, s)" and "r_step rx (r, s) = Some (r', s')" and "updates_apart (t, r, s)"
  shows "tx_prog_inv (t, r', s')"
proof (cases r)
  case R_recv
  with assms(2) obtain s1 p where a: "tx_arrival rx s = Some (s1, p)" "s' = s1" "r' = (case p of None \<Rightarrow> R_recv | Some temp \<Rightarrow> R_check temp)"
    by (auto split: Option.bind_splits)
  from a(1) obtain buf where "s1 = s\<lparr>eth_buf := buf\<rparr>" "\<forall>q. p = Some q \<longrightarrow> gp_wf q" by (rule tx_arrival_cases)
  with a assms(1) R_recv show ?thesis by (auto simp: tx_prog_inv_def split: option.splits)
next
  case (R_enqueue p)
  have "0 \<le> t_pending t" by (cases t) simp_all
  with R_enqueue assms show ?thesis by (auto simp: tx_prog_inv_def fq_push_def)
next
  case (R_store k)
  with assms show ?thesis by (cases t) (auto simp: tx_prog_inv_def updates_apart_def)
next
  case (R_check p)
  with assms(2) have "s' = s" "r' = (if queue_size s + 1 < QUEUE_LIMIT then R_enqueue p else R_recv)" by auto
  with R_check assms(1) show ?thesis by (cases "queue_size s + 1 < QUEUE_LIMIT") (auto simp: tx_prog_inv_def)
qed (use assms in \<open>auto simp: tx_prog_inv_def\<close>)

lemma tx_runs_apart: "tx_runs A x \<Longrightarrow> A = updates_apart \<Longrightarrow> updates_apart x"
  by (induction rule: tx_runs.induct) (auto simp: updates_apart_def)

lemma tx_runs_inv: "tx_runs updates_apart x \<Longrightarrow> tx_prog_inv x"
proof (induction rule: tx_runs.induct)
  case (runs_init garbage)
  then show ?case by (simp add: tx_prog_inv_def tx_init_def QUEUE_LIMIT_def fq_new_def)
next
  case (runs_step x y)
  obtain t r s where x: "x = (t, r, s)" by (cases x) auto
  have apart: "updates_apart (t, r, s)" using tx_runs_apart[OF runs_step(1) refl] by (simp add: x)
  have inv: "tx_prog_inv (t, r, s)" using runs_step.IH by (simp add: x)
  from runs_step(2) show ?case unfolding x
    by (rule tx_stepE) (use inv apart t_step_inv r_step_inv in blast)+
qed

text \<open>A push that is made is not refused.\<close>

lemma tx_push_taken:
  assumes "tx_prog_inv (t, R_enqueue p, s)"
  shows "fst (fq_push p (tx_vlc_queue s))"
proof -
  have "0 \<le> t_pending t" by (cases t) simp_all
  with assms show ?thesis by (auto simp: tx_prog_inv_def fq_push_def)
qed

text \<open>What the transmitting thread writes.\<close>

lemma tx_transmit_head:
  assumes inv: "tx_inv s" and p: "fq_items (tx_vlc_queue s) = p # ps"
    and len: "unat (gp_payload_len p) \<le> 1014" and sent: "\<exists>n\<in>set tries. 0 \<le> n"
  shows "\<exists>s'. tx_transmit_vlc tries s = Some (s', [vlc_header_bytes p @ gp_payload p])
    \<and> fq_items (tx_vlc_queue s') = ps"
proof -
  have "unat (gp_payload_len p) \<le> length (gp_data p)" "length (tx_vlc_buff s) = 1024"
    using inv p by (simp_all add: tx_inv_def gp_wf_def)
  with transmit_to_vlc_bytes[OF _ len _ sent] obtain b where
    "transmit_to_vlc tries (tx_vlc_buff s) p = Some (1, b, vlc_header_bytes p @ gp_payload p)" by blast
  with p show ?thesis by (simp add: tx_transmit_whole fq_empty_def fq_pop_def)
qed

end
