(* ===== verification/RS_Codec.thy ===== *)
theory RS_Codec
  imports CPrelude
begin

unbundle bit_operations_syntax

text \<open>
  The Reed-Solomon library both kernel modules are linked with
  (\<^verbatim>\<open>reed_solomon.c\<close>, \<^verbatim>\<open>rslib.h\<close>, \<^verbatim>\<open>encode_rs.c\<close>, \<^verbatim>\<open>decode_rs.c\<close>): the control structure with its
  log and antilog tables, its construction and reference counting, the systematic encoder and
  the decoder (syndromes, erasure locator, Berlekamp-Massey, Chien search, Forney). Definitions
  only; \<open>GF256\<close>, \<open>RS_Tables\<close> and \<open>RS_Encode\<close> hold the theory.

  A \<^verbatim>\<open>uint16_t\<close> array is a list of words. A pointer to a field-generating function is a number
  that \<open>fptr\<close> resolves; the kernel's allocator is the argument \<open>kmalloc\<close>: \<open>kmalloc k n\<close> is the
  block of \<open>n\<close> cells (with whatever they hold) that the \<open>k\<close>-th allocation of \<^verbatim>\<open>rs_init\<close> gets, or
  \<open>None\<close> for \<^verbatim>\<open>NULL\<close>. The decoder's local arrays start with the value \<open>uninit\<close> in each cell.
\<close>

section \<open>The control structure\<close>

record rs_control =
  mm :: int
  nn :: int
  alpha_to :: "u16 list"
  index_of :: "u16 list"
  genpoly :: "u16 list"
  nroots :: int
  fcr :: int
  prim :: int
  iprim :: int
  gfpoly :: int
  gffunc :: "nat option"
  users :: int

type_synonym kallocator = "nat \<Rightarrow> int \<Rightarrow> u16 list option"

definition ERANGE :: int where "ERANGE = 34"
definition EBADMSG :: int where "EBADMSG = 74"

partial_function (option) rs_modnn :: "rs_control \<Rightarrow> int \<Rightarrow> int option" where
  "rs_modnn rs x =
     (if x \<ge> nn rs
      then rs_modnn rs (drop_bit (nat (mm rs)) (x - nn rs) + ((x - nn rs) AND nn rs))
      else Some x)"

text \<open>The Galois field tables: the shift register \<open>sr\<close> runs through the powers of alpha.\<close>

definition gf_shift :: "int \<Rightarrow> int \<Rightarrow> int \<Rightarrow> int" where
  "gf_shift symsize poly sr =
     (let sr = push_bit 1 sr;
          sr = (if sr AND push_bit (nat symsize) 1 \<noteq> 0 then sr XOR poly else sr)
      in sr AND (push_bit (nat symsize) 1 - 1))"

definition gf_fill ::
    "int \<Rightarrow> (int \<Rightarrow> int) \<Rightarrow> int \<Rightarrow> u16 list \<Rightarrow> u16 list \<Rightarrow> (int \<times> u16 list \<times> u16 list) option" where
  "gf_fill n next_sr sr0 alpha idx =
     cfor 0 n (\<lambda>i (sr, alpha, idx). do {
       idx \<leftarrow> awr idx sr (word_of_int i);
       alpha \<leftarrow> awr alpha i (word_of_int sr);
       Some (next_sr sr, alpha, idx) }) (sr0, alpha, idx)"

text \<open>\<^verbatim>\<open>for(iprim = 1; (iprim % prim) != 0; iprim += rs->nn);\<close>\<close>

partial_function (option) find_iprim :: "int \<Rightarrow> int \<Rightarrow> int \<Rightarrow> int option" where
  "find_iprim p n ip =
     do { m \<leftarrow> cmod ip p; if m \<noteq> 0 then find_iprim p n (ip + n) else Some ip }"

text \<open>Multiply the generator polynomial by one more factor, for the root with index \<open>root\<close>.\<close>

definition genpoly_factor :: "rs_control \<Rightarrow> int \<Rightarrow> int \<Rightarrow> u16 list \<Rightarrow> u16 list option" where
  "genpoly_factor rs i root gp = do {
     gp \<leftarrow> awr gp (i + 1) 1;
     gp \<leftarrow> cford i 0 (\<lambda>j gp. do {
       c \<leftarrow> ard gp j;
       l \<leftarrow> ard gp (j - 1);
       if c \<noteq> 0 then do {
         ix \<leftarrow> ard (index_of rs) (uint c);
         m \<leftarrow> rs_modnn rs (uint ix + root);
         a \<leftarrow> ard (alpha_to rs) m;
         awr gp j (l XOR a) }
       else awr gp j l }) gp;
     c \<leftarrow> ard gp 0;
     ix \<leftarrow> ard (index_of rs) (uint c);
     m \<leftarrow> rs_modnn rs (uint ix + root);
     a \<leftarrow> ard (alpha_to rs) m;
     awr gp 0 a }"

definition genpoly_build :: "rs_control \<Rightarrow> u16 list \<Rightarrow> u16 list option" where
  "genpoly_build rs gp = do {
     gp \<leftarrow> awr gp 0 1;
     (gp, root) \<leftarrow> cfor 0 (nroots rs) (\<lambda>i (gp, root). do {
       gp \<leftarrow> genpoly_factor rs i root gp;
       Some (gp, root + prim rs) }) (gp, fcr rs * prim rs);
     cfor 0 (nroots rs + 1) (\<lambda>i gp. do {
       c \<leftarrow> ard gp i;
       ix \<leftarrow> ard (index_of rs) (uint c);
       awr gp i ix }) gp }"

definition rs_init ::
    "kallocator \<Rightarrow> (nat \<Rightarrow> int \<Rightarrow> int) \<Rightarrow>
     int \<Rightarrow> int \<Rightarrow> nat option \<Rightarrow> int \<Rightarrow> int \<Rightarrow> int \<Rightarrow> rs_control option option" where
  "rs_init kmalloc fptr symsize poly func fcr0 prim0 nroots0 =
    (let n = push_bit (nat symsize) 1 - 1 in
     case kmalloc 0 1 of None \<Rightarrow> Some None | Some _ \<Rightarrow>
     case kmalloc 1 (n + 1) of None \<Rightarrow> Some None | Some alpha \<Rightarrow>
     case kmalloc 2 (n + 1) of None \<Rightarrow> Some None | Some idx \<Rightarrow>
     case kmalloc 3 (nroots0 + 1) of None \<Rightarrow> Some None | Some gp \<Rightarrow>
     do {
       idx \<leftarrow> awr idx 0 (word_of_int n);
       alpha \<leftarrow> awr alpha n 0;
       (sr, alpha, idx) \<leftarrow>
         (if poly \<noteq> 0 then gf_fill n (gf_shift symsize poly) 1 alpha idx
          else (case func of None \<Rightarrow> None
                | Some g \<Rightarrow> gf_fill n (fptr g) (fptr g 0) alpha idx));
       a0 \<leftarrow> ard alpha 0;
       if sr \<noteq> uint a0 then Some None
       else do {
         ip \<leftarrow> find_iprim prim0 n 1;
         ip \<leftarrow> cdiv ip prim0;
         let rs = \<lparr>mm = symsize, nn = n, alpha_to = alpha, index_of = idx, genpoly = gp,
                   nroots = nroots0, fcr = fcr0, prim = prim0, iprim = ip, gfpoly = poly,
                   gffunc = func, users = 0\<rparr>;
         gp \<leftarrow> genpoly_build rs gp;
         Some (Some (rs\<lparr>genpoly := gp\<rparr>)) } })"

section \<open>The list of control structures in use\<close>

text \<open>\<^verbatim>\<open>rslist\<close> holds every allocated structure; \<open>init_rs_internal\<close> returns the updated list and
  the structure handed out (its position in the list is not visible to callers).\<close>

fun rs_take :: "int \<Rightarrow> int \<Rightarrow> nat option \<Rightarrow> int \<Rightarrow> int \<Rightarrow> int \<Rightarrow> rs_control list \<Rightarrow>
    (rs_control list \<times> rs_control) option" where
  "rs_take symsize poly func fcr0 prim0 nroots0 [] = None"
| "rs_take symsize poly func fcr0 prim0 nroots0 (rs # rest) =
     (if symsize \<noteq> mm rs \<or> poly \<noteq> gfpoly rs \<or> func \<noteq> gffunc rs \<or> fcr0 \<noteq> fcr rs \<or>
         prim0 \<noteq> prim rs \<or> nroots0 \<noteq> nroots rs
      then map_option (\<lambda>(l, r). (rs # l, r)) (rs_take symsize poly func fcr0 prim0 nroots0 rest)
      else (let rs' = rs\<lparr>users := users rs + 1\<rparr> in Some (rs' # rest, rs')))"

definition init_rs_internal ::
    "kallocator \<Rightarrow> (nat \<Rightarrow> int \<Rightarrow> int) \<Rightarrow> rs_control list \<Rightarrow>
     int \<Rightarrow> int \<Rightarrow> nat option \<Rightarrow> int \<Rightarrow> int \<Rightarrow> int \<Rightarrow> (rs_control list \<times> rs_control option) option" where
  "init_rs_internal kmalloc fptr rslist symsize poly func fcr0 prim0 nroots0 =
     (if symsize < 1 then Some (rslist, None)
      else if fcr0 < 0 \<or> fcr0 \<ge> push_bit (nat symsize) 1 then Some (rslist, None)
      else if prim0 \<le> 0 \<or> prim0 \<ge> push_bit (nat symsize) 1 then Some (rslist, None)
      else if nroots0 < 0 \<or> nroots0 \<ge> push_bit (nat symsize) 1 then Some (rslist, None)
      else case rs_take symsize poly func fcr0 prim0 nroots0 rslist of
        Some (l, rs) \<Rightarrow> Some (l, Some rs)
      | None \<Rightarrow> do {
          r \<leftarrow> rs_init kmalloc fptr symsize poly func fcr0 prim0 nroots0;
          (case r of None \<Rightarrow> Some (rslist, None)
           | Some rs \<Rightarrow> let rs = rs\<lparr>users := 1\<rparr> in Some (rs # rslist, Some rs)) })"

definition init_rs ::
    "kallocator \<Rightarrow> (nat \<Rightarrow> int \<Rightarrow> int) \<Rightarrow> rs_control list \<Rightarrow>
     int \<Rightarrow> int \<Rightarrow> int \<Rightarrow> int \<Rightarrow> int \<Rightarrow> (rs_control list \<times> rs_control option) option" where
  "init_rs kmalloc fptr rslist symsize poly fcr0 prim0 nroots0 =
     init_rs_internal kmalloc fptr rslist symsize poly None fcr0 prim0 nroots0"

definition init_rs_non_canonical ::
    "kallocator \<Rightarrow> (nat \<Rightarrow> int \<Rightarrow> int) \<Rightarrow> rs_control list \<Rightarrow>
     int \<Rightarrow> nat \<Rightarrow> int \<Rightarrow> int \<Rightarrow> int \<Rightarrow> (rs_control list \<times> rs_control option) option" where
  "init_rs_non_canonical kmalloc fptr rslist symsize func fcr0 prim0 nroots0 =
     init_rs_internal kmalloc fptr rslist symsize 0 (Some func) fcr0 prim0 nroots0"

text \<open>\<^verbatim>\<open>free_rs\<close> on the \<open>k\<close>-th structure of the list: the last user removes it.\<close>

definition free_rs :: "rs_control list \<Rightarrow> nat \<Rightarrow> rs_control list option" where
  "free_rs rslist k =
     (if k < length rslist then
        let rs = (rslist ! k)\<lparr>users := users (rslist ! k) - 1\<rparr> in
        Some (if users rs = 0 then take k rslist @ drop (Suc k) rslist else rslist[k := rs])
      else None)"

section \<open>The encoder\<close>

definition encode_rs8 ::
    "rs_control \<Rightarrow> u8 list \<Rightarrow> int \<Rightarrow> u16 list \<Rightarrow> u16 \<Rightarrow> (int \<times> u16 list) option" where
  "encode_rs8 rs data len par invmsk =
    (let msk = word_of_int (nn rs) :: u16; pad = nn rs - nroots rs - len in
     if pad < 0 \<or> pad \<ge> nn rs then Some (- ERANGE, par)
     else do {
       par \<leftarrow> cfor 0 len (\<lambda>i par. do {
         d \<leftarrow> ard data i;
         p0 \<leftarrow> ard par 0;
         fb \<leftarrow> ard (index_of rs) (uint ((((ucast d) XOR invmsk) AND msk) XOR p0));
         par \<leftarrow> (if uint fb \<noteq> nn rs then
                  cfor 1 (nroots rs) (\<lambda>j par. do {
                    g \<leftarrow> ard (genpoly rs) (nroots rs - j);
                    m \<leftarrow> rs_modnn rs (uint fb + uint g);
                    a \<leftarrow> ard (alpha_to rs) m;
                    p \<leftarrow> ard par j;
                    awr par j (p XOR a) }) par
                else Some par);
         par \<leftarrow> cmemmove par 0 1 (nroots rs - 1);
         if uint fb \<noteq> nn rs then do {
           g \<leftarrow> ard (genpoly rs) 0;
           m \<leftarrow> rs_modnn rs (uint fb + uint g);
           a \<leftarrow> ard (alpha_to rs) m;
           awr par (nroots rs - 1) a }
         else awr par (nroots rs - 1) 0 }) par;
       Some (0, par) })"

section \<open>The decoder\<close>

text \<open>One Horner step of the \<open>i\<close>-th syndrome.\<close>

definition syn_step :: "rs_control \<Rightarrow> int \<Rightarrow> u16 \<Rightarrow> u16 \<Rightarrow> u16 option" where
  "syn_step rs i symb x =
     (if x = 0 then Some symb
      else do {
        ix \<leftarrow> ard (index_of rs) (uint x);
        m \<leftarrow> rs_modnn rs (uint ix + (fcr rs + i) * prim rs);
        a \<leftarrow> ard (alpha_to rs) m;
        Some (symb XOR a) })"

definition form_syndromes ::
    "u16 \<Rightarrow> rs_control \<Rightarrow> u8 list \<Rightarrow> u16 list \<Rightarrow> int \<Rightarrow> u16 \<Rightarrow> u16 list option" where
  "form_syndromes uninit rs data par len invmsk =
    (let msk = word_of_int (nn rs) :: u16; nr = nroots rs in do {
       syn \<leftarrow> cfor 0 nr (\<lambda>i syn. do {
         d \<leftarrow> ard data 0;
         awr syn i ((ucast d XOR invmsk) AND msk) }) (replicate (nat nr) uninit);
       syn \<leftarrow> cfor 1 len (\<lambda>j. cfor 0 nr (\<lambda>i syn. do {
         d \<leftarrow> ard data j;
         x \<leftarrow> ard syn i;
         v \<leftarrow> syn_step rs i ((ucast d XOR invmsk) AND msk) x;
         awr syn i v })) syn;
       cfor 0 nr (\<lambda>j. cfor 0 nr (\<lambda>i syn. do {
         p \<leftarrow> ard par j;
         x \<leftarrow> ard syn i;
         v \<leftarrow> syn_step rs i (p AND msk) x;
         awr syn i v })) syn })"

text \<open>Convert the syndromes to index form, collecting whether one is not zero.\<close>

definition index_syndromes :: "rs_control \<Rightarrow> u16 list \<Rightarrow> (u16 \<times> u16 list) option" where
  "index_syndromes rs s =
     cfor 0 (nroots rs) (\<lambda>i (syn_error, s). do {
       x \<leftarrow> ard s i;
       ix \<leftarrow> ard (index_of rs) (uint x);
       s \<leftarrow> awr s i ix;
       Some (syn_error OR x, s) }) (0, s)"

text \<open>The erasure locator polynomial.\<close>

definition erasure_locator :: "rs_control \<Rightarrow> int \<Rightarrow> int list option \<Rightarrow> u16 list option" where
  "erasure_locator rs no_eras eras_pos =
    (let lambda = 1 # replicate (nat (nroots rs)) 0 in
     if no_eras > 0 then do {
       ep \<leftarrow> eras_pos;
       e0 \<leftarrow> ard ep 0;
       m \<leftarrow> rs_modnn rs (prim rs * (nn rs - 1 - e0));
       a \<leftarrow> ard (alpha_to rs) m;
       lambda \<leftarrow> awr lambda 1 a;
       cfor 1 no_eras (\<lambda>i lambda. do {
         ei \<leftarrow> ard ep i;
         u \<leftarrow> rs_modnn rs (prim rs * (nn rs - 1 - ei));
         cford (i + 1) 0 (\<lambda>j lambda. do {
           l \<leftarrow> ard lambda (j - 1);
           tmp \<leftarrow> ard (index_of rs) (uint l);
           if uint tmp \<noteq> nn rs then do {
             m \<leftarrow> rs_modnn rs (uint (word_of_int u :: u16) + uint tmp);
             a \<leftarrow> ard (alpha_to rs) m;
             x \<leftarrow> ard lambda j;
             awr lambda j (x XOR a) }
           else Some lambda }) lambda }) lambda }
     else Some lambda)"

text \<open>Berlekamp-Massey: the discrepancy of step \<open>r\<close>, the new locator \<open>t\<close>, one step, the loop.\<close>

definition discrepancy :: "rs_control \<Rightarrow> u16 list \<Rightarrow> u16 list \<Rightarrow> int \<Rightarrow> u16 option" where
  "discrepancy rs s lambda r = do {
     d \<leftarrow> cfor 0 r (\<lambda>i discr_r. do {
       l \<leftarrow> ard lambda i;
       si \<leftarrow> (if l \<noteq> 0 then ard s (r - i - 1) else Some 0);
       if l \<noteq> 0 \<and> uint si \<noteq> nn rs then do {
         ix \<leftarrow> ard (index_of rs) (uint l);
         m \<leftarrow> rs_modnn rs (uint ix + uint si);
         a \<leftarrow> ard (alpha_to rs) m;
         Some (discr_r XOR a) }
       else Some discr_r }) 0;
     ard (index_of rs) (uint d) }"

definition bm_update :: "u16 \<Rightarrow> rs_control \<Rightarrow> u16 list \<Rightarrow> u16 list \<Rightarrow> u16 \<Rightarrow> u16 list option" where
  "bm_update uninit rs lambda b discr_r = do {
     l0 \<leftarrow> ard lambda 0;
     t \<leftarrow> awr (replicate (nat (nroots rs + 1)) uninit) 0 l0;
     cfor 0 (nroots rs) (\<lambda>i t. do {
       bi \<leftarrow> ard b i;
       l \<leftarrow> ard lambda (i + 1);
       if uint bi \<noteq> nn rs then do {
         m \<leftarrow> rs_modnn rs (uint discr_r + uint bi);
         a \<leftarrow> ard (alpha_to rs) m;
         awr t (i + 1) (l XOR a) }
       else awr t (i + 1) l }) t }"

definition bm_shift :: "rs_control \<Rightarrow> u16 list \<Rightarrow> u16 list option" where
  "bm_shift rs b = do { b \<leftarrow> cmemmove b 1 0 (nroots rs); awr b 0 (word_of_int (nn rs)) }"

definition bm_step ::
    "u16 \<Rightarrow> rs_control \<Rightarrow> u16 list \<Rightarrow> int \<Rightarrow> int \<Rightarrow> int \<times> u16 list \<times> u16 list \<Rightarrow>
     (int \<times> u16 list \<times> u16 list) option" where
  "bm_step uninit rs s no_eras r = (\<lambda>(el, lambda, b). do {
     discr_r \<leftarrow> discrepancy rs s lambda r;
     if uint discr_r = nn rs then do { b \<leftarrow> bm_shift rs b; Some (el, lambda, b) }
     else do {
       t \<leftarrow> bm_update uninit rs lambda b discr_r;
       (el, b) \<leftarrow>
         (if 2 * el \<le> r + no_eras - 1 then do {
            b \<leftarrow> cfor 0 (nroots rs + 1) (\<lambda>i b. do {
              l \<leftarrow> ard lambda i;
              if l = 0 then awr b i (word_of_int (nn rs))
              else do {
                ix \<leftarrow> ard (index_of rs) (uint l);
                m \<leftarrow> rs_modnn rs (uint ix - uint discr_r + nn rs);
                awr b i (word_of_int m) } }) b;
            Some (r + no_eras - el, b) }
          else do { b \<leftarrow> bm_shift rs b; Some (el, b) });
       Some (el, t, b) } })"

definition berlekamp_massey ::
    "u16 \<Rightarrow> rs_control \<Rightarrow> u16 list \<Rightarrow> int \<Rightarrow> u16 list \<Rightarrow> u16 list option" where
  "berlekamp_massey uninit rs s no_eras lambda = do {
     b \<leftarrow> cfor 0 (nroots rs + 1) (\<lambda>i b. do {
       l \<leftarrow> ard lambda i;
       ix \<leftarrow> ard (index_of rs) (uint l);
       awr b i ix }) (replicate (nat (nroots rs + 1)) uninit);
     (el, lambda, b) \<leftarrow> cfor (no_eras + 1) (nroots rs + 1) (bm_step uninit rs s no_eras) (no_eras, lambda, b);
     Some lambda }"

text \<open>Locator to index form with its degree.\<close>

definition index_lambda :: "rs_control \<Rightarrow> u16 list \<Rightarrow> (int \<times> u16 list) option" where
  "index_lambda rs lambda =
     cfor 0 (nroots rs + 1) (\<lambda>i (deg_lambda, lambda). do {
       l \<leftarrow> ard lambda i;
       ix \<leftarrow> ard (index_of rs) (uint l);
       lambda \<leftarrow> awr lambda i ix;
       Some (if uint ix \<noteq> nn rs then i else deg_lambda, lambda) }) (0, lambda)"

text \<open>Chien search: evaluate the locator at every position; \<open>root\<close> and \<open>loc\<close> collect the
  roots and the error positions.\<close>

definition chien_eval :: "rs_control \<Rightarrow> int \<Rightarrow> u16 list \<Rightarrow> (u16 \<times> u16 list) option" where
  "chien_eval rs deg_lambda reg =
     cford deg_lambda 0 (\<lambda>j (q, reg). do {
       rj \<leftarrow> ard reg j;
       if uint rj \<noteq> nn rs then do {
         m \<leftarrow> rs_modnn rs (uint rj + j);
         reg \<leftarrow> awr reg j (word_of_int m);
         a \<leftarrow> ard (alpha_to rs) (uint (word_of_int m :: u16));
         Some (q XOR a, reg) }
       else Some (q, reg) }) (1, reg)"

definition chien_search ::
    "u16 \<Rightarrow> rs_control \<Rightarrow> int \<Rightarrow> u16 list \<Rightarrow> (int \<times> u16 list \<times> u16 list) option" where
  "chien_search uninit rs deg_lambda lambda =
    (let blank = replicate (nat (nroots rs)) uninit in do {
     lambda1 \<leftarrow> cget lambda 1 (nroots rs);
     reg0 \<leftarrow> cput (replicate (nat (nroots rs + 1)) uninit) 1 lambda1;
     (k, reg, count, root, loc) \<leftarrow>
       cforb 1 (nn rs + 1) (\<lambda>i (k, reg, count, root, loc). do {
         (q, reg) \<leftarrow> chien_eval rs deg_lambda reg;
         if q \<noteq> 0 then do {
           k \<leftarrow> rs_modnn rs (k + iprim rs);
           Some (False, (k, reg, count, root, loc)) }
         else do {
           root \<leftarrow> awr root count (word_of_int i);
           loc \<leftarrow> awr loc count (word_of_int k);
           if count + 1 = deg_lambda then Some (True, (k, reg, count + 1, root, loc))
           else do {
             k \<leftarrow> rs_modnn rs (k + iprim rs);
             Some (False, (k, reg, count + 1, root, loc)) } } })
       (iprim rs - 1, reg0, 0, blank, blank);
     Some (count, root, loc) })"

text \<open>The error evaluator polynomial, in index form.\<close>

definition omega_poly :: "u16 \<Rightarrow> rs_control \<Rightarrow> u16 list \<Rightarrow> u16 list \<Rightarrow> int \<Rightarrow> u16 list option" where
  "omega_poly uninit rs s lambda deg_omega =
     cfor 0 (deg_omega + 1) (\<lambda>i omega. do {
       tmp \<leftarrow> cford i (- 1) (\<lambda>j tmp. do {
         si \<leftarrow> ard s (i - j);
         l \<leftarrow> (if uint si \<noteq> nn rs then ard lambda j else Some 0);
         if uint si \<noteq> nn rs \<and> uint l \<noteq> nn rs then do {
           m \<leftarrow> rs_modnn rs (uint si + uint l);
           a \<leftarrow> ard (alpha_to rs) m;
           Some (tmp XOR a) }
         else Some tmp }) 0;
       ix \<leftarrow> ard (index_of rs) (uint tmp);
       awr omega i ix }) (replicate (nat (nroots rs + 1)) uninit)"

text \<open>Forney: the value of one error. The derivative runs over the even indices downwards from
  \<^verbatim>\<open>min(deg_lambda, nroots - 1) & ~1\<close>.\<close>

definition forney_num :: "rs_control \<Rightarrow> u16 list \<Rightarrow> int \<Rightarrow> u16 \<Rightarrow> u16 option" where
  "forney_num rs omega deg_omega rj =
     cford deg_omega (- 1) (\<lambda>i num1. do {
       oi \<leftarrow> ard omega i;
       if uint oi \<noteq> nn rs then do {
         m \<leftarrow> rs_modnn rs (uint oi + i * uint rj);
         a \<leftarrow> ard (alpha_to rs) m;
         Some (num1 XOR a) }
       else Some num1 }) 0"

definition forney_den :: "rs_control \<Rightarrow> u16 list \<Rightarrow> int \<Rightarrow> u16 \<Rightarrow> u16 option" where
  "forney_den rs lambda deg_lambda rj =
     cford (drop_bit 1 (min deg_lambda (nroots rs - 1))) (- 1) (\<lambda>h den. do {
       li \<leftarrow> ard lambda (2 * h + 1);
       if uint li \<noteq> nn rs then do {
         m \<leftarrow> rs_modnn rs (uint li + (2 * h) * uint rj);
         a \<leftarrow> ard (alpha_to rs) m;
         Some (den XOR a) }
       else Some den }) 0"

definition correct_one ::
    "rs_control \<Rightarrow> int \<Rightarrow> u16 list \<Rightarrow> u16 list \<Rightarrow> int \<Rightarrow> u16 list \<Rightarrow> u16 list \<Rightarrow> int \<Rightarrow>
     u8 list option \<times> u16 list option \<Rightarrow> (u8 list option \<times> u16 list option) option" where
  "correct_one rs pad lambda omega deg_lambda root loc j = (\<lambda>(data, corr). do {
     rj \<leftarrow> ard root j;
     num1 \<leftarrow> forney_num rs omega (deg_lambda - 1) rj;
     m \<leftarrow> rs_modnn rs (uint rj * (fcr rs - 1) + nn rs);
     num2 \<leftarrow> ard (alpha_to rs) m;
     den \<leftarrow> forney_den rs lambda deg_lambda rj;
     lj \<leftarrow> ard loc j;
     if num1 \<noteq> 0 \<and> uint lj \<ge> pad then do {
       i1 \<leftarrow> ard (index_of rs) (uint num1);
       i2 \<leftarrow> ard (index_of rs) (uint num2);
       i3 \<leftarrow> ard (index_of rs) (uint den);
       m \<leftarrow> rs_modnn rs (uint i1 + uint i2 + nn rs - uint i3);
       cor \<leftarrow> ard (alpha_to rs) m;
       (case corr of
          Some c \<Rightarrow> do { c \<leftarrow> awr c j cor; Some (data, Some c) }
        | None \<Rightarrow>
            (case data of
               Some d \<Rightarrow>
                 if uint lj < nn rs - nroots rs then do {
                   x \<leftarrow> ard d (uint lj - pad);
                   d \<leftarrow> awr d (uint lj - pad) (x XOR ucast cor);
                   Some (Some d, None) }
                 else Some (data, None)
             | None \<Rightarrow> Some (None, None))) }
     else Some (data, corr) })"

text \<open>From the label \<^verbatim>\<open>decode\<close> on: the count of corrected symbols or \<^verbatim>\<open>-EBADMSG\<close>, the array
  \<open>loc\<close>, and the corrected data and correction buffers.\<close>

definition decode_errors ::
    "u16 \<Rightarrow> rs_control \<Rightarrow> u8 list option \<Rightarrow> int \<Rightarrow> u16 list \<Rightarrow> int \<Rightarrow> int list option \<Rightarrow> u16 list option \<Rightarrow>
     (int \<times> u16 list \<times> u8 list option \<times> u16 list option) option" where
  "decode_errors uninit rs data len s no_eras eras_pos corr =
    (let pad = nn rs - nroots rs - len in do {
       lambda \<leftarrow> erasure_locator rs no_eras eras_pos;
       lambda \<leftarrow> berlekamp_massey uninit rs s no_eras lambda;
       (deg_lambda, lambda) \<leftarrow> index_lambda rs lambda;
       (count, root, loc) \<leftarrow> chien_search uninit rs deg_lambda lambda;
       if deg_lambda \<noteq> count then Some (- EBADMSG, loc, data, corr)
       else do {
         omega \<leftarrow> omega_poly uninit rs s lambda (deg_lambda - 1);
         (data, corr) \<leftarrow> cford (count - 1) (- 1)
            (correct_one rs pad lambda omega deg_lambda root loc) (data, corr);
         Some (count, loc, data, corr) } })"

definition decode_rs8 ::
    "u16 \<Rightarrow> rs_control \<Rightarrow> u8 list option \<Rightarrow> u16 list \<Rightarrow> int \<Rightarrow> u16 list option \<Rightarrow> int \<Rightarrow>
     int list option \<Rightarrow> u16 \<Rightarrow> u16 list option \<Rightarrow>
     (int \<times> u8 list option \<times> int list option \<times> u16 list option) option" where
  "decode_rs8 uninit rs data par len s no_eras eras_pos invmsk corr =
    (let pad = nn rs - nroots rs - len in
     if pad < 0 \<or> pad \<ge> nn rs then None
     else do {
       (count, loc, data, corr) \<leftarrow>
         (case s of
            Some s \<Rightarrow> decode_errors uninit rs data len s no_eras eras_pos corr
          | None \<Rightarrow> do {
              d \<leftarrow> data;
              syn \<leftarrow> form_syndromes uninit rs d par len invmsk;
              (syn_error, s) \<leftarrow> index_syndromes rs syn;
              if syn_error = 0
              then Some (0, replicate (nat (nroots rs)) uninit, data, corr)
              else decode_errors uninit rs data len s no_eras eras_pos corr });
       eras_pos \<leftarrow>
         (case eras_pos of
            None \<Rightarrow> Some None
          | Some ep \<Rightarrow> map_option Some (cfor 0 count (\<lambda>i ep. do {
              l \<leftarrow> ard loc i;
              awr ep i (uint l - pad) }) ep));
       Some (count, data, eras_pos, corr) })"

end
