(* ===== verification/GF256.thy ===== *)
theory GF256
  imports CPrelude
begin

unbundle bit_operations_syntax

text \<open>
  The field with 256 elements that the codec computes in: bytes with exclusive or as addition and
  the powers of \<open>alpha = 2\<close> (reduction polynomial \<^verbatim>\<open>0x11d\<close>) as multiplicative group. The type
  \<open>gf256\<close> is an instance of the library's class of fields, so that sums, products and powers of
  field elements and the ring normalisation of the simplifier are available to the proofs about
  encoder and decoder.
\<close>

section \<open>Multiplication by alpha\<close>

definition xtime :: "u8 \<Rightarrow> u8" where
  "xtime x = (if bit x 7 then push_bit 1 x XOR 0x1d else push_bit 1 x)"

definition galpha :: "nat \<Rightarrow> u8" where
  "galpha i = (xtime ^^ i) 1"

lemma xtime_xor: "xtime (x XOR y) = xtime x XOR xtime y"
  unfolding xtime_def by (cases "bit x 7"; cases "bit y 7") (auto simp: bit_simps intro!: bit_eqI)

lemma xtime_0 [simp]: "xtime 0 = 0"
  by (simp add: xtime_def)

lemma xtime_eq_0: "xtime x = 0 \<Longrightarrow> x = 0"
proof -
  assume eq: "xtime x = 0"
  have "bit (xtime x) 0 = bit x 7"
    by (simp add: xtime_def bit_0 even_xor_iff)
  with eq have n7: "\<not> bit x 7" by simp
  have "bit x n = bit (xtime x) (Suc n)" if "n < 7" for n
    using n7 that by (simp add: xtime_def mult.commute[of x 2] bit_double_iff)
  with eq have low: "\<not> bit x n" if "n < 7" for n using that by simp
  show "x = 0"
  proof (rule bit_eqI)
    fix n :: nat
    assume "possible_bit TYPE(u8) n"
    then have "n < 7 \<or> n = 7" by auto
    with n7 low show "bit x n = bit (0 :: u8) n" by auto
  qed
qed

lemma inj_xtime: "inj xtime"
proof (rule injI)
  fix x y assume "xtime x = xtime y"
  then have "xtime (x XOR y) = 0" by (simp add: xtime_xor)
  then have "x XOR y = 0" by (rule xtime_eq_0)
  then show "x = y" by (metis xor.assoc xor.right_neutral xor_self_eq xor.commute)
qed

lemma funpow_xtime_xor: "(xtime ^^ k) (x XOR y) = (xtime ^^ k) x XOR (xtime ^^ k) y"
  by (induction k) (auto simp: xtime_xor)

lemma funpow_xtime_0 [simp]: "(xtime ^^ k) 0 = 0"
  by (induction k) auto

lemma inj_funpow_xtime: "inj (xtime ^^ k)"
  by (induction k) (auto intro: inj_compose inj_xtime simp: inj_on_def dest: injD[OF inj_xtime])

section \<open>The powers of alpha\<close>

lemma galpha_add: "galpha (i + j) = (xtime ^^ i) (galpha j)"
  by (simp add: galpha_def funpow_add)

lemma galpha_0 [simp]: "galpha 0 = 1"
  by (simp add: galpha_def)

lemma galpha_nonzero [simp]: "galpha i \<noteq> 0"
proof
  assume "galpha i = 0"
  then have "(xtime ^^ i) 1 = (xtime ^^ i) 0" by (simp add: galpha_def)
  then have "(1 :: u8) = 0" by (rule injD[OF inj_funpow_xtime])
  then show False by simp
qed

fun xt_iter :: "nat \<Rightarrow> u8 \<Rightarrow> u8" where
  "xt_iter 0 x = x"
| "xt_iter (Suc n) x = xt_iter n (xtime x)"

lemma xt_iter: "xt_iter n x = (xtime ^^ n) x"
  by (induction n arbitrary: x) (auto simp: funpow_swap1)

lemma galpha_xt_iter: "galpha n = xt_iter n 1"
  by (simp add: galpha_def xt_iter)

lemma galpha_255: "galpha 255 = 1"
  unfolding galpha_xt_iter by code_simp

lemma galpha_small: "galpha 15 \<noteq> 1" "galpha 51 \<noteq> 1" "galpha 85 \<noteq> 1"
  unfolding galpha_xt_iter by code_simp+

text \<open>The exponents that return to 1 are closed under gcd, so the order of alpha is 255.\<close>

lemma galpha_mult_period: "galpha p = 1 \<Longrightarrow> galpha (k * p) = 1"
  by (induction k) (auto simp: galpha_add, simp add: galpha_def)

lemma galpha_mod: "galpha p = 1 \<Longrightarrow> galpha (n mod p) = galpha n"
proof -
  assume p: "galpha p = 1"
  have "galpha n = galpha (n mod p + n div p * p)" by simp
  also have "\<dots> = (xtime ^^ (n mod p)) 1" by (simp only: galpha_add galpha_mult_period[OF p])
  finally show ?thesis by (simp add: galpha_def)
qed

lemma galpha_mod_255: "galpha (n mod 255) = galpha n"
  by (rule galpha_mod[OF galpha_255])

lemma galpha_gcd: "galpha a = 1 \<Longrightarrow> galpha b = 1 \<Longrightarrow> galpha (gcd a b) = 1"
proof (induction a b rule: gcd_nat_induct)
  case (base m)
  then show ?case by simp
next
  case (step m n)
  then show ?case by (simp add: gcd_red_nat[of m n] galpha_mod)
qed

lemma proper_divisor_255:
  assumes "g dvd 255" and "g < (255::nat)"
  shows "g dvd 15 \<or> g dvd 51 \<or> g dvd 85"
proof -
  have "\<forall>g \<in> set [0..<255]. (255::nat) mod g = 0 \<longrightarrow> 15 mod g = 0 \<or> 51 mod g = 0 \<or> 85 mod g = 0"
    by code_simp
  with assms show ?thesis by (auto simp: mod_eq_0_iff_dvd)
qed

lemma galpha_order: "galpha d = 1 \<Longrightarrow> d < 255 \<Longrightarrow> d = 0"
proof (rule ccontr)
  assume d: "galpha d = 1" "d < 255" "d \<noteq> 0"
  let ?g = "gcd d 255"
  have g: "galpha ?g = 1" using d galpha_255 by (intro galpha_gcd)
  have "?g dvd 255" "?g < 255"
    using d gcd_le1_nat[of d 255] by (auto simp del: gcd_le1_nat)
  then have "?g dvd 15 \<or> ?g dvd 51 \<or> ?g dvd 85" by (rule proper_divisor_255)
  then have "galpha 15 = 1 \<or> galpha 51 = 1 \<or> galpha 85 = 1"
    using galpha_mult_period[OF g] by (metis dvd_def mult.commute)
  with galpha_small show False by blast
qed

lemma galpha_inj: "galpha i = galpha j \<Longrightarrow> i < 255 \<Longrightarrow> j < 255 \<Longrightarrow> i = j"
proof (induction i j rule: linorder_wlog)
  case (le a b)
  then have "(xtime ^^ a) (galpha (b - a)) = (xtime ^^ a) 1"
    by (simp add: galpha_add[symmetric]) (simp add: galpha_def)
  then have "galpha (b - a) = 1" by (rule injD[OF inj_funpow_xtime])
  with le show ?case using galpha_order[of "b - a"] by (simp add: less_imp_diff_less)
next
  case (sym a b)
  then show ?case by auto
qed

lemma galpha_image: "galpha ` {..<255} = - {0}"
proof (rule card_subset_eq)
  show "finite (- {0 :: u8})" by simp
  show "galpha ` {..<255} \<subseteq> - {0}" by auto
  have "card (galpha ` {..<255}) = 255"
    by (subst card_image) (auto intro!: inj_onI galpha_inj)
  moreover have "card (- {0 :: u8}) = 255"
    by (simp add: Compl_eq_Diff_UNIV card_Diff_subset card_word)
  ultimately show "card (galpha ` {..<255}) = card (- {0 :: u8})" by simp
qed

section \<open>Discrete logarithm and product\<close>

definition glog :: "u8 \<Rightarrow> nat" where
  "glog x = length (takeWhile (\<lambda>i. galpha i \<noteq> x) [0..<255])"

lemma glog_galpha: assumes "i < 255" shows "glog (galpha i) = i"
proof -
  have "[0..<255] = [0..<i] @ i # [Suc i..<255]"
    using assms upt_add_eq_append[of 0 i "255 - i"]
    by (simp only: upt_conv_Cons add_0_left zero_le le_add_diff_inverse less_imp_le)
  moreover have "takeWhile (\<lambda>k. galpha k \<noteq> galpha i) ([0..<i] @ i # [Suc i..<255]) = [0..<i]"
    using assms by (subst takeWhile_append2) (auto dest: galpha_inj)
  ultimately have "takeWhile (\<lambda>k. galpha k \<noteq> galpha i) [0..<255] = [0..<i]" by (simp only:)
  then show ?thesis unfolding glog_def by (simp only: length_upt diff_zero)
qed

lemma galpha_cases:
  assumes "x \<noteq> 0" obtains i where "i < 255" "x = galpha i"
proof -
  have "x \<in> galpha ` {..<255}" using assms by (simp only: galpha_image) simp
  then show thesis using that by (auto simp only: image_iff lessThan_iff)
qed

lemma galpha_glog: "x \<noteq> 0 \<Longrightarrow> galpha (glog x) = x"
  by (erule galpha_cases) (simp add: glog_galpha)

lemma glog_less: "x \<noteq> 0 \<Longrightarrow> glog x < 255"
  by (erule galpha_cases) (simp add: glog_galpha)

lemma glog_galpha_mod: "glog (galpha n) = n mod 255"
  using glog_galpha[of "n mod 255"] by (simp add: galpha_mod_255)

definition gmul :: "u8 \<Rightarrow> u8 \<Rightarrow> u8" where
  "gmul a b = (if a = 0 \<or> b = 0 then 0 else galpha (glog a + glog b))"

lemma gmul_galpha: "gmul x (galpha k) = (xtime ^^ k) x"
proof (cases "x = 0")
  case True
  then show ?thesis by (simp add: gmul_def)
next
  case False
  have "galpha (glog x + k mod 255) = galpha (glog x + k)"
    by (metis galpha_mod_255 mod_add_right_eq)
  also have "\<dots> = (xtime ^^ k) x"
    using galpha_add[of k "glog x"] False by (simp add: galpha_glog add.commute)
  finally show ?thesis using False by (simp add: gmul_def glog_galpha_mod)
qed

lemma gmul_commute: "gmul a b = gmul b a"
  by (simp add: gmul_def add.commute)

lemma gmul_assoc: "gmul (gmul a b) c = gmul a (gmul b c)"
proof (cases "a = 0 \<or> b = 0 \<or> c = 0")
  case True
  then show ?thesis by (auto simp: gmul_def)
next
  case False
  then show ?thesis
    by (simp add: gmul_def glog_galpha_mod)
       (metis galpha_mod_255 mod_add_left_eq mod_add_right_eq add.assoc)
qed

lemma gmul_xor_left: "gmul (a XOR b) c = gmul a c XOR gmul b c"
proof (cases "c = 0")
  case True
  then show ?thesis by (simp add: gmul_def)
next
  case False
  then obtain k where "c = galpha k" by (rule galpha_cases)
  then show ?thesis by (simp add: gmul_galpha funpow_xtime_xor)
qed

lemma gmul_1 [simp]: "gmul 1 x = x"
  using gmul_galpha[of x 0] by (simp add: gmul_commute)

definition ginv :: "u8 \<Rightarrow> u8" where
  "ginv x = (if x = 0 then 0 else galpha (255 - glog x))"

lemma gmul_ginv: "x \<noteq> 0 \<Longrightarrow> gmul (ginv x) x = 1"
proof -
  assume x: "x \<noteq> 0"
  have "galpha ((255 - glog x) mod 255 + glog x) = galpha (255 - glog x + glog x)"
    by (metis galpha_mod_255 mod_add_left_eq)
  with x show ?thesis
    by (simp add: ginv_def gmul_def glog_galpha_mod glog_less less_imp_le galpha_255)
qed

section \<open>The field\<close>

typedef gf256 = "UNIV :: u8 set"
  morphisms byte_of Gf by simp

setup_lifting type_definition_gf256

instantiation gf256 :: field
begin

lift_definition zero_gf256 :: gf256 is 0 .
lift_definition one_gf256 :: gf256 is 1 .
lift_definition plus_gf256 :: "gf256 \<Rightarrow> gf256 \<Rightarrow> gf256" is "(XOR)" .
lift_definition minus_gf256 :: "gf256 \<Rightarrow> gf256 \<Rightarrow> gf256" is "(XOR)" .
lift_definition uminus_gf256 :: "gf256 \<Rightarrow> gf256" is "\<lambda>x. x" .
lift_definition times_gf256 :: "gf256 \<Rightarrow> gf256 \<Rightarrow> gf256" is gmul .
lift_definition inverse_gf256 :: "gf256 \<Rightarrow> gf256" is ginv .
lift_definition divide_gf256 :: "gf256 \<Rightarrow> gf256 \<Rightarrow> gf256" is "\<lambda>a b. gmul a (ginv b)" .

instance
proof
  fix a b c :: gf256
  show "a * b * c = a * (b * c)" by transfer (rule gmul_assoc)
  show "a * b = b * a" by transfer (rule gmul_commute)
  show "1 * a = a" by transfer (rule gmul_1)
  show "a + b + c = a + (b + c)" by transfer (rule xor.assoc)
  show "a + b = b + a" by transfer (rule xor.commute)
  show "0 + a = a" by transfer simp
  show "- a + a = 0" by transfer simp
  show "a - b = a + - b" by transfer simp
  show "(a + b) * c = a * c + b * c" by transfer (rule gmul_xor_left)
  show "(0 :: gf256) \<noteq> 1" by transfer simp
  show "a \<noteq> 0 \<Longrightarrow> inverse a * a = 1" by transfer (rule gmul_ginv)
  show "a div b = a * inverse b" by transfer simp
  show "inverse (0 :: gf256) = 0" by transfer (simp add: ginv_def)
qed

end

instantiation gf256 :: equal
begin

lift_definition equal_gf256 :: "gf256 \<Rightarrow> gf256 \<Rightarrow> bool" is "(=)" .

instance
  by standard (transfer, simp)

end

lemma gf_add_self [simp]: "(a :: gf256) + a = 0"
  by transfer simp

lemma gf_minus [simp]: "(a :: gf256) - b = a + b" "- a = a"
  by (transfer, simp)+

lemma gf_add_cancel [simp]: "(a :: gf256) + (a + b) = b" "a + (b + a) = b"
  by (metis add.assoc add.commute add_0 gf_add_self)+

text \<open>The primitive element and its powers.\<close>

definition \<alpha> :: gf256 where "\<alpha> = Gf (galpha 1)"

lemma Gf_mult: "Gf a * Gf b = Gf (gmul a b)"
  by (simp add: times_gf256_def Gf_inverse)

lemma alpha_power: "\<alpha> ^ n = Gf (galpha n)"
proof (induction n)
  case 0
  then show ?case by (simp add: one_gf256_def)
next
  case (Suc n)
  have "\<alpha> ^ Suc n = Gf (gmul (galpha n) (galpha 1))"
    by (simp only: power_Suc Suc) (simp add: \<alpha>_def Gf_mult gmul_commute)
  also have "gmul (galpha n) (galpha 1) = galpha (Suc n)"
    using galpha_add[of 1 n] by (simp add: gmul_galpha)
  finally show ?case .
qed

lemma alpha_power_nonzero [simp]: "\<alpha> ^ n \<noteq> 0"
  using galpha_nonzero[of n] by (simp add: alpha_power zero_gf256_def Gf_inject del: galpha_nonzero)

lemma alpha_nonzero [simp]: "\<alpha> \<noteq> 0"
  using alpha_power_nonzero[of 1] by (simp del: alpha_power_nonzero)

lemma alpha_255: "\<alpha> ^ 255 = 1"
  by (simp only: alpha_power galpha_255 one_gf256_def)

lemma alpha_power_mod: "\<alpha> ^ (n mod 255) = \<alpha> ^ n"
  by (simp add: alpha_power galpha_mod_255)

lemma alpha_power_inj: "\<alpha> ^ i = \<alpha> ^ j \<Longrightarrow> i < 255 \<Longrightarrow> j < 255 \<Longrightarrow> i = j"
  by (auto simp: alpha_power Gf_inject intro: galpha_inj)

lemma gf_exp: "(a :: gf256) \<noteq> 0 \<Longrightarrow> \<exists>i < 255. a = \<alpha> ^ i"
proof -
  assume "a \<noteq> 0"
  then have "byte_of a \<noteq> 0" by (metis byte_of_inverse zero_gf256_def)
  then obtain i where "i < 255" "byte_of a = galpha i" by (rule galpha_cases)
  then show ?thesis by (metis alpha_power byte_of_inverse)
qed

end
