(* ===== verification/RS_Tables.thy ===== *)
theory RS_Tables
  imports RS_Codec GF256
begin

unbundle bit_operations_syntax

text \<open>
  The control structure against the field. \<open>gsym\<close> and \<open>gidx\<close> are the two forms in which the codec
  keeps a field element (the symbol itself and its index form, with \<open>nn\<close> for zero). The locale
  \<open>rs_tables\<close> is the contract of the log and antilog tables that encoder and decoder rely on,
  \<open>rs_code\<close> adds the generator polynomial, and the main result of this theory is that
  \<^verbatim>\<open>rs_init\<close> called as both drivers call it (8-bit symbols, polynomial \<^verbatim>\<open>0x11d\<close>, first root 0,
  primitive element 1, 16 roots) builds a structure that fulfils it.
\<close>

section \<open>Reduction modulo \<open>nn\<close>\<close>

lemma fold_step_le:
  fixes y :: int assumes "0 \<le> y"
  shows "0 \<le> y div 2 ^ m + y mod 2 ^ m \<and> y div 2 ^ m + y mod 2 ^ m \<le> y"
proof -
  have q: "0 \<le> y div 2 ^ m" using assms by (simp add: pos_imp_zdiv_nonneg_iff)
  have "y div 2 ^ m * 1 \<le> y div 2 ^ m * 2 ^ m" using q by (intro mult_left_mono) auto
  then have "y div 2 ^ m + y mod 2 ^ m \<le> y div 2 ^ m * 2 ^ m + y mod 2 ^ m" by simp
  moreover have "y div 2 ^ m * 2 ^ m + y mod 2 ^ m = y" by (rule div_mult_mod_eq)
  ultimately show ?thesis using q by simp
qed

lemma fold_step_mod:
  fixes y :: int shows "(y div 2 ^ m + y mod 2 ^ m) mod (2 ^ m - 1) = y mod (2 ^ m - 1)"
proof -
  have "y = (y div 2 ^ m + y mod 2 ^ m) + y div 2 ^ m * (2 ^ m - 1)"
    by (simp add: algebra_simps)
  then show ?thesis by (metis mod_mult_self1)
qed

lemma rs_modnn_mod:
  assumes "mm rs = int m" and "0 < m" and "nn rs = 2 ^ m - 1" and "0 \<le> x"
  shows "rs_modnn rs x = Some (x mod nn rs)"
  using assms(4)
proof (induction "nat x" arbitrary: x rule: less_induct)
  case less
  show ?case
  proof (cases "x < nn rs")
    case True
    with less.prems show ?thesis by (simp add: rs_modnn.simps[of rs x])
  next
    case False
    define y where "y = x - nn rs"
    have nn1: "1 \<le> nn rs" using assms(2,3) self_le_power[of "2 :: int" m] by simp
    have y: "0 \<le> y" "y < x" using False nn1 by (auto simp: y_def)
    have step: "drop_bit (nat (mm rs)) y + (y AND nn rs) = y div 2 ^ m + y mod 2 ^ m"
      using assms(1,3) by (simp add: drop_bit_eq_div take_bit_eq_mod[symmetric]
          take_bit_eq_mask mask_eq_exp_minus_1)
    have "rs_modnn rs (y div 2 ^ m + y mod 2 ^ m) = Some ((y div 2 ^ m + y mod 2 ^ m) mod nn rs)"
      using fold_step_le[OF y(1), of m] y(2) less.prems by (intro less.hyps) auto
    also have "(y div 2 ^ m + y mod 2 ^ m) mod nn rs = y mod nn rs"
      using assms(3) fold_step_mod by simp
    also have "y mod nn rs = x mod nn rs" by (simp add: y_def mod_diff_right_eq)
    finally show ?thesis using False step by (simp add: rs_modnn.simps[of rs x] y_def)
  qed
qed

section \<open>Symbols and indices of field elements\<close>

definition gsym :: "gf256 \<Rightarrow> u16" where
  "gsym a = ucast (byte_of a)"

definition gidx :: "gf256 \<Rightarrow> u16" where
  "gidx a = (if a = 0 then 255 else of_nat (glog (byte_of a)))"

definition gfe :: "u16 \<Rightarrow> gf256" where
  "gfe x = Gf (ucast x)"

text \<open>Powers of alpha with an integer exponent.\<close>

definition gexp :: "int \<Rightarrow> gf256" where
  "gexp x = \<alpha> ^ nat (x mod 255)"

named_theorems gf_simps \<open>symbols, indices and powers of alpha\<close>

lemma gfe_gsym [gf_simps]: "gfe (gsym a) = a"
proof -
  have "ucast (ucast (byte_of a) :: u16) = byte_of a"
    by (rule bit_eqI) (simp add: bit_simps)
  then show ?thesis by (simp add: gfe_def gsym_def byte_of_inverse)
qed

lemma gsym_inject [simp]: "gsym a = gsym b \<longleftrightarrow> a = b"
  by (metis gfe_gsym)

lemma gsym_gfe: "uint x < 256 \<Longrightarrow> gsym (gfe x) = x"
  by (simp add: gsym_def gfe_def Gf_inverse)
     (rule word_uint_eqI, simp add: unsigned_ucast_eq unsigned_take_bit_eq take_bit_int_eq_self)

lemma gsym_0 [simp]: "gsym 0 = 0" "gsym 1 = 1"
  by (simp_all add: gsym_def zero_gf256.rep_eq one_gf256.rep_eq)

lemma gsym_eq_0 [simp]: "gsym a = 0 \<longleftrightarrow> a = 0"
  by (metis gsym_0(1) gsym_inject)

lemma gsym_add: "gsym (a + b) = gsym a XOR gsym b"
  unfolding gsym_def by (rule bit_eqI) (auto simp: plus_gf256.rep_eq bit_simps)

lemma gsym_xor [gf_simps]: "gsym a XOR gsym b = gsym (a + b)"
  by (simp add: gsym_add)

lemma uint_gsym: "uint (gsym a) = uint (byte_of a)"
  by (simp add: gsym_def unsigned_ucast_eq take_bit_int_eq_self uint_lt2p[of "byte_of a", THEN less_trans])

lemma gsym_range: "0 \<le> uint (gsym a)" "uint (gsym a) < 256"
  by (auto simp: uint_gsym uint_lt2p[of "byte_of a", simplified])

lemma byte_of_eq_0: "byte_of a = 0 \<longleftrightarrow> a = 0"
  by (metis byte_of_inverse zero_gf256.rep_eq)

lemma uint_gidx: "uint (gidx a) = (if a = 0 then 255 else int (glog (byte_of a)))"
proof (cases "a = 0")
  case False
  then have "glog (byte_of a) < 255" by (simp add: glog_less byte_of_eq_0)
  with False show ?thesis by (simp add: gidx_def uint_nat unat_of_nat)
qed (simp add: gidx_def)

lemma gidx_nn [simp]: "uint (gidx a) = 255 \<longleftrightarrow> a = 0"
  using glog_less[of "byte_of a"] by (auto simp: uint_gidx byte_of_eq_0)

lemma gexp_int [gf_simps]: "gexp (int n) = \<alpha> ^ n"
proof -
  have "nat (int n mod 255) = n mod 255" by (simp add: nat_mod_distrib)
  then show ?thesis by (simp add: gexp_def alpha_power_mod)
qed

lemma gexp_mod: "gexp (x mod 255) = gexp x"
  by (simp add: gexp_def)

lemma gexp_add [gf_simps]: "gexp (x + y) = gexp x * gexp y"
proof -
  have "gexp (x + y) = gexp (int (nat (x mod 255) + nat (y mod 255)))"
    unfolding gexp_def[of "x + y"] gexp_def[of "int _"] by (simp add: mod_simps)
  also have "\<dots> = \<alpha> ^ nat (x mod 255) * \<alpha> ^ nat (y mod 255)"
    by (simp only: gexp_int power_add)
  finally show ?thesis by (simp only: gexp_def[of x] gexp_def[of y])
qed

lemma gexp_nonzero [simp]: "gexp x \<noteq> 0"
  by (simp add: gexp_def)

lemma gexp_0 [simp]: "gexp 0 = 1"
  by (simp add: gexp_def)

lemma gexp_255 [simp]: "gexp 255 = 1"
  by (simp add: gexp_def)

lemma gexp_uminus [gf_simps]: "gexp (- x) = inverse (gexp x)"
  using gexp_add[of "- x" x] by (simp add: field_simps)

lemma gexp_diff [gf_simps]: "gexp (x - y) = gexp x / gexp y"
  using gexp_add[of x "- y"] by (simp add: gexp_uminus divide_inverse)

lemma gexp_mult: "gexp (int n * x) = gexp x ^ n"
  by (induction n) (auto simp: gexp_add distrib_right)

lemma gexp_gidx [gf_simps]: "a \<noteq> 0 \<Longrightarrow> gexp (uint (gidx a)) = a"
  by (simp add: uint_gidx gexp_int alpha_power galpha_glog byte_of_eq_0 byte_of_inverse)

lemma gidx_gexp: "uint (gidx (gexp x)) = x mod 255"
proof -
  have "glog (byte_of (gexp x)) = nat (x mod 255)"
    by (simp add: gexp_def alpha_power Gf_inverse glog_galpha nat_less_iff)
  then show ?thesis by (simp add: uint_gidx)
qed

lemma gidx_inject [simp]: "gidx a = gidx b \<longleftrightarrow> a = b"
proof
  assume eq: "gidx a = gidx b"
  then have "a = 0 \<longleftrightarrow> b = 0" by (metis gidx_nn)
  then show "a = b" using eq gexp_gidx[of a] gexp_gidx[of b] by metis
qed simp

lemma gidx_range: "0 \<le> uint (gidx a)" "uint (gidx a) \<le> 255"
  using glog_less[of "byte_of a"] by (auto simp: uint_gidx byte_of_eq_0)

section \<open>The contract of the tables\<close>

locale rs_tables =
  fixes rs :: rs_control
  assumes mm8: "mm rs = 8"
    and nn255: "nn rs = 255"
    and index_table: "\<And>a. ard (index_of rs) (uint (gsym a)) = Some (gidx a)"
    and alpha_table: "\<And>x. 0 \<le> x \<Longrightarrow> x < 255 \<Longrightarrow> ard (alpha_to rs) x = Some (gsym (gexp x))"
begin

lemma modnn: "0 \<le> x \<Longrightarrow> rs_modnn rs x = Some (x mod 255)"
  using rs_modnn_mod[of rs 8 x] mm8 nn255 by simp

lemma alpha_mod: "ard (alpha_to rs) (x mod 255) = Some (gsym (gexp x))"
  by (simp add: alpha_table gexp_mod)

lemmas tab_simps = modnn alpha_mod index_table nn255 gidx_range gf_simps

text \<open>The three table idioms of the codec: product with a power of alpha, product, quotient.\<close>

lemma tab_mul_exp:
  "a \<noteq> 0 \<Longrightarrow> 0 \<le> e \<Longrightarrow>
   (do { m \<leftarrow> rs_modnn rs (uint (gidx a) + e); ard (alpha_to rs) m }) = Some (gsym (a * gexp e))"
  using gidx_range[of a] by (simp add: tab_simps)

lemma tab_mul:
  "a \<noteq> 0 \<Longrightarrow> b \<noteq> 0 \<Longrightarrow>
   (do { m \<leftarrow> rs_modnn rs (uint (gidx a) + uint (gidx b)); ard (alpha_to rs) m })
     = Some (gsym (a * b))"
  using tab_mul_exp[of a "uint (gidx b)"] by (simp add: tab_simps)

lemma tab_quot:
  "a \<noteq> 0 \<Longrightarrow> b \<noteq> 0 \<Longrightarrow>
   map_option word_of_int (rs_modnn rs (uint (gidx a) - uint (gidx b) + nn rs)) = Some (gidx (a / b))"
proof -
  assume "a \<noteq> 0" "b \<noteq> 0"
  let ?x = "uint (gidx a) - uint (gidx b) + 255"
  have "gexp ?x = a / b" using \<open>a \<noteq> 0\<close> \<open>b \<noteq> 0\<close> by (simp add: gf_simps)
  then have "uint (gidx (a / b)) = ?x mod 255" using gidx_gexp[of ?x] by simp
  moreover have "0 \<le> ?x" using gidx_range[of a] gidx_range[of b] by linarith
  ultimately show ?thesis by (simp add: modnn nn255) (metis word_of_int_uint)
qed

end

section \<open>Filling the tables\<close>

definition alpha_tab :: "u16 list" where
  "alpha_tab = map (\<lambda>i. gsym (\<alpha> ^ i)) [0..<255] @ [0]"

definition index_tab :: "u16 list" where
  "index_tab = map (\<lambda>x. gidx (Gf (of_nat x))) [0..<256]"

lemma gf_shift_xtime: "gf_shift 8 0x11d (uint x) = uint (xtime x)"
proof -
  have "list_all (\<lambda>n. gf_shift 8 0x11d n = uint (xtime (word_of_int n))) [0..255]"
    by code_simp
  moreover have "uint x \<in> set [0..255]" using uint_lt2p[of x] by simp
  ultimately show ?thesis by (auto simp: list_all_iff)
qed

definition tabs_upto :: "int \<Rightarrow> int \<times> u16 list \<times> u16 list \<Rightarrow> bool" where
  "tabs_upto i = (\<lambda>(sr, al, ix).
     sr = uint (galpha (nat i)) \<and> length al = 256 \<and> length ix = 256 \<and>
     al ! 255 = 0 \<and> ix ! 0 = 255 \<and>
     (\<forall>k < nat i. al ! k = gsym (\<alpha> ^ k) \<and> ix ! unat (galpha k) = gidx (\<alpha> ^ k)))"

lemma gidx_alpha: "k < 255 \<Longrightarrow> gidx (\<alpha> ^ k) = of_nat k"
  by (simp add: gidx_def alpha_power Gf_inverse glog_galpha Gf_inject zero_gf256_def)

lemma gsym_alpha: "gsym (\<alpha> ^ k) = ucast (galpha k)"
  by (simp add: gsym_def alpha_power Gf_inverse)

lemma tabs_upto_step:
  assumes "tabs_upto i (sr, al, ix)" and "0 \<le> i" and "i < 255"
  shows "\<exists>t. (do { ix \<leftarrow> awr ix sr (word_of_int i); al \<leftarrow> awr al i (word_of_int sr);
               Some (gf_shift 8 0x11d sr, al, ix) }) = Some t \<and> tabs_upto (i + 1) t"
proof -
  let ?k = "nat i"
  have sr: "sr = uint (galpha ?k)" using assms by (simp add: tabs_upto_def)
  have bnd: "0 \<le> sr" "sr < 256" using uint_lt2p[of "galpha ?k"] by (auto simp: sr)
  have nsr: "nat sr = unat (galpha ?k)" by (simp add: sr)
  have "gf_shift 8 0x11d sr = uint (galpha (nat (i + 1)))"
    using galpha_add[of 1 ?k] assms(2) by (simp add: sr gf_shift_xtime nat_add_distrib)
  moreover have "word_of_int sr = gsym (\<alpha> ^ ?k)"
    by (simp only: sr gsym_alpha ucast_eq)
  moreover have "word_of_int i = gidx (\<alpha> ^ ?k)"
    using assms(2,3) gidx_alpha[of ?k] by (simp add: nat_less_iff)
  moreover have "unat (galpha ?k) \<noteq> unat (galpha j)" if "j < ?k" for j
  proof
    assume "unat (galpha ?k) = unat (galpha j)"
    then have "galpha j = galpha ?k" by (simp only: word_unat_eq_iff)
    then have "j = ?k" using that assms(2,3) by (intro galpha_inj) auto
    with that show False by simp
  qed
  moreover have "unat (galpha ?k) \<noteq> 0" by (simp add: unat_eq_zero)
  moreover have "unat (galpha ?k) < 256" using bnd nsr by linarith
  ultimately show ?thesis
    using assms bnd nsr
    by (auto simp: tabs_upto_def awr_in nat_add_distrib less_Suc_eq nth_list_update)
qed

lemma gf_fill_tables:
  assumes "length al = 256" and "length ix = 256" and "al ! 255 = 0" and "ix ! 0 = 255"
  shows "gf_fill 255 (gf_shift 8 0x11d) 1 al ix = Some (1, alpha_tab, index_tab)"
proof -
  have "\<exists>t. gf_fill 255 (gf_shift 8 0x11d) 1 al ix = Some t \<and> tabs_upto 255 t"
    unfolding gf_fill_def
  proof (rule cfor_total)
    show "tabs_upto 0 (1, al, ix)" using assms by (simp add: tabs_upto_def)
    fix k t assume "0 \<le> k" "k < (255 :: int)" "tabs_upto k t"
    then show "\<exists>t'. (case t of (sr, alpha, idx) \<Rightarrow> do {
        idx \<leftarrow> awr idx sr (word_of_int k); alpha \<leftarrow> awr alpha k (word_of_int sr);
        Some (gf_shift 8 0x11d sr, alpha, idx) }) = Some t' \<and> tabs_upto (k + 1) t'"
      by (cases t) (simp only: prod.case, rule tabs_upto_step)
  qed simp
  then obtain sr al' ix' where res: "gf_fill 255 (gf_shift 8 0x11d) 1 al ix = Some (sr, al', ix')"
    and inv: "tabs_upto 255 (sr, al', ix')" by auto
  have "sr = 1" using inv galpha_255 by (simp add: tabs_upto_def)
  moreover have "al' = alpha_tab"
  proof (rule nth_equalityI)
    show "length al' = length alpha_tab" using inv by (simp add: tabs_upto_def alpha_tab_def)
    fix i assume "i < length al'"
    then have "i < 255 \<or> i = 255" using inv by (auto simp: tabs_upto_def)
    then show "al' ! i = alpha_tab ! i"
      using inv by (auto simp: tabs_upto_def alpha_tab_def nth_append)
  qed
  moreover have "ix' = index_tab"
  proof (rule nth_equalityI)
    show "length ix' = length index_tab" using inv by (simp add: tabs_upto_def index_tab_def)
    fix x assume "x < length ix'"
    then have x: "x < 256" using inv by (simp add: tabs_upto_def)
    show "ix' ! x = index_tab ! x"
    proof (cases "x = 0")
      case True
      then show ?thesis using inv by (simp add: tabs_upto_def index_tab_def gidx_def zero_gf256_def[symmetric])
    next
      case False
      then have "(of_nat x :: u8) \<noteq> 0" using x by (auto simp: word_of_nat_eq_0_iff nat_dvd_not_less)
      then obtain k where k: "k < 255" "(of_nat x :: u8) = galpha k" by (rule galpha_cases)
      have "unat (of_nat x :: u8) = x" using x by (simp add: unat_of_nat)
      with k have "unat (galpha k) = x" by simp
      then show ?thesis using inv k x by (auto simp: tabs_upto_def index_tab_def alpha_power)
    qed
  qed
  ultimately show ?thesis using res by simp
qed


section \<open>The generator polynomial\<close>

text \<open>Polynomials over the field as coefficient lists, constant term first; \<open>pmul l ps r\<close> has the
  coefficients of \<open>l + (x + r) * ps\<close>.\<close>

fun peval :: "gf256 list \<Rightarrow> gf256 \<Rightarrow> gf256" where
  "peval [] x = 0"
| "peval (p # ps) x = p + x * peval ps x"

fun pmul :: "gf256 \<Rightarrow> gf256 list \<Rightarrow> gf256 \<Rightarrow> gf256 list" where
  "pmul l [] r = [l]"
| "pmul l (p # ps) r = (l + p * r) # pmul p ps r"

lemma length_pmul [simp]: "length (pmul l ps r) = Suc (length ps)"
  by (induction ps arbitrary: l) auto

lemma pmul_nonempty [simp]: "pmul l ps r \<noteq> []"
  by (cases ps) auto

lemma peval_pmul: "peval (pmul l ps r) x = l + (x + r) * peval ps x"
  by (induction ps arbitrary: l) (auto simp: algebra_simps)

lemma nth_pmul: "k \<le> length ps \<Longrightarrow>
    pmul l ps r ! k = (if k = 0 then l else ps ! (k - 1)) + (if k < length ps then ps ! k * r else 0)"
  by (induction ps arbitrary: l k) (auto simp: nth_Cons' split: if_splits)

lemma last_pmul: "ps \<noteq> [] \<Longrightarrow> last (pmul l ps r) = last ps"
  by (induction ps arbitrary: l) auto

lemma peval_sum: "peval ps x = (\<Sum>j<length ps. ps ! j * x ^ j)"
  by (induction ps)
     (auto simp: sum.lessThan_Suc_shift sum_distrib_left algebra_simps simp del: sum.lessThan_Suc)

fun gpoly :: "int \<Rightarrow> int \<Rightarrow> nat \<Rightarrow> gf256 list" where
  "gpoly f p 0 = [1]"
| "gpoly f p (Suc i) = pmul 0 (gpoly f p i) (gexp ((f + int i) * p))"

lemma length_gpoly [simp]: "length (gpoly f p i) = Suc i"
  by (induction i) auto

lemma gpoly_nonempty [simp]: "gpoly f p i \<noteq> []"
  by (metis length_gpoly list.size(3) nat.distinct(1))

lemma last_gpoly [simp]: "last (gpoly f p i) = 1"
  by (induction i) (auto simp: last_pmul)

lemma gpoly_const_nonzero: "gpoly f p i ! 0 \<noteq> 0"
  by (induction i) (auto simp: nth_pmul)

lemma peval_gpoly: "peval (gpoly f p n) x = (\<Prod>i<n. x + gexp ((f + int i) * p))"
  by (induction n) (auto simp: peval_pmul mult.commute)

lemma gpoly_root: "i < n \<Longrightarrow> peval (gpoly f p n) (gexp ((f + int i) * p)) = 0"
  by (auto simp: peval_gpoly intro!: prod_zero bexI[of _ i])

context rs_tables
begin

text \<open>The inner loop of one factor: from the top coefficient down, each one is the lower neighbour plus itself times the
  root. The loop leaves the lowest coefficient and what is behind the polynomial.\<close>

lemma genpoly_factor_loop:
  assumes i0: "0 \<le> i" and len: "int (length ps) = i + 1" and root: "0 \<le> root"
    and gp1: "gp1 = map gsym ps @ x # rest" and q: "q = pmul 0 ps (gexp root)"
  shows "\<exists>gp. cford i 0 (\<lambda>j gp. do {
       c \<leftarrow> ard gp j; l \<leftarrow> ard gp (j - 1);
       if c \<noteq> 0 then do {
         ix \<leftarrow> ard (index_of rs) (uint c); m \<leftarrow> rs_modnn rs (uint ix + root);
         a \<leftarrow> ard (alpha_to rs) m; awr gp j (l XOR a) }
       else awr gp j l }) gp1 = Some gp \<and> length gp = length gp1
     \<and> (\<forall>k < length gp1. gp ! k = (if 0 < int k \<and> int k \<le> i then gsym (q ! k) else gp1 ! k))"
    (is "\<exists>gp. cford i 0 ?f gp1 = Some gp \<and> _")
proof -
  let ?I = "\<lambda>j gp. length gp = length gp1 \<and>
     (\<forall>k < length gp1. gp ! k = (if j < int k \<and> int k \<le> i then gsym (q ! k) else gp1 ! k))"
  have ps_nth: "gp1 ! k = gsym (ps ! k)" if "k < length ps" for k using that by (simp add: gp1 nth_append)
  show ?thesis
  proof (rule cford_total[where I = ?I])
    fix j gp assume j: "0 < j" "j \<le> i" and inv: "?I j gp"
    have jn: "nat j < length ps" "nat (j - 1) < length ps" "length ps < length gp1"
      using j len by (auto simp: gp1)
    have c: "ard gp j = Some (gsym (ps ! nat j))" and l: "ard gp (j - 1) = Some (gsym (ps ! nat (j - 1)))"
      using inv j jn by (auto simp: ard_def ps_nth)
    have qj: "q ! nat j = ps ! nat (j - 1) + ps ! nat j * gexp root"
      using j jn by (simp add: q nth_pmul nat_diff_distrib)
    obtain J where J: "j = int J" using j by (metis zero_less_imp_eq_int)
    have I': "?I (j - 1) (gp[nat j := gsym (q ! nat j)])" using inv j jn by (auto simp: nth_list_update J)
    have "?f j gp = Some (gp[nat j := gsym (q ! nat j)])"
      using j jn inv root gidx_range[of "ps ! nat j"]
      by (cases "ps ! nat j = 0") (simp_all add: c l tab_simps awr_in qj)
    with I' show "\<exists>gp'. ?f j gp = Some gp' \<and> ?I (j - 1) gp'" by blast
  qed (use i0 in auto)
qed

lemma genpoly_factor_pmul:
  assumes i0: "0 \<le> i" and len: "int (length ps) = i + 1" and last: "last ps = 1" and const: "ps ! 0 \<noteq> 0"
    and rest: "rest \<noteq> []" and root: "0 \<le> root"
  shows "genpoly_factor rs i root (map gsym ps @ rest)
    = Some (map gsym (pmul 0 ps (gexp root)) @ tl rest)"
proof -
  have ne: "ps \<noteq> []" using len i0 by auto
  let ?r = "gexp root" and ?n = "length ps"
  define q where "q = pmul 0 ps ?r"
  define gp1 where "gp1 = map gsym ps @ 1 # tl rest"
  have w1: "awr (map gsym ps @ rest) (i + 1) 1 = Some gp1"
    using len i0 rest by (cases rest) (auto simp: awr_def gp1_def list_update_append simp flip: len)
  note loop = genpoly_factor_loop[OF i0 len root gp1_def q_def]
  then obtain gp where L: "length gp = length gp1"
    and inv: "\<forall>k < length gp1. gp ! k = (if 0 < int k \<and> int k \<le> i then gsym (q ! k) else gp1 ! k)" 
    and w2: "genpoly_factor rs i root (map gsym ps @ rest) = do {
       c \<leftarrow> ard gp 0; ix \<leftarrow> ard (index_of rs) (uint c); m \<leftarrow> rs_modnn rs (uint ix + root); a \<leftarrow> ard (alpha_to rs) m; awr gp 0 a }"
    using w1 by (auto simp: genpoly_factor_def)
  have L0: "0 < length gp1" by (simp add: gp1_def)
  have g0: "ard gp 0 = Some (gsym (ps ! 0))" using inv L L0 ne by (simp add: ard_def gp1_def nth_append)
  have "gp[0 := gsym (ps ! 0 * ?r)] = map gsym q @ tl rest"
  proof (rule nth_equalityI)
    show "length (gp[0 := gsym (ps ! 0 * ?r)]) = length (map gsym q @ tl rest)"
      using L by (simp add: gp1_def q_def)
    fix k assume "k < length (gp[0 := gsym (ps ! 0 * ?r)])"
    then have k: "k < length gp1" using L by simp
    consider "k = 0" | "0 < k" "k < ?n" | "k = ?n" | "?n < k" by linarith
    then show "gp[0 := gsym (ps ! 0 * ?r)] ! k = (map gsym q @ tl rest) ! k"
    proof cases
      case 1 then show ?thesis using L L0 ne by (simp add: q_def nth_append nth_pmul)
    next
      case 2 then show ?thesis using inv len k by (simp add: nth_append q_def)
    next
      case 3
      have "gp ! k = 1" using inv len k 3 by (simp add: gp1_def nth_append)
      moreover have "q ! k = 1" using 3 ne last by (simp add: q_def nth_pmul last_conv_nth)
      ultimately show ?thesis using 3 ne by (simp add: nth_append q_def)
    next
      case 4
      then have "gp ! k = gp1 ! k" using inv len k by simp
      then show ?thesis using 4 ne by (auto simp: gp1_def nth_append q_def nth_Cons')
    qed
  qed
  then show ?thesis
    using w2 g0 const root L L0 gidx_range[of "ps ! 0"] by (simp add: tab_simps awr_in q_def)
qed

text \<open>The final conversion to index form.\<close>

lemma index_form_loop:
  assumes "length ps = nat n" and "0 \<le> n"
  shows "cfor 0 n (\<lambda>i gp. do { c \<leftarrow> ard gp i; ix \<leftarrow> ard (index_of rs) (uint c); awr gp i ix })
      (map gsym ps) = Some (map gidx ps)"
proof -
  let ?I = "\<lambda>i gp. gp = map gidx (take (nat i) ps) @ map gsym (drop (nat i) ps)"
  have "\<exists>t. cfor 0 n (\<lambda>i gp. do { c \<leftarrow> ard gp i; ix \<leftarrow> ard (index_of rs) (uint c); awr gp i ix })
      (map gsym ps) = Some t \<and> ?I n t"
  proof (rule cfor_total)
    fix k gp assume k: "0 \<le> k" "k < n" and inv: "?I k gp"
    have nk: "nat k < length ps" using k assms by linarith
    then have split: "drop (nat k) ps = ps ! nat k # drop (Suc (nat k)) ps"
      by (simp add: Cons_nth_drop_Suc)
    have "gp = map gidx (take (nat k) ps) @ gsym (ps ! nat k) # map gsym (drop (Suc (nat k)) ps)"
      using inv split by simp
    then have "ard gp k = Some (gsym (ps ! nat k))"
      "awr gp k v = Some (map gidx (take (nat k) ps) @ v # map gsym (drop (Suc (nat k)) ps))" for v
      using k nk by (auto simp: ard_def awr_def nth_append list_update_append)
    then show "\<exists>t'. (do { c \<leftarrow> ard gp k; ix \<leftarrow> ard (index_of rs) (uint c); awr gp k ix }) = Some t'
        \<and> ?I (k + 1) t'"
      using k nk index_table[of "ps ! nat k"]
      by (simp add: nat_add_distrib take_Suc_conv_app_nth)
  qed (use assms in auto)
  then show ?thesis using assms by simp
qed

lemma genpoly_build_gpoly:
  assumes "length gp = Suc n" and "nroots rs = int n" and "0 \<le> fcr rs" and "0 \<le> prim rs"
  shows "genpoly_build rs gp = Some (map gidx (gpoly (fcr rs) (prim rs) n))"
proof -
  let ?g = "gpoly (fcr rs) (prim rs)"
  let ?body = "\<lambda>i (gp, root). do {
       gp \<leftarrow> genpoly_factor rs i root gp; Some (gp, root + prim rs) }"
  let ?I = "\<lambda>i t. \<exists>rest. length rest = n - nat i \<and>
      t = (map gsym (?g (nat i)) @ rest, (fcr rs + i) * prim rs)"
  have "\<exists>t. cfor 0 (int n) ?body (gp[0 := 1], fcr rs * prim rs) = Some t \<and> ?I (int n) t"
  proof (rule cfor_total)
    show "?I 0 (gp[0 := 1], fcr rs * prim rs)"
      using assms(1) by (cases gp) auto
    fix k t assume k: "0 \<le> k" "k < int n" and "?I k t"
    then obtain rest where rest: "length rest = n - nat k"
      and t: "t = (map gsym (?g (nat k)) @ rest, (fcr rs + k) * prim rs)" by blast
    have "genpoly_factor rs k ((fcr rs + k) * prim rs) (map gsym (?g (nat k)) @ rest)
        = Some (map gsym (pmul 0 (?g (nat k)) (gexp ((fcr rs + k) * prim rs))) @ tl rest)"
      using k rest assms(3,4) by (intro genpoly_factor_pmul) (auto simp: gpoly_const_nonzero)
    then show "\<exists>t'. ?body k t = Some t' \<and> ?I (k + 1) t'"
      using k rest by (auto simp: t nat_add_distrib algebra_simps intro!: exI[of _ "tl rest"])
  qed simp
  then show ?thesis
    using index_form_loop[of "?g n" "int n + 1"] assms(1,2)
    by (auto simp: genpoly_build_def awr_def nat_add_distrib)
qed

end

section \<open>The code\<close>

text \<open>\<open>rs_code\<close> adds the generator polynomial in index form. Its coefficients must not be zero: the
  encoder does not test for the index \<open>nn\<close> before it adds.\<close>

locale rs_code = rs_tables +
  assumes nroots_pos: "0 < nroots rs" and nroots_le: "nroots rs \<le> 255"
    and fcr_nonneg: "0 \<le> fcr rs" and prim_nonneg: "0 \<le> prim rs"
    and genpoly_gpoly: "genpoly rs = map gidx (gpoly (fcr rs) (prim rs) (nat (nroots rs)))"
    and gpoly_nonzero: "\<And>c. c \<in> set (gpoly (fcr rs) (prim rs) (nat (nroots rs))) \<Longrightarrow> c \<noteq> 0"

text \<open>The structure for the drivers' parameters, for any number of users.\<close>

definition vlc_rs :: "int \<Rightarrow> rs_control" where
  "vlc_rs u = \<lparr>mm = 8, nn = 255, alpha_to = alpha_tab, index_of = index_tab,
     genpoly = map gidx (gpoly 0 1 16), nroots = 16, fcr = 0, prim = 1, iprim = 1,
     gfpoly = 0x11d, gffunc = None, users = u\<rparr>"

text \<open>The coefficients of the generator polynomial, computed on bytes.\<close>

fun pmul8 :: "u8 \<Rightarrow> u8 list \<Rightarrow> nat \<Rightarrow> u8 list" where
  "pmul8 l [] i = [l]"
| "pmul8 l (p # ps) i = (l XOR xt_iter i p) # pmul8 p ps i"

fun gpoly8 :: "nat \<Rightarrow> u8 list" where
  "gpoly8 0 = [1]"
| "gpoly8 (Suc i) = pmul8 0 (gpoly8 i) i"

lemma Gf_add: "Gf (a XOR b) = Gf a + Gf b"
  by (simp add: plus_gf256_def Gf_inverse)

lemma Gf_xt_iter: "Gf (xt_iter i p) = Gf p * gexp (int i)"
  by (simp add: gexp_int alpha_power Gf_mult gmul_galpha xt_iter)

lemma map_Gf_pmul8: "map Gf (pmul8 l ps i) = pmul (Gf l) (map Gf ps) (gexp (int i))"
  by (induction ps arbitrary: l) (auto simp: Gf_add Gf_xt_iter)

lemma map_Gf_gpoly8: "map Gf (gpoly8 i) = gpoly 0 1 i"
  by (induction i) (auto simp: map_Gf_pmul8 zero_gf256_def one_gf256_def)

lemma gpoly8_nonzero: "list_all (\<lambda>c. c \<noteq> 0) (gpoly8 16)"
  by code_simp

lemma gpoly_16_nonzero: "c \<in> set (gpoly 0 1 16) \<Longrightarrow> c \<noteq> 0"
  using gpoly8_nonzero
  by (auto simp: map_Gf_gpoly8[symmetric] list_all_iff zero_gf256_def Gf_inject)

lemma index_tab_gsym: "ard index_tab (uint (gsym a)) = Some (gidx a)"
proof -
  have "nat (uint (gsym a)) < 256" "nat (uint (gsym a)) = unat (byte_of a)"
    using gsym_range[of a] by (simp only: nat_less_iff) (simp_all add: uint_gsym)
  then show ?thesis
    using gsym_range[of a] by (auto simp: ard_def index_tab_def byte_of_inverse)
qed

lemma alpha_tab_gexp: "0 \<le> x \<Longrightarrow> x < 255 \<Longrightarrow> ard alpha_tab x = Some (gsym (gexp x))"
  by (simp add: ard_def alpha_tab_def nth_append gexp_def nat_less_iff)

interpretation vlc: rs_code "vlc_rs u" for u
  by unfold_locales
     (auto simp: vlc_rs_def index_tab_gsym alpha_tab_gexp dest: gpoly_16_nonzero)

section \<open>The structure the drivers build\<close>

definition kmalloc_sound :: "kallocator \<Rightarrow> bool" where
  "kmalloc_sound kmalloc \<longleftrightarrow>
     (\<forall>k n b. kmalloc k n = Some b \<longrightarrow> length b = nat n)"

lemma find_iprim_1: "find_iprim 1 n 1 = Some 1"
  by (simp add: find_iprim.simps cmod_def)

lemma rs_init_vlc:
  assumes "kmalloc_sound kmalloc"
    and "kmalloc 0 1 \<noteq> None" "kmalloc 1 256 \<noteq> None" "kmalloc 2 256 \<noteq> None" "kmalloc 3 17 \<noteq> None"
  shows "rs_init kmalloc fptr 8 0x11d None 0 1 16 = Some (Some (vlc_rs 0))"
proof -
  obtain c alpha idx gp where k: "kmalloc 0 1 = Some c" "kmalloc 1 256 = Some alpha"
    "kmalloc 2 256 = Some idx" "kmalloc 3 17 = Some gp" using assms(2-) by auto
  then have len: "length alpha = 256" "length idx = 256" "length gp = 17"
    using assms(1) unfolding kmalloc_sound_def by force+
  let ?rs = "(vlc_rs 0)\<lparr>genpoly := gp\<rparr>"
  have fill: "gf_fill 255 (gf_shift 8 0x11d) 1 (alpha[255 := 0]) (idx[0 := 255])
      = Some (1, alpha_tab, index_tab)"
    using len by (intro gf_fill_tables) auto
  have a0: "ard alpha_tab 0 = Some 1"
    using alpha_tab_gexp[of 0] by simp
  have "rs_tables ?rs"
    by unfold_locales (auto simp: vlc_rs_def index_tab_gsym alpha_tab_gexp)
  from rs_tables.genpoly_build_gpoly[OF this, of gp 16] len
  have gen: "genpoly_build ?rs gp = Some (map gidx (gpoly 0 1 16))"
    by (simp add: vlc_rs_def)
  have "(push_bit 8 1 :: int) - 1 = 255" "nat 255 = 255" by simp_all
  then show ?thesis
    using fill a0 gen len
    by (simp add: rs_init_def k k(2)[simplified] awr_def find_iprim_1 cdiv_def vlc_rs_def)
qed

section \<open>The shared control structure\<close>

lemma init_rs_first:
  assumes "kmalloc_sound kmalloc"
    and "kmalloc 0 1 \<noteq> None" "kmalloc 1 256 \<noteq> None" "kmalloc 2 256 \<noteq> None" "kmalloc 3 17 \<noteq> None"
  shows "init_rs kmalloc fptr [] 8 0x11d 0 1 16 = Some ([vlc_rs 1], Some (vlc_rs 1))"
  using rs_init_vlc[OF assms] by (simp add: init_rs_def init_rs_internal_def vlc_rs_def Let_def)

lemma init_rs_again:
  "init_rs kmalloc fptr (vlc_rs u # rest) 8 0x11d 0 1 16 = Some (vlc_rs (u + 1) # rest, Some (vlc_rs (u + 1)))"
  by (simp add: init_rs_def init_rs_internal_def vlc_rs_def Let_def)

lemma free_rs_vlc:
  "free_rs [vlc_rs u] 0 = Some (if u = 1 then [] else [vlc_rs (u - 1)])"
  by (simp add: free_rs_def vlc_rs_def Let_def)

end
