(* ===== verification/RS_Encode.thy ===== *)
theory RS_Encode
  imports RS_Tables
begin

text \<open>
  The systematic Reed-Solomon encoder of \<^verbatim>\<open>encode_rs.c\<close> over GF(256): Horner evaluation of a word
  of symbols, the feedback register as a function on field elements, the proof that message
  followed by parity vanishes at every root of the generator polynomial, and the refinement that
  \<open>encode_rs8\<close> (table look-ups, modular exponents, \<^verbatim>\<open>memmove\<close>) computes exactly that register.
\<close>

unbundle bit_operations_syntax

section \<open>Horner evaluation\<close>

definition hor :: "gf256 \<Rightarrow> gf256 list \<Rightarrow> gf256" where
  "hor b xs = foldl (\<lambda>a x. a * b + x) 0 xs"

lemma hor_Nil [simp]: "hor b [] = 0"
  by (simp add: hor_def)

lemma hor_snoc: "hor b (xs @ [x]) = hor b xs * b + x"
  by (simp add: hor_def)

lemma hor_append: "hor b (xs @ ys) = hor b xs * b ^ length ys + hor b ys"
  by (induction ys rule: rev_induct)
     (auto simp: hor_snoc algebra_simps simp flip: append_assoc)

lemma hor_sum: "hor b xs = (\<Sum>k<length xs. xs ! k * b ^ (length xs - 1 - k))"
proof (induction xs rule: rev_induct)
  case (snoc x xs)
  have "hor b xs * b = (\<Sum>k<length xs. xs ! k * b ^ (length xs - 1 - k)) * b"
    using snoc by simp
  also have "\<dots> = (\<Sum>k<length xs. (xs @ [x]) ! k * b ^ (length xs - k))"
    unfolding sum_distrib_right
    by (rule sum.cong) (auto simp: nth_append Suc_diff_Suc simp flip: power_Suc2)
  finally show ?case by (simp add: hor_snoc)
qed simp

section \<open>The feedback register\<close>

text \<open>One step of the encoder on field elements: \<open>g\<close> is the generator polynomial, \<open>ps\<close> the
  parity register, \<open>d\<close> the next message symbol.\<close>

definition enc_step :: "gf256 list \<Rightarrow> gf256 list \<Rightarrow> gf256 \<Rightarrow> gf256 list" where
  "enc_step g ps d =
     map (\<lambda>k. (if Suc k < length ps then ps ! Suc k else 0) + (d + ps ! 0) * g ! (length ps - 1 - k))
       [0..<length ps]"

lemma length_enc_step [simp]: "length (enc_step g ps d) = length ps"
  by (simp add: enc_step_def)

lemma length_foldl_enc [simp]: "length (foldl (enc_step g) ps ds) = length ps"
  by (induction ds arbitrary: ps) auto

lemma hor_enc_step:
  assumes "length g = Suc (length ps)" and "last g = 1" and "peval g b = 0" and "ps \<noteq> []"
  shows "hor b (enc_step g ps d) = hor b ps * b + d * b ^ length ps"
proof -
  let ?n = "length ps"
  define fb where "fb = d + ps ! 0"
  obtain m where m: "?n = Suc m" using assms(4) by (cases ps) auto
  have gn: "g ! ?n = 1" using assms(1,2) by (metis diff_Suc_1 last_conv_nth length_0_conv nat.distinct(1))
  have g: "(\<Sum>k<?n. g ! (?n - 1 - k) * b ^ (?n - 1 - k)) = b ^ ?n"
  proof -
    have "(\<Sum>k<?n. g ! (?n - 1 - k) * b ^ (?n - 1 - k)) = (\<Sum>j<?n. g ! j * b ^ j)"
      using sum.nat_diff_reindex[of "\<lambda>j. g ! j * b ^ j" ?n] by (simp add: algebra_simps)
    also have "\<dots> + b ^ ?n = peval g b" using assms(1) gn by (simp add: peval_sum)
    ultimately show ?thesis using assms(3) by (metis add_eq_0_iff gf_minus(2))
  qed
  have "(\<Sum>k<?n. (if Suc k < ?n then ps ! Suc k else 0) * b ^ (?n - 1 - k))
      = (\<Sum>k<m. ps ! Suc k * b ^ (m - k))"
    unfolding m by (simp add: sum.lessThan_Suc)
  also have "\<dots> = (\<Sum>k<m. ps ! Suc k * b ^ (m - 1 - k)) * b"
    unfolding sum_distrib_right
    by (rule sum.cong) (auto simp: Suc_diff_Suc simp flip: power_Suc2)
  also have "\<dots> = hor b ps * b + ps ! 0 * b ^ ?n"
    using hor_sum[of b ps] m by (simp add: sum.lessThan_Suc_shift algebra_simps del: sum.lessThan_Suc)
  finally have s: "(\<Sum>k<?n. (if Suc k < ?n then ps ! Suc k else 0) * b ^ (?n - 1 - k))
      = hor b ps * b + ps ! 0 * b ^ ?n" .
  have "hor b (enc_step g ps d)
      = (\<Sum>k<?n. (if Suc k < ?n then ps ! Suc k else 0) * b ^ (?n - 1 - k))
        + fb * (\<Sum>k<?n. g ! (?n - 1 - k) * b ^ (?n - 1 - k))"
    unfolding hor_sum length_enc_step sum_distrib_left sum.distrib[symmetric]
    by (rule sum.cong) (auto simp: enc_step_def fb_def algebra_simps)
  also have "\<dots> = hor b ps * b + d * b ^ ?n"
    unfolding s g fb_def by (simp add: distrib_right add.assoc add.left_commute)
  finally show ?thesis .
qed

lemma hor_encode:
  assumes "length g = Suc n" and "last g = 1" and "peval g b = 0" and "0 < n"
  shows "hor b (foldl (enc_step g) (replicate n 0) ds) = hor b ds * b ^ n"
proof (induction ds rule: rev_induct)
  case Nil
  show ?case by (simp add: hor_sum)
next
  case (snoc d ds)
  let ?ps = "foldl (enc_step g) (replicate n 0) ds"
  have "hor b (enc_step g ?ps d) = hor b ?ps * b + d * b ^ n"
    using hor_enc_step[of g ?ps b d] assms length_foldl_enc[of g "replicate n 0" ds]
    by (simp del: length_foldl_enc length_0_conv add: length_0_conv[symmetric])
  then show ?case by (simp add: snoc hor_snoc algebra_simps)
qed

lemma encode_is_codeword:
  assumes "length g = Suc n" and "last g = 1" and "peval g b = 0" and "0 < n"
  shows "hor b (ds @ foldl (enc_step g) (replicate n 0) ds) = 0"
  using hor_encode[OF assms] by (simp add: hor_append)

section \<open>The encoder computes it\<close>

text \<open>A data byte as the encoder and the decoder see it, inverted by the mask.\<close>

definition dsym :: "u16 \<Rightarrow> u8 \<Rightarrow> gf256" where
  "dsym invmsk d = Gf (d XOR ucast invmsk)"

lemma gsym_dsym: "(ucast d XOR invmsk) AND 255 = gsym (dsym invmsk d)"
proof -
  have m: "(255 :: u16) = mask 8" by (simp add: mask_eq_exp_minus_1)
  have "(ucast d XOR invmsk) AND mask 8 = (ucast (d XOR ucast invmsk :: u8) :: u16)"
    by (rule bit_eqI) (auto simp: bit_simps simp del: mask_numeral dest: bit_imp_le_length)
  then show ?thesis unfolding m gsym_def dsym_def Gf_inverse[OF UNIV_I] .
qed

definition rs_gp :: "rs_control \<Rightarrow> gf256 list" where
  "rs_gp rs = gpoly (fcr rs) (prim rs) (nat (nroots rs))"

lemma length_rs_gp [simp]: "length (rs_gp rs) = Suc (nat (nroots rs))"
  by (simp add: rs_gp_def)

lemma last_rs_gp [simp]: "last (rs_gp rs) = 1"
  by (simp add: rs_gp_def)

context rs_code
begin

lemma gp_nonzero: "k \<le> nat (nroots rs) \<Longrightarrow> rs_gp rs ! k \<noteq> 0"
  using gpoly_nonzero[of "rs_gp rs ! k"] by (simp add: rs_gp_def)

lemma ard_genpoly:
  "0 \<le> k \<Longrightarrow> k \<le> nroots rs \<Longrightarrow> ard (genpoly rs) k = Some (gidx (rs_gp rs ! nat k))"
  by (auto simp: ard_def genpoly_gpoly rs_gp_def)

lemma feedback_loop:
  assumes len: "int (length ps) = nroots rs" and f: "f \<noteq> 0"
  shows "cfor 1 (nroots rs) (\<lambda>j par. do {
       g \<leftarrow> ard (genpoly rs) (nroots rs - j);
       m \<leftarrow> rs_modnn rs (uint (gidx f) + uint g);
       a \<leftarrow> ard (alpha_to rs) m;
       p \<leftarrow> ard par j;
       awr par j (p XOR a) }) (map gsym ps)
    = Some (map gsym (ps ! 0 # map (\<lambda>j. ps ! j + f * rs_gp rs ! (length ps - j)) [1..<length ps]))"
proof -
  have nr: "nat (nroots rs) = length ps" "0 < length ps" using len nroots_pos by linarith+
  have "cfor 1 (nroots rs) (\<lambda>j par. do {
       g \<leftarrow> ard (genpoly rs) (nroots rs - j);
       m \<leftarrow> rs_modnn rs (uint (gidx f) + uint g);
       a \<leftarrow> ard (alpha_to rs) m;
       p \<leftarrow> ard par j;
       awr par j (p XOR a) }) (map gsym ps)
    = Some (take (nat 1) (map gsym ps)
        @ map (\<lambda>j. gsym (ps ! j + f * rs_gp rs ! (length ps - j))) [nat 1..<nat (nroots rs)])"
  proof (rule cfor_pointwise_from)
    fix j ys assume j: "1 \<le> j" "j < nroots rs" and ys: "length ys = length (map gsym ps)"
      "ys ! nat j = map gsym ps ! nat j"
    have k: "nat (nroots rs - j) = length ps - nat j" using len j by linarith
    have nz: "rs_gp rs ! (length ps - nat j) \<noteq> 0" using nr by (intro gp_nonzero) linarith
    have rd: "ard ys j = Some (gsym (ps ! nat j))"
      using j ys nr by (simp add: ard_in len[symmetric] nat_less_iff)
    have "0 \<le> uint (gidx f) + uint (gidx (rs_gp rs ! (length ps - nat j)))"
      using gidx_range by (simp add: add_nonneg_nonneg)
    then show "(do {
       g \<leftarrow> ard (genpoly rs) (nroots rs - j);
       m \<leftarrow> rs_modnn rs (uint (gidx f) + uint g);
       a \<leftarrow> ard (alpha_to rs) m;
       p \<leftarrow> ard ys j;
       awr ys j (p XOR a) }) = awr ys j (gsym (ps ! nat j + f * rs_gp rs ! (length ps - nat j)))"
      using j f nz by (simp add: ard_genpoly k rd tab_simps)
  qed (use nr nroots_pos in auto)
  moreover have "take 1 ps = [ps ! 0]" using nr by (cases ps) auto
  ultimately show ?thesis using nr by (simp add: take_map)
qed

lemma enc_step_split:
  assumes "ps \<noteq> []"
  shows "enc_step g ps d
    = map (\<lambda>j. ps ! j + (d + ps ! 0) * g ! (length ps - j)) [1..<length ps] @ [(d + ps ! 0) * g ! 0]"
proof -
  obtain n where n: "length ps = Suc n" using assms by (cases ps) auto
  have "map (\<lambda>j. ps ! j + (d + ps ! 0) * g ! (length ps - j)) [1..<Suc n]
      = map (\<lambda>k. ps ! Suc k + (d + ps ! 0) * g ! (n - k)) [0..<n]"
    by (simp add: map_Suc_upt[symmetric] n del: upt_Suc)
  then show ?thesis by (simp add: enc_step_def n)
qed

lemma encode_body:
  assumes len: "int (length ps) = nroots rs" and d: "ard data i = Some d"
  shows "(do {
         d \<leftarrow> ard data i;
         p0 \<leftarrow> ard (map gsym ps) 0;
         fb \<leftarrow> ard (index_of rs) (uint ((((ucast d) XOR invmsk) AND word_of_int (nn rs)) XOR p0));
         par \<leftarrow> (if uint fb \<noteq> nn rs then
                  cfor 1 (nroots rs) (\<lambda>j par. do {
                    g \<leftarrow> ard (genpoly rs) (nroots rs - j);
                    m \<leftarrow> rs_modnn rs (uint fb + uint g);
                    a \<leftarrow> ard (alpha_to rs) m;
                    p \<leftarrow> ard par j;
                    awr par j (p XOR a) }) (map gsym ps)
                else Some (map gsym ps));
         par \<leftarrow> cmemmove par 0 1 (nroots rs - 1);
         if uint fb \<noteq> nn rs then do {
           g \<leftarrow> ard (genpoly rs) 0;
           m \<leftarrow> rs_modnn rs (uint fb + uint g);
           a \<leftarrow> ard (alpha_to rs) m;
           awr par (nroots rs - 1) a }
         else awr par (nroots rs - 1) 0 })
    = Some (map gsym (enc_step (rs_gp rs) ps (dsym invmsk d)))"
proof -
  define f where "f = dsym invmsk d + ps ! 0"
  have ne: "ps \<noteq> []" using len nroots_pos by auto
  have msk: "(word_of_int 255 :: u16) = 255" by simp
  have p0: "ard (map gsym ps) 0 = Some (gsym (ps ! 0))" using ne by (simp add: ard_def)
  have fb: "ard (index_of rs) (uint ((ucast d XOR invmsk) AND 255 XOR gsym (ps ! 0))) = Some (gidx f)"
    by (simp add: gsym_dsym gsym_xor index_table f_def)
  show ?thesis
  proof (cases "f = 0")
    case True
    have "cmemmove (map gsym ps) 0 1 (nroots rs - 1) \<bind> (\<lambda>p. awr p (nroots rs - 1) 0)
        = Some (tl (map gsym ps) @ [0])"
      using shift_in[of "map gsym ps" 0] ne len by simp
    moreover have "map gsym (enc_step (rs_gp rs) ps (dsym invmsk d)) = tl (map gsym ps) @ [0]"
      using True ne f_def by (cases ps) (auto simp: enc_step_split map_Suc_upt[symmetric] o_def
          map_nth simp del: upt_Suc)
    ultimately show ?thesis using True by (simp add: d p0 fb nn255)
  next
    case False
    let ?xs = "ps ! 0 # map (\<lambda>j. ps ! j + f * rs_gp rs ! (length ps - j)) [1..<length ps]"
    have g0: "rs_gp rs ! 0 \<noteq> 0" by (rule gp_nonzero) simp
    have "0 \<le> uint (gidx f) + uint (gidx (rs_gp rs ! 0))"
      using gidx_range by (simp add: add_nonneg_nonneg)
    then have last: "(do { g \<leftarrow> ard (genpoly rs) 0; m \<leftarrow> rs_modnn rs (uint (gidx f) + uint g);
         a \<leftarrow> ard (alpha_to rs) m; awr par (nroots rs - 1) a })
       = awr par (nroots rs - 1) (gsym (f * rs_gp rs ! 0))" for par
      using g0 False nroots_pos by (simp add: ard_genpoly tab_simps)
    have "cmemmove (map gsym ?xs) 0 1 (nroots rs - 1)
        \<bind> (\<lambda>p. awr p (nroots rs - 1) (gsym (f * rs_gp rs ! 0)))
        = Some (tl (map gsym ?xs) @ [gsym (f * rs_gp rs ! 0)])"
      using shift_in[of "map gsym ?xs"] ne len[symmetric] by (cases ps) (simp_all del: upt_Suc)
    moreover have "map gsym (enc_step (rs_gp rs) ps (dsym invmsk d))
        = tl (map gsym ?xs) @ [gsym (f * rs_gp rs ! 0)]"
      using ne by (simp add: enc_step_split f_def)
    ultimately show ?thesis
      using False by (simp only: d p0 msk fb nn255 gidx_nn feedback_loop[OF len False] last
          Option.bind.simps if_True if_False not_False_eq_True)
  qed
qed

theorem encode_foldl:
  assumes "int (length ps) = nroots rs" and "0 \<le> len" and "len \<le> int (length data)"
    and "len + nroots rs \<le> 255"
  shows "encode_rs8 rs data len (map gsym ps) invmsk
    = Some (0, map gsym (foldl (enc_step (rs_gp rs)) ps (map (dsym invmsk) (take (nat len) data))))"
proof -
  let ?E = "\<lambda>k. foldl (enc_step (rs_gp rs)) ps (map (dsym invmsk) (take (nat k) data))"
  let ?body = "\<lambda>i par. do {
         d \<leftarrow> ard data i;
         p0 \<leftarrow> ard par 0;
         fb \<leftarrow> ard (index_of rs) (uint ((((ucast d) XOR invmsk) AND word_of_int (nn rs)) XOR p0));
         par \<leftarrow> (if uint fb \<noteq> nn rs then
                  cfor 1 (nroots rs) (\<lambda>j par. do {
                    g \<leftarrow> ard (genpoly rs) (nroots rs - j);
                    m \<leftarrow> rs_modnn rs (uint fb + uint g);
                    a \<leftarrow> ard (alpha_to rs) m;
                    p \<leftarrow> ard par j;
                    awr par j (p XOR a) }) par
                else Some par);
         par \<leftarrow> cmemmove par 0 1 (nroots rs - 1);
         if uint fb \<noteq> nn rs then do {
           g \<leftarrow> ard (genpoly rs) 0;
           m \<leftarrow> rs_modnn rs (uint fb + uint g);
           a \<leftarrow> ard (alpha_to rs) m;
           awr par (nroots rs - 1) a }
         else awr par (nroots rs - 1) 0 }"
  have "\<exists>t. cfor 0 len ?body (map gsym ps) = Some t \<and> t = map gsym (?E len)"
  proof (rule cfor_total[where I = "\<lambda>k t. t = map gsym (?E k)"])
    fix k t assume k: "0 \<le> k" "k < len" and t: "t = map gsym (?E k)"
    have nk: "nat k < length data" using k assms(3) by linarith
    then have d: "ard data k = Some (data ! nat k)" using k by (simp add: ard_def)
    have "?body k t = Some (map gsym (enc_step (rs_gp rs) (?E k) (dsym invmsk (data ! nat k))))"
      unfolding t using d assms(1) by (intro encode_body) simp_all
    moreover have "enc_step (rs_gp rs) (?E k) (dsym invmsk (data ! nat k)) = ?E (k + 1)"
      using nk k(1) by (simp add: nat_add_distrib take_Suc_conv_app_nth)
    ultimately show "\<exists>t'. ?body k t = Some t' \<and> t' = map gsym (?E (k + 1))" by (simp only:) simp
  qed (use assms(2) in auto)
  then have loop: "cfor 0 len ?body (map gsym ps) = Some (map gsym (?E len))" by simp
  show ?thesis
    unfolding encode_rs8_def Let_def loop using assms(2,4) nroots_pos by (simp add: nn255)
qed

end

end
