(* ===== verification/RS_Syndrome.thy ===== *)
theory RS_Syndrome
  imports RS_Encode
begin

text \<open>
  The first half of \<^verbatim>\<open>decode_rs.c\<close>: the syndrome loops evaluate the received word at the roots of
  the generator polynomial, the index-form loop tells whether they all vanish, and on a codeword,
  in particular on everything the encoder emits, the decoder returns the data unchanged with a
  count of zero.
\<close>

unbundle bit_operations_syntax

text \<open>The root at which syndrome \<open>i\<close> is taken, and the syndromes of a received word.\<close>

definition rs_root :: "rs_control \<Rightarrow> nat \<Rightarrow> gf256" where
  "rs_root rs i = gexp ((fcr rs + int i) * prim rs)"

definition syndromes :: "rs_control \<Rightarrow> gf256 list \<Rightarrow> gf256 list" where
  "syndromes rs w = map (\<lambda>i. hor (rs_root rs i) w) [0..<nat (nroots rs)]"

lemma length_syndromes [simp]: "length (syndromes rs w) = nat (nroots rs)"
  by (simp add: syndromes_def)

text \<open>A parity symbol as the decoder reads it.\<close>

lemma gsym_par: "p AND 255 = gsym (Gf (ucast (p :: u16)))"
proof -
  have m: "(255 :: u16) = mask 8" by (simp add: mask_eq_exp_minus_1)
  have "p AND mask 8 = (ucast (ucast p :: u8) :: u16)"
    by (rule bit_eqI) (auto simp: bit_simps simp del: mask_numeral dest: bit_imp_le_length)
  then show ?thesis unfolding m gsym_def Gf_inverse[OF UNIV_I] .
qed

lemma psym_gsym [simp]: "Gf (ucast (gsym a)) = a"
  using gfe_gsym[of a] by (simp add: gfe_def)

context rs_code
begin

lemma syn_step_hor:
  assumes "0 \<le> i"
  shows "syn_step rs i (gsym d) (gsym x) = Some (gsym (x * rs_root rs (nat i) + d))"
proof -
  have e: "0 \<le> (fcr rs + i) * prim rs" using assms fcr_nonneg prim_nonneg by simp
  have "0 \<le> uint (gidx x) + (fcr rs + i) * prim rs" using e gidx_range(1)[of x] by linarith
  then show ?thesis
    using assms by (simp add: syn_step_def tab_simps rs_root_def add.commute)
qed

lemma syn_round:
  assumes d: "d = Some dv" and f: "f dv = gsym s"
  shows "cfor 0 (nroots rs) (\<lambda>i syn. do {
         dv \<leftarrow> d;
         x \<leftarrow> ard syn i;
         v \<leftarrow> syn_step rs i (f dv) x;
         awr syn i v }) (map gsym (syndromes rs w))
    = Some (map gsym (syndromes rs (w @ [s])))"
proof -
  have "cfor 0 (nroots rs) (\<lambda>i syn. do {
         dv \<leftarrow> d;
         x \<leftarrow> ard syn i;
         v \<leftarrow> syn_step rs i (f dv) x;
         awr syn i v }) (map gsym (syndromes rs w))
    = Some (map (\<lambda>i. gsym (syndromes rs w ! i * rs_root rs i + s)) [0..<nat (nroots rs)])"
  proof (rule cfor_pointwise)
    fix i ys assume i: "0 \<le> i" "i < nroots rs" and ys: "length ys = length (map gsym (syndromes rs w))"
      "ys ! nat i = map gsym (syndromes rs w) ! nat i"
    then have "ard ys i = Some (gsym (syndromes rs w ! nat i))" by (simp add: ard_in nat_less_iff)
    then show "(do { dv \<leftarrow> d; x \<leftarrow> ard ys i; v \<leftarrow> syn_step rs i (f dv) x; awr ys i v })
       = awr ys i (gsym (syndromes rs w ! nat i * rs_root rs (nat i) + s))"
      using i d f by (simp add: syn_step_hor)
  qed (use nroots_pos in auto)
  then show ?thesis by (simp add: syndromes_def hor_snoc)
qed

lemma syn_rounds:
  assumes "0 \<le> m" and "m \<le> n" and "n \<le> int (length ys)"
    and "\<And>y. f y = gsym (g y)"
  shows "cfor m n (\<lambda>j. cfor 0 (nroots rs) (\<lambda>i syn. do {
         y \<leftarrow> ard ys j;
         x \<leftarrow> ard syn i;
         v \<leftarrow> syn_step rs i (f y) x;
         awr syn i v })) (map gsym (syndromes rs w))
    = Some (map gsym (syndromes rs (w @ map g (take (nat n - nat m) (drop (nat m) ys)))))"
proof -
  let ?f = "\<lambda>j. cfor 0 (nroots rs) (\<lambda>i syn. do {
         y \<leftarrow> ard ys j;
         x \<leftarrow> ard syn i;
         v \<leftarrow> syn_step rs i (f y) x;
         awr syn i v })"
  let ?w = "\<lambda>k. w @ map g (take (nat k - nat m) (drop (nat m) ys))"
  have "\<exists>t. cfor m n ?f (map gsym (syndromes rs w)) = Some t \<and> t = map gsym (syndromes rs (?w n))"
  proof (rule cfor_total[where I = "\<lambda>k t. t = map gsym (syndromes rs (?w k))"])
    fix k t assume k: "m \<le> k" "k < n" and t: "t = map gsym (syndromes rs (?w k))"
    have nk: "nat k < length ys" "nat m \<le> nat k" "nat (k + 1) = Suc (nat k)"
      using k assms(1,3) by linarith+
    have "ard ys k = Some (ys ! nat k)" using k nk assms(1) by (simp add: ard_def)
    from syn_round[where w = "?w k" and f = f, OF this assms(4)]
    have "?f k t = Some (map gsym (syndromes rs (?w k @ [g (ys ! nat k)])))" unfolding t .
    moreover have "?w k @ [g (ys ! nat k)] = ?w (k + 1)"
      using nk diff_less_mono[OF nk(1,2)] by (simp add: Suc_diff_le take_Suc_conv_app_nth)
    ultimately show "\<exists>t'. ?f k t = Some t' \<and> t' = map gsym (syndromes rs (?w (k + 1)))"
      by (simp only:) simp
  qed (use assms(2) in auto)
  then show ?thesis by simp
qed

theorem form_syndromes_eval:
  assumes "1 \<le> len" and "len \<le> int (length data)" and "nroots rs \<le> int (length par)"
  shows "form_syndromes uninit rs data par len invmsk
    = Some (map gsym (syndromes rs (map (dsym invmsk) (take (nat len) data)
        @ map (\<lambda>p. Gf (ucast p)) (take (nat (nroots rs)) par))))"
proof -
  have nz: "data \<noteq> []" using assms(1,2) by auto
  then obtain d0 ds where data: "data = d0 # ds" by (cases data) auto
  have msk: "(word_of_int 255 :: u16) = 255" by simp
  have first: "cfor 0 (nroots rs) (\<lambda>i syn. do {
         d \<leftarrow> ard data 0;
         awr syn i ((ucast d XOR invmsk) AND 255) }) (replicate (nat (nroots rs)) uninit)
     = Some (map gsym (syndromes rs [dsym invmsk d0]))"
  proof -
    have "cfor 0 (nroots rs) (\<lambda>i syn. do {
         d \<leftarrow> ard data 0;
         awr syn i ((ucast d XOR invmsk) AND 255) }) (replicate (nat (nroots rs)) uninit)
     = Some (map (\<lambda>i. gsym (dsym invmsk d0)) [0..<nat (nroots rs)])"
      by (rule cfor_pointwise) (use nroots_pos in \<open>auto simp: data gsym_dsym\<close>)
    then show ?thesis by (simp add: syndromes_def hor_def)
  qed
  have "take (nat len) data = d0 # take (nat len - nat 1) (drop (nat 1) data)"
    using assms(1) by (cases "nat len") (auto simp: data)
  then have w: "[dsym invmsk d0] @ map (dsym invmsk) (take (nat len - nat 1) (drop (nat 1) data))
      = map (dsym invmsk) (take (nat len) data)" by simp
  note r1 = syn_rounds[of 1 len data "\<lambda>d. (ucast d XOR invmsk) AND 255" "dsym invmsk",
      OF zero_le_one assms(1,2) gsym_dsym, where w = "[dsym invmsk d0]", unfolded w]
  note r2 = syn_rounds[of 0 "nroots rs" par "\<lambda>p. p AND 255" "\<lambda>p. Gf (ucast p)",
      OF order_refl less_imp_le[OF nroots_pos] assms(3) gsym_par]
  show ?thesis
    unfolding form_syndromes_def Let_def nn255 msk first Option.bind.simps r1 r2 by simp
qed

text \<open>The conversion to index form also tells whether every syndrome is zero.\<close>

lemma index_syndromes_loop:
  assumes "length ss = nat (nroots rs)"
  shows "\<exists>e. index_syndromes rs (map gsym ss) = Some (e, map gidx ss)
    \<and> (e = 0 \<longleftrightarrow> (\<forall>x\<in>set ss. x = 0))"
proof -
  let ?n = "nroots rs"
  let ?f = "\<lambda>i (syn_error, s). do {
       x \<leftarrow> ard s i;
       ix \<leftarrow> ard (index_of rs) (uint x);
       s \<leftarrow> awr s i ix;
       Some (syn_error OR x, s) }"
  let ?I = "\<lambda>i (e :: u16, s). s = map gidx (take (nat i) ss) @ map gsym (drop (nat i) ss)
      \<and> (e = 0 \<longleftrightarrow> (\<forall>x\<in>set (take (nat i) ss). x = 0))"
  have "\<exists>t. cfor 0 ?n ?f (0, map gsym ss) = Some t \<and> ?I ?n t"
  proof (rule cfor_total)
    fix k t assume k: "0 \<le> k" "k < ?n" and inv: "?I k t"
    obtain e s where t: "t = (e, s)" by (cases t)
    have nk: "nat k < length ss" using k assms by linarith
    then have "drop (nat k) ss = ss ! nat k # drop (Suc (nat k)) ss"
      by (simp add: Cons_nth_drop_Suc)
    then have s: "s = map gidx (take (nat k) ss) @ gsym (ss ! nat k) # map gsym (drop (Suc (nat k)) ss)"
      using inv t by simp
    then have "ard s k = Some (gsym (ss ! nat k))"
      "awr s k v = Some (map gidx (take (nat k) ss) @ v # map gsym (drop (Suc (nat k)) ss))" for v
      using k nk by (auto simp: ard_def awr_def nth_append list_update_append)
    then have "?f k t = Some (e OR gsym (ss ! nat k),
        map gidx (take (nat k) ss) @ gidx (ss ! nat k) # map gsym (drop (Suc (nat k)) ss))"
      by (simp add: t index_table)
    then show "\<exists>t'. ?f k t = Some t' \<and> ?I (k + 1) t'"
      using inv t k nk by (auto simp: nat_add_distrib take_Suc_conv_app_nth or_eq_0_iff)
  qed (use nroots_pos in auto)
  then show ?thesis using assms by (auto simp: index_syndromes_def)
qed

text \<open>A received word is a codeword when all its syndromes vanish.\<close>

theorem decode_codeword:
  assumes len: "1 \<le> len" "len + nroots rs \<le> 255" "len \<le> int (length data)"
      "nroots rs \<le> int (length par)"
    and zero: "\<forall>x\<in>set (syndromes rs (map (dsym invmsk) (take (nat len) data)
        @ map (\<lambda>p. Gf (ucast p)) (take (nat (nroots rs)) par))). x = 0"
  shows "decode_rs8 uninit rs (Some data) par len None no_eras eras_pos invmsk corr
    = Some (0, Some data, eras_pos, corr)"
proof -
  obtain s where "index_syndromes rs (map gsym (syndromes rs (map (dsym invmsk) (take (nat len) data)
        @ map (\<lambda>p. Gf (ucast p)) (take (nat (nroots rs)) par)))) = Some (0, s)"
    using index_syndromes_loop[OF length_syndromes] zero by blast
  then show ?thesis
    using len nroots_pos
    by (simp add: decode_rs8_def nn255 form_syndromes_eval cfor_end split: option.split)
qed

lemma syndromes_encode:
  "\<forall>x\<in>set (syndromes rs (ds @ foldl (enc_step (rs_gp rs)) (replicate (nat (nroots rs)) 0) ds)). x = 0"
proof -
  have "peval (rs_gp rs) (rs_root rs i) = 0" if "i < nat (nroots rs)" for i
    using that gpoly_root by (simp add: rs_gp_def rs_root_def)
  then show ?thesis
    using nroots_pos by (auto simp: syndromes_def intro!: encode_is_codeword)
qed

theorem encode_decode:
  assumes "1 \<le> len" "len + nroots rs \<le> 255" "len \<le> int (length data)"
  shows "\<exists>par. encode_rs8 rs data len (replicate (nat (nroots rs)) 0) invmsk = Some (0, par)
    \<and> length par = nat (nroots rs)
    \<and> decode_rs8 uninit rs (Some data) par len None no_eras eras_pos invmsk corr
        = Some (0, Some data, eras_pos, corr)"
proof -
  let ?ps = "foldl (enc_step (rs_gp rs)) (replicate (nat (nroots rs)) 0)
    (map (dsym invmsk) (take (nat len) data))"
  have "encode_rs8 rs data len (map gsym (replicate (nat (nroots rs)) 0)) invmsk = Some (0, map gsym ?ps)"
    using assms nroots_pos by (intro encode_foldl) auto
  moreover have "decode_rs8 uninit rs (Some data) (map gsym ?ps) len None no_eras eras_pos invmsk corr
        = Some (0, Some data, eras_pos, corr)"
    using assms nroots_pos syndromes_encode by (intro decode_codeword) (simp_all add: o_def)
  ultimately show ?thesis by simp
qed

end

end
