(* ===== verification/RS_Locator.thy ===== *)
theory RS_Locator
  imports RS_Syndrome
begin

text \<open>
  The algebra behind the second half of \<^verbatim>\<open>decode_rs.c\<close>, over coefficient functions with values in
  GF(256). The locale \<open>error_pattern\<close> is what a corrupted word hands to the decoder: finitely many
  error locations with non-zero values, seen only through their power sums (the syndromes). Its
  lemmas say when a polynomial that annihilates the syndromes is the error locator, which lengths a
  shift register for the syndromes can have, and how the error values come out of the evaluator
  polynomial (Forney's formula). They are proved without reference to the program.
\<close>

section \<open>Polynomials as coefficient functions\<close>

definition pv :: "(nat \<Rightarrow> gf256) \<Rightarrow> nat \<Rightarrow> gf256 \<Rightarrow> gf256" where
  "pv c n x = (\<Sum>i\<le>n. c i * x ^ i)"

definition cv :: "(nat \<Rightarrow> gf256) \<Rightarrow> (nat \<Rightarrow> gf256) \<Rightarrow> nat \<Rightarrow> gf256" where
  "cv c s k = (\<Sum>i\<le>k. c i * s (k - i))"

lemma pv_Suc [simp]: "pv c (Suc n) x = pv c n x + c (Suc n) * x ^ Suc n"
  by (simp add: pv_def)

lemma pv_extend: "n \<le> m \<Longrightarrow> (\<And>i. n < i \<Longrightarrow> c i = 0) \<Longrightarrow> pv c m x = pv c n x"
  unfolding pv_def by (rule sum.mono_neutral_right) auto

lemma gf_add_eq_0: "(a :: gf256) + b = 0 \<longleftrightarrow> a = b"
  by (metis gf_add_cancel(1) add.right_neutral gf_add_self)

text \<open>Dividing by a linear factor.\<close>

lemma pv_divide:
  "\<exists>d. (\<forall>x. pv c (Suc n) x + pv c (Suc n) a = (x + a) * pv d n x) \<and> d n = c (Suc n)"
proof -
  let ?d = "\<lambda>k. \<Sum>i\<in>{i. i \<le> Suc n \<and> k < i}. c i * a ^ (i - 1 - k)"
  have "{i. i \<le> Suc n \<and> n < i} = {Suc n}" by auto
  then have top: "?d n = c (Suc n)" by simp
  have "pv c (Suc n) x + pv c (Suc n) a = (x + a) * pv ?d n x" for x
  proof -
    have pow: "x ^ i + a ^ i = (x + a) * (\<Sum>k<i. x ^ k * a ^ (i - 1 - k))" for i
      using diff_power_eq_sum[of x "i - 1" a] by (cases i) auto
    have "pv c (Suc n) x + pv c (Suc n) a = (\<Sum>i\<le>Suc n. c i * (x ^ i + a ^ i))"
      unfolding pv_def sum.distrib[symmetric] by (simp only: distrib_left)
    also have "\<dots> = (x + a) * (\<Sum>i\<le>Suc n. \<Sum>k<i. c i * (x ^ k * a ^ (i - 1 - k)))"
      by (simp only: pow mult.left_commute[of _ "x + a"] sum_distrib_left)
    also have "(\<Sum>i\<le>Suc n. \<Sum>k<i. c i * (x ^ k * a ^ (i - 1 - k)))
        = (\<Sum>i\<le>Suc n. \<Sum>k\<in>{k. k \<le> n \<and> k < i}. c i * (x ^ k * a ^ (i - 1 - k)))"
      by (intro sum.cong refl) auto
    also have "\<dots> = (\<Sum>k\<le>n. \<Sum>i\<in>{i. i \<le> Suc n \<and> k < i}. c i * (x ^ k * a ^ (i - 1 - k)))"
      using sum.swap_restrict[of "{..Suc n}" "{..n}" "\<lambda>i k. c i * (x ^ k * a ^ (i - 1 - k))" "\<lambda>i k. k < i"]
      by (simp only: finite_atMost atMost_iff simp_thms)
    also have "\<dots> = pv ?d n x"
      unfolding pv_def sum_distrib_right
      by (intro sum.cong refl) (auto simp: algebra_simps)
    finally show ?thesis .
  qed
  with top show ?thesis by blast
qed

text \<open>A polynomial of degree at most \<open>n\<close> with more than \<open>n\<close> roots is zero.\<close>

lemma root_bound:
  assumes "finite R" and "\<And>x. x \<in> R \<Longrightarrow> pv c n x = 0" and "n < card R" and "i \<le> n"
  shows "c i = 0"
  using assms
proof (induction n arbitrary: c R i)
  case 0
  then obtain x where "x \<in> R" by (metis card.empty ex_in_conv less_irrefl)
  with 0 show ?case by (simp add: pv_def)
next
  case (Suc n)
  obtain a where a: "a \<in> R" using Suc.prems(3) by (metis card.empty ex_in_conv less_zeroE)
  obtain d where d: "\<And>x. pv c (Suc n) x + pv c (Suc n) a = (x + a) * pv d n x" "d n = c (Suc n)"
    using pv_divide by metis
  have "d n = 0"
  proof (rule Suc.IH[of "R - {a}"])
    fix x assume "x \<in> R - {a}"
    then show "pv d n x = 0"
      using d(1)[of x] a Suc.prems(2)[of x] Suc.prems(2)[of a] by (simp add: gf_add_eq_0 del: pv_Suc)
  qed (use Suc.prems a in auto)
  then have top: "c (Suc n) = 0" using d(2) by simp
  show ?case
  proof (cases "i = Suc n")
    case False
    have "pv c n x = 0" if "x \<in> R" for x using Suc.prems(2)[OF that] top by simp
    then show ?thesis by (rule Suc.IH[OF Suc.prems(1)]) (use Suc.prems False in auto)
  qed (simp add: top)
qed

text \<open>Power sums over distinct locations are linearly independent.\<close>

lemma vandermonde:
  assumes "finite E" and "inj_on X E" and "\<And>p. p \<in> E \<Longrightarrow> X p \<noteq> 0"
    and "\<And>k. a \<le> k \<Longrightarrow> k < a + card E \<Longrightarrow> (\<Sum>p\<in>E. Z p * X p ^ k) = (0 :: gf256)" and "p \<in> E"
  shows "Z p = 0"
  using assms
proof (induction E arbitrary: Z p rule: finite_induct)
  case (insert q E)
  have split: "(\<Sum>p\<in>E. (Z p * (X p + X q)) * X p ^ k)
      = (\<Sum>p\<in>insert q E. Z p * X p ^ Suc k) + X q * (\<Sum>p\<in>insert q E. Z p * X p ^ k)" for k
    using insert.hyps by (simp add: sum_distrib_left sum.distrib[symmetric] algebra_simps
        flip: sum.distrib)
  have zero: "Z p = 0" if "p \<in> E" for p
  proof -
    have "Z p * (X p + X q) = 0"
    proof (rule insert.IH[where Z = "\<lambda>p. Z p * (X p + X q)"])
      fix k assume "a \<le> k" "k < a + card E"
      then show "(\<Sum>p\<in>E. (Z p * (X p + X q)) * X p ^ k) = 0"
        unfolding split using insert.hyps insert.prems(3)[of k] insert.prems(3)[of "Suc k"] by simp
    qed (use insert.prems that in auto)
    moreover have "X p \<noteq> X q" using insert.prems(1) insert.hyps(2) that by (metis inj_on_def insertCI)
    ultimately show ?thesis by (simp add: gf_add_eq_0)
  qed
  then have "(\<Sum>p\<in>insert q E. Z p * X p ^ a) = Z q * X q ^ a" using insert.hyps by simp
  then have "Z q = 0" using insert.prems(2)[of q] insert.prems(3)[of a] insert.hyps by simp
  with zero insert.prems(4) show ?case by auto
qed simp

section \<open>Division by a locator factor, and the derivative\<close>

text \<open>\<open>qt c x\<close> are the coefficients of the quotient of \<open>c\<close> by \<open>1 + x z\<close>.\<close>

definition qt :: "(nat \<Rightarrow> gf256) \<Rightarrow> gf256 \<Rightarrow> nat \<Rightarrow> gf256" where
  "qt c x k = cv c (\<lambda>j. x ^ j) k"

definition deriv_odd :: "(nat \<Rightarrow> gf256) \<Rightarrow> nat \<Rightarrow> gf256 \<Rightarrow> gf256" where
  "deriv_odd c n z = (\<Sum>i\<in>{i. i \<le> n \<and> odd i}. c i * z ^ (i - 1))"

lemma qt_0 [simp]: "qt c x 0 = c 0"
  by (simp add: qt_def cv_def)

lemma qt_Suc: "qt c x (Suc k) = x * qt c x k + c (Suc k)"
proof -
  have "(\<Sum>i\<le>k. c i * x ^ (Suc k - i)) = (\<Sum>i\<le>k. x * (c i * x ^ (k - i)))"
    by (intro sum.cong refl) (simp add: Suc_diff_le)
  then show ?thesis by (simp add: qt_def cv_def sum_distrib_left)
qed

lemma qt_divides: "(1 + x * z) * (\<Sum>k<n. qt c x k * z ^ k) = pv c n z + qt c x n * z ^ n"
proof (induction n)
  case (Suc n)
  have "(1 + x * z) * (\<Sum>k<Suc n. qt c x k * z ^ k)
      = pv c n z + qt c x n * z ^ n + (1 + x * z) * (qt c x n * z ^ n)"
    using Suc by (simp add: distrib_left)
  then show ?case by (simp add: qt_Suc algebra_simps)
qed (simp add: pv_def)

lemma qt_top: "x \<noteq> 0 \<Longrightarrow> qt c x n = x ^ n * pv c n (inverse x)"
proof (induction n)
  case (Suc n)
  have "x * inverse x = 1" using Suc.prems by simp
  then have "x ^ Suc n * inverse x ^ Suc n = 1" by (metis power_mult_distrib power_one)
  then have "x ^ Suc n * (c (Suc n) * inverse x ^ Suc n) = c (Suc n)" by (metis mult.left_commute mult_1_right)
  with Suc show ?case by (simp add: qt_Suc distrib_left mult.assoc del: power_inverse)
qed (simp add: pv_def)

text \<open>In characteristic 2 the sum of the partial sums keeps every other term.\<close>

lemma partial_sums:
  fixes n :: nat
  shows "(\<Sum>k<n. \<Sum>i\<le>k. a i) = (\<Sum>i\<le>n. if odd n \<noteq> odd i then a i else (0 :: gf256))"
proof (induction n)
  case (Suc n)
  have "(\<Sum>k<Suc n. \<Sum>i\<le>k. a i) = (\<Sum>i\<le>n. (if odd n \<noteq> odd i then a i else 0) + a i)"
    using Suc by (simp add: sum.distrib)
  also have "\<dots> = (\<Sum>i\<le>n. if odd (Suc n) \<noteq> odd i then a i else 0)"
    by (intro sum.cong refl) auto
  finally show ?case by simp
qed simp

lemma partial_sums_zero:
  fixes n :: nat
  assumes "(\<Sum>i\<le>n. a i) = (0 :: gf256)"
  shows "(\<Sum>k<n. \<Sum>i\<le>k. a i) = (\<Sum>i\<in>{i. i \<le> n \<and> odd i}. a i)"
proof -
  have odd: "(\<Sum>i\<in>{i. i \<le> n \<and> odd i}. a i) = (\<Sum>i\<le>n. if odd i then a i else 0)"
    using sum.inter_filter[of "{..n}" a odd] by simp
  show ?thesis
  proof (cases "odd n")
    case True
    have "(\<Sum>i\<le>n. if odd n \<noteq> odd i then a i else 0) + (\<Sum>i\<le>n. if odd i then a i else 0) = (\<Sum>i\<le>n. a i)"
      unfolding sum.distrib[symmetric] by (intro sum.cong refl) (use True in auto)
    then show ?thesis unfolding partial_sums odd assms by (simp only: gf_add_eq_0)
  qed (simp add: partial_sums odd)
qed

lemma qt_at_root:
  assumes x: "x \<noteq> 0" and root: "pv c n (inverse x) = 0"
  shows "(\<Sum>k<n. qt c x k * inverse x ^ k) = inverse x * deriv_odd c n (inverse x)"
proof -
  have "qt c x k * inverse x ^ k = (\<Sum>i\<le>k. c i * inverse x ^ i)" for k
  proof -
    have "x ^ (k - i) * inverse x ^ k = inverse x ^ i" if "i \<le> k" for i
    proof -
      have "inverse x ^ k = inverse x ^ (k - i) * inverse x ^ i" using that by (simp flip: power_add)
      moreover have "x ^ (k - i) * inverse x ^ (k - i) = 1" using x by (simp flip: power_mult_distrib)
      ultimately show ?thesis by (simp flip: mult.assoc)
    qed
    then show ?thesis unfolding qt_def cv_def sum_distrib_right
      by (intro sum.cong refl) (simp add: mult.assoc)
  qed
  then have "(\<Sum>k<n. qt c x k * inverse x ^ k) = (\<Sum>i\<in>{i. i \<le> n \<and> odd i}. c i * inverse x ^ i)"
    using partial_sums_zero[of "\<lambda>i. c i * inverse x ^ i" n] root by (simp add: pv_def)
  also have "\<dots> = inverse x * deriv_odd c n (inverse x)"
    unfolding deriv_odd_def sum_distrib_left
  proof (intro sum.cong refl)
    fix i assume "i \<in> {i. i \<le> n \<and> odd i}"
    then obtain j where "i = Suc j" by (cases i) auto
    then show "c i * inverse x ^ i = inverse x * (c i * inverse x ^ (i - 1))" by (simp add: mult.left_commute)
  qed
  finally show ?thesis .
qed

section \<open>Error patterns\<close>

text \<open>The power sums of locations \<open>X p\<close> with values \<open>Y p\<close>.\<close>

definition power_sums :: "'p set \<Rightarrow> ('p \<Rightarrow> gf256) \<Rightarrow> ('p \<Rightarrow> gf256) \<Rightarrow> nat \<Rightarrow> gf256" where
  "power_sums E X Y k = (\<Sum>p\<in>E. Y p * X p ^ k)"

locale error_pattern =
  fixes E :: "'p set" and X Y :: "'p \<Rightarrow> gf256"
  assumes finite_E: "finite E" and inj_X: "inj_on X E"
    and X_nonzero: "\<And>p. p \<in> E \<Longrightarrow> X p \<noteq> 0" and Y_nonzero: "\<And>p. p \<in> E \<Longrightarrow> Y p \<noteq> 0"
begin

lemma cv_power_sums: "cv c (power_sums E X Y) k = (\<Sum>p\<in>E. Y p * qt c (X p) k)"
  unfolding cv_def power_sums_def qt_def sum_distrib_left
  by (subst sum.swap) (simp add: mult.left_commute)

lemma cv_at_roots:
  assumes "\<And>i. L < i \<Longrightarrow> c i = 0" and "L \<le> k"
  shows "cv c (power_sums E X Y) k = (\<Sum>p\<in>E. (Y p * pv c L (inverse (X p))) * X p ^ k)"
  unfolding cv_power_sums
proof (intro sum.cong refl)
  fix p assume "p \<in> E"
  have "pv c k (inverse (X p)) = pv c L (inverse (X p))" using assms by (intro pv_extend)
  with X_nonzero[OF \<open>p \<in> E\<close>] show "Y p * qt c (X p) k = Y p * pv c L (inverse (X p)) * X p ^ k"
    by (simp add: qt_top mult.assoc mult.commute)
qed

text \<open>A polynomial that annihilates as many consecutive syndromes as there are errors has all of
  the inverse locations as roots.\<close>

lemma annihilator_roots:
  assumes "\<And>i. L < i \<Longrightarrow> c i = 0" and "\<And>k. L \<le> k \<Longrightarrow> k < n \<Longrightarrow> cv c (power_sums E X Y) k = 0"
    and "L + card E \<le> n" and "p \<in> E"
  shows "pv c L (inverse (X p)) = 0"
proof -
  have "Y p * pv c L (inverse (X p)) = 0"
    by (rule vandermonde[OF finite_E inj_X X_nonzero, where a = L])
      (use assms cv_at_roots[OF assms(1)] in \<open>auto simp: less_le_trans\<close>)
  with Y_nonzero[OF assms(4)] show ?thesis by simp
qed

text \<open>Massey's bound: a register of length \<open>L\<close> that fails for the first time at syndrome \<open>r\<close> shows
  more than \<open>r - L\<close> errors.\<close>

lemma massey_bound:
  assumes "\<And>i. L < i \<Longrightarrow> c i = 0" and "\<And>k. L \<le> k \<Longrightarrow> k < r \<Longrightarrow> cv c (power_sums E X Y) k = 0"
    and "L \<le> r" and "cv c (power_sums E X Y) r \<noteq> 0"
  shows "r + 1 \<le> L + card E"
proof (rule ccontr)
  assume "\<not> r + 1 \<le> L + card E"
  then have "pv c L (inverse (X p)) = 0" if "p \<in> E" for p
    using annihilator_roots[OF assms(1,2)] that by simp
  with assms(4) show False by (simp add: cv_at_roots[OF assms(1,3)])
qed

lemma card_inverse_locations: "card ((\<lambda>p. inverse (X p)) ` E) = card E"
  by (rule card_image) (use inj_X in \<open>auto simp: inj_on_def\<close>)

text \<open>With constant term 1 and no more coefficients than errors such a polynomial is the error
  locator: its degree is the number of errors and it has no other roots.\<close>

lemma locator_exact:
  assumes c0: "c 0 = 1" and supp: "\<And>i. L < i \<Longrightarrow> c i = 0" and L: "L \<le> card E"
    and roots: "\<And>p. p \<in> E \<Longrightarrow> pv c L (inverse (X p)) = 0"
  shows "L = card E" and "c (card E) \<noteq> 0"
    and "pv c (card E) z = 0 \<longleftrightarrow> (\<exists>p\<in>E. z = inverse (X p))"
proof -
  let ?R = "(\<lambda>p. inverse (X p)) ` E"
  have few: "\<not> n < card R" if "finite R" "\<And>x. x \<in> R \<Longrightarrow> pv c n x = 0" for n R
    using root_bound[OF that(1), of c n 0] that(2) c0 by auto
  have "\<not> L < card ?R" using finite_E roots by (intro few) auto
  then show Le: "L = card E" using L card_inverse_locations by simp
  show "c (card E) \<noteq> 0"
  proof
    assume top: "c (card E) = 0"
    then obtain m where m: "card E = Suc m" using c0 by (cases "card E") auto
    have "pv c m x = 0" if "x \<in> ?R" for x using that roots top Le m by auto
    with few[of ?R m] finite_E card_inverse_locations m show False by simp
  qed
  show "pv c (card E) z = 0 \<longleftrightarrow> (\<exists>p\<in>E. z = inverse (X p))"
  proof
    assume "pv c (card E) z = 0"
    then have "\<not> card E < card (insert z ?R)" using finite_E roots Le by (intro few) auto
    then have "z \<in> ?R" using finite_E card_inverse_locations by (metis card_insert_disjoint finite_imageI lessI)
    then show "\<exists>p\<in>E. z = inverse (X p)" by auto
  qed (use roots Le in auto)
qed

text \<open>Forney's formula: the evaluator polynomial at an inverse location is the error value times
  the derivative of the locator, and that derivative does not vanish.\<close>

lemma quotient_elsewhere:
  assumes roots: "\<And>p. p \<in> E \<Longrightarrow> pv c (card E) (inverse (X p)) = 0" and "p \<in> E" "q \<in> E" "q \<noteq> p"
  shows "(\<Sum>k<card E. qt c (X q) k * inverse (X p) ^ k) = 0"
proof -
  have "qt c (X q) (card E) = 0" using qt_top[of "X q" c "card E"] X_nonzero roots assms(3) by simp
  then have "(1 + X q * inverse (X p)) * (\<Sum>k<card E. qt c (X q) k * inverse (X p) ^ k) = 0"
    using qt_divides[of "X q" "inverse (X p)" c "card E"] roots assms(2) by simp
  moreover have "1 + X q * inverse (X p) \<noteq> 0"
  proof
    assume "1 + X q * inverse (X p) = 0"
    then have "X q * inverse (X p) = 1" by (metis gf_add_eq_0)
    then have "X q = X p" using X_nonzero[OF assms(2)] by (simp add: field_simps)
    with inj_X assms(2-4) show False by (auto dest: inj_onD)
  qed
  ultimately show ?thesis by simp
qed

lemma forney:
  assumes roots: "\<And>p. p \<in> E \<Longrightarrow> pv c (card E) (inverse (X p)) = 0" and p: "p \<in> E"
  shows "(\<Sum>k<card E. cv c (power_sums E X Y) k * inverse (X p) ^ k)
    = Y p * (inverse (X p) * deriv_odd c (card E) (inverse (X p)))"
proof -
  have "(\<Sum>k<card E. cv c (power_sums E X Y) k * inverse (X p) ^ k)
      = (\<Sum>q\<in>E. Y q * (\<Sum>k<card E. qt c (X q) k * inverse (X p) ^ k))"
    unfolding cv_power_sums sum_distrib_left sum_distrib_right
    by (subst sum.swap) (simp add: mult.assoc)
  also have "\<dots> = (\<Sum>q\<in>E. if q = p then Y p * (\<Sum>k<card E. qt c (X p) k * inverse (X p) ^ k) else 0)"
    by (intro sum.cong refl) (simp add: quotient_elsewhere[OF roots p])
  also have "\<dots> = Y p * (\<Sum>k<card E. qt c (X p) k * inverse (X p) ^ k)"
    using finite_E p by simp
  finally show ?thesis using qt_at_root[OF X_nonzero[OF p] roots[OF p]] by simp
qed

lemma deriv_nonzero:
  assumes roots: "\<And>p. p \<in> E \<Longrightarrow> pv c (card E) (inverse (X p)) = 0" and top: "c (card E) \<noteq> 0" and p: "p \<in> E"
  shows "deriv_odd c (card E) (inverse (X p)) \<noteq> 0"
proof
  assume zero: "deriv_odd c (card E) (inverse (X p)) = 0"
  obtain m where m: "card E = Suc m" using p finite_E by (metis card_gt_0_iff empty_iff gr0_implies_Suc)
  have "qt c (X p) m = 0"
  proof (rule root_bound[of "(\<lambda>q. inverse (X q)) ` E" _ m])
    fix x assume "x \<in> (\<lambda>q. inverse (X q)) ` E"
    then obtain q where q: "q \<in> E" "x = inverse (X q)" by auto
    have "(\<Sum>k<card E. qt c (X p) k * x ^ k) = 0"
      using q quotient_elsewhere[OF roots q(1) p] qt_at_root[OF X_nonzero[OF p] roots[OF p]] zero by (cases "q = p") auto
    then show "pv (qt c (X p)) m x = 0" by (simp add: pv_def m lessThan_Suc_atMost del: sum.lessThan_Suc)
  qed (use finite_E card_inverse_locations m in auto)
  then have "qt c (X p) (card E) = c (card E)" by (simp add: m qt_Suc)
  moreover have "qt c (X p) (card E) = 0" using qt_top[OF X_nonzero[OF p], of c "card E"] roots[OF p] by simp
  ultimately show False using top by simp
qed

end

end
