(* ===== verification/RS_Massey.thy ===== *)
theory RS_Massey
  imports RS_Locator
begin

text \<open>
  The Berlekamp-Massey loop of \<^verbatim>\<open>decode_rs.c\<close>. \<open>gbm_step\<close> is one round on field elements; its
  invariant \<open>bm_inv\<close> says that the register annihilates the syndromes it has seen and how the
  auxiliary polynomial will repair it. The refinement lemmas then show that \<open>berlekamp_massey\<close>
  (index forms, table look-ups, \<^verbatim>\<open>memmove\<close> and \<^verbatim>\<open>memcpy\<close>) computes exactly these rounds, so that
  for a word with at most half as many errors as parity symbols the loop ends with the error
  locator polynomial.
\<close>

unbundle bit_operations_syntax

section \<open>Coefficient lists\<close>

definition cf :: "gf256 list \<Rightarrow> nat \<Rightarrow> gf256" where
  "cf xs i = (if i < length xs then xs ! i else 0)"

definition sh :: "(nat \<Rightarrow> gf256) \<Rightarrow> nat \<Rightarrow> gf256" where
  "sh c i = (case i of 0 \<Rightarrow> 0 | Suc j \<Rightarrow> c j)"

lemma cf_nth [simp]: "i < length xs \<Longrightarrow> cf xs i = xs ! i"
  by (simp add: cf_def)

lemma cf_beyond [simp]: "length xs \<le> i \<Longrightarrow> cf xs i = 0"
  by (simp add: cf_def)

lemma sh_simps [simp]: "sh c 0 = 0" "sh c (Suc i) = c i"
  by (simp_all add: sh_def)

lemma cv_add_mult: "cv (\<lambda>i. c i + d * e i) s k = cv c s k + d * cv e s k"
  by (simp add: cv_def sum_distrib_left sum.distrib[symmetric] algebra_simps)

lemma cv_divide: "cv (\<lambda>i. c i / d) s k = cv c s k / d"
  by (simp add: cv_def sum_divide_distrib)

lemma cv_sh: "cv (sh c) s k = (case k of 0 \<Rightarrow> 0 | Suc j \<Rightarrow> cv c s j)"
  by (cases k) (simp_all add: cv_def sum.atMost_Suc_shift del: sum.atMost_Suc)

lemma cf_shift: "cf b (length b - 1) = 0 \<Longrightarrow> b \<noteq> [] \<Longrightarrow> cf (0 # butlast b) = sh (cf b)"
proof
  fix i assume "cf b (length b - 1) = 0" "b \<noteq> []"
  then show "cf (0 # butlast b) i = sh (cf b) i"
    by (cases i; cases "i = length b") (auto simp: cf_def nth_butlast)
qed

lemma cf_divide: "cf (map (\<lambda>x. x / d) l) = (\<lambda>i. cf l i / d)"
  by (rule ext) (simp add: cf_def)

section \<open>The rounds on field elements\<close>

definition bm_combine :: "gf256 list \<Rightarrow> gf256 list \<Rightarrow> gf256 \<Rightarrow> gf256 list" where
  "bm_combine l b d = map (\<lambda>k. cf l k + d * sh (cf b) k) [0..<length l]"

definition gbm_step ::
    "(nat \<Rightarrow> gf256) \<Rightarrow> nat \<Rightarrow> nat \<times> gf256 list \<times> gf256 list \<Rightarrow> nat \<times> gf256 list \<times> gf256 list" where
  "gbm_step s r = (\<lambda>(L, l, b). let d = cv (cf l) s r in
     if d = 0 then (L, l, 0 # butlast b)
     else if 2 * L \<le> r then (Suc r - L, bm_combine l b d, map (\<lambda>x. x / d) l)
     else (L, bm_combine l b d, 0 # butlast b))"

definition bm_inv :: "nat \<Rightarrow> (nat \<Rightarrow> gf256) \<Rightarrow> nat \<Rightarrow> nat \<times> gf256 list \<times> gf256 list \<Rightarrow> bool" where
  "bm_inv n s r = (\<lambda>(L, l, b). length l = Suc n \<and> length b = Suc n \<and> L \<le> r
     \<and> cf l 0 = 1 \<and> (\<forall>i>L. cf l i = 0) \<and> (\<forall>k. L \<le> k \<and> k < r \<longrightarrow> cv (cf l) s k = 0)
     \<and> (\<forall>i>r - L. cf b i = 0)
     \<and> (0 < L \<longrightarrow> cv (cf b) s (r - 1) = 1 \<and> (\<forall>k. r - L \<le> k \<and> k < r - 1 \<longrightarrow> cv (cf b) s k = 0)))"

lemma cf_combine:
  assumes "length l = Suc n" "length b = Suc n" "cf b n = 0"
  shows "cf (bm_combine l b d) = (\<lambda>k. cf l k + d * sh (cf b) k)"
proof
  fix k
  show "cf (bm_combine l b d) k = cf l k + d * sh (cf b) k"
  proof (cases "k < Suc n")
    case False
    then obtain j where j: "k = Suc j" "n \<le> j" by (cases k) auto
    then have "cf b j = 0" using assms(2,3) by (cases "j = n") auto
    with j assms(1) show ?thesis by (simp add: bm_combine_def)
  qed (simp add: bm_combine_def cf_def assms(1) del: upt_Suc)
qed

lemma length_combine [simp]: "length (bm_combine l b d) = length l"
  by (simp add: bm_combine_def)

text \<open>The auxiliary polynomial shifted by one keeps its role.\<close>

lemma shift_role:
  assumes "0 < L" "L \<le> r" "cv c s (r - 1) = 1" "\<forall>k. r - L \<le> k \<and> k < r - 1 \<longrightarrow> cv c s k = 0"
  shows "cv (sh c) s r = 1" and "Suc r - L \<le> k \<Longrightarrow> k < r \<Longrightarrow> cv (sh c) s k = 0"
proof -
  show "cv (sh c) s r = 1" using assms by (cases r) (auto simp: cv_sh)
  assume "Suc r - L \<le> k" "k < r"
  then obtain j where "k = Suc j" "r - L \<le> j" "j < r - 1" using assms(1,2) by (cases k) auto
  with assms(4) show "cv (sh c) s k = 0" by (simp add: cv_sh)
qed

lemma gbm_step_inv:
  assumes inv: "bm_inv n s r st" and r: "r < n"
  shows "bm_inv n s (Suc r) (gbm_step s r st)"
proof -
  obtain L l b where st: "st = (L, l, b)" by (cases st)
  have len: "length l = Suc n" "length b = Suc n" and L: "L \<le> r" and l0: "cf l 0 = 1"
    and suppl: "\<And>i. L < i \<Longrightarrow> cf l i = 0" and ann: "\<And>k. L \<le> k \<Longrightarrow> k < r \<Longrightarrow> cv (cf l) s k = 0"
    and suppb: "\<And>i. r - L < i \<Longrightarrow> cf b i = 0"
    and role: "0 < L \<Longrightarrow> cv (cf b) s (r - 1) = 1"
      "0 < L \<Longrightarrow> \<forall>k. r - L \<le> k \<and> k < r - 1 \<longrightarrow> cv (cf b) s k = 0"
    using inv unfolding bm_inv_def st by auto
  have bn: "cf b n = 0" using r L by (intro suppb) auto
  have shb: "cf (0 # butlast b) = sh (cf b)" using cf_shift[of b] len bn by fastforce
  have supps: "sh (cf b) i = 0" if "Suc r - L < i" for i
    using that suppb L by (cases i) auto
  have role': "0 < L \<Longrightarrow> cv (sh (cf b)) s r = 1"
    "\<And>k. 0 < L \<Longrightarrow> Suc r - L \<le> k \<Longrightarrow> k < r \<Longrightarrow> cv (sh (cf b)) s k = 0"
    using shift_role[of L r "cf b" s] L role by auto
  define d where "d = cv (cf l) s r"
  show ?thesis
  proof (cases "d = 0")
    case True
    have "cv (cf l) s k = 0" if "L \<le> k" "k < Suc r" for k
      using that ann[of k] True d_def by (cases "k = r") auto
    with True show ?thesis
      using len L l0 suppl supps role' by (simp add: gbm_step_def st d_def[symmetric] bm_inv_def shb)
  next
    case False
    have t: "cf (bm_combine l b d) = (\<lambda>k. cf l k + d * sh (cf b) k)" by (rule cf_combine[OF len bn])
    have annt: "cv (cf (bm_combine l b d)) s k = 0"
      if "0 < L" "L \<le> k" "Suc r - L \<le> k" "k < Suc r" for k
      using that role'(1) role'(2)[of k] ann[of k] unfolding t cv_add_mult by (cases "k = r") (auto simp: d_def)
    show ?thesis
    proof (cases "2 * L \<le> r")
      case True
      have "cf (bm_combine l b d) i = 0" if "Suc r - L < i" for i
        unfolding t using that True suppl[of i] supps[of i] by simp
      moreover have "cv (cf (bm_combine l b d)) s k = 0" if "Suc r - L \<le> k" "k < Suc r" for k
        using that annt[of k] True by (cases "L = 0") auto
      moreover have "cv (cf (map (\<lambda>x. x / d) l)) s k = cv (cf l) s k / d" for k
        by (simp add: cf_divide cv_divide)
      ultimately show ?thesis
        using False True len L l0 suppl ann t
        by (simp add: gbm_step_def st d_def[symmetric] bm_inv_def) (simp add: cf_divide d_def)
    next
      case L2: False
      have "cf (bm_combine l b d) i = 0" if "L < i" for i
        unfolding t using that L2 suppl[of i] supps[of i] by simp
      moreover have "cv (cf (bm_combine l b d)) s k = 0" if "L \<le> k" "k < Suc r" for k
        using that annt[of k] L2 by auto
      ultimately show ?thesis
        using False L2 len L l0 supps role' t
        by (simp add: gbm_step_def st d_def[symmetric] bm_inv_def shb)
    qed
  qed
qed

fun gbm :: "nat \<Rightarrow> (nat \<Rightarrow> gf256) \<Rightarrow> nat \<Rightarrow> nat \<times> gf256 list \<times> gf256 list" where
  "gbm n s 0 = (0, 1 # replicate n 0, 1 # replicate n 0)"
| "gbm n s (Suc r) = gbm_step s r (gbm n s r)"

lemma gbm_inv: "r \<le> n \<Longrightarrow> bm_inv n s r (gbm n s r)"
proof (induction r)
  case 0
  have "cf (1 # replicate n 0) i = (if i = 0 then 1 else 0)" for i
    by (cases i) (auto simp: cf_def)
  then show ?case by (simp add: bm_inv_def)
qed (simp add: gbm_step_inv)

lemma cv_cong: "(\<And>j. j \<le> k \<Longrightarrow> s j = s' j) \<Longrightarrow> cv c s k = cv c s' k"
  unfolding cv_def by (intro sum.cong refl) simp

context error_pattern
begin

text \<open>The length of the register never exceeds the number of errors.\<close>

lemma gbm_length:
  assumes s: "\<And>k. k < n \<Longrightarrow> s k = power_sums E X Y k" and "r \<le> n"
  shows "fst (gbm n s r) \<le> card E"
  using assms(2)
proof (induction r)
  case (Suc r)
  obtain L l b where st: "gbm n s r = (L, l, b)" by (cases "gbm n s r")
  have inv: "bm_inv n s r (L, l, b)" using gbm_inv[of r n s] Suc.prems st by simp
  have sk: "cv (cf l) s k = cv (cf l) (power_sums E X Y) k" if "k \<le> r" for k
    using that Suc.prems s by (intro cv_cong) auto
  have "Suc r - L \<le> card E" if "cv (cf l) s r \<noteq> 0"
    using massey_bound[of L "cf l" r] inv that sk by (auto simp: bm_inv_def)
  with Suc st show ?case by (auto simp: gbm_step_def Let_def)
qed simp

text \<open>With at most half as many errors as syndromes the register is the error locator.\<close>

theorem gbm_locator:
  assumes s: "\<And>k. k < n \<Longrightarrow> s k = power_sums E X Y k" and few: "2 * card E \<le> n"
    and res: "gbm n s n = (L, l, b)"
  shows "length l = Suc n" and "cf l 0 = 1" and "\<And>i. card E < i \<Longrightarrow> cf l i = 0"
    and "cf l (card E) \<noteq> 0" and "\<And>p. p \<in> E \<Longrightarrow> pv (cf l) (card E) (inverse (X p)) = 0"
    and "pv (cf l) (card E) z = 0 \<longleftrightarrow> (\<exists>p\<in>E. z = inverse (X p))"
proof -
  have inv: "bm_inv n s n (L, l, b)" using gbm_inv[of n n s] res by simp
  then show "length l = Suc n" and c0: "cf l 0 = 1" by (auto simp: bm_inv_def)
  have supp: "\<And>i. L < i \<Longrightarrow> cf l i = 0" using inv by (auto simp: bm_inv_def)
  have L: "L \<le> card E" using gbm_length[of n s n, OF s] res by simp
  have "cv (cf l) (power_sums E X Y) k = cv (cf l) s k" if "k < n" for k
    using that s by (intro cv_cong) auto
  then have ann: "\<And>k. L \<le> k \<Longrightarrow> k < n \<Longrightarrow> cv (cf l) (power_sums E X Y) k = 0"
    using inv by (auto simp: bm_inv_def)
  have roots: "\<And>p. p \<in> E \<Longrightarrow> pv (cf l) L (inverse (X p)) = 0"
    by (rule annihilator_roots[OF supp ann]) (use L few in auto)
  note exact = locator_exact[OF c0 supp L roots]
  show "\<And>i. card E < i \<Longrightarrow> cf l i = 0" using supp exact(1) by simp
  show "cf l (card E) \<noteq> 0" by (rule exact(2))
  show "\<And>p. p \<in> E \<Longrightarrow> pv (cf l) (card E) (inverse (X p)) = 0" using roots exact(1) by simp
  show "pv (cf l) (card E) z = 0 \<longleftrightarrow> (\<exists>p\<in>E. z = inverse (X p))" by (rule exact(3))
qed

end

section \<open>The program computes them\<close>

text \<open>Accumulating field elements by exclusive or, upwards and downwards.\<close>

lemma xor_sum_up:
  assumes "\<And>i a. i < n \<Longrightarrow> f (int i) (gsym a) = Some (gsym (a + g i))"
  shows "cfor 0 (int n) f (gsym a) = Some (gsym (a + (\<Sum>i<n. g i)))"
proof -
  have "\<exists>t. cfor 0 (int n) f (gsym a) = Some t \<and> t = gsym (a + (\<Sum>i<nat (int n). g i))"
  proof (rule cfor_total[where I = "\<lambda>k t. t = gsym (a + (\<Sum>i<nat k. g i))"])
    fix k t assume k: "0 \<le> k" "k < int n" and t: "t = gsym (a + (\<Sum>i<nat k. g i))"
    have "f (int (nat k)) t = Some (gsym (a + (\<Sum>i<nat k. g i) + g (nat k)))"
      unfolding t by (rule assms) (use k in linarith)
    with k show "\<exists>t'. f k t = Some t' \<and> t' = gsym (a + (\<Sum>i<nat (k + 1). g i))"
      by (simp add: nat_add_distrib add.assoc)
  qed auto
  then show ?thesis by simp
qed

lemma xor_sum_down:
  assumes "\<And>i a. i < n \<Longrightarrow> f (int i) (gsym a) = Some (gsym (a + g i))"
  shows "cford (int n - 1) (- 1) f (gsym a) = Some (gsym (a + (\<Sum>i<n. g i)))"
  using assms
proof (induction n arbitrary: a)
  case (Suc n)
  have "cford (int (Suc n) - 1) (- 1) f (gsym a) = f (int n) (gsym a) \<bind> cford (int n - 1) (- 1) f"
    by (simp add: cford_step)
  also have "\<dots> = Some (gsym (a + g n + (\<Sum>i<n. g i)))"
    using Suc.prems[of n a] Suc.IH[of "a + g n"] Suc.prems by simp
  finally show ?case by (simp add: add.assoc add.commute[of "g n"])
qed (simp add: cford_end)

lemma ard_map_nth: "i < length xs \<Longrightarrow> ard (map f xs) (int i) = Some (f (xs ! i))"
  by (simp add: ard_Some)

lemma cfor_shift: "cfor i n f s = cfor (i + 1) (n + 1) (\<lambda>k. f (k - 1)) s"
proof (induction i n f s rule: cfor.induct)
  case (1 i n f s)
  show ?case
  proof (cases "i < n")
    case True
    then show ?thesis using 1 by (simp add: cfor_step split: Option.bind_split)
  qed (simp add: cfor_end)
qed

context rs_code
begin

text \<open>The product idiom: a term is added to the accumulator unless one factor is zero.\<close>

lemma tab_mul_acc:
  "a \<noteq> 0 \<Longrightarrow> b \<noteq> 0 \<Longrightarrow>
   (do { m \<leftarrow> rs_modnn rs (uint (gidx a) + uint (gidx b)); x \<leftarrow> ard (alpha_to rs) m; Some (gsym c XOR x) })
     = Some (gsym (c + a * b))"
  using gidx_range[of a] gidx_range[of b] by (simp add: tab_simps)

lemma discrepancy_cv:
  assumes "r < length l" "r < length ss"
  shows "discrepancy rs (map gidx ss) (map gsym l) (int (Suc r)) = Some (gidx (cv (cf l) (cf ss) r))"
proof -
  let ?f = "\<lambda>i discr_r. do {
       l' \<leftarrow> ard (map gsym l) i;
       si \<leftarrow> (if l' \<noteq> 0 then ard (map gidx ss) (int (Suc r) - i - 1) else Some 0);
       if l' \<noteq> 0 \<and> uint si \<noteq> nn rs then do {
         ix \<leftarrow> ard (index_of rs) (uint l');
         m \<leftarrow> rs_modnn rs (uint ix + uint si);
         a \<leftarrow> ard (alpha_to rs) m;
         Some (discr_r XOR a) }
       else Some discr_r }"
  have "cfor 0 (int (Suc r)) ?f (gsym 0) = Some (gsym (0 + (\<Sum>i<Suc r. l ! i * ss ! (r - i))))"
  proof (rule xor_sum_up)
    fix i a assume i: "i < Suc r"
    have e: "int (Suc r) - int i - 1 = int (r - i)" using i by simp
    show "?f (int i) (gsym a) = Some (gsym (a + l ! i * ss ! (r - i)))"
    proof (cases "l ! i = 0 \<or> ss ! (r - i) = 0")
      case True
      then show ?thesis unfolding e using i assms
        by (auto simp: ard_map_nth nn255 simp del: of_nat_diff)
    next
      case False
      then show ?thesis unfolding e using i assms tab_mul_acc[of "l ! i" "ss ! (r - i)" a]
        by (simp add: ard_map_nth index_table nn255 del: of_nat_diff)
    qed
  qed
  moreover have "(\<Sum>i<Suc r. l ! i * ss ! (r - i)) = cv (cf l) (cf ss) r"
    unfolding cv_def lessThan_Suc_atMost using assms by (intro sum.cong refl) (auto simp: cf_def)
  ultimately show ?thesis
    unfolding discrepancy_def by (simp add: index_table del: of_nat_Suc sum.lessThan_Suc)
qed

lemma bm_shift_gidx:
  assumes "int (length b) = nroots rs + 1"
  shows "bm_shift rs (map gidx b) = Some (map gidx (0 # butlast b))"
proof -
  have ne: "map gidx b \<noteq> []" and n: "nroots rs = int (length (map gidx b)) - 1" using assms nroots_pos by auto
  have "(word_of_int (nn rs) :: u16) = gidx 0" by (simp add: nn255 gidx_def)
  then show ?thesis
    unfolding bm_shift_def n cmemmove_up[OF ne] by (simp add: awr_def map_butlast)
qed

lemma bm_update_combine:
  assumes len: "int (length l) = nroots rs + 1" "int (length b) = nroots rs + 1" and d: "d \<noteq> 0"
  shows "bm_update uninit rs (map gsym l) (map gidx b) (gidx d) = Some (map gsym (bm_combine l b d))"
proof -
  define n where "n = nat (nroots rs)"
  have n: "nroots rs = int n" "length l = Suc n" "length b = Suc n" using len nroots_pos by (auto simp: n_def)
  let ?f = "\<lambda>i t. do {
       bi \<leftarrow> ard (map gidx b) i;
       l \<leftarrow> ard (map gsym l) (i + 1);
       if uint bi \<noteq> nn rs then do {
         m \<leftarrow> rs_modnn rs (uint (gidx d) + uint bi);
         a \<leftarrow> ard (alpha_to rs) m;
         awr t (i + 1) (l XOR a) }
       else awr t (i + 1) l }"
  let ?xs = "gsym (l ! 0) # replicate n uninit"
  have "cfor 1 (int n + 1) (\<lambda>k. ?f (k - 1)) ?xs
      = Some (take (nat 1) ?xs @ map (\<lambda>k. gsym (cf l k + d * sh (cf b) k)) [nat 1..<nat (int n + 1)])"
  proof (rule cfor_pointwise_from)
    fix i ys assume i: "1 \<le> i" "i < int n + 1"
    define j where "j = nat (i - 1)"
    then have j: "i = int (Suc j)" "j < n" using i by simp_all
    have e: "int (Suc j) - 1 = int j" "int (Suc j) - 1 + 1 = int (Suc j)" "int j + 1 = int (Suc j)" by simp_all
    show "?f (i - 1) ys = awr ys i (gsym (cf l (nat i) + d * sh (cf b) (nat i)))"
    proof (cases "b ! j = 0")
      case True
      then show ?thesis unfolding j(1) e using j(2) n by (simp add: ard_map_nth nn255 del: of_nat_Suc)
    next
      case False
      have "0 \<le> uint (gidx d) + uint (gidx (b ! j))" using gidx_range(1) by (simp add: add_nonneg_nonneg)
      with False show ?thesis unfolding j(1) e using j(2) n d
        by (simp add: ard_map_nth tab_simps del: of_nat_Suc)
    qed
  qed auto
  also have "\<dots> = Some (map gsym (bm_combine l b d))"
    using upt_conv_Cons[of 0 "Suc n"] n(2) by (simp add: bm_combine_def o_def nat_add_distrib del: upt_Suc)
  finally have "cfor 0 (int n) ?f ?xs = Some (map gsym (bm_combine l b d))"
    by (subst cfor_shift) simp
  moreover have "ard (map gsym l) 0 = Some (gsym (l ! 0))" "nat (int n + 1) = Suc n" using n by (auto simp: ard_def)
  ultimately show ?thesis unfolding bm_update_def n(1) by (simp add: awr_def)
qed

lemma bm_divide:
  assumes "int (length l) = nroots rs + 1" "length b = length l" and d: "d \<noteq> 0"
  shows "cfor 0 (nroots rs + 1) (\<lambda>i b. do {
              l \<leftarrow> ard (map gsym l) i;
              if l = 0 then awr b i (word_of_int (nn rs))
              else do {
                ix \<leftarrow> ard (index_of rs) (uint l);
                m \<leftarrow> rs_modnn rs (uint ix - uint (gidx d) + nn rs);
                awr b i (word_of_int m) } }) (map gidx b) = Some (map gidx (map (\<lambda>x. x / d) l))"
    (is "cfor 0 _ ?f _ = _")
proof -
  have "cfor 0 (nroots rs + 1) ?f (map gidx b) = Some (map (\<lambda>k. gidx (l ! k / d)) [0..<nat (nroots rs + 1)])"
  proof (rule cfor_pointwise)
    fix i ys assume i: "0 \<le> i" "i < nroots rs + 1"
    then have rd: "ard (map gsym l) i = Some (gsym (l ! nat i))" using assms by (simp add: ard_in)
    show "?f i ys = awr ys i (gidx (l ! nat i / d))"
    proof (cases "l ! nat i = 0")
      case True
      then show ?thesis using rd by (simp add: nn255 gidx_def)
    next
      case False
      from tab_quot[OF this d] obtain m where
        "rs_modnn rs (uint (gidx (l ! nat i)) - uint (gidx d) + nn rs) = Some m" "word_of_int m = gidx (l ! nat i / d)"
        by auto
      with False rd show ?thesis by (simp add: index_table)
    qed
  qed (use assms nroots_pos in auto)
  also have "map (\<lambda>k. gidx (l ! k / d)) [0..<nat (nroots rs + 1)] = map gidx (map (\<lambda>x. x / d) l)"
    using assms(1) by (intro nth_equalityI) (auto simp del: upt_Suc)
  finally show ?thesis .
qed

lemma bm_step_gbm:
  assumes "int (length l) = nroots rs + 1" "length b = length l" "int (length ss) = nroots rs" "r < length ss"
  shows "\<exists>L' l' b'. gbm_step (cf ss) r (L, l, b) = (L', l', b')
    \<and> bm_step uninit rs (map gidx ss) 0 (int (Suc r)) (int L, map gsym l, map gidx b) = Some (int L', map gsym l', map gidx b')"
proof -
  define d where "d = cv (cf l) (cf ss) r"
  have rl: "r < length l" using assms by linarith
  have disc: "discrepancy rs (map gidx ss) (map gsym l) (int (Suc r)) = Some (gidx d)"
    unfolding d_def by (rule discrepancy_cv[OF rl assms(4)])
  have shift: "bm_shift rs (map gidx b) = Some (map gidx (0 # butlast b))"
    using assms by (intro bm_shift_gidx) simp
  have step: "gbm_step (cf ss) r (L, l, b) = (if d = 0 then (L, l, 0 # butlast b)
     else if 2 * L \<le> r then (Suc r - L, bm_combine l b d, map (\<lambda>x. x / d) l)
     else (L, bm_combine l b d, 0 # butlast b))"
    by (simp add: gbm_step_def Let_def d_def)
  show ?thesis
  proof (cases "d = 0")
    case True
    then show ?thesis using disc shift step by (simp add: bm_step_def nn255 del: of_nat_Suc)
  next
    case False
    have upd: "bm_update uninit rs (map gsym l) (map gidx b) (gidx d) = Some (map gsym (bm_combine l b d))"
      using assms False by (intro bm_update_combine) auto
    have "2 * int L \<le> int (Suc r) - 1 \<longleftrightarrow> 2 * L \<le> r" "2 * L \<le> r \<Longrightarrow> int (Suc r) - int L = int (Suc r - L)" by auto
    with False disc shift upd bm_divide[OF assms(1,2) False] show ?thesis
      unfolding bm_step_def step by (simp add: nn255 del: of_nat_Suc of_nat_diff)
  qed
qed

theorem berlekamp_massey_gbm:
  assumes "int (length ss) = nroots rs"
  shows "\<exists>L l b. gbm (length ss) (cf ss) (length ss) = (L, l, b)
    \<and> berlekamp_massey uninit rs (map gidx ss) 0 (map gsym (1 # replicate (length ss) 0)) = Some (map gsym l)"
proof -
  define n where "n = length ss"
  let ?l = "1 # replicate n 0 :: gf256 list"
  have nr: "nroots rs = int n" "nat (int n + 1) = Suc n" using assms by (auto simp: n_def)
  have "cfor 0 (nroots rs + 1) (\<lambda>i b. do {
       l \<leftarrow> ard (map gsym ?l) i;
       ix \<leftarrow> ard (index_of rs) (uint l);
       awr b i ix }) (replicate (nat (nroots rs + 1)) uninit) = Some (map (\<lambda>i. gidx (?l ! i)) [0..<nat (nroots rs + 1)])"
    by (rule cfor_pointwise) (use nr in \<open>auto simp: ard_in index_table simp del: list.map\<close>)
  also have "map (\<lambda>i. gidx (?l ! i)) [0..<nat (nroots rs + 1)] = map gidx ?l"
    unfolding nr by (intro nth_equalityI) (auto simp: nth_Cons' simp del: upt_Suc)
  finally have init: "cfor 0 (nroots rs + 1) (\<lambda>i b. do {
       l \<leftarrow> ard (map gsym ?l) i;
       ix \<leftarrow> ard (index_of rs) (uint l);
       awr b i ix }) (replicate (nat (nroots rs + 1)) uninit) = Some (map gidx ?l)" .
  let ?I = "\<lambda>k (el, lambda, b'). \<exists>L l b. gbm n (cf ss) (nat k - 1) = (L, l, b) \<and> el = int L
      \<and> lambda = map gsym l \<and> b' = map gidx b"
  have "\<exists>t. cfor 1 (nroots rs + 1) (bm_step uninit rs (map gidx ss) 0) (0, map gsym ?l, map gidx ?l) = Some t
      \<and> ?I (nroots rs + 1) t"
  proof (rule cfor_total)
    fix k t assume k: "1 \<le> k" "k < nroots rs + 1" and "?I k t"
    define r where "r = nat k - 1"
    have r: "k = int (Suc r)" "nat (k + 1) - 1 = Suc r" "r < length ss" using k nr by (auto simp: r_def n_def)
    from \<open>?I k t\<close> obtain L l b where g: "gbm n (cf ss) r = (L, l, b)" and t: "t = (int L, map gsym l, map gidx b)"
      unfolding r_def by auto
    have "bm_inv n (cf ss) r (L, l, b)" using gbm_inv[of r n "cf ss"] g r(3) n_def by simp
    then have "int (length l) = nroots rs + 1" "length b = length l" using nr by (auto simp: bm_inv_def)
    from bm_step_gbm[OF this assms r(3), of L uninit] obtain L' l' b' where
      "gbm_step (cf ss) r (L, l, b) = (L', l', b')"
      "bm_step uninit rs (map gidx ss) 0 k t = Some (int L', map gsym l', map gidx b')"
      unfolding t r(1) by blast
    then show "\<exists>t'. bm_step uninit rs (map gidx ss) 0 k t = Some t' \<and> ?I (k + 1) t'"
      unfolding r(2) using g by simp
  qed (use nr in auto)
  then obtain L l b where g: "gbm n (cf ss) n = (L, l, b)"
    and loop: "cfor 1 (nroots rs + 1) (bm_step uninit rs (map gidx ss) 0) (0, map gsym ?l, map gidx ?l)
      = Some (int L, map gsym l, map gidx b)"
    unfolding nr by auto
  have "berlekamp_massey uninit rs (map gidx ss) 0 (map gsym ?l) = Some (map gsym l)"
    unfolding berlekamp_massey_def init by (simp add: loop[simplified])
  with g show ?thesis unfolding n_def by blast
qed

end

end
