(* ===== verification/RS_Chien.thy ===== *)
theory RS_Chien
  imports RS_Massey
begin

text \<open>
  The search for the roots of the locator polynomial in \<^verbatim>\<open>decode_rs.c\<close>. The conversion to index
  form finds the degree; \<open>chien_search\<close>, which multiplies the terms by powers of alpha from one
  position to the next and stops when it has found as many roots as the degree allows, returns
  exactly the roots among the powers of alpha, whatever the polynomial is.
\<close>

unbundle bit_operations_syntax

text \<open>The exponents of the roots, in the order of the search.\<close>

definition roots_of :: "gf256 list \<Rightarrow> nat \<Rightarrow> nat list" where
  "roots_of l deg = filter (\<lambda>i. pv (cf l) deg (\<alpha> ^ i) = 0) [1..<256]"

lemma set_roots_of: "i \<in> set (roots_of l deg) \<longleftrightarrow> 1 \<le> i \<and> i < 256 \<and> pv (cf l) deg (\<alpha> ^ i) = 0"
  unfolding roots_of_def set_filter set_upt by auto

lemma distinct_roots_of: "distinct (roots_of l deg)"
  unfolding roots_of_def by (intro distinct_filter distinct_upt)

lemma alpha_inj_256: "inj_on (\<lambda>i. \<alpha> ^ i) {1..<256}"
proof (rule inj_onI)
  fix i j :: nat assume "i \<in> {1..<256}" "j \<in> {1..<256}" "\<alpha> ^ i = \<alpha> ^ j"
  then show "i = j"
    using alpha_power_inj[of "i - 1" "j - 1"] by (cases i; cases j) auto
qed

lemma length_roots_of:
  assumes "cf l 0 = 1"
  shows "length (roots_of l deg) \<le> deg"
proof (rule ccontr)
  let ?R = "set (roots_of l deg)"
  assume "\<not> length (roots_of l deg) \<le> deg"
  moreover have "card ((\<lambda>i. \<alpha> ^ i) ` ?R) = length (roots_of l deg)"
  proof -
    have "inj_on (\<lambda>i. \<alpha> ^ i) ?R" by (rule inj_on_subset[OF alpha_inj_256]) (auto simp: set_roots_of)
    then show ?thesis by (simp add: card_image distinct_card distinct_roots_of)
  qed
  ultimately have "deg < card ((\<lambda>i. \<alpha> ^ i) ` ?R)" by simp
  then have "cf l 0 = 0" by (rule root_bound[rotated 2]) (auto simp: set_roots_of)
  with assms show False by simp
qed

text \<open>The roots found before position \<open>i\<close>.\<close>

definition roots_below :: "gf256 list \<Rightarrow> nat \<Rightarrow> nat \<Rightarrow> nat list" where
  "roots_below l deg i = filter (\<lambda>i. pv (cf l) deg (\<alpha> ^ i) = 0) [1..<i]"

lemma roots_below_1 [simp]: "roots_below l deg (Suc 0) = []"
  by (simp add: roots_below_def)

lemma roots_below_Suc: "1 \<le> i \<Longrightarrow>
    roots_below l deg (Suc i) = roots_below l deg i @ (if pv (cf l) deg (\<alpha> ^ i) = 0 then [i] else [])"
  by (simp add: roots_below_def)

lemma roots_below_all: "roots_below l deg 256 = roots_of l deg"
  by (simp only: roots_below_def roots_of_def)

lemma roots_below_split:
  assumes "1 \<le> i" "i \<le> 256"
  shows "\<exists>rest. roots_of l deg = roots_below l deg i @ rest"
proof -
  have "[1..<256] = [1..<i] @ [i..<256]" using assms by (metis upt_add_eq_append le_add_diff_inverse)
  then show ?thesis unfolding roots_of_def roots_below_def by (metis filter_append)
qed

lemma roots_below_full:
  assumes "cf l 0 = 1" "1 \<le> i" "i \<le> 256"
  shows "length (roots_below l deg i) \<le> deg" and "length (roots_below l deg i) = deg \<Longrightarrow> roots_of l deg = roots_below l deg i"
  using roots_below_split[OF assms(2,3), of l deg] length_roots_of[OF assms(1), of deg] by auto

text \<open>What the arrays of the search hold when the roots \<open>R\<close> are found.\<close>

definition found :: "nat \<Rightarrow> nat list \<Rightarrow> int \<Rightarrow> u16 list \<Rightarrow> u16 list \<Rightarrow> bool" where
  "found n R count root loc \<longleftrightarrow> count = int (length R) \<and> length root = n \<and> length loc = n
     \<and> (\<forall>j<length R. root ! j = of_nat (R ! j) \<and> loc ! j = of_nat (R ! j - 1))"

lemma found_snoc:
  assumes "found n R count root loc" "length R < n"
  shows "found n (R @ [i]) (count + 1) (root[nat count := of_nat i]) (loc[nat count := of_nat (i - 1)])"
  using assms by (auto simp: found_def nth_append nth_list_update less_Suc_eq)

context rs_code
begin

lemma index_lambda_deg:
  assumes "int (length l) = nroots rs + 1"
  shows "\<exists>deg. index_lambda rs (map gsym l) = Some (int deg, map gidx l) \<and> int deg \<le> nroots rs
    \<and> (\<forall>i>deg. cf l i = 0) \<and> (deg = 0 \<or> cf l deg \<noteq> 0)"
proof -
  let ?n = "nroots rs + 1"
  let ?f = "\<lambda>i (deg_lambda, lambda). do {
       l \<leftarrow> ard lambda i;
       ix \<leftarrow> ard (index_of rs) (uint l);
       lambda \<leftarrow> awr lambda i ix;
       Some (if uint ix \<noteq> nn rs then i else deg_lambda, lambda) }"
  let ?I = "\<lambda>i (d, lambda). lambda = map gidx (take (nat i) l) @ map gsym (drop (nat i) l)
     \<and> 0 \<le> d \<and> (d = 0 \<or> d < i \<and> cf l (nat d) \<noteq> 0) \<and> (\<forall>k. nat d < k \<and> int k < i \<longrightarrow> cf l k = 0)"
  have "\<exists>t. cfor 0 ?n ?f (0, map gsym l) = Some t \<and> ?I ?n t"
  proof (rule cfor_total)
    fix k t assume k: "0 \<le> k" "k < ?n" and inv: "?I k t"
    obtain d s where t: "t = (d, s)" by (cases t)
    have nk: "nat k < length l" using k assms by linarith
    then have "drop (nat k) l = l ! nat k # drop (Suc (nat k)) l" by (simp add: Cons_nth_drop_Suc)
    then have s: "s = map gidx (take (nat k) l) @ gsym (l ! nat k) # map gsym (drop (Suc (nat k)) l)"
      using inv t by simp
    then have "ard s k = Some (gsym (l ! nat k))"
      "awr s k v = Some (map gidx (take (nat k) l) @ v # map gsym (drop (Suc (nat k)) l))" for v
      using k nk by (auto simp: ard_def awr_def nth_append list_update_append)
    then have step: "?f k t = Some (if l ! nat k \<noteq> 0 then k else d,
        map gidx (take (nat k) l) @ gidx (l ! nat k) # map gsym (drop (Suc (nat k)) l))"
      by (simp add: t index_table nn255)
    have nat1: "nat (k + 1) = Suc (nat k)" using k by linarith
    define d' where "d' = (if l ! nat k \<noteq> 0 then k else d)"
    have "cf l j = 0" if "nat d' < j" "int j < k + 1" for j
    proof (cases "int j < k")
      case True
      with that inv t show ?thesis by (cases "l ! nat k = 0") (auto simp: d'_def)
    next
      case False
      with that have "j = nat k" by linarith
      with that k nk show ?thesis by (auto simp: d'_def split: if_splits)
    qed
    moreover have "0 \<le> d'" "d' = 0 \<or> d' < k + 1 \<and> cf l (nat d') \<noteq> 0" using inv t k nk by (auto simp: d'_def)
    ultimately show "\<exists>t'. ?f k t = Some t' \<and> ?I (k + 1) t'"
      unfolding step nat1 d'_def[symmetric] using nk by (fastforce simp: take_Suc_conv_app_nth)
  qed (use nroots_pos in auto)
  then obtain d where loop: "cfor 0 ?n ?f (0, map gsym l) = Some (d, map gidx l)" and d: "0 \<le> d"
      "d = 0 \<or> d < ?n \<and> cf l (nat d) \<noteq> 0" "\<forall>k. nat d < k \<and> int k < ?n \<longrightarrow> cf l k = 0"
    using assms by auto
  have "cf l i = 0" if "nat d < i" for i using that d(3) assms by (cases "int i < ?n") auto
  with loop d show ?thesis
    unfolding index_lambda_def by (intro exI[of _ "nat d"]) (use nroots_pos in auto)
qed

text \<open>One term of the evaluation moves to the next position.\<close>

lemma tab_next:
  assumes "a \<noteq> 0"
  shows "\<exists>m. rs_modnn rs (uint (gidx a) + int e) = Some m \<and> (word_of_int m :: u16) = gidx (a * \<alpha> ^ e)
    \<and> ard (alpha_to rs) (uint (word_of_int m :: u16)) = Some (gsym (a * \<alpha> ^ e))"
proof -
  let ?b = "a * \<alpha> ^ e"
  have nz: "?b \<noteq> 0" using assms by simp
  have x: "gexp (uint (gidx a) + int e) = ?b" using assms by (simp add: gf_simps)
  have "uint (gidx ?b) = (uint (gidx a) + int e) mod 255" using gidx_gexp[of "uint (gidx a) + int e"] x by simp
  then have w: "(word_of_int ((uint (gidx a) + int e) mod 255) :: u16) = gidx ?b"
    by (metis word_of_int_uint)
  have "uint (gidx ?b) < 255" using gidx_range[of ?b] gidx_nn[of ?b] nz by linarith
  then have "ard (alpha_to rs) (uint (gidx ?b)) = Some (gsym ?b)"
    using alpha_table gidx_range(1) nz by (simp add: gexp_gidx)
  with w show ?thesis using gidx_range(1)[of a] by (simp add: modnn)
qed

lemma chien_eval_step:
  assumes len: "deg < length reg" and reg: "\<And>j. 1 \<le> j \<Longrightarrow> j \<le> deg \<Longrightarrow> reg ! j = gidx (v j)"
  shows "\<exists>reg'. chien_eval rs (int deg) reg = Some (gsym (1 + (\<Sum>j\<in>{0<..deg}. v j * \<alpha> ^ j)), reg')
    \<and> length reg' = length reg \<and> (\<forall>j. 1 \<le> j \<longrightarrow> j \<le> deg \<longrightarrow> reg' ! j = gidx (v j * \<alpha> ^ j))"
proof -
  let ?f = "\<lambda>j (q, reg). do {
       rj \<leftarrow> ard reg j;
       if uint rj \<noteq> nn rs then do {
         m \<leftarrow> rs_modnn rs (uint rj + j);
         reg \<leftarrow> awr reg j (word_of_int m);
         a \<leftarrow> ard (alpha_to rs) (uint (word_of_int m :: u16));
         Some (q XOR a, reg) }
       else Some (q, reg) }"
  let ?I = "\<lambda>k (q, rg). q = gsym (1 + (\<Sum>j\<in>{nat k<..deg}. v j * \<alpha> ^ j)) \<and> length rg = length reg
     \<and> (\<forall>j. 1 \<le> j \<longrightarrow> j \<le> deg \<longrightarrow> rg ! j = gidx (if nat k < j then v j * \<alpha> ^ j else v j))"
  have "\<exists>t. cford (int deg) 0 ?f (1, reg) = Some t \<and> ?I 0 t"
  proof (rule cford_total)
    fix k t assume k: "0 < k" "k \<le> int deg" and inv: "?I k t"
    obtain q rg where t: "t = (q, rg)" by (cases t)
    define i where "i = nat k"
    have i: "k = int i" "1 \<le> i" "i \<le> deg" "i < length rg" "nat (k - 1) = i - 1" using k inv t len by (auto simp: i_def)
    have rd: "ard rg (int i) = Some (gidx (v i))" using i inv t by (auto simp: ard_def)
    have q: "q = gsym (1 + (\<Sum>j\<in>{i<..deg}. v j * \<alpha> ^ j))" using inv t i by simp
    have "{i - 1<..deg} = insert i {i<..deg}" using i by auto
    then have sum: "(\<Sum>j\<in>{i - 1<..deg}. v j * \<alpha> ^ j) = v i * \<alpha> ^ i + (\<Sum>j\<in>{i<..deg}. v j * \<alpha> ^ j)" by simp
    show "\<exists>t'. ?f k t = Some t' \<and> ?I (k - 1) t'"
    proof (cases "v i = 0")
      case True
      have "?f k t = Some t" using rd True i t by (simp add: nn255)
      moreover have "?I (k - 1) t"
      proof -
        have "rg ! j = gidx (if i - 1 < j then v j * \<alpha> ^ j else v j)" if "1 \<le> j" "j \<le> deg" for j
          using inv t i True that by (cases "j = i") auto
        then show ?thesis using inv t i q True sum by auto
      qed
      ultimately show ?thesis by blast
    next
      case False
      from tab_next[OF this, of i] obtain m where m: "rs_modnn rs (uint (gidx (v i)) + int i) = Some m"
        "word_of_int m = gidx (v i * \<alpha> ^ i)"
        "ard (alpha_to rs) (uint (word_of_int m :: u16)) = Some (gsym (v i * \<alpha> ^ i))" by blast
      have "?f k t = Some (gsym (1 + (\<Sum>j\<in>{i - 1<..deg}. v j * \<alpha> ^ j)), rg[i := gidx (v i * \<alpha> ^ i)])"
        unfolding sum using rd False i t m by (simp add: nn255 awr_def q gsym_xor add.assoc add.commute)
      moreover have "?I (k - 1) (gsym (1 + (\<Sum>j\<in>{i - 1<..deg}. v j * \<alpha> ^ j)), rg[i := gidx (v i * \<alpha> ^ i)])"
        using inv t i by (auto simp: nth_list_update)
      ultimately show ?thesis by blast
    qed
  qed (use reg in auto)
  then show ?thesis unfolding chien_eval_def by (auto simp: Suc_le_eq)
qed

lemma chien_next_pv:
  assumes "cf l 0 = 1" and "1 \<le> i"
  shows "1 + (\<Sum>j\<in>{0<..deg}. cf l j * \<alpha> ^ ((i - 1) * j) * \<alpha> ^ j) = pv (cf l) deg (\<alpha> ^ i)"
proof -
  have pow: "\<alpha> ^ ((i - 1) * j) * \<alpha> ^ j = (\<alpha> ^ i) ^ j" for j
  proof -
    have "(i - 1) * j + j = i * j" using assms(2) by (cases i) auto
    then show ?thesis by (metis power_add power_mult)
  qed
  have "{..deg} = insert 0 {0<..deg}" by auto
  then have "pv (cf l) deg (\<alpha> ^ i) = 1 + (\<Sum>j\<in>{0<..deg}. cf l j * (\<alpha> ^ i) ^ j)" using assms by (simp add: pv_def)
  then show ?thesis by (simp only: mult.assoc pow)
qed

end

text \<open>The drivers' code: roots 1, alpha, alpha squared, ..., so that position and root agree.\<close>

locale rs_plain = rs_code +
  assumes fcr0: "fcr rs = 0" and prim1: "prim rs = 1" and iprim1: "iprim rs = 1"
begin

text \<open>The state of the search before position \<open>i\<close>, and one round.\<close>

lemma chien_round:
  assumes l0: "cf l 0 = 1" and deg: "deg \<le> n" and i: "1 \<le> i" "i < 256" and reg: "length reg = Suc n"
    "\<And>j. 1 \<le> j \<Longrightarrow> j \<le> deg \<Longrightarrow> reg ! j = gidx (cf l j * \<alpha> ^ ((i - 1) * j))"
    and fnd: "found n (roots_below l deg i) count root loc" and room: "roots_below l deg i = [] \<or> length (roots_below l deg i) < deg"
  shows "\<exists>brk k' reg' count' root' loc'. (do {
         (q, reg) \<leftarrow> chien_eval rs (int deg) reg;
         if q \<noteq> 0 then do {
           k \<leftarrow> rs_modnn rs ((int i - 1) + iprim rs);
           Some (False, (k, reg, count, root, loc)) }
         else do {
           root \<leftarrow> awr root count (word_of_int (int i));
           loc \<leftarrow> awr loc count (word_of_int (int i - 1));
           if count + 1 = int deg then Some (True, (int i - 1, reg, count + 1, root, loc))
           else do {
             k \<leftarrow> rs_modnn rs ((int i - 1) + iprim rs);
             Some (False, (k, reg, count + 1, root, loc)) } } }) = Some (brk, k', reg', count', root', loc')
     \<and> found n (roots_below l deg (Suc i)) count' root' loc'
     \<and> (if brk then length (roots_below l deg (Suc i)) = deg
        else k' = int i mod 255 \<and> length reg' = Suc n
          \<and> (\<forall>j. 1 \<le> j \<longrightarrow> j \<le> deg \<longrightarrow> reg' ! j = gidx (cf l j * \<alpha> ^ (i * j)))
          \<and> (roots_below l deg (Suc i) = [] \<or> length (roots_below l deg (Suc i)) < deg))"
proof -
  let ?R = "roots_below l deg i"
  from chien_eval_step[of deg reg "\<lambda>j. cf l j * \<alpha> ^ ((i - 1) * j)"] reg deg obtain reg' where
    ev: "chien_eval rs (int deg) reg = Some (gsym (pv (cf l) deg (\<alpha> ^ i)), reg')" "length reg' = Suc n"
      "\<And>j. 1 \<le> j \<Longrightarrow> j \<le> deg \<Longrightarrow> reg' ! j = gidx (cf l j * \<alpha> ^ ((i - 1) * j) * \<alpha> ^ j)"
    unfolding chien_next_pv[OF l0 i(1)] by auto
  have pow: "\<alpha> ^ ((i - 1) * j) * \<alpha> ^ j = \<alpha> ^ (i * j)" for j
    using i(1) by (cases i) (simp_all add: power_add[symmetric] add.commute)
  have reg': "\<forall>j. 1 \<le> j \<longrightarrow> j \<le> deg \<longrightarrow> reg' ! j = gidx (cf l j * \<alpha> ^ (i * j))"
    using ev(3) pow by (simp add: mult.assoc)
  have k: "rs_modnn rs ((int i - 1) + iprim rs) = Some (int i mod 255)" by (simp add: iprim1 modnn)
  show ?thesis
  proof (cases "pv (cf l) deg (\<alpha> ^ i) = 0")
    case False
    then show ?thesis using ev(1,2) reg' k fnd room i(1) by (intro exI[of _ False]) (simp add: roots_below_Suc)
  next
    case True
    then have R: "roots_below l deg (Suc i) = ?R @ [i]" using i(1) by (simp add: roots_below_Suc)
    have le: "length ?R + 1 \<le> deg" using roots_below_full(1)[OF l0, of "Suc i" deg] i R by simp
    have cnt: "count = int (length ?R)" "length root = n" "length loc = n" using fnd by (auto simp: found_def)
    have w: "awr root count (word_of_int (int i)) = Some (root[nat count := of_nat i])"
      "awr loc count (word_of_int (int i - 1)) = Some (loc[nat count := of_nat (i - 1)])"
      using cnt le deg i by (auto simp: awr_def of_nat_diff)
    have "found n (roots_below l deg (Suc i)) (count + 1) (root[nat count := of_nat i]) (loc[nat count := of_nat (i - 1)])"
      unfolding R by (rule found_snoc[OF fnd]) (use le deg in linarith)
    then show ?thesis
      using True ev(1,2) reg' k w cnt le R by (cases "length ?R + 1 = deg") auto
  qed
qed

theorem chien_search_roots:
  assumes len: "int (length l) = nroots rs + 1" and l0: "cf l 0 = 1" and deg: "int deg \<le> nroots rs"
  shows "\<exists>root loc. chien_search uninit rs (int deg) (map gidx l) = Some (int (length (roots_of l deg)), root, loc)
    \<and> found (nat (nroots rs)) (roots_of l deg) (int (length (roots_of l deg))) root loc"
proof -
  define n where "n = nat (nroots rs)"
  have n: "nroots rs = int n" "length l = Suc n" "deg \<le> n" using len deg nroots_pos by (auto simp: n_def)
  let ?blank = "replicate (nat (nroots rs)) uninit"
  let ?f = "\<lambda>i (k, reg, count, root, loc). do {
         (q, reg) \<leftarrow> chien_eval rs (int deg) reg;
         if q \<noteq> 0 then do {
           k \<leftarrow> rs_modnn rs (k + iprim rs);
           Some (False, (k, reg, count, root, loc)) }
         else do {
           root \<leftarrow> awr root count (word_of_int i);
           loc \<leftarrow> awr loc count (word_of_int k);
           if count + 1 = int deg then Some (True, (k, reg, count + 1, root, loc))
           else do {
             k \<leftarrow> rs_modnn rs (k + iprim rs);
             Some (False, (k, reg, count + 1, root, loc)) } } }"
  let ?I = "\<lambda>i (k, reg, count, root, loc). k = (i - 1) mod 255 \<and> length reg = Suc n
     \<and> (\<forall>j. 1 \<le> j \<longrightarrow> j \<le> deg \<longrightarrow> reg ! j = gidx (cf l j * \<alpha> ^ ((nat i - 1) * j)))
     \<and> found n (roots_below l deg (nat i)) count root loc
     \<and> (roots_below l deg (nat i) = [] \<or> length (roots_below l deg (nat i)) < deg)"
  let ?Q = "\<lambda>(k, reg, count, root, loc). found n (roots_of l deg) count root loc"
  let ?reg0 = "uninit # map gidx (tl l)"
  have "\<exists>t. cforb 1 256 ?f (0, ?reg0, 0, ?blank, ?blank) = Some t \<and> ?Q t"
  proof (rule cforb_total[where I = ?I])
    show "?I 1 (0, ?reg0, 0, ?blank, ?blank)"
      using n by (auto simp: found_def nth_Cons' nth_tl)
    fix x t assume x: "1 \<le> x" "x < 256" and inv: "?I x t"
    obtain k reg count root loc where t: "t = (k, reg, count, root, loc)" by (cases t)
    define i where "i = nat x"
    have i: "x = int i" "1 \<le> i" "i < 256" "nat (x + 1) = Suc i" "k = int i - 1" using x inv t by (auto simp: i_def)
    from chien_round[OF l0 n(3) i(2,3), of reg count root loc] inv t obtain brk k' reg' count' root' loc' where
      r: "?f x t = Some (brk, k', reg', count', root', loc')"
        "found n (roots_below l deg (Suc i)) count' root' loc'"
        "if brk then length (roots_below l deg (Suc i)) = deg
        else k' = int i mod 255 \<and> length reg' = Suc n
          \<and> (\<forall>j. 1 \<le> j \<longrightarrow> j \<le> deg \<longrightarrow> reg' ! j = gidx (cf l j * \<alpha> ^ (i * j)))
          \<and> (roots_below l deg (Suc i) = [] \<or> length (roots_below l deg (Suc i)) < deg)"
      unfolding i(1) t i(5) by auto
    show "\<exists>brk t'. ?f x t = Some (brk, t') \<and> (if brk then ?Q t' else ?I (x + 1) t')"
      using r i roots_below_full(2)[OF l0, of "Suc i" deg] by (cases brk) auto
  next
    fix t assume "?I 256 t"
    then show "?Q t" by (auto simp: roots_below_all)
  qed simp
  moreover have "cget (map gidx l) 1 (nroots rs) \<bind> cput (replicate (nat (nroots rs + 1)) uninit) 1 = Some ?reg0"
    using n by (cases l) (auto simp: cget_def cput_def nat_add_distrib)
  moreover have "nn rs + 1 = 256" "iprim rs - 1 = 0" by (simp_all add: nn255 iprim1)
  ultimately obtain k reg count root loc where
    loop: "cforb 1 (nn rs + 1) ?f (iprim rs - 1, ?reg0, 0, ?blank, ?blank) = Some (k, reg, count, root, loc)"
    and fnd: "found n (roots_of l deg) count root loc"
    and reg0: "cget (map gidx l) 1 (nroots rs) \<bind> cput (replicate (nat (nroots rs + 1)) uninit) 1 = Some ?reg0"
    by (simp only:) (auto simp: n_def)
  from reg0 obtain lambda1 where l1: "cget (map gidx l) 1 (nroots rs) = Some lambda1"
    "cput (replicate (nat (nroots rs + 1)) uninit) 1 lambda1 = Some ?reg0" by (auto split: Option.bind_splits)
  have "count = int (length (roots_of l deg))" using fnd by (simp add: found_def)
  with fnd have "chien_search uninit rs (int deg) (map gidx l) = Some (int (length (roots_of l deg)), root, loc)"
    "found n (roots_of l deg) (int (length (roots_of l deg))) root loc"
    by (simp_all only: chien_search_def Let_def l1 loop Option.bind.simps prod.case)
  then show ?thesis unfolding n_def by blast
qed

end

end
