(* ===== verification/RS_Correct.thy ===== *)
theory RS_Correct
  imports RS_Chien
begin

text \<open>
  The last part of \<^verbatim>\<open>decode_rs.c\<close>: the evaluator polynomial, the error values by Forney's formula,
  the correction of the message, and the two results about the whole decoder. \<open>decode_total\<close>: for
  every received word the decoder returns, without an access out of bounds, either a count of
  corrected symbols or the error \<^verbatim>\<open>-EBADMSG\<close>. \<open>decode_corrects\<close>: a word that differs from a code
  word in at most half as many symbols as there are parity symbols is corrected, and the number of
  wrong symbols is returned.
\<close>

unbundle bit_operations_syntax

lemma cfor_pointwise_prefix:
  assumes "nat n \<le> length xs" and "0 \<le> n"
    and "\<And>i ys. 0 \<le> i \<Longrightarrow> i < n \<Longrightarrow> length ys = length xs \<Longrightarrow> f i ys = awr ys i (g (nat i))"
  shows "cfor 0 n f xs = Some (map g [0..<nat n] @ drop (nat n) xs)"
proof -
  let ?I = "\<lambda>i ys. ys = map g [0..<nat i] @ drop (nat i) xs"
  have "\<exists>t. cfor 0 n f xs = Some t \<and> ?I n t"
  proof (rule cfor_total)
    fix k t assume k: "0 \<le> k" "k < n" and t: "?I k t"
    have nk: "nat k < length xs" using k assms(1) by linarith
    have "drop (nat k) xs = xs ! nat k # drop (Suc (nat k)) xs" using nk by (simp add: Cons_nth_drop_Suc)
    then have "f k t = Some (map g [0..<nat k] @ g (nat k) # drop (Suc (nat k)) xs)"
      using assms(3)[of k t] k nk t by (simp add: awr_def list_update_append)
    with k show "\<exists>t'. f k t = Some t' \<and> ?I (k + 1) t'" by (simp add: nat_add_distrib)
  qed (use assms(2) in auto)
  then show ?thesis by simp
qed

lemma deriv_odd_pairs:
  assumes "deg \<le> n" "\<And>i. deg < i \<Longrightarrow> c i = 0"
  shows "(\<Sum>h<Suc (min deg (n - 1) div 2). c (2 * h + 1) * z ^ (2 * h)) = deriv_odd c deg z"
proof -
  let ?H = "{..<Suc (min deg (n - 1) div 2)}" and ?g = "\<lambda>i. c i * z ^ (i - 1)"
  have "(\<Sum>h\<in>?H. c (2 * h + 1) * z ^ (2 * h)) = sum ?g ((\<lambda>h. 2 * h + 1) ` ?H)"
    by (subst sum.reindex) (auto simp: inj_on_def)
  also have "\<dots> = sum ?g {i. i \<le> deg \<and> odd i}"
  proof (rule sum.mono_neutral_right)
    show "{i. i \<le> deg \<and> odd i} \<subseteq> (\<lambda>h. 2 * h + 1) ` ?H"
    proof
      fix i assume "i \<in> {i. i \<le> deg \<and> odd i}"
      then obtain h where "i = 2 * h + 1" "2 * h + 1 \<le> deg" by (auto elim: oddE)
      with assms(1) show "i \<in> (\<lambda>h. 2 * h + 1) ` ?H" by (intro image_eqI[of _ _ h]) auto
    qed
    show "\<forall>i\<in>(\<lambda>h. 2 * h + 1) ` ?H - {i. i \<le> deg \<and> odd i}. ?g i = 0" using assms(2) by auto
  qed simp
  finally show ?thesis by (simp add: deriv_odd_def)
qed

section \<open>Evaluator and error values\<close>

text \<open>The evaluator at the root with exponent \<open>e\<close>, and the value the decoder computes there.\<close>

definition om_at :: "gf256 list \<Rightarrow> gf256 list \<Rightarrow> nat \<Rightarrow> nat \<Rightarrow> gf256" where
  "om_at ss l deg e = (\<Sum>k<deg. cv (cf l) (cf ss) k * (\<alpha> ^ e) ^ k)"

definition err_val :: "gf256 list \<Rightarrow> gf256 list \<Rightarrow> nat \<Rightarrow> nat \<Rightarrow> gf256" where
  "err_val ss l deg e = gexp (uint (gidx (om_at ss l deg e)) + uint (gidx (inverse (\<alpha> ^ e))) + 255
     - uint (gidx (deriv_odd (cf l) deg (\<alpha> ^ e))))"

lemma err_val_quotient:
  assumes "om_at ss l deg e \<noteq> 0" "deriv_odd (cf l) deg (\<alpha> ^ e) \<noteq> 0"
  shows "err_val ss l deg e = om_at ss l deg e / (\<alpha> ^ e * deriv_odd (cf l) deg (\<alpha> ^ e))"
  using assms by (simp add: err_val_def gf_simps divide_inverse)

text \<open>The byte the correction changes, if it lies in the message.\<close>

definition fix_byte :: "gf256 list \<Rightarrow> gf256 list \<Rightarrow> nat \<Rightarrow> nat \<Rightarrow> nat \<Rightarrow> nat \<Rightarrow> u8 list \<Rightarrow> u8 list" where
  "fix_byte ss l deg pad len e d =
     (if om_at ss l deg e \<noteq> 0 \<and> pad < e \<and> e \<le> pad + len
      then d[e - 1 - pad := d ! (e - 1 - pad) XOR byte_of (err_val ss l deg e)] else d)"

lemma ucast_gsym: "ucast (gsym a) = byte_of a"
  by (metis psym_gsym Gf_inverse UNIV_I)

lemma length_fix_byte [simp]: "length (fix_byte ss l deg pad len e d) = length d"
  by (simp add: fix_byte_def)

definition fix_all :: "gf256 list \<Rightarrow> gf256 list \<Rightarrow> nat \<Rightarrow> nat \<Rightarrow> nat \<Rightarrow> u8 list \<Rightarrow> u8 list" where
  "fix_all ss l deg pad len d = fold (fix_byte ss l deg pad len) (rev (roots_of l deg)) d"

lemma length_fold_fix [simp]: "length (fold (fix_byte ss l deg pad len) es d) = length d"
  by (induction es arbitrary: d) auto

lemma nth_fold_fix:
  assumes "distinct es" "i < length d" "len \<le> length d"
  shows "fold (fix_byte ss l deg pad len) es d ! i
    = (if i < len \<and> pad + 1 + i \<in> set es \<and> om_at ss l deg (pad + 1 + i) \<noteq> 0
       then d ! i XOR byte_of (err_val ss l deg (pad + 1 + i)) else d ! i)"
  using assms
proof (induction es arbitrary: d)
  case (Cons e es)
  have "fix_byte ss l deg pad len e d ! i = (if e = pad + 1 + i \<and> i < len \<and> om_at ss l deg e \<noteq> 0
      then d ! i XOR byte_of (err_val ss l deg e) else d ! i)"
  proof (cases "e = pad + 1 + i")
    case False
    then have "e - 1 - pad \<noteq> i" if "pad < e" using that by linarith
    with False show ?thesis by (simp add: fix_byte_def)
  qed (use Cons.prems(2) in \<open>simp add: fix_byte_def\<close>)
  with Cons show ?case by auto
qed simp

lemma fix_all_props:
  assumes "len \<le> length d"
  shows "length (fix_all ss l deg pad len d) = length d" "drop len (fix_all ss l deg pad len d) = drop len d"
proof -
  show len: "length (fix_all ss l deg pad len d) = length d" by (simp add: fix_all_def)
  show "drop len (fix_all ss l deg pad len d) = drop len d"
    using assms len by (intro nth_equalityI) (auto simp: fix_all_def nth_fold_fix distinct_roots_of)
qed

context rs_plain
begin

lemma omega_poly_cv:
  assumes l: "int (length l) = nroots rs + 1" and ss: "int (length ss) = nroots rs" and deg: "deg \<le> length ss"
  shows "omega_poly uninit rs (map gidx ss) (map gidx l) (int deg - 1)
    = Some (map (\<lambda>k. gidx (cv (cf l) (cf ss) k)) [0..<deg] @ replicate (length l - deg) uninit)"
proof -
  let ?g = "\<lambda>i j tmp. do {
         si \<leftarrow> ard (map gidx ss) (i - j);
         l \<leftarrow> (if uint si \<noteq> nn rs then ard (map gidx l) j else Some 0);
         if uint si \<noteq> nn rs \<and> uint l \<noteq> nn rs then do {
           m \<leftarrow> rs_modnn rs (uint si + uint l);
           a \<leftarrow> ard (alpha_to rs) m;
           Some (tmp XOR a) }
         else Some tmp }"
  have inner: "cford (int k) (- 1) (?g (int k)) (gsym 0) = Some (gsym (cv (cf l) (cf ss) k))" if k: "k < deg" for k
  proof -
    have "cford (int (Suc k) - 1) (- 1) (?g (int k)) (gsym 0) = Some (gsym (0 + (\<Sum>j<Suc k. l ! j * ss ! (k - j))))"
    proof (rule xor_sum_down)
      fix j a assume j: "j < Suc k"
      have e: "int k - int j = int (k - j)" using j by simp
      have b: "j < length l" "k - j < length ss" using j k deg l ss by linarith+
      show "?g (int k) (int j) (gsym a) = Some (gsym (a + l ! j * ss ! (k - j)))"
      proof (cases "l ! j = 0 \<or> ss ! (k - j) = 0")
        case True
        then show ?thesis unfolding e using b by (auto simp: ard_map_nth nn255 simp del: of_nat_diff)
      next
        case False
        then show ?thesis unfolding e using b tab_mul_acc[of "ss ! (k - j)" "l ! j" a]
          by (simp add: ard_map_nth nn255 mult.commute del: of_nat_diff)
      qed
    qed
    moreover have "(\<Sum>j<Suc k. l ! j * ss ! (k - j)) = cv (cf l) (cf ss) k"
      unfolding cv_def lessThan_Suc_atMost using k deg l ss by (intro sum.cong refl) (auto simp: cf_def)
    ultimately show ?thesis by (simp del: sum.lessThan_Suc)
  qed
  have "cfor 0 (int deg) (\<lambda>i omega. do {
       tmp \<leftarrow> cford i (- 1) (?g i) 0;
       ix \<leftarrow> ard (index_of rs) (uint tmp);
       awr omega i ix }) (replicate (length l) uninit)
    = Some (map (\<lambda>k. gidx (cv (cf l) (cf ss) k)) [0..<nat (int deg)] @ drop (nat (int deg)) (replicate (length l) uninit))"
  proof (rule cfor_pointwise_prefix)
    fix i ys assume "0 \<le> i" "i < int deg"
    then have "cford i (- 1) (?g i) 0 = Some (gsym (cv (cf l) (cf ss) (nat i)))" using inner[of "nat i"] by simp
    then show "(do { tmp \<leftarrow> cford i (- 1) (?g i) 0; ix \<leftarrow> ard (index_of rs) (uint tmp); awr ys i ix })
        = awr ys i (gidx (cv (cf l) (cf ss) (nat i)))"
      by (simp add: index_table)
  qed (use deg l ss in auto)
  moreover have "nat (nroots rs + 1) = length l" "int deg - 1 + 1 = int deg" using l by auto
  ultimately show ?thesis unfolding omega_poly_def by (simp only: nat_int drop_replicate)
qed

lemma uint_root: "e < 256 \<Longrightarrow> uint (of_nat e :: u16) = int e"
  by (simp add: unsigned_of_nat take_bit_nat_eq_self)

lemma tab_power_acc:
  assumes "a \<noteq> 0"
  shows "(do { m \<leftarrow> rs_modnn rs (uint (gidx a) + int k * int e); x \<leftarrow> ard (alpha_to rs) m; Some (gsym c XOR x) })
     = Some (gsym (c + a * (\<alpha> ^ e) ^ k))"
proof -
  have "0 \<le> uint (gidx a) + int k * int e" using gidx_range(1)[of a] by simp
  then show ?thesis using assms by (simp add: tab_simps gexp_mult)
qed

lemma forney_num_om:
  assumes "e < 256"
  shows "forney_num rs (map (\<lambda>k. gidx (cv (cf l) (cf ss) k)) [0..<deg] @ ws) (int deg - 1) (of_nat e)
    = Some (gsym (om_at ss l deg e))"
proof -
  let ?f = "\<lambda>i num1. do {
       oi \<leftarrow> ard (map (\<lambda>k. gidx (cv (cf l) (cf ss) k)) [0..<deg] @ ws) i;
       if uint oi \<noteq> nn rs then do {
         m \<leftarrow> rs_modnn rs (uint oi + i * uint (of_nat e :: u16));
         a \<leftarrow> ard (alpha_to rs) m;
         Some (num1 XOR a) }
       else Some num1 }"
  have "cford (int deg - 1) (- 1) ?f (gsym 0) = Some (gsym (0 + om_at ss l deg e))"
    unfolding om_at_def
  proof (rule xor_sum_down)
    fix i a assume i: "i < deg"
    let ?o = "cv (cf l) (cf ss) i"
    have rd: "ard (map (\<lambda>k. gidx (cv (cf l) (cf ss) k)) [0..<deg] @ ws) (int i) = Some (gidx ?o)"
      using i by (simp add: ard_def nth_append)
    show "?f (int i) (gsym a) = Some (gsym (a + ?o * (\<alpha> ^ e) ^ i))"
    proof (cases "?o = 0")
      case False
      then show ?thesis using rd tab_power_acc[OF False, of i e a] by (simp add: nn255 uint_root[OF assms])
    qed (simp add: rd nn255)
  qed
  then show ?thesis by (simp add: forney_num_def)
qed

lemma forney_den_deriv:
  assumes "e < 256" and l: "int (length l) = nroots rs + 1" and deg: "int deg \<le> nroots rs"
    and supp: "\<And>i. deg < i \<Longrightarrow> cf l i = 0"
  shows "forney_den rs (map gidx l) (int deg) (of_nat e) = Some (gsym (deriv_odd (cf l) deg (\<alpha> ^ e)))"
proof -
  define n where "n = nat (nroots rs)"
  have n: "nroots rs = int n" "length l = Suc n" "deg \<le> n" "0 < n" using l deg nroots_pos by (auto simp: n_def)
  define M where "M = min deg (n - 1) div 2"
  have M: "drop_bit 1 (min (int deg) (nroots rs - 1)) = int (Suc M) - 1" "2 * M \<le> n - 1"
    using n by (auto simp: M_def drop_bit_eq_div zdiv_int of_nat_diff)
  let ?f = "\<lambda>h den. do {
       li \<leftarrow> ard (map gidx l) (2 * h + 1);
       if uint li \<noteq> nn rs then do {
         m \<leftarrow> rs_modnn rs (uint li + (2 * h) * uint (of_nat e :: u16));
         a \<leftarrow> ard (alpha_to rs) m;
         Some (den XOR a) }
       else Some den }"
  have "cford (int (Suc M) - 1) (- 1) ?f (gsym 0) = Some (gsym (0 + (\<Sum>h<Suc M. cf l (2 * h + 1) * (\<alpha> ^ e) ^ (2 * h))))"
  proof (rule xor_sum_down)
    fix h a assume h: "h < Suc M"
    let ?c = "cf l (2 * h + 1)"
    have b: "2 * h + 1 < length l" using h M(2) n by linarith
    then have "?c = l ! (2 * h + 1)" by simp
    with ard_map_nth[OF b, of gidx] have rd: "ard (map gidx l) (2 * int h + 1) = Some (gidx ?c)" by (simp add: add.commute)
    show "?f (int h) (gsym a) = Some (gsym (a + ?c * (\<alpha> ^ e) ^ (2 * h)))"
    proof (cases "?c = 0")
      case False
      then show ?thesis using rd tab_power_acc[OF False, of "2 * h" e a] by (simp add: nn255 uint_root[OF assms(1)])
    qed (simp add: rd nn255)
  qed
  moreover have "(\<Sum>h<Suc M. cf l (2 * h + 1) * (\<alpha> ^ e) ^ (2 * h)) = deriv_odd (cf l) deg (\<alpha> ^ e)"
    unfolding M_def by (rule deriv_odd_pairs[OF n(3) supp])
  ultimately show ?thesis unfolding forney_den_def M(1) by (simp del: sum.lessThan_Suc)
qed

lemma correct_one_fix:
  assumes e: "1 \<le> e" "e < 256" and rd: "ard root j = Some (of_nat e)" "ard loc j = Some (of_nat (e - 1))"
    and l: "int (length l) = nroots rs + 1" and deg: "int deg \<le> nroots rs"
    and supp: "\<And>i. deg < i \<Longrightarrow> cf l i = 0" and len: "int pad + int len + nroots rs = 255" "len \<le> length d"
  shows "correct_one rs (int pad) (map gidx l) (map (\<lambda>k. gidx (cv (cf l) (cf ss) k)) [0..<deg] @ ws) (int deg)
      root loc j (Some d, None) = Some (Some (fix_byte ss l deg pad len e d), None)"
proof -
  let ?om = "om_at ss l deg e" and ?den = "deriv_odd (cf l) deg (\<alpha> ^ e)"
  define lw :: u16 where "lw = of_nat (e - 1)"
  have ue: "uint (of_nat e :: u16) = int e" and ul: "uint lw = int (e - 1)"
    using e uint_root[of e] uint_root[of "e - 1"] by (simp_all add: lw_def del: of_nat_diff)
  have rl: "ard loc j = Some lw" using rd(2) by (simp only: lw_def)
  have inv: "gexp (255 - int e) = inverse (\<alpha> ^ e)" by (simp add: gexp_diff gexp_int divide_inverse)
  have "rs_modnn rs (int e * (fcr rs - 1) + nn rs) = Some ((255 - int e) mod 255)"
    using e by (simp add: fcr0 nn255 modnn)
  then have num2: "rs_modnn rs (int e * (fcr rs - 1) + nn rs) \<bind> ard (alpha_to rs) = Some (gsym (inverse (\<alpha> ^ e)))"
    using alpha_mod[of "255 - int e"] by (simp add: inv)
  then obtain m2 where m2: "rs_modnn rs (int e * (fcr rs - 1) + nn rs) = Some m2" "ard (alpha_to rs) m2 = Some (gsym (inverse (\<alpha> ^ e)))"
    by (auto split: Option.bind_splits)
  let ?x = "uint (gidx ?om) + uint (gidx (inverse (\<alpha> ^ e))) + 255 - uint (gidx ?den)"
  have x0: "0 \<le> ?x" using gidx_range[of ?om] gidx_range[of "inverse (\<alpha> ^ e)"] gidx_range[of ?den] by linarith
  then have cor: "rs_modnn rs ?x = Some (?x mod 255)" "ard (alpha_to rs) (?x mod 255) = Some (gsym (err_val ss l deg e))"
    using modnn alpha_mod[of ?x] by (simp_all add: err_val_def)
  have guard: "int pad \<le> uint lw \<longleftrightarrow> pad < e" "uint lw < 255 - nroots rs \<longleftrightarrow> e \<le> pad + len" using e len ul by auto
  have idx: "ard d (uint lw - int pad) = Some (d ! (e - 1 - pad))"
    "awr d (uint lw - int pad) v = Some (d[e - 1 - pad := v])" if "pad < e" "e \<le> pad + len" for v
    using that e len(2) ul by (auto simp: ard_def awr_def nat_diff_distrib)
  show ?thesis
  proof (cases "?om \<noteq> 0 \<and> pad < e")
    case True
    then show ?thesis
      unfolding correct_one_def
      using rd(1) rl forney_num_om[OF e(2)] forney_den_deriv[OF e(2) l deg supp] m2 cor guard idx
      by (cases "e \<le> pad + len") (simp_all add: ue index_table nn255 fix_byte_def ucast_gsym)
  next
    case False
    then show ?thesis
      unfolding correct_one_def
      using rd(1) rl forney_num_om[OF e(2)] forney_den_deriv[OF e(2) l deg supp] m2 guard
      by (auto simp: ue fix_byte_def)
  qed
qed

lemma correct_loop:
  assumes fnd: "found n (roots_of l deg) count root loc" "length (roots_of l deg) \<le> n"
    and l: "int (length l) = nroots rs + 1" and deg: "int deg \<le> nroots rs"
    and supp: "\<And>i. deg < i \<Longrightarrow> cf l i = 0" and len: "int pad + int len + nroots rs = 255"
    and k: "k \<le> length (roots_of l deg)" and d: "len \<le> length d"
  shows "cford (int k - 1) (- 1) (correct_one rs (int pad) (map gidx l)
       (map (\<lambda>k. gidx (cv (cf l) (cf ss) k)) [0..<deg] @ ws) (int deg) root loc) (Some d, None)
    = Some (Some (fold (fix_byte ss l deg pad len) (rev (take k (roots_of l deg))) d), None)"
  using k d
proof (induction k arbitrary: d)
  case (Suc k)
  let ?R = "roots_of l deg"
  let ?f = "correct_one rs (int pad) (map gidx l) (map (\<lambda>k. gidx (cv (cf l) (cf ss) k)) [0..<deg] @ ws) (int deg) root loc"
  have "?R ! k \<in> set ?R" using Suc.prems by simp
  then have e: "1 \<le> ?R ! k" "?R ! k < 256" by (simp_all add: set_roots_of)
  have "ard root (int k) = Some (of_nat (?R ! k))" "ard loc (int k) = Some (of_nat (?R ! k - 1))"
    using fnd Suc.prems(1) by (auto simp: found_def ard_def)
  from correct_one_fix[OF e this l deg supp len Suc.prems(2)]
  have "?f (int k) (Some d, None) = Some (Some (fix_byte ss l deg pad len (?R ! k) d), None)" .
  moreover have "cford (int (Suc k) - 1) (- 1) ?f (Some d, None) = ?f (int k) (Some d, None) \<bind> cford (int k - 1) (- 1) ?f"
    by (simp add: cford_step)
  moreover have "rev (take (Suc k) ?R) = ?R ! k # rev (take k ?R)" using Suc.prems(1) by (simp add: take_Suc_conv_app_nth)
  ultimately show ?case using Suc.IH[of "fix_byte ss l deg pad len (?R ! k) d"] Suc.prems by simp
qed (simp add: cford_end)

text \<open>The decoder from the syndromes on, for every syndrome list.\<close>

theorem decode_errors_result:
  assumes ss: "int (length ss) = nroots rs" and len: "int pad + int len + nroots rs = 255" "len \<le> length data"
    and g: "gbm (length ss) (cf ss) (length ss) = (L, l, b)"
  shows "\<exists>deg loc. deg \<le> length ss \<and> (\<forall>i>deg. cf l i = 0) \<and> (deg = 0 \<or> cf l deg \<noteq> 0)
    \<and> decode_errors uninit rs (Some data) (int len) (map gidx ss) 0 eras_pos None
      = (if length (roots_of l deg) = deg then Some (int deg, loc, Some (fix_all ss l deg pad len data), None)
         else Some (- EBADMSG, loc, Some data, None))"
proof -
  have inv: "bm_inv (length ss) (cf ss) (length ss) (L, l, b)" using gbm_inv[of "length ss" "length ss" "cf ss"] g by simp
  then have l: "int (length l) = nroots rs + 1" and l0: "cf l 0 = 1" using ss by (auto simp: bm_inv_def)
  have bm: "berlekamp_massey uninit rs (map gidx ss) 0 (map gsym (1 # replicate (length ss) 0)) = Some (map gsym l)"
    using berlekamp_massey_gbm[OF ss, of uninit] g by auto
  have er: "erasure_locator rs 0 eras_pos = Some (map gsym (1 # replicate (length ss) 0))"
    using ss[symmetric] by (simp add: erasure_locator_def)
  from index_lambda_deg[OF l] obtain deg where deg: "index_lambda rs (map gsym l) = Some (int deg, map gidx l)"
    "int deg \<le> nroots rs" "\<forall>i>deg. cf l i = 0" "deg = 0 \<or> cf l deg \<noteq> 0" by blast
  let ?R = "roots_of l deg"
  from chien_search_roots[OF l l0 deg(2), of uninit] obtain root loc where
    ch: "chien_search uninit rs (int deg) (map gidx l) = Some (int (length ?R), root, loc)"
    "found (nat (nroots rs)) ?R (int (length ?R)) root loc" by blast
  have dl: "deg \<le> length ss" using deg(2) ss by simp
  have om: "omega_poly uninit rs (map gidx ss) (map gidx l) (int deg - 1)
    = Some (map (\<lambda>k. gidx (cv (cf l) (cf ss) k)) [0..<deg] @ replicate (length l - deg) uninit)"
    by (rule omega_poly_cv[OF l ss dl])
  have R: "length ?R \<le> nat (nroots rs)" using length_roots_of[OF l0, of deg] dl ss by linarith
  have pad: "nn rs - nroots rs - int len = int pad" using len by (simp add: nn255)
  have cor: "cford (int (length ?R) - 1) (- 1) (correct_one rs (int pad) (map gidx l)
       (map (\<lambda>k. gidx (cv (cf l) (cf ss) k)) [0..<deg] @ replicate (length l - deg) uninit) (int deg) root loc) (Some data, None)
    = Some (Some (fix_all ss l deg pad len data), None)"
    using correct_loop[OF ch(2) R l deg(2) _ len(1) order_refl len(2)] deg(3) by (simp add: fix_all_def)
  have "decode_errors uninit rs (Some data) (int len) (map gidx ss) 0 eras_pos None
      = (if length ?R = deg then Some (int deg, loc, Some (fix_all ss l deg pad len data), None)
         else Some (- EBADMSG, loc, Some data, None))"
    unfolding decode_errors_def Let_def pad er
    using bm deg(1) ch(1) om cor by (simp split del: if_split) auto
  with dl deg(3,4) show ?thesis by blast
qed

end

section \<open>Words and their errors\<close>

text \<open>The positions in which a received word \<open>w\<close> differs from the word \<open>v\<close> that was sent, for words
  no longer than the code; location and value of the error at a position.\<close>

definition error_positions :: "gf256 list \<Rightarrow> gf256 list \<Rightarrow> nat set" where
  "error_positions v w = {j. j < length w \<and> length w \<le> 255 \<and> length v = length w \<and> v ! j \<noteq> w ! j}"

definition err_loc :: "gf256 list \<Rightarrow> nat \<Rightarrow> gf256" where
  "err_loc w j = \<alpha> ^ (length w - 1 - j)"

definition err_diff :: "gf256 list \<Rightarrow> gf256 list \<Rightarrow> nat \<Rightarrow> gf256" where
  "err_diff v w j = v ! j + w ! j"

interpretation wp: error_pattern "error_positions v w" "err_loc w" "err_diff v w" for v w
proof
  show "finite (error_positions v w)" by (simp add: error_positions_def)
  show "inj_on (err_loc w) (error_positions v w)"
  proof (rule inj_onI)
    fix i j assume eq: "i \<in> error_positions v w" "j \<in> error_positions v w" "err_loc w i = err_loc w j"
    then have b: "i < length w" "j < length w" "length w \<le> 255" by (auto simp: error_positions_def)
    then have "length w - 1 - i = length w - 1 - j" using eq(3) by (intro alpha_power_inj) (auto simp: err_loc_def)
    with b show "i = j" by linarith
  qed
qed (auto simp: err_loc_def error_positions_def err_diff_def gf_add_eq_0)

lemma hor_errors:
  assumes "length v = length w" "length w \<le> 255"
  shows "hor b w = hor b v + (\<Sum>j\<in>error_positions v w. err_diff v w j * b ^ (length w - 1 - j))"
proof -
  have "hor b v + hor b w = (\<Sum>k<length w. err_diff v w k * b ^ (length w - 1 - k))"
    unfolding hor_sum assms(1) sum.distrib[symmetric] by (intro sum.cong refl) (simp add: err_diff_def distrib_right)
  also have "\<dots> = (\<Sum>j\<in>error_positions v w. err_diff v w j * b ^ (length w - 1 - j))"
    by (rule sum.mono_neutral_right) (auto simp: error_positions_def err_diff_def assms)
  finally show ?thesis by (metis gf_add_cancel(1))
qed

lemma root_location:
  assumes "length w + pad = 255" "j < length w" "1 \<le> e" "e < 256"
  shows "\<alpha> ^ e = inverse (err_loc w j) \<longleftrightarrow> e = pad + 1 + j"
proof -
  have "(pad + 1 + j) + (length w - 1 - j) = 255" using assms(1,2) by linarith
  then have "\<alpha> ^ (pad + 1 + j) * err_loc w j = 1" unfolding err_loc_def by (metis alpha_255 power_add)
  then have inv: "inverse (err_loc w j) = \<alpha> ^ (pad + 1 + j)" by (metis inverse_unique mult.commute)
  have "pad + 1 + j \<in> {1..<256}" "e \<in> {1..<256}" using assms by auto
  then show ?thesis unfolding inv using inj_on_eq_iff[OF alpha_inj_256] by blast
qed

context rs_plain
begin

lemma syndromes_power_sums:
  assumes "\<forall>x\<in>set (syndromes rs v). x = 0" "length v = length w" "length w \<le> 255" "k < nat (nroots rs)"
  shows "cf (syndromes rs w) k = power_sums (error_positions v w) (err_loc w) (err_diff v w) k"
proof -
  have r: "rs_root rs k = \<alpha> ^ k" by (simp add: rs_root_def fcr0 prim1 gexp_int)
  have "hor (rs_root rs k) v = 0" using assms(1,4) by (simp add: syndromes_def)
  then have "hor (\<alpha> ^ k) v = 0" by (simp only: r)
  then have "cf (syndromes rs w) k = (\<Sum>j\<in>error_positions v w. err_diff v w j * (\<alpha> ^ k) ^ (length w - 1 - j))"
    using hor_errors[OF assms(2,3), of "\<alpha> ^ k"] assms(4) by (simp add: syndromes_def r)
  then show ?thesis
    unfolding power_sums_def err_loc_def by (simp only: power_mult[symmetric] mult.commute)
qed

text \<open>The locator of the errors, its roots, and the error values.\<close>

lemma locator_of_errors:
  assumes v: "\<forall>x\<in>set (syndromes rs v). x = 0" "length v = length w" and pad: "length w + pad = 255"
    and few: "2 * card (error_positions v w) \<le> nat (nroots rs)"
    and g: "gbm (nat (nroots rs)) (cf (syndromes rs w)) (nat (nroots rs)) = (L, l, b)"
    and deg: "\<forall>i>deg. cf l i = 0" "deg = 0 \<or> cf l deg \<noteq> 0"
  shows "deg = card (error_positions v w)"
    and "set (roots_of l deg) = (\<lambda>j. pad + 1 + j) ` error_positions v w"
    and "length (roots_of l deg) = deg"
    and "j \<in> error_positions v w \<Longrightarrow> om_at (syndromes rs w) l deg (pad + 1 + j) \<noteq> 0
      \<and> err_val (syndromes rs w) l deg (pad + 1 + j) = err_diff v w j"
proof -
  let ?E = "error_positions v w" and ?n = "nat (nroots rs)" and ?S = "cf (syndromes rs w)"
  have w: "length w \<le> 255" using pad by simp
  have s: "?S k = power_sums ?E (err_loc w) (err_diff v w) k" if "k < ?n" for k
    using syndromes_power_sums[OF v w that] .
  note loc = wp.gbm_locator[of ?n ?S v w, OF s few g]
  show d: "deg = card ?E"
    using deg loc(3)[of deg] loc(2,4) by (metis linorder_cases not_less_zero)
  have in_w: "j < length w" if "j \<in> ?E" for j using that by (simp add: error_positions_def)
  have range: "pad + 1 + j < 256" if "j \<in> ?E" for j using in_w[OF that] pad by linarith
  have root: "pv (cf l) deg (\<alpha> ^ e) = 0 \<longleftrightarrow> e \<in> (\<lambda>j. pad + 1 + j) ` ?E" if e: "1 \<le> e" "e < 256" for e
    using loc(6)[of "\<alpha> ^ e"] root_location[OF pad in_w e] unfolding d by blast
  show R: "set (roots_of l deg) = (\<lambda>j. pad + 1 + j) ` ?E"
    using root range by (auto simp: set_roots_of simp del: add_Suc_right add_Suc)
  have "card ((\<lambda>j. pad + 1 + j) ` ?E) = card ?E" by (rule card_image) (auto simp: inj_on_def)
  then show "length (roots_of l deg) = deg" using R d distinct_card[OF distinct_roots_of, of l deg] by simp
  assume j: "j \<in> ?E"
  have z: "\<alpha> ^ (pad + 1 + j) = inverse (err_loc w j)"
    using root_location[OF pad in_w[OF j], of "pad + 1 + j"] range[OF j] by simp
  have "om_at (syndromes rs w) l deg (pad + 1 + j)
      = (\<Sum>k<card ?E. cv (cf l) (power_sums ?E (err_loc w) (err_diff v w)) k * inverse (err_loc w j) ^ k)"
    unfolding om_at_def z d using few s by (intro sum.cong refl) (auto intro!: cv_cong)
  also have "\<dots> = err_diff v w j * (inverse (err_loc w j) * deriv_odd (cf l) (card ?E) (inverse (err_loc w j)))"
    by (rule wp.forney[OF loc(5) j])
  finally have om: "om_at (syndromes rs w) l deg (pad + 1 + j)
      = err_diff v w j * (inverse (err_loc w j) * deriv_odd (cf l) deg (inverse (err_loc w j)))" unfolding d .
  have nz: "deriv_odd (cf l) deg (inverse (err_loc w j)) \<noteq> 0" "inverse (err_loc w j) \<noteq> 0" "err_diff v w j \<noteq> 0"
    using wp.deriv_nonzero[OF loc(5) loc(4) j] wp.X_nonzero[OF j] wp.Y_nonzero[OF j] d by simp_all
  then have "om_at (syndromes rs w) l deg (pad + 1 + j) \<noteq> 0" using om by simp
  moreover have "err_val (syndromes rs w) l deg (pad + 1 + j) = err_diff v w j"
    using err_val_quotient[OF calculation] nz z om by simp
  ultimately show "om_at (syndromes rs w) l deg (pad + 1 + j) \<noteq> 0
      \<and> err_val (syndromes rs w) l deg (pad + 1 + j) = err_diff v w j" by blast
qed

end

section \<open>The decoder\<close>

text \<open>The word the decoder sees.\<close>

definition received :: "rs_control \<Rightarrow> u8 list \<Rightarrow> u16 list \<Rightarrow> nat \<Rightarrow> u16 \<Rightarrow> gf256 list" where
  "received rs data par len invmsk =
     map (dsym invmsk) (take len data) @ map (\<lambda>p. Gf (ucast p)) (take (nat (nroots rs)) par)"

text \<open>The wrong bytes of a block: in the message, and in the low bytes of the parity symbols.\<close>

definition wrong_data :: "nat \<Rightarrow> u8 list \<Rightarrow> u8 list \<Rightarrow> nat set" where
  "wrong_data len d0 d = {i. i < len \<and> d0 ! i \<noteq> d ! i}"

definition wrong_par :: "nat \<Rightarrow> u16 list \<Rightarrow> u16 list \<Rightarrow> nat set" where
  "wrong_par n p0 p = {i. i < n \<and> (ucast (p0 ! i) :: u8) \<noteq> ucast (p ! i)}"

lemma dsym_inject [simp]: "dsym invmsk a = dsym invmsk b \<longleftrightarrow> a = b"
proof
  assume "dsym invmsk a = dsym invmsk b"
  then have "a XOR ucast invmsk = b XOR ucast invmsk" by (simp add: dsym_def Gf_inject)
  then show "a = b" by (metis xor.assoc xor_self_eq xor.right_neutral)
qed simp

lemma dsym_xor: "dsym invmsk (x XOR byte_of a) = dsym invmsk x + a"
  unfolding dsym_def
  by (metis (no_types, lifting) Gf_add byte_of_inverse xor.assoc xor.commute)

context rs_plain
begin

lemma decode_start:
  assumes len: "1 \<le> len" "int pad + int len + nroots rs = 255" "len \<le> length data" "nroots rs \<le> int (length par)"
  shows "decode_rs8 uninit rs (Some data) par (int len) None no_eras None invmsk corr
    = (let ss = syndromes rs (received rs data par len invmsk) in
       if \<forall>x\<in>set ss. x = 0 then Some (0, Some data, None, corr)
       else map_option (\<lambda>(count, loc, data, corr). (count, data, None, corr))
         (decode_errors uninit rs (Some data) (int len) (map gidx ss) no_eras None corr))"
proof -
  let ?ss = "syndromes rs (received rs data par len invmsk)"
  have f: "form_syndromes uninit rs data par (int len) invmsk = Some (map gsym ?ss)"
    using form_syndromes_eval[of "int len" data par uninit invmsk] len by (simp add: received_def)
  from index_syndromes_loop[OF length_syndromes, of "received rs data par len invmsk"] obtain e where
    e: "index_syndromes rs (map gsym ?ss) = Some (e, map gidx ?ss)" "e = 0 \<longleftrightarrow> (\<forall>x\<in>set ?ss. x = 0)" by blast
  have pad: "nn rs - nroots rs - int len = int pad" "int pad < nn rs" using len nroots_pos by (simp_all add: nn255)
  show ?thesis
  proof (cases "e = 0")
    case True
    then show ?thesis using f e pad by (simp add: decode_rs8_def Let_def)
  next
    case False
    then have "\<not> (\<forall>x\<in>set ?ss. x = 0)" using e(2) by blast
    with False show ?thesis using f e(1) pad
      by (cases "decode_errors uninit rs (Some data) (int len) (map gidx ?ss) no_eras None corr")
        (auto simp: decode_rs8_def Let_def)
  qed
qed

text \<open>Whatever was received, the decoder returns.\<close>

theorem decode_total:
  assumes len: "1 \<le> len" "int len + nroots rs \<le> 255" "len \<le> length data" "nroots rs \<le> int (length par)"
  shows "\<exists>count data'. decode_rs8 uninit rs (Some data) par (int len) None 0 None invmsk None = Some (count, Some data', None, None)
    \<and> (count = - EBADMSG \<and> data' = data \<or> 0 \<le> count \<and> count \<le> nroots rs)
    \<and> length data' = length data \<and> drop len data' = drop len data"
proof -
  define pad where "pad = nat (255 - nroots rs - int len)"
  have pad: "int pad + int len + nroots rs = 255" using len(2) by (simp add: pad_def)
  let ?ss = "syndromes rs (received rs data par len invmsk)"
  have ss: "int (length ?ss) = nroots rs" using nroots_pos by simp
  obtain L l b where g: "gbm (length ?ss) (cf ?ss) (length ?ss) = (L, l, b)" by (cases "gbm (length ?ss) (cf ?ss) (length ?ss)")
  from decode_errors_result[OF ss pad len(3) g, of uninit None] obtain deg loc where deg: "deg \<le> length ?ss"
    and res: "decode_errors uninit rs (Some data) (int len) (map gidx ?ss) 0 None None
      = (if length (roots_of l deg) = deg then Some (int deg, loc, Some (fix_all ?ss l deg pad len data), None)
         else Some (- EBADMSG, loc, Some data, None))" by blast
  show ?thesis
    using decode_start[OF len(1) pad len(3,4), of uninit 0 invmsk None] res deg fix_all_props[OF len(3)] nroots_pos
    by (cases "\<forall>x\<in>set ?ss. x = 0"; cases "length (roots_of l deg) = deg") (auto simp: Let_def)
qed

text \<open>A word with few enough errors is corrected.\<close>

theorem decode_word:
  assumes len: "1 \<le> len" "int len + nroots rs \<le> 255" "len \<le> length data" "nroots rs \<le> int (length par)"
    and v: "\<forall>x\<in>set (syndromes rs v). x = 0" "length v = len + nat (nroots rs)"
    and few: "2 * card (error_positions v (received rs data par len invmsk)) \<le> nat (nroots rs)"
  shows "\<exists>data'. decode_rs8 uninit rs (Some data) par (int len) None 0 None invmsk None
      = Some (int (card (error_positions v (received rs data par len invmsk))), Some data', None, None)
    \<and> length data' = length data \<and> drop len data' = drop len data \<and> (\<forall>i<len. dsym invmsk (data' ! i) = v ! i)"
proof -
  define pad where "pad = nat (255 - nroots rs - int len)"
  have pad: "int pad + int len + nroots rs = 255" using len(2) by (simp add: pad_def)
  define w where "w = received rs data par len invmsk"
  let ?E = "error_positions v w" and ?ss = "syndromes rs w"
  have lw: "length w = len + nat (nroots rs)" using len nroots_pos by (auto simp: w_def received_def)
  then have vw: "length v = length w" and pw: "length w + pad = 255" using v(2) pad nroots_pos by linarith+
  have wi: "w ! i = dsym invmsk (data ! i)" if "i < len" for i using that len(3) by (simp add: w_def received_def nth_append)
  have mem: "i \<in> ?E \<longleftrightarrow> v ! i \<noteq> w ! i" if "i < len" for i using that lw vw pw by (auto simp: error_positions_def)
  note start = decode_start[OF len(1) pad len(3,4), of uninit 0 invmsk None, folded w_def, unfolded Let_def]
  show ?thesis
  proof (cases "\<forall>x\<in>set ?ss. x = 0")
    case True
    have "err_diff v w p = 0" if "p \<in> ?E" for p
    proof (rule vandermonde[OF wp.finite_E wp.inj_X wp.X_nonzero _ that, where a = 0])
      fix k assume "k < 0 + card ?E"
      then have k: "k < nat (nroots rs)" using few w_def by simp
      then have "cf ?ss k = 0" using True by (simp add: cf_def)
      then show "(\<Sum>p\<in>?E. err_diff v w p * err_loc w p ^ k) = 0"
        using syndromes_power_sums[OF v(1) vw _ k] pw by (simp add: power_sums_def)
    qed
    then have "?E = {}" using wp.Y_nonzero by blast
    then have "card ?E = 0" "\<forall>i<len. dsym invmsk (data ! i) = v ! i" using mem wi by auto
    with True start show ?thesis unfolding w_def[symmetric] by simp
  next
    case False
    have ss: "int (length ?ss) = nroots rs" and nl: "length ?ss = nat (nroots rs)" using nroots_pos by simp_all
    obtain L l b where g: "gbm (length ?ss) (cf ?ss) (length ?ss) = (L, l, b)" by (cases "gbm (length ?ss) (cf ?ss) (length ?ss)")
    from decode_errors_result[OF ss pad len(3) g, of uninit None] obtain deg loc where
      deg: "\<forall>i>deg. cf l i = 0" "deg = 0 \<or> cf l deg \<noteq> 0"
      and res: "decode_errors uninit rs (Some data) (int len) (map gidx ?ss) 0 None None
      = (if length (roots_of l deg) = deg then Some (int deg, loc, Some (fix_all ?ss l deg pad len data), None)
         else Some (- EBADMSG, loc, Some data, None))" by blast
    note L = locator_of_errors[OF v(1) vw pw few[folded w_def] g[unfolded nl] deg]
    let ?d = "fix_all ?ss l deg pad len data"
    have "dsym invmsk (?d ! i) = v ! i" if i: "i < len" for i
    proof (cases "i \<in> ?E")
      case True
      then have "?d ! i = data ! i XOR byte_of (err_diff v w i)"
        using i len(3) L(2) L(4)[OF True] by (simp add: fix_all_def nth_fold_fix distinct_roots_of)
      then show ?thesis using wi[OF i] by (simp add: dsym_xor err_diff_def)
    next
      case False
      then have "?d ! i = data ! i"
        using i len(3) L(2) by (auto simp: fix_all_def nth_fold_fix distinct_roots_of)
      then show ?thesis using wi[OF i] mem[OF i] False by simp
    qed
    moreover have "decode_rs8 uninit rs (Some data) par (int len) None 0 None invmsk None
        = Some (int (card ?E), Some ?d, None, None)"
      using start False res L(1,3) by simp
    ultimately show ?thesis using fix_all_props[OF len(3)] unfolding w_def[symmetric] by blast
  qed
qed

theorem decode_corrects:
  assumes len: "1 \<le> len" "int len + nroots rs \<le> 255" "len \<le> length data0" "len \<le> length data"
      "nroots rs \<le> int (length par)"
    and enc: "encode_rs8 rs data0 (int len) (replicate (nat (nroots rs)) 0) invmsk = Some (0, par0)"
    and few: "2 * (card (wrong_data len data0 data) + card (wrong_par (nat (nroots rs)) par0 par)) \<le> nat (nroots rs)"
  shows "decode_rs8 uninit rs (Some data) par (int len) None 0 None invmsk None
    = Some (int (card (wrong_data len data0 data) + card (wrong_par (nat (nroots rs)) par0 par)),
        Some (take len data0 @ drop len data), None, None)"
proof -
  let ?n = "nat (nroots rs)" and ?ds = "map (dsym invmsk) (take len data0)"
  let ?ps = "foldl (enc_step (rs_gp rs)) (replicate ?n 0) ?ds"
  let ?v = "?ds @ ?ps" and ?w = "received rs data par len invmsk"
  have "encode_rs8 rs data0 (int len) (map gsym (replicate ?n 0)) invmsk = Some (0, map gsym ?ps)"
    using encode_foldl[of "replicate ?n 0" "int len" data0 invmsk] len nroots_pos by simp
  then have par0: "par0 = map gsym ?ps" using enc by simp
  have lv: "length ?v = len + ?n" and lw: "length ?w = len + ?n" using len nroots_pos by (auto simp: received_def)
  have data_pos: "?v ! i \<noteq> ?w ! i \<longleftrightarrow> i \<in> wrong_data len data0 data" if "i < len" for i
    using that len by (simp add: received_def nth_append wrong_data_def)
  have par_pos: "?v ! (len + i) \<noteq> ?w ! (len + i) \<longleftrightarrow> i \<in> wrong_par ?n par0 par" if "i < ?n" for i
  proof -
    have "Gf (ucast (par0 ! i)) = ?ps ! i" unfolding par0 using that by simp
    then show ?thesis
      using that len by (auto simp: received_def nth_append wrong_par_def Gf_inject)
  qed
  have E: "error_positions ?v ?w = wrong_data len data0 data \<union> (\<lambda>i. len + i) ` wrong_par ?n par0 par" (is "?E = ?D \<union> ?P")
  proof (rule set_eqI)
    fix j
    have j: "j \<in> ?E \<longleftrightarrow> j < len + ?n \<and> ?v ! j \<noteq> ?w ! j"
      using lv lw len(2) nroots_pos unfolding error_positions_def by auto
    show "j \<in> ?E \<longleftrightarrow> j \<in> ?D \<union> ?P"
    proof (cases "j < len")
      case True
      then show ?thesis using j data_pos[OF True] by auto
    next
      case False
      then obtain i where i: "j = len + i" by (metis le_add_diff_inverse not_less)
      then show ?thesis using j par_pos[of i] by (auto simp: wrong_data_def wrong_par_def)
    qed
  qed
  have "card ?E = card ?D + card ?P" unfolding E by (rule card_Un_disjoint) (auto simp: wrong_data_def wrong_par_def)
  moreover have "card ?P = card (wrong_par ?n par0 par)" by (rule card_image) (auto simp: inj_on_def)
  ultimately have card: "card ?E = card ?D + card (wrong_par ?n par0 par)" by simp
  from decode_word[OF len(1,2,4,5) syndromes_encode lv, of invmsk uninit] few obtain data' where
    res: "decode_rs8 uninit rs (Some data) par (int len) None 0 None invmsk None = Some (int (card ?E), Some data', None, None)"
    and d: "length data' = length data" "drop len data' = drop len data" "\<forall>i<len. dsym invmsk (data' ! i) = ?v ! i"
    unfolding card by auto
  have "take len data' = take len data0"
    using d len by (intro nth_equalityI) (auto simp: nth_append)
  then have "data' = take len data0 @ drop len data" using d(2) by (metis append_take_drop_id)
  with res card show ?thesis by simp
qed

end

interpretation vlc_plain: rs_plain "vlc_rs u" for u
  by unfold_locales (simp_all add: vlc_rs_def)

end
