(* ===== verification/Vlc_Driver.thy ===== *)
theory Vlc_Driver
  imports Packet_Queue RS_Correct
begin

text \<open>
  The kernel driver of the VLC transmitter, \<^verbatim>\<open>ourvlc-1.c\<close>: the pool of packet buffers and the
  transmit queue (linked lists in an explicit store), the Reed-Solomon framing into the memory shared
  with the PRU, the timer handler that owns the ring index, the device header and the proc interface.
  \<open>None\<close> is a dereference of \<^verbatim>\<open>NULL\<close>, an access outside a buffer or a \<^verbatim>\<open>BUG_ON\<close>. Locks are not
  modelled: an operation is atomic. \<^verbatim>\<open>kmalloc\<close> is a parameter.
\<close>

unbundle bit_operations_syntax

section \<open>State\<close>

definition ECC_LEN :: int where "ECC_LEN = 16"
definition OTHER_PACKET_CONTENT_BYTE :: u16 where "OTHER_PACKET_CONTENT_BYTE = 8"
definition BUFFER_LIMIT :: u16 where "BUFFER_LIMIT = 6004"
definition block_size :: int where "block_size = 200"
definition PKT_DATA :: nat where "PKT_DATA = 2010"

record pkt_body =
  datalen :: int
  pk_data :: "u8 list"

type_synonym pkt_heap = "pkt_body heap"

record drv =
  mem :: pkt_heap
  ppool :: ptr
  tx_queue :: ptr
  stopped :: bool
  flag_exit :: bool
  pru :: "u8 list"
  write_idx :: u16
  read_idx :: u16
  is_write_next :: bool
  tx_pkt :: ptr

section \<open>The pool of buffers\<close>

text \<open>\<open>kmalloc i\<close> is the address of the \<open>i\<close>-th allocation, \<open>body i\<close> what is found there.\<close>

definition vlc_setup_pool :: "int \<Rightarrow> (int \<Rightarrow> ptr) \<Rightarrow> (int \<Rightarrow> pkt_body) \<Rightarrow> pkt_heap \<Rightarrow> (pkt_heap \<times> ptr) option" where
  "vlc_setup_pool pool_size kmalloc body h =
     cforb 0 pool_size (\<lambda>i (h, pool).
       Some (case kmalloc i of
          None \<Rightarrow> (True, (h, pool))
        | Some pkt \<Rightarrow> (False, (h(pkt \<mapsto> \<lparr>nd_data = body i, nd_next = pool\<rparr>), Some pkt)))) (h, None)"

partial_function (option) vlc_teardown_pool :: "pkt_heap \<Rightarrow> ptr \<Rightarrow> pkt_heap option" where
  "vlc_teardown_pool h pool =
     (case pool of
        None \<Rightarrow> Some h
      | Some pkt \<Rightarrow> do {
          n \<leftarrow> h pkt;
          vlc_teardown_pool (h(pkt := None)) (nd_next n) })"

definition vlc_get_tx_buffer :: "drv \<Rightarrow> (nat \<times> drv) option" where
  "vlc_get_tx_buffer s = do {
     pkt \<leftarrow> ppool s;
     n \<leftarrow> mem s pkt;
     let s = s\<lparr>ppool := nd_next n\<rparr>;
     Some (pkt, if ppool s = None then s\<lparr>stopped := True\<rparr> else s) }"

definition vlc_release_buffer :: "nat \<Rightarrow> drv \<Rightarrow> drv option" where
  "vlc_release_buffer pkt s = do {
     n \<leftarrow> mem s pkt;
     let nxt = ppool s;
     let s = s\<lparr>mem := (mem s)(pkt \<mapsto> n\<lparr>nd_next := nxt\<rparr>), ppool := Some pkt\<rparr>;
     Some (if stopped s \<and> nxt = None \<and> \<not> flag_exit s then s\<lparr>stopped := False\<rparr> else s) }"

section \<open>The transmit queue\<close>

partial_function (option) last_pkt :: "pkt_heap \<Rightarrow> nat \<Rightarrow> nat option" where
  "last_pkt h pkt = do {
     n \<leftarrow> h pkt;
     (case nd_next n of None \<Rightarrow> Some pkt | Some nxt \<Rightarrow> last_pkt h nxt) }"

definition vlc_enqueue_pkt :: "nat \<Rightarrow> drv \<Rightarrow> drv option" where
  "vlc_enqueue_pkt pkt s =
     (case tx_queue s of
        None \<Rightarrow> Some (s\<lparr>tx_queue := Some pkt\<rparr>)
      | Some first \<Rightarrow> do {
          l \<leftarrow> last_pkt (mem s) first;
          n \<leftarrow> mem s l;
          Some (s\<lparr>mem := (mem s)(l \<mapsto> n\<lparr>nd_next := Some pkt\<rparr>)\<rparr>) })"

definition vlc_dequeue_pkt :: "drv \<Rightarrow> (ptr \<times> drv) option" where
  "vlc_dequeue_pkt s =
     (case tx_queue s of
        None \<Rightarrow> Some (None, s)
      | Some pkt \<Rightarrow> do { n \<leftarrow> mem s pkt; Some (Some pkt, s\<lparr>tx_queue := nd_next n\<rparr>) })"

text \<open>The transmit entry point of the network device; \<open>skb\<close> are the bytes of the socket buffer.\<close>

definition vlc_tx :: "u8 list \<Rightarrow> drv \<Rightarrow> (int \<times> drv) option" where
  "vlc_tx skb s = do {
     (pkt, s) \<leftarrow> vlc_get_tx_buffer s;
     n \<leftarrow> mem s pkt;
     d \<leftarrow> cput (pk_data (nd_data n)) 0 skb;
     let s = s\<lparr>mem := (mem s)(pkt \<mapsto>
       n\<lparr>nd_next := None, nd_data := (nd_data n)\<lparr>datalen := int (length skb), pk_data := d\<rparr>\<rparr>)\<rparr>;
     s \<leftarrow> vlc_enqueue_pkt pkt s;
     Some (0, s) }"

text \<open>\<^verbatim>\<open>kfree\<close>: nothing for \<^verbatim>\<open>NULL\<close>; freeing a block that is not allocated is a fault.\<close>

definition kfree :: "pkt_heap \<Rightarrow> ptr \<Rightarrow> pkt_heap option" where
  "kfree h p = (case p of None \<Rightarrow> Some h | Some a \<Rightarrow> if h a = None then None else Some (h(a := None)))"

text \<open>The part of \<^verbatim>\<open>cleanup_module\<close> that owns the buffers: every queued packet goes back to the pool, then
  the pool and the packet \<^verbatim>\<open>tx_pkt\<close> are freed.\<close>

partial_function (option) drain_queue :: "drv \<Rightarrow> drv option" where
  "drain_queue s =
     (if tx_queue s = None then Some s
      else do {
        (p, s) \<leftarrow> vlc_dequeue_pkt s;
        pkt \<leftarrow> p;
        s \<leftarrow> vlc_release_buffer pkt s;
        drain_queue s })"

definition cleanup_buffers :: "drv \<Rightarrow> pkt_heap option" where
  "cleanup_buffers s = do {
     s \<leftarrow> drain_queue s;
     h \<leftarrow> vlc_teardown_pool (mem s) (ppool s);
     kfree h (tx_pkt s) }"

section \<open>Framing into the shared memory\<close>

definition num_blocks :: "u16 \<Rightarrow> int" where
  "num_blocks packet_length =
     (if uint packet_length mod block_size \<noteq> 0 then uint packet_length div block_size + 1
      else uint packet_length div block_size)"

text \<open>The parity of one block is stored behind the packet; the result is the new buffer contents.\<close>

definition add_parity :: "rs_control \<Rightarrow> u16 \<Rightarrow> u8 list \<Rightarrow> u8 list option" where
  "add_parity rs packet_length data =
    (let num_of_blocks = num_blocks packet_length in
     cfor 0 num_of_blocks (\<lambda>index_block data. do {
       (ret, par) \<leftarrow>
         (if index_block < num_of_blocks - 1
          then encode_rs8 rs (drop (nat (index_block * block_size)) data) block_size
                 (replicate (nat ECC_LEN) 0) 0
          else encode_rs8 rs (drop (nat (index_block * block_size)) data)
                 (uint packet_length mod block_size) (replicate (nat ECC_LEN) 0) 0);
       cfor 0 ECC_LEN (\<lambda>i data. do {
         p \<leftarrow> ard par i;
         awr data (uint packet_length + index_block * ECC_LEN + i) (ucast p) }) data }) data)"

definition write_packet_to_pru_memory ::
    "rs_control \<Rightarrow> u8 list \<Rightarrow> u16 \<Rightarrow> u8 list \<Rightarrow> (u16 \<times> u8 list \<times> u8 list) option" where
  "write_packet_to_pru_memory rs data curr_idx pru0 = do {
     len \<leftarrow> rd16 data 0;
     let packet_length = len + (OTHER_PACKET_CONTENT_BYTE + 2);
     data \<leftarrow> add_parity rs packet_length data;
     let packet_length = packet_length + word_of_int ECC_LEN;
     bytes \<leftarrow> cget data 0 (uint packet_length);
     pru0 \<leftarrow> cput pru0 (uint curr_idx) bytes;
     Some (curr_idx + packet_length, data, pru0) }"

text \<open>The handler of the periodic timer; \<open>q\<close> is the buffer of the quality packet. Its first half: the next
  packet, or the quality packet, goes into the ring.\<close>

definition handler_write :: "rs_control \<Rightarrow> u8 list \<Rightarrow> drv \<Rightarrow> (drv \<times> u8 list) option" where
  "handler_write rs q s = do {
     w \<leftarrow> rd16 (pru s) 0;
     let s = s\<lparr>write_idx := w\<rparr>;
     (s, q) \<leftarrow>
       (case tx_queue s of
          Some first \<Rightarrow> do {
            (p, s) \<leftarrow> vlc_dequeue_pkt s;
            let s = s\<lparr>tx_pkt := p\<rparr>;
            pkt \<leftarrow> p;
            n \<leftarrow> mem s pkt;
            (w, d, m) \<leftarrow> write_packet_to_pru_memory rs (pk_data (nd_data n)) (write_idx s) (pru s);
            let s = s\<lparr>mem := (mem s)(pkt \<mapsto> n\<lparr>nd_data := (nd_data n)\<lparr>pk_data := d\<rparr>\<rparr>),
              pru := m, write_idx := w\<rparr>;
            s \<leftarrow> vlc_release_buffer pkt s;
            Some (s, q) }
        | None \<Rightarrow> do {
            (w, d, m) \<leftarrow> write_packet_to_pru_memory rs q (write_idx s) (pru s);
            Some (s\<lparr>pru := m, write_idx := w\<rparr>, d) });
     let s = (if write_idx s \<ge> BUFFER_LIMIT then s\<lparr>write_idx := 4\<rparr> else s);
     Some (s\<lparr>is_write_next := False\<rparr>, q) }"

definition phy_timer_handler :: "rs_control \<Rightarrow> u8 list \<Rightarrow> drv \<Rightarrow> (drv \<times> u8 list) option" where
  "phy_timer_handler rs q s = do {
     (s, q) \<leftarrow> (if is_write_next s then handler_write rs q s else Some (s, q));
     rd \<leftarrow> rd16 (pru s) 2;
     let s = s\<lparr>read_idx := rd\<rparr>;
     if read_idx s \<noteq> write_idx s then do {
       m \<leftarrow> cput (pru s) 0 (le16 (write_idx s));
       Some (s\<lparr>pru := m, is_write_next := True\<rparr>, q) }
     else Some (s, q) }"

text \<open>The packet sent when there is nothing else: length, dummy node, transmitter, sequence number and
  a constant payload, written into a buffer \<open>d\<close>.\<close>

definition init_vlc_quality_packet :: "u8 list \<Rightarrow> (u8 list \<times> int) option" where
  "init_vlc_quality_packet d = do {
     let packet_length = (74 :: u16);
     let idx = 0;
     d \<leftarrow> cput d idx (le16 packet_length);
     let idx = idx + 2;
     d \<leftarrow> cput d idx (le16 99);
     let idx = idx + 2;
     d \<leftarrow> cput d idx (le16 1);
     let idx = idx + 2;
     d \<leftarrow> cput d idx (le32 100);
     let idx = idx + 4;
     cfor 0 (uint packet_length) (\<lambda>i (d, idx). do {
       d \<leftarrow> awr d idx (0xCA AND 0xff);
       Some (d, idx + 1) }) (d, idx) }"

section \<open>Device header and configuration\<close>

definition be16 :: "u16 \<Rightarrow> u8 list" where
  "be16 x = [ucast (drop_bit 8 x), ucast x]"

text \<open>\<^verbatim>\<open>struct vlchdr\<close>: destination, source, protocol.\<close>

definition vlc_header :: "u8 list \<Rightarrow> u8 list \<Rightarrow> u16 \<Rightarrow> u8 list option \<Rightarrow> u8 list option \<Rightarrow> (int \<times> u8 list) option" where
  "vlc_header dev_addr skb type daddr saddr = do {
     let src = (case saddr of Some a \<Rightarrow> a | None \<Rightarrow> dev_addr);
     let dst = (case daddr of Some a \<Rightarrow> a | None \<Rightarrow> dev_addr);
     src \<leftarrow> cget src 0 2;
     dst \<leftarrow> cget dst 0 2;
     b \<leftarrow> ard dst 1;
     dst \<leftarrow> awr dst 1 (b XOR 1);
     Some (6, dst @ src @ be16 type @ skb) }"

definition vlc_rebuild_header :: "u8 list \<Rightarrow> u8 list \<Rightarrow> (int \<times> u8 list) option" where
  "vlc_rebuild_header dev_addr skb = do {
     a \<leftarrow> cget dev_addr 0 2;
     skb \<leftarrow> cput skb 2 a;
     skb \<leftarrow> cput skb 0 a;
     b \<leftarrow> ard skb 1;
     skb \<leftarrow> awr skb 1 (b XOR 1);
     Some (0, skb) }"

text \<open>\<^verbatim>\<open>vlc_type_trans\<close>: the protocol in network byte order and the bytes behind the header.\<close>

definition vlc_type_trans :: "u8 list \<Rightarrow> (u8 list \<times> u8 list) option" where
  "vlc_type_trans skb = do {
     hi \<leftarrow> ard skb 4;
     lo \<leftarrow> ard skb 5;
     Some (if uint (of_le16 lo hi) \<ge> 1536 then [hi, lo] else be16 1, drop 6 skb) }"

record ifmap =
  m_base_addr :: int
  m_irq :: int

record net_device =
  nd_up :: bool
  nd_base_addr :: int
  nd_irq :: int

definition EBUSY :: int where "EBUSY = 16"
definition EOPNOTSUPP :: int where "EOPNOTSUPP = 95"
definition EFAULT :: int where "EFAULT = 14"
definition EINVAL :: int where "EINVAL = 22"

definition vlc_config :: "ifmap \<Rightarrow> net_device \<Rightarrow> int \<times> net_device" where
  "vlc_config m dev =
     (if nd_up dev then (- EBUSY, dev)
      else if m_base_addr m \<noteq> nd_base_addr dev then (- EOPNOTSUPP, dev)
      else (0, if m_irq m \<noteq> nd_irq dev then dev\<lparr>nd_irq := m_irq m\<rparr> else dev))"

text \<open>\<^verbatim>\<open>proc_write\<close>: a decimal number up to a newline or \<^verbatim>\<open>NUL\<close>; \<open>user i\<close> is the user byte at offset
  \<open>i\<close>, \<open>None\<close> where it cannot be read. The result is the return value and the new value, if any.\<close>

fun proc_write_loop :: "(nat \<Rightarrow> u8 option) \<Rightarrow> nat \<Rightarrow> nat \<Rightarrow> u32 \<Rightarrow> int \<times> u32 option" where
  "proc_write_loop user 0 len acc = (int len, Some acc)"
| "proc_write_loop user (Suc count) len acc =
     (case user len of
        None \<Rightarrow> (- EFAULT, None)
      | Some b \<Rightarrow>
          let c = ucast b :: u32; len = len + 1 in
          if c = 10 \<or> c = 0 then (int len, Some acc)
          else let v = c - 48 in
            if v > 9 then (- EINVAL, None)
            else proc_write_loop user count len (acc * 10 + v))"

definition proc_write :: "(nat \<Rightarrow> u8 option) \<Rightarrow> nat \<Rightarrow> int \<times> u32 option" where
  "proc_write user count = proc_write_loop user count 0 0"

section \<open>Pool and queue as lists\<close>

lemma chain_unique: "chain h p as \<Longrightarrow> chain h p bs \<Longrightarrow> as = bs"
proof (induction as arbitrary: p bs)
  case Nil
  then show ?case by (cases bs) auto
next
  case (Cons a as)
  then show ?case by (cases bs) auto
qed

definition chain_list :: "'a heap \<Rightarrow> ptr \<Rightarrow> nat list" where
  "chain_list h p = (THE as. chain h p as)"

lemma chain_list_eq: "chain h p as \<Longrightarrow> chain_list h p = as"
  unfolding chain_list_def by (rule the_equality) (auto dest: chain_unique)

lemma last_pkt_chain: "chain h (Some a) (a # as) \<Longrightarrow> last_pkt h a = Some (last (a # as))"
proof (induction as arbitrary: a)
  case Nil
  then show ?case by (auto simp: last_pkt.simps)
next
  case (Cons b as)
  then have "nd_next (the (h a)) = Some b" "h a \<noteq> None" "chain h (Some b) (b # as)" by auto
  with Cons.IH[of b] show ?case by (subst last_pkt.simps) auto
qed

text \<open>The bytes a buffer holds.\<close>

definition pkt_bytes :: "pkt_heap \<Rightarrow> nat \<Rightarrow> u8 list" where
  "pkt_bytes h a = (let b = nd_data (the (h a)) in take (nat (datalen b)) (pk_data b))"

text \<open>The pool \<open>as\<close> and the transmit queue \<open>bs\<close> share no buffer, and the device queue is stopped exactly
  while the pool is empty.\<close>

definition drv_at :: "drv \<Rightarrow> nat list \<Rightarrow> nat list \<Rightarrow> bool" where
  "drv_at s as bs \<longleftrightarrow> chain (mem s) (ppool s) as \<and> chain (mem s) (tx_queue s) bs
     \<and> distinct (as @ bs) \<and> (stopped s \<longleftrightarrow> as = []) \<and> \<not> flag_exit s
     \<and> (\<forall>a\<in>set (as @ bs). length (pk_data (nd_data (the (mem s a)))) = PKT_DATA
          \<and> 0 \<le> datalen (nd_data (the (mem s a))) \<and> datalen (nd_data (the (mem s a))) \<le> int PKT_DATA)"

lemma drv_at_unique: "drv_at s as bs \<Longrightarrow> drv_at s as' bs' \<Longrightarrow> as' = as \<and> bs' = bs"
  unfolding drv_at_def using chain_unique by blast

lemma chain_other: "chain h p as \<Longrightarrow> a \<notin> set as \<Longrightarrow> chain (h(a := v)) p as"
  by (erule chain_cong) auto

lemma vlc_enqueue_chain:
  assumes "chain (mem s) (tx_queue s) bs" and "distinct bs" and "a \<notin> set bs"
    and "mem s a \<noteq> None" and "(mem s a \<bind> nd_next) = None"
  shows "\<exists>s'. vlc_enqueue_pkt a s = Some s' \<and> chain (mem s') (tx_queue s') (bs @ [a])
    \<and> ppool s' = ppool s \<and> stopped s' = stopped s \<and> flag_exit s' = flag_exit s
    \<and> (\<forall>c. c \<notin> set bs \<longrightarrow> mem s' c = mem s c)
    \<and> (\<forall>c. map_option nd_data (mem s' c) = map_option nd_data (mem s c))"
proof (cases bs)
  case Nil
  with assms show ?thesis by (auto simp: vlc_enqueue_pkt_def)
next
  case (Cons b cs)
  then have q: "tx_queue s = Some b" using assms(1) by simp
  let ?l = "last bs"
  have l: "last_pkt (mem s) b = Some ?l" using last_pkt_chain[of "mem s" b cs] assms(1) q Cons by simp
  have ne: "?l \<in> set bs" using Cons by (intro last_in_set) simp
  from chain_nodes[OF assms(1) this] obtain n where n: "mem s ?l = Some n" by blast
  have la: "?l \<noteq> a" using assms(3) ne by auto
  have bl: "c \<noteq> ?l" if "c \<in> set (butlast bs)" for c
    using that assms(2) Cons
    by (metis append_butlast_last_id disjoint_iff distinct_append list.distinct(1) list.set_intros(1))
  let ?h = "(mem s)(?l \<mapsto> n\<lparr>nd_next := Some a\<rparr>)"
  have "chain ?h (tx_queue s) (bs @ [a])"
    using assms Cons la bl by (intro chain_snoc[of "mem s"]) auto
  moreover have "vlc_enqueue_pkt a s = Some (s\<lparr>mem := ?h\<rparr>)"
    by (simp add: vlc_enqueue_pkt_def q l n)
  ultimately show ?thesis using n ne by auto
qed

lemma nd_data_cong:
  "map_option nd_data (h' c) = map_option nd_data (h c) \<Longrightarrow> h c \<noteq> None \<Longrightarrow> nd_data (the (h' c)) = nd_data (the (h c))"
  by (cases "h' c"; cases "h c") auto

lemma vlc_tx_ok:
  assumes at: "drv_at s (a # as) bs" and len: "length skb \<le> PKT_DATA"
  shows "\<exists>s'. vlc_tx skb s = Some (0, s') \<and> drv_at s' as (bs @ [a])
    \<and> map (pkt_bytes (mem s')) (bs @ [a]) = map (pkt_bytes (mem s)) bs @ [skb]
    \<and> (\<forall>c\<in>set bs. nd_data (the (mem s' c)) = nd_data (the (mem s c)))
    \<and> pk_data (nd_data (the (mem s' a))) = skb @ drop (length skb) (pk_data (nd_data (the (mem s a))))"
proof -
  have ch: "chain (mem s) (Some a) (a # as)" "ppool s = Some a" "chain (mem s) (tx_queue s) bs"
    and ds: "distinct (a # as @ bs)" using at by (auto simp: drv_at_def)
  obtain n where n: "mem s a = Some n" "chain (mem s) (nd_next n) as" using ch(1) by auto
  have ld: "length (pk_data (nd_data n)) = PKT_DATA" using at n(1) by (auto simp: drv_at_def)
  let ?s1 = "(if nd_next n = None then s\<lparr>ppool := nd_next n, stopped := True\<rparr> else s\<lparr>ppool := nd_next n\<rparr>)"
  have get: "vlc_get_tx_buffer s = Some (a, ?s1)"
    by (simp add: vlc_get_tx_buffer_def ch(2) n(1) Let_def)
  let ?d = "skb @ drop (length skb) (pk_data (nd_data n))"
  let ?n = "n\<lparr>nd_next := None, nd_data := (nd_data n)\<lparr>datalen := int (length skb), pk_data := ?d\<rparr>\<rparr>"
  let ?s2 = "?s1\<lparr>mem := (mem s)(a \<mapsto> ?n)\<rparr>"
  have d: "cput (pk_data (nd_data n)) 0 skb = Some ?d" using len ld by (simp add: cput_0)
  have tq: "chain (mem ?s2) (tx_queue ?s2) bs" "chain (mem ?s2) (ppool ?s2) as"
    using ds ch n by (auto intro!: chain_other)
  from vlc_enqueue_chain[OF tq(1), of a] ds obtain s' where s': "vlc_enqueue_pkt a ?s2 = Some s'"
    "chain (mem s') (tx_queue s') (bs @ [a])" "ppool s' = ppool ?s2" "stopped s' = stopped ?s2"
    "flag_exit s' = flag_exit ?s2"
    and out: "\<And>c. c \<notin> set bs \<Longrightarrow> mem s' c = mem ?s2 c"
    and dat: "\<And>c. map_option nd_data (mem s' c) = map_option nd_data (mem ?s2 c)" by auto
  have pool: "chain (mem s') (ppool s') as"
    unfolding s'(3)
  proof (rule chain_cong[OF tq(2)])
    fix c assume "c \<in> set as"
    with ds have "c \<notin> set bs" by auto
    then show "mem s' c = mem ?s2 c" by (rule out)
  qed
  have nn: "mem ?s2 c \<noteq> None" if "c \<in> set (as @ a # bs)" for c
    using that chain_nodes[OF tq(1), of c] chain_nodes[OF tq(2), of c] by auto
  have dc: "nd_data (the (mem s' c)) = (if c = a then nd_data ?n else nd_data (the (mem s c)))"
    if "c \<in> set (as @ a # bs)" for c
    using nd_data_cong[of "mem s'" c "mem ?s2", OF dat nn[OF that]] by simp
  have st: "stopped s' \<longleftrightarrow> as = []" "\<not> flag_exit s'"
    using at n s'(4,5) by (cases as; auto simp: drv_at_def)+
  have "drv_at s' as (bs @ [a])"
    using s'(2) pool ds st dc at len ld by (auto simp: drv_at_def)
  moreover have "map (pkt_bytes (mem s')) (bs @ [a]) = map (pkt_bytes (mem s)) bs @ [skb]"
    using dc ds by (auto simp: pkt_bytes_def Let_def)
  moreover have "vlc_tx skb s = Some (0, s')"
    using get n d s'(1) by (cases "nd_next n") (simp_all add: vlc_tx_def Let_def)
  moreover have "\<forall>c\<in>set bs. nd_data (the (mem s' c)) = nd_data (the (mem s c))" using dc ds by auto
  moreover have "pk_data (nd_data (the (mem s' a))) = skb @ drop (length skb) (pk_data (nd_data (the (mem s a))))"
    using dc[of a] n(1) by simp
  ultimately show ?thesis by blast
qed

lemma vlc_dequeue_ok:
  assumes "drv_at s as (b # bs)"
  shows "\<exists>n. mem s b = Some n \<and> vlc_dequeue_pkt s = Some (Some b, s\<lparr>tx_queue := nd_next n\<rparr>)
    \<and> chain (mem s) (nd_next n) bs"
  using assms by (auto simp: drv_at_def vlc_dequeue_pkt_def)

text \<open>Giving the buffer of a dequeued packet back, possibly after its contents were changed.\<close>

lemma vlc_release_ok:
  assumes at: "drv_at s as (b # bs)" and n: "mem s b = Some n"
    and t: "mem t = (mem s)(b \<mapsto> n')" "ppool t = ppool s" "tx_queue t = nd_next n" "stopped t = stopped s"
      "flag_exit t = flag_exit s"
    and n': "length (pk_data (nd_data n')) = PKT_DATA" "0 \<le> datalen (nd_data n')" "datalen (nd_data n') \<le> int PKT_DATA"
  shows "\<exists>s'. vlc_release_buffer b t = Some s' \<and> drv_at s' (b # as) bs
    \<and> map (pkt_bytes (mem s')) bs = map (pkt_bytes (mem s)) bs
    \<and> pru s' = pru t \<and> write_idx s' = write_idx t \<and> read_idx s' = read_idx t \<and> is_write_next s' = is_write_next t
    \<and> tx_pkt s' = tx_pkt t"
proof -
  have ch: "chain (mem s) (ppool s) as" "chain (mem s) (nd_next n) bs" and ds: "distinct (as @ b # bs)"
    using at n by (auto simp: drv_at_def)
  let ?h = "(mem s)(b \<mapsto> n'\<lparr>nd_next := ppool s\<rparr>)"
  let ?s' = "(if stopped s \<and> ppool s = None then t\<lparr>mem := ?h, ppool := Some b, stopped := False\<rparr>
     else t\<lparr>mem := ?h, ppool := Some b\<rparr>)"
  have ex: "\<not> flag_exit s" using at by (simp add: drv_at_def)
  have r: "vlc_release_buffer b t = Some ?s'"
    using t ex by (simp add: vlc_release_buffer_def Let_def)
  have c: "chain ?h (ppool s) as" "chain ?h (nd_next n) bs"
    using ds ch by (auto intro!: chain_other)
  have st: "\<not> stopped ?s'" using at t(4) by (cases as) (auto simp: drv_at_def)
  have "drv_at ?s' (b # as) bs"
    unfolding drv_at_def
  proof (intro conjI)
    show "chain (mem ?s') (ppool ?s') (b # as)" using c(1) by auto
    show "chain (mem ?s') (tx_queue ?s') bs" using c(2) t(3) by auto
    show "\<forall>a\<in>set ((b # as) @ bs). length (pk_data (nd_data (the (mem ?s' a)))) = PKT_DATA
          \<and> 0 \<le> datalen (nd_data (the (mem ?s' a))) \<and> datalen (nd_data (the (mem ?s' a))) \<le> int PKT_DATA"
      using at n' by (auto simp: drv_at_def)
  qed (use ds st ex t in auto)
  moreover have "map (pkt_bytes (mem ?s')) bs = map (pkt_bytes (mem s)) bs"
    using ds by (auto simp: pkt_bytes_def)
  ultimately show ?thesis using r by (intro exI[of _ ?s']) auto
qed

text \<open>Dequeueing a packet and releasing its buffer, contents untouched.\<close>

lemma dequeue_release:
  assumes at: "drv_at s as (b # bs)"
  shows "\<exists>n s'. mem s b = Some n \<and> vlc_dequeue_pkt s = Some (Some b, s\<lparr>tx_queue := nd_next n\<rparr>)
    \<and> vlc_release_buffer b (s\<lparr>tx_queue := nd_next n\<rparr>) = Some s' \<and> drv_at s' (b # as) bs
    \<and> map (pkt_bytes (mem s')) bs = map (pkt_bytes (mem s)) bs \<and> tx_pkt s' = tx_pkt s"
proof -
  from vlc_dequeue_ok[OF at] obtain n where n: "mem s b = Some n"
    "vlc_dequeue_pkt s = Some (Some b, s\<lparr>tx_queue := nd_next n\<rparr>)" by blast
  have nd: "length (pk_data (nd_data n)) = PKT_DATA" "0 \<le> datalen (nd_data n)" "datalen (nd_data n) \<le> int PKT_DATA"
    using at n(1) by (auto simp: drv_at_def)
  have "(mem s)(b \<mapsto> n) = mem s" using n(1) by (simp add: fun_upd_idem)
  with vlc_release_ok[OF at n(1), of "s\<lparr>tx_queue := nd_next n\<rparr>" n] nd n show ?thesis by auto
qed

section \<open>The driver queue is a bounded first-in-first-out queue\<close>

text \<open>The kernel does not call \<^verbatim>\<open>ndo_start_xmit\<close> while the device queue is stopped.\<close>

definition drv_xmit :: "u8 list \<Rightarrow> drv \<Rightarrow> (bool \<times> drv) option" where
  "drv_xmit skb s = (if stopped s then Some (False, s) else map_option (\<lambda>(ret, s). (True, s)) (vlc_tx skb s))"

definition drv_take :: "drv \<Rightarrow> (u8 list option \<times> drv) option" where
  "drv_take s = do {
     (p, s) \<leftarrow> vlc_dequeue_pkt s;
     (case p of
        None \<Rightarrow> Some (None, s)
      | Some a \<Rightarrow> do { n \<leftarrow> mem s a; s' \<leftarrow> vlc_release_buffer a s; Some (Some (pkt_bytes (mem s) a), s') }) }"

definition drv_inv :: "drv \<Rightarrow> bool" where
  "drv_inv s \<longleftrightarrow> (\<exists>as bs. drv_at s as bs)"

definition drv_items :: "drv \<Rightarrow> u8 list list" where
  "drv_items s = map (pkt_bytes (mem s)) (chain_list (mem s) (tx_queue s))"

definition drv_cap :: "drv \<Rightarrow> int" where
  "drv_cap s = int (length (chain_list (mem s) (ppool s)) + length (chain_list (mem s) (tx_queue s)))"

lemma drv_at_items: "drv_at s as bs \<Longrightarrow> drv_items s = map (pkt_bytes (mem s)) bs"
  by (auto simp: drv_items_def drv_at_def chain_list_eq)

lemma drv_at_cap: "drv_at s as bs \<Longrightarrow> drv_cap s = int (length as + length bs)"
  by (auto simp: drv_cap_def drv_at_def chain_list_eq)

lemma drv_xmit_ok:
  assumes "drv_inv s" and "length skb \<le> PKT_DATA" and "int (length (drv_items s)) < drv_cap s"
  shows "\<exists>s'. drv_xmit skb s = Some (True, s') \<and> drv_inv s' \<and> drv_items s' = drv_items s @ [skb]
    \<and> drv_cap s' = drv_cap s"
proof -
  obtain as bs where at: "drv_at s as bs" using assms(1) by (auto simp: drv_inv_def)
  with assms(3) obtain a as' where as: "as = a # as'"
    by (cases as) (auto simp: drv_at_items drv_at_cap)
  with at have "\<not> stopped s" by (simp add: drv_at_def)
  with vlc_tx_ok[OF at[unfolded as] assms(2)] at as show ?thesis
    by (fastforce simp: drv_xmit_def drv_inv_def drv_at_items drv_at_cap)
qed

lemma drv_take_ok:
  assumes "drv_inv s" and "drv_items s = x # xs"
  shows "\<exists>s'. drv_take s = Some (Some x, s') \<and> drv_inv s' \<and> drv_items s' = xs \<and> drv_cap s' = drv_cap s
    \<and> length x \<le> PKT_DATA"
proof -
  obtain as bs where at: "drv_at s as bs" using assms(1) by (auto simp: drv_inv_def)
  with assms(2) obtain b bs' where bs: "bs = b # bs'" "x = pkt_bytes (mem s) b" "xs = map (pkt_bytes (mem s)) bs'"
    by (cases bs) (auto simp: drv_at_items)
  note at' = at[unfolded bs(1)]
  from dequeue_release[OF at'] obtain n s' where n: "mem s b = Some n"
    "vlc_dequeue_pkt s = Some (Some b, s\<lparr>tx_queue := nd_next n\<rparr>)"
    and s': "vlc_release_buffer b (s\<lparr>tx_queue := nd_next n\<rparr>) = Some s'" "drv_at s' (b # as) bs'"
    "map (pkt_bytes (mem s')) bs' = map (pkt_bytes (mem s)) bs'" by blast
  have nd: "length (pk_data (nd_data n)) = PKT_DATA" "0 \<le> datalen (nd_data n)" "datalen (nd_data n) \<le> int PKT_DATA"
    using at' n(1) by (auto simp: drv_at_def)
  have "length x \<le> PKT_DATA" using nd n(1) by (simp add: bs(2) pkt_bytes_def Let_def)
  then show ?thesis
    using s' n at bs by (auto simp: drv_take_def drv_inv_def drv_at_items drv_at_cap)
qed

interpretation dq: by_value_fifo drv_inv drv_items drv_cap "\<lambda>skb s. length skb \<le> PKT_DATA" "\<lambda>skb s. skb"
    drv_xmit drv_take
proof
  show "drv_xmit p s = Some (False, s)" if "drv_inv s" "drv_cap s \<le> int (length (drv_items s))" for s p
    using that by (auto simp: drv_inv_def drv_at_cap drv_at_items drv_xmit_def) (auto simp: drv_at_def)
  show "drv_take s = Some (None, s)" if "drv_inv s" "drv_items s = []" for s
    using that by (auto simp: drv_inv_def drv_at_items drv_take_def) (auto simp: drv_at_def vlc_dequeue_pkt_def)
  show "int (length (drv_items s)) \<le> drv_cap s" if "drv_inv s" for s
    using that by (auto simp: drv_inv_def drv_at_cap drv_at_items)
qed (use drv_xmit_ok drv_take_ok in blast)+

section \<open>Building and tearing down the pool\<close>

lemma setup_pool_chain:
  assumes dist: "\<And>i j a. 0 \<le> i \<Longrightarrow> i < j \<Longrightarrow> kmalloc i = Some a \<Longrightarrow> kmalloc j \<noteq> Some a"
    and n: "0 \<le> n"
  shows "\<exists>h' pool as. vlc_setup_pool n kmalloc body h = Some (h', pool) \<and> chain h' pool as \<and> distinct as
    \<and> (\<forall>a\<in>set as. \<exists>i. nd_data (the (h' a)) = body i)
    \<and> (\<forall>a\<in>set as. \<exists>i. 0 \<le> i \<and> i < n \<and> kmalloc i = Some a) \<and> (\<forall>a. a \<notin> set as \<longrightarrow> h' a = h a)
    \<and> ((\<forall>i. 0 \<le> i \<longrightarrow> i < n \<longrightarrow> kmalloc i \<noteq> None) \<longrightarrow> length as = nat n)"
proof -
  let ?f = "\<lambda>i (h, pool). Some (case kmalloc i of
          None \<Rightarrow> (True, (h, pool))
        | Some pkt \<Rightarrow> (False, (h(pkt \<mapsto> \<lparr>nd_data = body i, nd_next = pool\<rparr>), Some pkt)))"
  let ?G = "\<lambda>as (h', pool). chain h' pool as \<and> distinct as \<and> (\<forall>a\<in>set as. \<exists>i. nd_data (the (h' a)) = body i)
    \<and> (\<forall>a\<in>set as. \<exists>i. 0 \<le> i \<and> i < n \<and> kmalloc i = Some a) \<and> (\<forall>a. a \<notin> set as \<longrightarrow> h' a = h a)"
  let ?I = "\<lambda>k t. \<exists>as. ?G as t \<and> length as = nat k \<and> (\<forall>a\<in>set as. \<exists>i. 0 \<le> i \<and> i < k \<and> kmalloc i = Some a)"
  let ?Q = "\<lambda>t. \<exists>as. ?G as t \<and> ((\<forall>i. 0 \<le> i \<longrightarrow> i < n \<longrightarrow> kmalloc i \<noteq> None) \<longrightarrow> length as = nat n)"
  have "\<exists>t. cforb 0 n ?f (h, None) = Some t \<and> ?Q t"
  proof (rule cforb_total[where I = ?I])
    fix k t assume k: "0 \<le> k" "k < n" and "?I k t"
    then obtain as h' pool where as: "t = (h', pool)" "?G as (h', pool)" "length as = nat k"
      "\<forall>a\<in>set as. \<exists>i. 0 \<le> i \<and> i < k \<and> kmalloc i = Some a" by (cases t) auto
    show "\<exists>brk t'. ?f k t = Some (brk, t') \<and> (if brk then ?Q t' else ?I (k + 1) t')"
    proof (cases "kmalloc k")
      case None
      then have "?Q (h', pool)" using as(2) k by (intro exI[of _ as]) auto
      with None as(1) show ?thesis by auto
    next
      case (Some a)
      then have a: "a \<notin> set as" using as(4) dist k by fastforce
      let ?h = "h'(a \<mapsto> \<lparr>nd_data = body k, nd_next = pool\<rparr>)"
      have "chain ?h pool as" using as(2) a by (auto intro!: chain_other)
      then have "?G (a # as) (?h, Some a)" using as(2) a Some k by auto
      moreover have "length (a # as) = nat (k + 1)" using as(3) k by (simp add: nat_add_distrib)
      moreover have "\<exists>i. 0 \<le> i \<and> i < k + 1 \<and> kmalloc i = Some b" if "b \<in> set (a # as)" for b
        using that as(4) Some k by (auto intro: exI[of _ k]) force
      ultimately have "?I (k + 1) (?h, Some a)" by blast
      with Some as(1) show ?thesis by auto
    qed
  next
    show "?I 0 (h, None)" by (intro exI[of _ "[]"]) simp
    fix t assume "?I n t"
    then show "?Q t" by blast
  qed (use n in simp)
  then show ?thesis by (auto simp: vlc_setup_pool_def)
qed

text \<open>\<^verbatim>\<open>vlc_init\<close> leaves the pool full and the queue empty; \<open>kmalloc (- 1)\<close> is the allocation of
  \<^verbatim>\<open>tx_pkt\<close>, which comes before those of the pool.\<close>

definition drv_init :: "int \<Rightarrow> (int \<Rightarrow> ptr) \<Rightarrow> (int \<Rightarrow> pkt_body) \<Rightarrow> pkt_heap \<Rightarrow> u8 list \<Rightarrow> drv option" where
  "drv_init pool_size kmalloc body h m = do {
     let tx = kmalloc (- 1);
     let h = (case tx of None \<Rightarrow> h | Some a \<Rightarrow> h(a \<mapsto> \<lparr>nd_data = body (- 1), nd_next = None\<rparr>));
     (h, pool) \<leftarrow> vlc_setup_pool pool_size kmalloc body h;
     Some \<lparr>mem = h, ppool = pool, tx_queue = None, stopped = False, flag_exit = False, pru = m,
           write_idx = 4, read_idx = 4, is_write_next = True, tx_pkt = tx\<rparr> }"

lemma drv_init_ok:
  assumes dist: "\<And>i j a. - 1 \<le> i \<Longrightarrow> i < j \<Longrightarrow> kmalloc i = Some a \<Longrightarrow> kmalloc j \<noteq> Some a"
    and mem: "\<And>i. - 1 \<le> i \<Longrightarrow> i < n \<Longrightarrow> kmalloc i \<noteq> None" and n: "0 < n"
    and body: "\<And>i. length (pk_data (body i)) = PKT_DATA \<and> 0 \<le> datalen (body i) \<and> datalen (body i) \<le> int PKT_DATA"
  shows "\<exists>s as a. drv_init n kmalloc body h m = Some s \<and> drv_at s as [] \<and> length as = nat n
    \<and> tx_pkt s = Some a \<and> a \<notin> set as \<and> (\<forall>c. mem s c = None \<longleftrightarrow> c \<notin> set (a # as) \<and> h c = None)
    \<and> (\<forall>c\<in>set (a # as). \<exists>i. - 1 \<le> i \<and> i < n \<and> kmalloc i = Some c)"
proof -
  have n0: "0 \<le> n" using n by simp
  obtain a where a: "kmalloc (- 1) = Some a" using mem[of "- 1"] n by auto
  let ?h = "h(a \<mapsto> \<lparr>nd_data = body (- 1), nd_next = None\<rparr>)"
  from setup_pool_chain[of kmalloc n body ?h, OF _ n0] dist mem obtain h' pool as where
    c: "vlc_setup_pool n kmalloc body ?h = Some (h', pool)" "chain h' pool as" "distinct as" "length as = nat n"
    and b: "\<forall>a\<in>set as. \<exists>i. nd_data (the (h' a)) = body i" "\<forall>a\<in>set as. \<exists>i. 0 \<le> i \<and> i < n \<and> kmalloc i = Some a"
      "\<forall>c. c \<notin> set as \<longrightarrow> h' c = ?h c" by (smt (verit))
  have "as \<noteq> []" using c(4) n by auto
  moreover have "length (pk_data (nd_data (the (h' a)))) = PKT_DATA \<and> 0 \<le> datalen (nd_data (the (h' a)))
      \<and> datalen (nd_data (the (h' a))) \<le> int PKT_DATA" if "a \<in> set as" for a
    using b(1) body that by (metis (no_types))
  moreover have al: "a \<notin> set as" using a b(2) dist[of "- 1" _ a] by fastforce
  moreover have "h' c = None \<longleftrightarrow> c \<notin> set (a # as) \<and> h c = None" for c
    using spec[OF b(3), of c] chain_nodes[OF c(2), of c] by (auto split: if_splits)
  moreover have "\<forall>c\<in>set (a # as). \<exists>i. - 1 \<le> i \<and> i < n \<and> kmalloc i = Some c"
  proof
    fix c assume "c \<in> set (a # as)"
    then consider "c = a" | "c \<in> set as" by auto
    then show "\<exists>i. - 1 \<le> i \<and> i < n \<and> kmalloc i = Some c"
    proof cases
      case 1
      then show ?thesis using a n by (intro exI[of _ "- 1"]) simp
    next
      case 2
      then obtain i where "0 \<le> i" "i < n" "kmalloc i = Some c" using b(2) by blast
      then show ?thesis by (intro exI[of _ i]) simp
    qed
  qed
  ultimately show ?thesis using c a
    by (auto simp: drv_init_def drv_at_def Let_def intro!: exI[of _ as])
qed

lemma teardown_frees:
  "chain h p as \<Longrightarrow> distinct as \<Longrightarrow> vlc_teardown_pool h p = Some (h |` (- set as))"
proof (induction as arbitrary: h p)
  case Nil
  then show ?case by (simp add: vlc_teardown_pool.simps restrict_map_def)
next
  case (Cons a as)
  then obtain n where n: "p = Some a" "h a = Some n" "chain h (nd_next n) as" "a \<notin> set as" by auto
  have ch: "chain (h(a := None)) (nd_next n) as" using n(3,4) by (rule chain_other)
  have ds: "distinct as" using Cons.prems(2) by simp
  note ih = Cons.IH[OF ch ds]
  have "h(a := None) |` (- set as) = h |` (- set (a # as))"
    by (rule ext) (simp add: restrict_map_def)
  with ih show ?case
    by (subst vlc_teardown_pool.simps) (simp only: n(1,2) option.case Option.bind.simps)
qed

lemma release_dom: "vlc_release_buffer b t = Some s' \<Longrightarrow> mem s' c = None \<longleftrightarrow> mem t c = None"
  by (auto simp: vlc_release_buffer_def Let_def split: Option.bind_splits if_splits)

lemma drain_queue_ok:
  "drv_at s as bs \<Longrightarrow> \<exists>s'. drain_queue s = Some s' \<and> drv_at s' (rev bs @ as) []
     \<and> (\<forall>c. mem s' c = None \<longleftrightarrow> mem s c = None) \<and> tx_pkt s' = tx_pkt s"
proof (induction bs arbitrary: s as)
  case Nil
  then show ?case by (auto simp: drv_at_def drain_queue.simps)
next
  case (Cons b bs)
  from dequeue_release[OF Cons.prems] obtain n s' where n: "mem s b = Some n"
    "vlc_dequeue_pkt s = Some (Some b, s\<lparr>tx_queue := nd_next n\<rparr>)"
    "vlc_release_buffer b (s\<lparr>tx_queue := nd_next n\<rparr>) = Some s'" "drv_at s' (b # as) bs" "tx_pkt s' = tx_pkt s" by blast
  have "tx_queue s = Some b" using Cons.prems by (simp add: drv_at_def)
  then have "drain_queue s = drain_queue s'" by (subst drain_queue.simps) (simp add: n(2,3))
  with Cons.IH[OF n(4)] release_dom[OF n(3)] n(5) show ?case by auto
qed

text \<open>Unloading frees every buffer of pool and queue and then \<^verbatim>\<open>tx_pkt\<close>. That is right exactly as long as
  \<^verbatim>\<open>tx_pkt\<close> is not one of these buffers.\<close>

lemma cleanup_teardown:
  assumes "drv_at s as bs"
  shows "\<exists>h. cleanup_buffers s = kfree h (tx_pkt s) \<and> (\<forall>c. h c = None \<longleftrightarrow> c \<in> set (as @ bs) \<or> mem s c = None)"
proof -
  from drain_queue_ok[OF assms] obtain s' where s': "drain_queue s = Some s'" "drv_at s' (rev bs @ as) []"
    "\<forall>c. mem s' c = None \<longleftrightarrow> mem s c = None" "tx_pkt s' = tx_pkt s" by blast
  then have "vlc_teardown_pool (mem s') (ppool s') = Some (mem s' |` (- set (rev bs @ as)))"
    by (intro teardown_frees) (auto simp: drv_at_def)
  then have "cleanup_buffers s = kfree (mem s' |` (- set (rev bs @ as))) (tx_pkt s)"
    using s' by (simp add: cleanup_buffers_def)
  then show ?thesis using s'(3) by (intro exI[of _ "mem s' |` (- set (rev bs @ as))"]) (auto simp: restrict_map_def)
qed

lemma cleanup_frees:
  assumes "drv_at s as bs" and "tx_pkt s = Some a" "a \<notin> set (as @ bs)" "mem s a \<noteq> None"
  shows "\<exists>h. cleanup_buffers s = Some h \<and> (\<forall>c. h c = None \<longleftrightarrow> c \<in> set (a # as @ bs) \<or> mem s c = None)"
proof -
  from cleanup_teardown[OF assms(1)] obtain h where h: "cleanup_buffers s = kfree h (tx_pkt s)"
    "\<forall>c. h c = None \<longleftrightarrow> c \<in> set (as @ bs) \<or> mem s c = None" by blast
  have "h a \<noteq> None" using spec[OF h(2), of a] assms(3,4) by simp
  then have "cleanup_buffers s = Some (h(a := None))" using h(1) assms(2) by (simp add: kfree_def)
  with h(2) show ?thesis by auto
qed

lemma cleanup_double_free:
  assumes "drv_at s as bs" and "tx_pkt s = Some a" "a \<in> set (as @ bs)"
  shows "cleanup_buffers s = None"
proof -
  from cleanup_teardown[OF assms(1)] obtain h where h: "cleanup_buffers s = kfree h (tx_pkt s)"
    "\<forall>c. h c = None \<longleftrightarrow> c \<in> set (as @ bs) \<or> mem s c = None" by blast
  have "h a = None" using spec[OF h(2), of a] assms(3) by auto
  with h(1) assms(2) show ?thesis by (simp add: kfree_def)
qed

section \<open>Framing\<close>

text \<open>A packet of one block: the parity of the encoder goes behind it.\<close>

lemma parity_loop:
  assumes "length par = 16" and "n + 16 \<le> length data"
  shows "cfor 0 16 (\<lambda>i data. do { p \<leftarrow> ard par i; awr data (int n + i) (ucast (p :: u16)) }) data
    = Some (take n data @ map ucast par @ drop (n + 16) data)"
proof -
  let ?f = "\<lambda>i data. do { p \<leftarrow> ard par i; awr data (int n + i) (ucast p) }"
  let ?I = "\<lambda>i d. d = take n data @ map ucast (take (nat i) par) @ drop (n + nat i) data"
  have "\<exists>t. cfor 0 16 ?f data = Some t \<and> ?I 16 t"
  proof (rule cfor_total)
    fix k d assume k: "0 \<le> k" "k < (16 :: int)" and d: "?I k d"
    have nk: "nat k < length par" "n + nat k < length data" using k assms by linarith+
    then have z: "drop (n + nat k) data = data ! (n + nat k) # drop (Suc (n + nat k)) data"
      by (simp add: Cons_nth_drop_Suc)
    have "ard par k = Some (par ! nat k)" using nk k by (simp add: ard_def)
    moreover have "awr d (int n + k) v
        = Some (take n data @ map ucast (take (nat k) par) @ v # drop (Suc (n + nat k)) data)" for v
      using nk k assms unfolding d z by (simp add: awr_def nat_add_distrib list_update_append)
    ultimately show "\<exists>t'. ?f k d = Some t' \<and> ?I (k + 1) t'"
      using k nk by (simp add: nat_add_distrib take_Suc_conv_app_nth)
  qed simp_all
  then show ?thesis using assms by simp
qed

lemma add_parity_block:
  assumes n: "0 < n" "n < 200" "n + 16 \<le> length data" and pl: "unat packet_length = n"
  shows "\<exists>par. encode_rs8 (vlc_rs u) data (int n) (replicate 16 0) 0 = Some (0, par) \<and> length par = 16
    \<and> add_parity (vlc_rs u) packet_length data = Some (take n data @ map ucast par @ drop (n + 16) data)"
proof -
  have up: "uint packet_length = int n" using pl uint_unat[of packet_length] by simp
  have nr: "nroots (vlc_rs u) = 16" by (simp add: vlc_rs_def)
  obtain par where par: "encode_rs8 (vlc_rs u) data (int n) (replicate 16 0) 0 = Some (0, par)" "length par = 16"
    using vlc.encode_decode[of "int n" u data 0 0 0 None None] n by (auto simp: nr)
  have m: "int n mod 200 = int n" "int n div 200 = 0" using n by simp_all
  have nb: "num_blocks packet_length = 1" using n by (simp add: num_blocks_def up block_size_def m)
  have e: "x \<bind> cfor 1 1 f = x" for x :: "u8 list option" and f by (cases x) (simp_all add: cfor_end)
  have "add_parity (vlc_rs u) packet_length data
      = cfor 0 16 (\<lambda>i data. do { p \<leftarrow> ard par i; awr data (int n + i) (ucast p) }) data"
    unfolding add_parity_def nb Let_def
    by (subst cfor_step[of 0 1]) (simp_all add: e up block_size_def m ECC_LEN_def par(1))
  with par parity_loop[OF par(2) n(3)] show ?thesis by auto
qed

lemma write_packet_block:
  assumes l: "rd16 data 0 = Some l" "unat l < 190" and d: "length data = PKT_DATA"
    and w: "unat w + 226 \<le> length m"
  defines "n \<equiv> unat l + 10"
  shows "\<exists>par. encode_rs8 (vlc_rs u) data (int n) (replicate 16 0) 0 = Some (0, par) \<and> length par = 16
    \<and> write_packet_to_pru_memory (vlc_rs u) data w m
      = Some (w + l + 26, take n data @ map ucast par @ drop (n + 16) data,
          take (unat w) m @ take n data @ map ucast par @ drop (unat w + n + 16) m)"
proof -
  have n: "0 < n" "n < 200" "n + 16 \<le> length data" using l(2) d by (simp_all add: n_def PKT_DATA_def)
  have pl: "unat (l + 10) = n" "unat (l + 26) = n + 16"
    using l(2) by (simp_all add: n_def unat_word_ariths)
  obtain par where par: "encode_rs8 (vlc_rs u) data (int n) (replicate 16 0) 0 = Some (0, par)" "length par = 16"
    "add_parity (vlc_rs u) (l + 10) data = Some (take n data @ map ucast par @ drop (n + 16) data)"
    using add_parity_block[OF n pl(1), of u] by blast
  let ?d = "take n data @ map ucast par @ drop (n + 16) data"
  have ul: "uint (l + 26) = int (n + 16)" using pl(2) uint_unat[of "l + 26"] by simp
  have "cget ?d 0 (uint (l + 26)) = Some (take n data @ map ucast par)"
    using n par(2) unfolding ul by (simp add: cget_def)
  moreover have "uint w + (int n + 16) \<le> int (length m)"
    using n(2) w uint_unat[of w] by linarith
  then have "cput m (uint w) (take n data @ map ucast par)
      = Some (take (unat w) m @ (take n data @ map ucast par) @ drop (unat w + n + 16) m)"
    using n par(2) unfolding cput_def by (simp add: add.assoc)
  ultimately have "write_packet_to_pru_memory (vlc_rs u) data w m = Some (w + (l + 26), ?d,
      take (unat w) m @ take n data @ map ucast par @ drop (unat w + n + 16) m)"
    using l(1) par(3)
    by (simp add: write_packet_to_pru_memory_def OTHER_PACKET_CONTENT_BYTE_def ECC_LEN_def Let_def add.assoc)
  with par show ?thesis by (auto simp: add.assoc)
qed

section \<open>The timer handler\<close>

text \<open>Packets that fit one block, and a ring whose indices are inside it.\<close>

definition short_pkt :: "u8 list \<Rightarrow> bool" where
  "short_pkt d \<longleftrightarrow> length d = PKT_DATA \<and> (case rd16 d 0 of Some l \<Rightarrow> unat l < 190 | None \<Rightarrow> False)"

definition in_ring :: "u16 \<Rightarrow> bool" where
  "in_ring w \<longleftrightarrow> 4 \<le> w \<and> w < BUFFER_LIMIT"

definition ring_ok :: "drv \<Rightarrow> bool" where
  "ring_ok s \<longleftrightarrow> 6230 \<le> length (pru s) \<and> (\<exists>w. rd16 (pru s) 0 = Some w \<and> in_ring w)
     \<and> (is_write_next s \<or> in_ring (write_idx s))"

definition wrap :: "u16 \<Rightarrow> u16" where
  "wrap w = (if w \<ge> BUFFER_LIMIT then 4 else w)"

lemma rd16_low:
  assumes "take 4 m' = take 4 m" "length m' = length m" "i \<in> {0, 2}"
  shows "rd16 m' i = rd16 m i"
proof -
  have "m' ! k = m ! k" if "k < 4" for k using assms(1) that by (metis nth_take)
  with assms(2,3) show ?thesis by (auto simp: rd16_def ard_def)
qed

lemma write_packet_ring:
  assumes d: "short_pkt data" and w: "in_ring w" and m: "6230 \<le> length m"
  shows "\<exists>w' d m'. write_packet_to_pru_memory (vlc_rs u) data w m = Some (w', d, m') \<and> short_pkt d
    \<and> length m' = length m \<and> take 4 m' = take 4 m \<and> in_ring (wrap w')"
proof -
  obtain l where l: "rd16 data 0 = Some l" "unat l < 190" and ld: "length data = PKT_DATA"
    using d by (auto simp: short_pkt_def split: option.splits)
  define n where "n = unat l + 10"
  have uw: "4 \<le> unat w" "unat w < 6004" using w
    by (auto simp: in_ring_def BUFFER_LIMIT_def word_le_nat_alt word_less_nat_alt)
  then have wm: "unat w + 226 \<le> length m" using m by simp
  obtain par :: "u16 list" where par: "length par = 16" "write_packet_to_pru_memory (vlc_rs u) data w m
      = Some (w + l + 26, take n data @ map ucast par @ drop (n + 16) data,
          take (unat w) m @ take n data @ map ucast par @ drop (unat w + n + 16) m)"
    using write_packet_block[OF l ld wm, of u, folded n_def] by blast
  have n: "n < 200" "10 \<le> n" using l by (simp_all add: n_def)
  have "unat (w + l + 26) = unat w + unat l + 26"
    using uw l(2) by (simp add: unat_word_ariths)
  then have "4 \<le> w + l + 26" using uw by (simp add: word_le_nat_alt)
  then have "in_ring (wrap (w + l + 26))" by (auto simp: in_ring_def wrap_def BUFFER_LIMIT_def)
  moreover have "short_pkt (take n data @ map ucast par @ drop (n + 16) data)"
    using l ld n par(1) by (auto simp: short_pkt_def rd16_def ard_def nth_append PKT_DATA_def)
  ultimately show ?thesis using par uw wm n ld by (auto simp: PKT_DATA_def)
qed

definition handler_inv :: "drv \<Rightarrow> u8 list \<Rightarrow> bool" where
  "handler_inv s q \<longleftrightarrow> short_pkt q \<and> ring_ok s
     \<and> (\<exists>as bs. drv_at s as bs \<and> (\<forall>b\<in>set bs. short_pkt (pk_data (nd_data (the (mem s b))))))"

lemma handler_write_quality:
  assumes q: "short_pkt q" and r: "ring_ok s" and at: "drv_at s as []"
  shows "\<exists>s' q'. handler_write (vlc_rs u) q s = Some (s', q') \<and> short_pkt q' \<and> ring_ok s' \<and> drv_at s' as []
    \<and> take 4 (pru s') = take 4 (pru s) \<and> \<not> is_write_next s' \<and> tx_pkt s' = tx_pkt s"
proof -
  obtain w where w: "rd16 (pru s) 0 = Some w" "in_ring w" and m: "6230 \<le> length (pru s)"
    using r by (auto simp: ring_ok_def)
  from write_packet_ring[OF q w(2) m, of u] obtain w' d m' where
    wp: "write_packet_to_pru_memory (vlc_rs u) q w (pru s) = Some (w', d, m')" "short_pkt d"
    "length m' = length (pru s)" "take 4 m' = take 4 (pru s)" "in_ring (wrap w')" by blast
  have tq: "tx_queue s = None" using at by (simp add: drv_at_def)
  have hw: "handler_write (vlc_rs u) q s = Some (s\<lparr>pru := m', write_idx := wrap w', is_write_next := False\<rparr>, d)"
    by (simp add: handler_write_def w(1) tq wp(1) wrap_def Let_def)
  have "ring_ok (s\<lparr>pru := m', write_idx := wrap w', is_write_next := False\<rparr>)"
    using w m wp rd16_low[OF wp(4,3), of 0] by (simp add: ring_ok_def)
  then show ?thesis using hw wp at by (simp add: drv_at_def)
qed

lemma handler_write_packet:
  assumes r: "ring_ok s" and at: "drv_at s as (b # bs)" and sh: "short_pkt (pk_data (nd_data (the (mem s b))))"
  shows "\<exists>s'. handler_write (vlc_rs u) q s = Some (s', q) \<and> ring_ok s' \<and> drv_at s' (b # as) bs
    \<and> (\<forall>c\<in>set bs. nd_data (the (mem s' c)) = nd_data (the (mem s c)))
    \<and> take 4 (pru s') = take 4 (pru s) \<and> \<not> is_write_next s' \<and> tx_pkt s' = Some b
    \<and> (\<exists>w w' d. rd16 (pru s) 0 = Some w \<and> in_ring w \<and> write_idx s' = wrap w'
        \<and> write_packet_to_pru_memory (vlc_rs u) (pk_data (nd_data (the (mem s b)))) w (pru s) = Some (w', d, pru s'))"
proof -
  obtain w where w: "rd16 (pru s) 0 = Some w" "in_ring w" and m: "6230 \<le> length (pru s)"
    using r by (auto simp: ring_ok_def)
  let ?s = "s\<lparr>write_idx := w\<rparr>"
  have at1: "drv_at ?s as (b # bs)" using at by (simp add: drv_at_def)
  from vlc_dequeue_ok[OF at1] obtain n where n: "mem s b = Some n"
    "vlc_dequeue_pkt ?s = Some (Some b, ?s\<lparr>tx_queue := nd_next n\<rparr>)" by auto
  have tq: "tx_queue s = Some b" using at by (simp add: drv_at_def)
  from write_packet_ring[OF sh w(2) m, of u] n(1) obtain w' d m' where
    wp: "write_packet_to_pru_memory (vlc_rs u) (pk_data (nd_data n)) w (pru s) = Some (w', d, m')" "short_pkt d"
    "length m' = length (pru s)" "take 4 m' = take 4 (pru s)" "in_ring (wrap w')" by auto
  let ?n = "n\<lparr>nd_data := (nd_data n)\<lparr>pk_data := d\<rparr>\<rparr>"
  let ?t = "?s\<lparr>tx_queue := nd_next n, tx_pkt := Some b, mem := (mem s)(b \<mapsto> ?n), pru := m', write_idx := w'\<rparr>"
  have nd: "0 \<le> datalen (nd_data n)" "datalen (nd_data n) \<le> int PKT_DATA" "length d = PKT_DATA"
    using at n(1) wp(2) by (auto simp: drv_at_def short_pkt_def)
  from vlc_release_ok[OF at1, of n ?t ?n] n(1) nd obtain s' where
    s': "vlc_release_buffer b ?t = Some s'" "drv_at s' (b # as) bs" "pru s' = m'" "write_idx s' = w'" "tx_pkt s' = Some b" by auto
  have dat: "nd_data (the (mem s' c)) = nd_data (the (mem s c))" if "c \<in> set bs" for c
  proof -
    have "c \<noteq> b" using that at by (auto simp: drv_at_def)
    then show ?thesis using s'(1) by (auto simp: vlc_release_buffer_def Let_def split: if_splits)
  qed
  let ?s' = "s'\<lparr>write_idx := wrap w', is_write_next := False\<rparr>"
  have hw: "handler_write (vlc_rs u) q s = Some (?s', q)"
    using s' by (simp add: handler_write_def w(1) tq n wp(1) wrap_def Let_def)
  have "ring_ok ?s'" using w m wp rd16_low[OF wp(4,3), of 0] s' by (simp add: ring_ok_def)
  moreover have "drv_at ?s' (b # as) bs" using s'(2) by (simp add: drv_at_def)
  ultimately show ?thesis using hw dat s'(3,5) wp(1,4) w n(1) by auto
qed

text \<open>The handler never faults and keeps the ring index inside the ring.\<close>

lemma handler_publish:
  assumes r: "ring_ok s" "in_ring (write_idx s)"
  shows "\<exists>s'. (do { rd \<leftarrow> rd16 (pru s) 2;
      let s = s\<lparr>read_idx := rd\<rparr>;
      if read_idx s \<noteq> write_idx s then do {
        m \<leftarrow> cput (pru s) 0 (le16 (write_idx s));
        Some (s\<lparr>pru := m, is_write_next := True\<rparr>, q) }
      else Some (s, q) }) = Some (s', q) \<and> ring_ok s' \<and> mem s' = mem s \<and> tx_pkt s' = tx_pkt s
      \<and> (\<forall>as bs. drv_at s as bs \<longrightarrow> drv_at s' as bs)
      \<and> (rd16 (pru s) 2 \<noteq> Some (write_idx s) \<longrightarrow> pru s' = le16 (write_idx s) @ drop 2 (pru s) \<and> is_write_next s')"
proof -
  have m: "6230 \<le> length (pru s)" using r(1) by (simp add: ring_ok_def)
  obtain rd where rd: "rd16 (pru s) 2 = Some rd" using m by (auto simp: rd16_def ard_def)
  have c: "cput (pru s) 0 (le16 (write_idx s)) = Some (le16 (write_idx s) @ drop 2 (pru s))"
    using m by (simp add: cput_0 le16_def numeral_2_eq_2)
  have "rd16 (le16 w @ drop 2 (pru s)) 0 = Some w" for w by (simp add: rd16_def ard_def le16_def)
  then show ?thesis using r m rd c by (auto simp: ring_ok_def drv_at_def Let_def le16_def)
qed

text \<open>Once a packet was sent, \<^verbatim>\<open>tx_pkt\<close> points into the pool or the queue.\<close>

definition tx_spent :: "drv \<Rightarrow> bool" where
  "tx_spent s \<longleftrightarrow> (\<exists>as bs a. drv_at s as bs \<and> tx_pkt s = Some a \<and> a \<in> set (as @ bs))"

lemma tx_spent_at: "drv_at s as bs \<Longrightarrow> tx_spent s \<longleftrightarrow> (\<exists>a. tx_pkt s = Some a \<and> a \<in> set (as @ bs))"
  unfolding tx_spent_def using drv_at_unique by blast

lemma handler_write_keeps:
  assumes "handler_inv s q"
  shows "\<exists>s' q'. handler_write (vlc_rs u) q s = Some (s', q') \<and> handler_inv s' q' \<and> \<not> is_write_next s'
    \<and> (tx_spent s \<or> tx_queue s \<noteq> None \<longrightarrow> tx_spent s')"
proof -
  obtain as bs where i: "short_pkt q" "ring_ok s" "drv_at s as bs"
    "\<forall>b\<in>set bs. short_pkt (pk_data (nd_data (the (mem s b))))" using assms by (auto simp: handler_inv_def)
  show ?thesis
  proof (cases bs)
    case Nil
    note at = i(3)[unfolded Nil]
    from handler_write_quality[OF i(1,2) at, of u] obtain s' q' where
      s': "handler_write (vlc_rs u) q s = Some (s', q')" "short_pkt q'" "ring_ok s'" "drv_at s' as []"
      "\<not> is_write_next s'" "tx_pkt s' = tx_pkt s" by blast
    then have "handler_inv s' q'"
      unfolding handler_inv_def by (intro conjI exI[of _ as] exI[of _ "[]"]) auto
    moreover have "tx_spent s \<or> tx_queue s \<noteq> None \<longrightarrow> tx_spent s'"
      using tx_spent_at[OF at] tx_spent_at[OF s'(4)] s'(6) at by (simp add: drv_at_def)
    ultimately show ?thesis using s'(1,5) by blast
  next
    case (Cons b bs')
    note at = i(3)[unfolded Cons]
    from handler_write_packet[OF i(2) at, of u q] i(4) Cons obtain s' where
      s': "handler_write (vlc_rs u) q s = Some (s', q)" "ring_ok s'" "drv_at s' (b # as) bs'"
      "\<forall>c\<in>set bs'. nd_data (the (mem s' c)) = nd_data (the (mem s c))" "\<not> is_write_next s'" "tx_pkt s' = Some b"
      by auto
    then have "handler_inv s' q" using i(1,4) Cons
      unfolding handler_inv_def by (intro conjI exI[of _ "b # as"] exI[of _ bs']) auto
    moreover have "tx_spent s'" using tx_spent_at[OF s'(3)] s'(6) by simp
    ultimately show ?thesis using s'(1,5) by blast
  qed
qed

lemma handler_keeps:
  assumes inv: "handler_inv s q"
  shows "\<exists>s' q'. phy_timer_handler (vlc_rs u) q s = Some (s', q') \<and> handler_inv s' q'
    \<and> (tx_spent s \<or> is_write_next s \<and> tx_queue s \<noteq> None \<longrightarrow> tx_spent s')"
proof -
  have "\<exists>s1 q1. (if is_write_next s then handler_write (vlc_rs u) q s else Some (s, q)) = Some (s1, q1)
     \<and> handler_inv s1 q1 \<and> \<not> is_write_next s1 \<and> (tx_spent s \<or> is_write_next s \<and> tx_queue s \<noteq> None \<longrightarrow> tx_spent s1)"
    using inv handler_write_keeps[OF inv, of u] by auto
  then obtain s1 q1 where "(if is_write_next s then handler_write (vlc_rs u) q s else Some (s, q)) = Some (s1, q1)"
     "handler_inv s1 q1" "\<not> is_write_next s1" "tx_spent s \<or> is_write_next s \<and> tx_queue s \<noteq> None \<longrightarrow> tx_spent s1" by blast
  moreover from this(2) obtain as bs where "short_pkt q1" "ring_ok s1" "drv_at s1 as bs"
     "\<forall>b\<in>set bs. short_pkt (pk_data (nd_data (the (mem s1 b))))" by (auto simp: handler_inv_def)
  ultimately have 1: "(if is_write_next s then handler_write (vlc_rs u) q s else Some (s, q)) = Some (s1, q1)"
     "short_pkt q1" "ring_ok s1" "\<not> is_write_next s1" "drv_at s1 as bs"
     "\<forall>b\<in>set bs. short_pkt (pk_data (nd_data (the (mem s1 b))))"
     "tx_spent s \<or> is_write_next s \<and> tx_queue s \<noteq> None \<longrightarrow> tx_spent s1" by auto
  from 1(3,4) have "in_ring (write_idx s1)" by (simp add: ring_ok_def)
  from handler_publish[OF 1(3) this, of q1] obtain s' where s': "phy_timer_handler (vlc_rs u) q s = Some (s', q1)"
    "ring_ok s'" "mem s' = mem s1" "drv_at s' as bs" "tx_pkt s' = tx_pkt s1"
    using 1(1,5) by (auto simp: phy_timer_handler_def)
  then have "tx_spent s1 \<longrightarrow> tx_spent s'" using tx_spent_at[OF 1(5)] tx_spent_at[OF s'(4)] by simp
  moreover have "handler_inv s' q1" using 1 s' by (auto simp: handler_inv_def)
  ultimately show ?thesis using s'(1) 1(7) by blast
qed

section \<open>The quality packet, the proc file\<close>

lemma fill_loop:
  assumes "j + k \<le> length d"
  shows "cfor 0 (int k) (\<lambda>i (d, idx). do { d \<leftarrow> awr d idx v; Some (d, idx + 1) }) (d, int j)
    = Some (take j d @ replicate k v @ drop (j + k) d, int (j + k))"
proof -
  let ?f = "\<lambda>i (d, idx). do { d \<leftarrow> awr d idx v; Some (d, idx + 1) }"
  let ?I = "\<lambda>i (d', idx). d' = take j d @ replicate (nat i) v @ drop (j + nat i) d \<and> idx = int (j + nat i)"
  have "\<exists>t. cfor 0 (int k) ?f (d, int j) = Some t \<and> ?I (int k) t"
  proof (rule cfor_total)
    fix i t assume i: "0 \<le> i" "i < int k" and t: "?I i t"
    have "j + nat i < length d" using i assms by linarith
    then have z: "drop (j + nat i) d = d ! (j + nat i) # drop (Suc (j + nat i)) d" by (simp add: Cons_nth_drop_Suc)
    show "\<exists>t'. ?f i t = Some t' \<and> ?I (i + 1) t'"
      using t i assms
      by (cases t) (simp add: z awr_def list_update_append nat_add_distrib replicate_append_same[symmetric])
  qed simp_all
  then show ?thesis by auto
qed

definition quality_bytes :: "u16 \<Rightarrow> u8 list" where
  "quality_bytes node_id = le16 74 @ le16 node_id @ le16 1 @ le32 100 @ replicate 74 0xCA"

lemma quality_fill:
  assumes "length d = PKT_DATA"
  shows "(do {
     d \<leftarrow> cput d 0 (le16 74); d \<leftarrow> cput d 2 (le16 node_id); d \<leftarrow> cput d 4 (le16 1); d \<leftarrow> cput d 6 (le32 100);
     cfor 0 74 (\<lambda>i (d, idx). do { d \<leftarrow> awr d idx (0xCA :: u8); Some (d, idx + 1) }) (d, 10) })
    = Some (quality_bytes node_id @ drop 84 d, 84)"
proof -
  have d: "d = take 2 d @ take 2 (drop 2 d) @ take 2 (drop 4 d) @ take 4 (drop 6 d) @ drop 10 d"
    using assms by (simp add: PKT_DATA_def flip: take_add append_assoc)
  have 1: "cput d 0 (le16 74) = Some (le16 74 @ drop 2 d)"
    "cput (le16 74 @ drop 2 d) 2 (le16 node_id) = Some (le16 74 @ le16 node_id @ drop 4 d)"
    "cput (le16 74 @ le16 node_id @ drop 4 d) 4 (le16 1) = Some (le16 74 @ le16 node_id @ le16 1 @ drop 6 d)"
    "cput (le16 74 @ le16 node_id @ le16 1 @ drop 6 d) 6 (le32 100)
       = Some (le16 74 @ le16 node_id @ le16 1 @ le32 100 @ drop 10 d)"
    using assms by (simp_all add: cput_def le16_def le32_def PKT_DATA_def numeral_eq_Suc)
  have "cfor 0 74 (\<lambda>i (d, idx). do { d \<leftarrow> awr d idx (0xCA :: u8); Some (d, idx + 1) })
      (le16 74 @ le16 node_id @ le16 1 @ le32 100 @ drop 10 d, 10) = Some (quality_bytes node_id @ drop 84 d, 84)"
    using fill_loop[where j = 10 and k = 74 and d = "le16 74 @ le16 node_id @ le16 1 @ le32 100 @ drop 10 d"
      and v = "0xCA :: u8"] assms
    by (simp add: quality_bytes_def PKT_DATA_def)
  then show ?thesis by (simp add: 1)
qed

lemma init_vlc_quality_packet_ok:
  assumes "length d = PKT_DATA"
  shows "init_vlc_quality_packet d = Some (quality_bytes 99 @ drop 84 d, 84)"
    "short_pkt (quality_bytes 99 @ drop 84 d)"
proof -
  show "init_vlc_quality_packet d = Some (quality_bytes 99 @ drop 84 d, 84)"
    using quality_fill[OF assms, of 99] by (simp add: init_vlc_quality_packet_def Let_def)
  show "short_pkt (quality_bytes 99 @ drop 84 d)"
    using assms by (simp add: short_pkt_def quality_bytes_def bytes_simps PKT_DATA_def)
qed

text \<open>Decimal digits \<open>ds\<close> in the proc file are read as a number modulo \<open>2 ^ 32\<close>; a newline, or the end of what is
  written, ends it.\<close>

lemma proc_write_digits:
  assumes "\<forall>d\<in>set ds. d < 10" and "\<forall>i<length ds. user (len + i) = Some (48 + ds ! i)" and "length ds \<le> count"
  shows "proc_write_loop user count len acc
    = proc_write_loop user (count - length ds) (len + length ds) (foldl (\<lambda>a d. a * 10 + ucast d) acc ds)"
  using assms
proof (induction ds arbitrary: count len acc)
  case (Cons d ds)
  then obtain c where c: "count = Suc c" by (cases count) auto
  have u: "user len = Some (48 + d)" "\<forall>i<length ds. user (Suc len + i) = Some (48 + ds ! i)"
    using Cons.prems(2) by (auto dest: spec[of _ 0])
  have d: "unat d < 10" using Cons.prems(1) by (simp add: word_less_nat_alt)
  have "ucast (48 + d) = (48 + ucast d :: u32)" "ucast d < (10 :: u32)"
    using d by (simp_all add: word_unat_eq_iff unat_word_ariths word_less_nat_alt unsigned_ucast_eq
        take_bit_nat_eq_self)
  moreover from this(2) have "48 + ucast d \<noteq> (10 :: u32)" "48 + ucast d \<noteq> (0 :: u32)" "\<not> ucast d > (9 :: u32)"
    by (simp_all add: word_unat_eq_iff unat_word_ariths word_less_nat_alt)
  moreover note Cons.IH[of "Suc len" c "acc * 10 + ucast d"]
  ultimately show ?case using Cons.prems(1,3) u c by (simp add: Let_def)
qed simp

lemma proc_write_loop_digits:
  assumes "\<forall>d\<in>set ds. d < 10" and "\<forall>i<length ds. user (len + i) = Some (48 + ds ! i)"
    and "user (len + length ds) = Some 10" and "length ds < count"
  shows "proc_write_loop user count len acc
    = (int (len + length ds + 1), Some (foldl (\<lambda>a d. a * 10 + ucast d) acc ds))"
proof -
  obtain c where "count - length ds = Suc c" using assms(4) by (metis Suc_diff_Suc)
  with assms show ?thesis by (subst proc_write_digits[OF assms(1,2)]) (simp_all add: Let_def)
qed

text \<open>\<^verbatim>\<open>proc_read\<close> prints the stored value, an \<^verbatim>\<open>int\<close>, in decimal; \<open>digs\<close> are the digits of a number.\<close>

fun digs :: "nat \<Rightarrow> u8 list" where
  "digs n = (if n < 10 then [of_nat n] else digs (n div 10) @ [of_nat (n mod 10)])"

declare digs.simps [simp del]

definition proc_read :: "u32 \<Rightarrow> u8 list \<times> int" where
  "proc_read val =
    (let page = (if sint val < 0 then 45 # map (\<lambda>d. 48 + d) (digs (nat (- sint val)))
                 else map (\<lambda>d. 48 + d) (digs (nat (sint val)))) in
     (page, int (length page)))"

lemma digs_small: "d \<in> set (digs n) \<Longrightarrow> d < 10"
proof (induction n rule: digs.induct)
  case (1 n)
  have "of_nat k < (10 :: u8)" if "k < 10" for k using that by (simp add: word_less_nat_alt unat_of_nat)
  with 1 show ?case by (subst (asm) (2) digs.simps) (auto split: if_splits)
qed

lemma foldl_digs: "foldl (\<lambda>a d. a * 10 + ucast d) 0 (digs n) = (of_nat n :: u32)"
proof (induction n rule: digs.induct)
  case (1 n)
  have k: "ucast (of_nat k :: u8) = (of_nat k :: u32)" if "k < 10" for k
    using that by (simp add: word_unat_eq_iff unsigned_ucast_eq unat_of_nat take_bit_nat_eq_self)
  have "of_nat (n div 10) * 10 + of_nat (n mod 10) = (of_nat n :: u32)"
    by (metis div_mult_mod_eq of_nat_add of_nat_mult of_nat_numeral)
  with 1 show ?case by (subst digs.simps) (simp add: k)
qed

text \<open>What is read can be written back: the value is the same again. A negative value is refused.\<close>

lemma proc_read_write:
  assumes "\<And>i. i < length page \<Longrightarrow> user i = Some (page ! i)" and r: "proc_read val = (page, n)"
  shows "proc_write user (length page) = (if sint val < 0 then (- EINVAL, None) else (n, Some val))"
proof (cases "sint val < 0")
  case True
  then have pg: "page = 45 # map (\<lambda>d. 48 + d) (digs (nat (- sint val)))" using r by (simp add: proc_read_def)
  have "user 0 = Some 45" using assms(1)[of 0] pg by simp
  then show ?thesis using True by (simp add: proc_write_def pg Let_def)
next
  case False
  let ?ds = "digs (nat (sint val))"
  have pg: "page = map (\<lambda>d. 48 + d) ?ds" "n = int (length ?ds)" using r False by (auto simp: proc_read_def)
  have u: "\<forall>i<length ?ds. user (0 + i) = Some (48 + ?ds ! i)" using assms(1) pg(1) by simp
  have "(of_nat (nat (sint val)) :: u32) = word_of_int (sint val)" using False by (metis int_nat_eq not_less of_int_of_nat_eq)
  then have "(of_nat (nat (sint val)) :: u32) = val" by simp
  moreover have "\<forall>d\<in>set ?ds. d < 10" using digs_small by blast
  ultimately show ?thesis
    using proc_write_digits[OF _ u, of "length ?ds" 0] False pg by (simp add: proc_write_def foldl_digs)
qed

end
