(* ===== verification/Vlc_Rx.thy ===== *)
theory Vlc_Rx
  imports Vlc_Driver
begin

text \<open>
  The kernel driver of the VLC receiver, \<^verbatim>\<open>node (rf)_ourvlc/ourvlc-1.c\<close>: the thread that takes frames
  out of the memory shared with the PRU, decodes them and hands them to the network stack. The device
  header, the configuration entry point, the pool and the proc interface are those of the transmitter.
  \<open>None\<close> is an access outside a buffer. What the kernel decides for each round of the thread
  (whether \<^verbatim>\<open>dev_alloc_skb\<close> succeeds, whether the thread is asked to stop) is a list of pairs.
\<close>

unbundle bit_operations_syntax

section \<open>State\<close>

definition RX_MTU_VALUE :: u16 where "RX_MTU_VALUE = 150"
definition RX_DATA_LEN :: nat where "RX_DATA_LEN = 2000"
definition RX_DUMMY_NODE_ID :: u16 where "RX_DUMMY_NODE_ID = 99"
definition error_node_id :: u16 where "error_node_id = 98"

record sk_buff =
  sk_protocol :: "u8 list"
  sk_mac :: "u8 list"
  sk_data :: "u8 list"

record rx_drv =
  rx_pru :: "u8 list"
  rx_pkt :: pkt_body
  rx_dropped :: u32
  tx_packets :: u32
  tx_bytes :: u32
  rx_int_enabled :: int
  netif_rx :: "sk_buff list"

definition vlc_rx_ints :: "int \<Rightarrow> rx_drv \<Rightarrow> rx_drv" where
  "vlc_rx_ints enable s = s\<lparr>rx_int_enabled := enable\<rparr>"

section \<open>Handing a packet to the network stack\<close>

definition mac_rx :: "bool \<Rightarrow> pkt_body \<Rightarrow> rx_drv \<Rightarrow> rx_drv option" where
  "mac_rx alloc pkt s =
     (if \<not> alloc then Some (s\<lparr>rx_dropped := rx_dropped s + 1\<rparr>)
      else do {
        bytes \<leftarrow> cget (pk_data pkt) 0 (datalen pkt);
        (proto, rest) \<leftarrow> vlc_type_trans bytes;
        Some (s\<lparr>tx_packets := tx_packets s + 1,
                tx_bytes := tx_bytes s + word_of_int (datalen pkt),
                netif_rx := netif_rx s @ [\<lparr>sk_protocol = proto, sk_mac = bytes, sk_data = rest\<rparr>]\<rparr>) })"

section \<open>The decoding thread\<close>

text \<open>One block: its parity is read from behind the packet, the block is decoded in place. The error count
  is unsigned, as in the code, and so is the comparison with zero.\<close>

definition decode_block :: "u16 \<Rightarrow> rs_control \<Rightarrow> u16 \<Rightarrow> int \<Rightarrow> int \<Rightarrow> u8 list \<Rightarrow> (u32 \<times> u8 list) option" where
  "decode_block uninit rs len num_of_blocks index_block rx_data = do {
     par \<leftarrow> cfor 0 ECC_LEN (\<lambda>i par. do {
       b \<leftarrow> ard rx_data (uint len + index_block * ECC_LEN + i);
       awr par i (ucast b) }) (replicate (nat ECC_LEN) 0);
     let off = nat (index_block * block_size);
     (num_err, d, _, _) \<leftarrow>
       (if index_block < num_of_blocks - 1
        then decode_rs8 uninit rs (Some (drop off rx_data)) par block_size None 0 None 0 None
        else decode_rs8 uninit rs (Some (drop off rx_data)) par (uint len mod block_size) None 0 None 0 None);
     d \<leftarrow> d;
     Some (word_of_int num_err, take off rx_data @ d) }"

text \<open>All blocks: the flag says that the thread returns \<open>-1\<close>.\<close>

definition decode_blocks :: "u16 \<Rightarrow> rs_control \<Rightarrow> u16 \<Rightarrow> u8 list \<Rightarrow> (bool \<times> u32 \<times> u8 list) option" where
  "decode_blocks uninit rs len rx_data =
    (let num_of_blocks = num_blocks len in
     cforb 0 num_of_blocks (\<lambda>index_block (ret, total_num_err, rx_data). do {
       (num_err, rx_data) \<leftarrow> decode_block uninit rs len num_of_blocks index_block rx_data;
       Some (if num_err < 0 then (True, (True, total_num_err, rx_data))
             else (False, (ret, total_num_err + num_err, rx_data))) }) (False, 0, rx_data))"

text \<open>A packet with errors is marked: the node id becomes the error id, unless it is the dummy one, and
  the count overwrites the first bytes of the payload.\<close>

definition mark_errors :: "u32 \<Rightarrow> u8 list \<Rightarrow> u8 list option" where
  "mark_errors total_num_err rx_data =
     (if total_num_err > 0 then do {
        curr_pkt_node_id \<leftarrow> rd16 rx_data 2;
        rx_data \<leftarrow> (if curr_pkt_node_id \<noteq> RX_DUMMY_NODE_ID then cput rx_data 2 (le16 error_node_id)
                   else Some rx_data);
        cput rx_data 10 (le32 total_num_err) }
      else Some rx_data)"

text \<open>One round of the thread on a frame of an acceptable length: the returned value, if it returns.\<close>

definition decode_frame :: "u16 \<Rightarrow> rs_control \<Rightarrow> bool \<Rightarrow> u16 \<Rightarrow> u16 \<Rightarrow> rx_drv \<Rightarrow> (int option \<times> rx_drv) option" where
  "decode_frame uninit rs alloc ridx len s = do {
     let rx_data = replicate RX_DATA_LEN 0;
     let len = len + (OTHER_PACKET_CONTENT_BYTE + 2);
     bytes \<leftarrow> cget (rx_pru s) (uint ridx) (uint len + ECC_LEN);
     rx_data \<leftarrow> cput rx_data 0 bytes;
     (failed, total_num_err, rx_data) \<leftarrow> decode_blocks uninit rs len rx_data;
     if failed then Some (Some (- 1), s)
     else do {
       rx_data \<leftarrow> mark_errors total_num_err rx_data;
       bytes \<leftarrow> cget rx_data 0 (uint len);
       d \<leftarrow> cput (pk_data (rx_pkt s)) 0 bytes;
       let pkt = \<lparr>datalen = uint len, pk_data = d\<rparr>;
       s \<leftarrow> mac_rx alloc pkt (s\<lparr>rx_pkt := pkt\<rparr>);
       let ridx = ridx + (len + word_of_int ECC_LEN);
       let ridx = (if ridx \<ge> BUFFER_LIMIT then 4 else ridx);
       m \<leftarrow> cput (rx_pru s) 2 (le16 ridx);
       Some (None, s\<lparr>rx_pru := m\<rparr>) } }"

definition decode_round :: "u16 \<Rightarrow> rs_control \<Rightarrow> bool \<Rightarrow> bool \<Rightarrow> rx_drv \<Rightarrow> (int option \<times> rx_drv) option" where
  "decode_round uninit rs alloc stop s = do {
     ridx \<leftarrow> rd16 (rx_pru s) 2;
     widx \<leftarrow> rd16 (rx_pru s) 0;
     if ridx = widx then Some (None, s)
     else do {
       len \<leftarrow> rd16 (rx_pru s) (uint ridx);
       (ret, s) \<leftarrow> (if len > 0 \<and> len \<le> RX_MTU_VALUE then decode_frame uninit rs alloc ridx len s
                  else Some (None, s));
       (case ret of
          Some r \<Rightarrow> Some (Some r, s)
        | None \<Rightarrow> Some (if stop then Some 0 else None, s)) } }"

text \<open>The thread over a sequence of rounds; the result is \<open>None\<close> in its first component when it has not
  returned yet.\<close>

fun pru_phy_decoding :: "u16 \<Rightarrow> rs_control \<Rightarrow> (bool \<times> bool) list \<Rightarrow> rx_drv \<Rightarrow> (int option \<times> rx_drv) option" where
  "pru_phy_decoding uninit rs [] s = Some (None, s)"
| "pru_phy_decoding uninit rs ((alloc, stop) # env) s = do {
     (ret, s) \<leftarrow> decode_round uninit rs alloc stop s;
     (case ret of Some r \<Rightarrow> Some (Some r, s) | None \<Rightarrow> pru_phy_decoding uninit rs env s) }"

definition init_rs_error_packet :: "u8 list \<Rightarrow> (u8 list \<times> int) option" where
  "init_rs_error_packet d = do {
     let packet_length = (74 :: u16);
     let idx = 0;
     d \<leftarrow> cput d idx (le16 packet_length);
     let idx = idx + 2;
     d \<leftarrow> cput d idx (le16 98);
     let idx = idx + 2;
     d \<leftarrow> cput d idx (le16 1);
     let idx = idx + 2;
     d \<leftarrow> cput d idx (le32 100);
     let idx = idx + 4;
     cfor 0 (uint packet_length) (\<lambda>i (d, idx). do {
       d \<leftarrow> awr d idx (0xCA AND 0xff);
       Some (d, idx + 1) }) (d, idx) }"

section \<open>What a round does\<close>

lemma cget_length: "cget xs i n = Some ys \<Longrightarrow> int (length ys) = n"
  by (auto simp: cget_def min_def split: if_splits)

lemma parity_read:
  assumes "n + 16 \<le> length data"
  shows "cfor 0 16 (\<lambda>i par. do { b \<leftarrow> ard data (int n + i); awr par i (ucast (b :: u8)) }) (replicate 16 (0 :: u16))
    = Some (map ucast (take 16 (drop n data)))"
proof -
  let ?f = "\<lambda>i par. do { b \<leftarrow> ard data (int n + i); awr par i (ucast (b :: u8)) }"
  let ?I = "\<lambda>i d. d = map ucast (take (nat i) (drop n data)) @ replicate (16 - nat i) (0 :: u16)"
  have "\<exists>t. cfor 0 16 ?f (replicate 16 0) = Some t \<and> ?I 16 t"
  proof (rule cfor_total)
    fix k d assume k: "0 \<le> k" "k < (16 :: int)" and d: "?I k d"
    have nk: "n + nat k < length data" "nat (int n + k) = n + nat k" using k assms by (auto simp: nat_add_distrib)
    then have "ard data (int n + k) = Some (data ! (n + nat k))" using k by (simp add: ard_def)
    moreover have "16 - nat k = Suc (16 - nat (k + 1))" using k by linarith
    then have "awr d k v = Some (map ucast (take (nat k) (drop n data)) @ v # replicate (16 - nat (k + 1)) 0)" for v
      using nk k unfolding d by (simp add: awr_def list_update_append)
    ultimately show "\<exists>t'. ?f k d = Some t' \<and> ?I (k + 1) t'"
      using k nk by (simp add: nat_add_distrib take_Suc_conv_app_nth)
  qed simp_all
  then show ?thesis by simp
qed

text \<open>With one block the decoder is called once, on the packet and the parity behind it.\<close>

lemma decode_blocks_one:
  assumes n: "0 < n" "n < 200" "n + 16 \<le> length data" and len: "unat len = n"
    and dec: "decode_rs8 uninit rs (Some data) (map ucast (take 16 (drop n data))) (int n) None 0 None 0 None
      = Some (cnt, Some d, e, c)"
  shows "decode_blocks uninit rs len data = Some (False, word_of_int cnt, d)"
proof -
  have ul: "uint len = int n" using len uint_unat[of len] by simp
  have m: "int n mod 200 = int n" "int n div 200 = 0" using n by simp_all
  have nb: "num_blocks len = 1" using n by (simp add: num_blocks_def ul block_size_def m)
  have "decode_block uninit rs len 1 0 data = Some (word_of_int cnt, d)"
    using n dec by (simp add: decode_block_def ul m block_size_def ECC_LEN_def parity_read Let_def)
  then show ?thesis
    by (simp add: decode_blocks_def nb Let_def cforb.simps)
qed

text \<open>The thread never returns \<open>-1\<close>: the error count is unsigned.\<close>

lemma decode_blocks_no_failure: "decode_blocks uninit rs len data = Some (f, r) \<Longrightarrow> \<not> f"
proof -
  let ?f = "\<lambda>index_block (ret, total_num_err, rx_data). do {
       (num_err, rx_data) \<leftarrow> decode_block uninit rs len (num_blocks len) index_block rx_data;
       Some (if num_err < (0 :: u32) then (True, (True, total_num_err, rx_data))
             else (False, (ret, total_num_err + num_err, rx_data))) }"
  assume "decode_blocks uninit rs len data = Some (f, r)"
  then have "cforb 0 (num_blocks len) ?f (False, 0, data) = Some (f, r)"
    by (simp add: decode_blocks_def Let_def)
  then have "\<not> fst (f, r)"
    by (rule cforb_inv[where I = "\<lambda>t. \<not> fst t"])
      (auto split: Option.bind_splits prod.splits if_splits)
  then show ?thesis by simp
qed

lemma mark_errors_total:
  assumes "14 \<le> length d"
  shows "\<exists>b. mark_errors e d = Some b \<and> length b = length d"
proof -
  have put: "\<exists>b. cput d' i ys = Some b \<and> length b = length d'"
    if "0 \<le> i" "i + int (length ys) \<le> int (length d')" for d' :: "u8 list" and i ys
    using that by (auto simp: cput_def)
  obtain v where v: "rd16 d 2 = Some v" using assms by (auto simp: rd16_def ard_def)
  obtain d1 where d1: "cput d 2 (le16 error_node_id) = Some d1" "length d1 = length d"
    using put[of 2 "le16 error_node_id" d] assms by (auto simp: le16_def)
  show ?thesis
    using v d1 assms put[of 10 "le32 e" d] put[of 10 "le32 e" d1] by (auto simp: mark_errors_def le32_def)
qed

text \<open>The receive ring: its memory, the frame at the read index and where the next one begins.\<close>

definition rx_next :: "u16 \<Rightarrow> u16 \<Rightarrow> u16" where
  "rx_next r l = (if r + l + 26 \<ge> BUFFER_LIMIT then 4 else r + l + 26)"

definition rx_pkt_ok :: "rx_drv \<Rightarrow> bool" where
  "rx_pkt_ok s \<longleftrightarrow> length (pk_data (rx_pkt s)) = PKT_DATA"

text \<open>What becomes of a packet's bytes: up the stack, or dropped when there is no buffer for them.\<close>

definition rx_put :: "bool \<Rightarrow> u8 list \<Rightarrow> rx_drv \<Rightarrow> rx_drv" where
  "rx_put alloc b s =
     (if alloc then s\<lparr>tx_packets := tx_packets s + 1, tx_bytes := tx_bytes s + word_of_nat (length b),
        netif_rx := netif_rx s @ [\<lparr>sk_protocol = fst (the (vlc_type_trans b)), sk_mac = b, sk_data = drop 6 b\<rparr>]\<rparr>
      else s\<lparr>rx_dropped := rx_dropped s + 1\<rparr>)"

lemma rx_put_keeps [simp]: "rx_pkt (rx_put alloc b s) = rx_pkt s" "rx_pru (rx_put alloc b s) = rx_pru s"
  by (simp_all add: rx_put_def)

lemma mac_rx_put:
  assumes "datalen pkt = int n" "10 < n" "n \<le> length (pk_data pkt)"
  shows "mac_rx alloc pkt s = Some (rx_put alloc (take n (pk_data pkt)) s)"
proof -
  obtain pr where "vlc_type_trans (take n (pk_data pkt)) = Some (pr, drop 6 (take n (pk_data pkt)))"
    using assms by (auto simp: vlc_type_trans_def ard_def)
  then show ?thesis using assms by (simp add: mac_rx_def rx_put_def cget_def)
qed

text \<open>A round on a waiting frame of acceptable length: whatever the decoder reports, the packet goes up
  (marked if the count is not zero) and the read index moves on.\<close>

lemma decode_frame_one:
  assumes l: "0 < l" "l \<le> RX_MTU_VALUE" and ok: "rx_pkt_ok s"
    and fr: "cget (rx_pru s) (uint r) (int (unat l) + 26) = Some frame"
    and dec: "decode_rs8 uninit rs (Some (frame @ replicate (RX_DATA_LEN - length frame) 0))
        (map ucast (drop (unat l + 10) frame)) (int (unat l) + 10) None 0 None 0 None = Some (cnt, Some d, e, c)"
    and d: "length d = RX_DATA_LEN"
  shows "\<exists>bytes. mark_errors (word_of_int cnt) d = Some bytes \<and> length bytes = RX_DATA_LEN
    \<and> decode_frame uninit rs alloc r l s = Some (None,
        (rx_put alloc (take (unat l + 10) bytes) (s\<lparr>rx_pkt := \<lparr>datalen = int (unat l + 10),
            pk_data = take (unat l + 10) bytes @ drop (unat l + 10) (pk_data (rx_pkt s))\<rparr>\<rparr>))
          \<lparr>rx_pru := take 2 (rx_pru s) @ le16 (rx_next r l) @ drop 4 (rx_pru s)\<rparr>)"
proof -
  define n where "n = unat l + 10"
  have un: "0 < unat l" "unat l \<le> 150" using l by (simp_all add: RX_MTU_VALUE_def word_le_nat_alt word_less_nat_alt unat_gt_0)
  then have n: "0 < n" "n < 200" "n \<le> 160" "10 < n" by (simp_all add: n_def)
  have len: "unat (l + 10) = n" "unat (l + 26) = n + 16" using un by (simp_all add: n_def unat_word_ariths)
  have ul: "uint (l + 10) = int n" using len(1) uint_unat[of "l + 10"] by simp
  have lf: "length frame = n + 16" using cget_length[OF fr] unfolding n_def by linarith
  let ?data = "frame @ replicate (RX_DATA_LEN - length frame) 0"
  have ld: "length ?data = RX_DATA_LEN" using lf n by (simp add: RX_DATA_LEN_def)
  have tk: "take 16 (drop n ?data) = drop n frame" using lf by simp
  have "int (unat l) + 10 = int n" by (simp add: n_def)
  then have dec': "decode_rs8 uninit rs (Some ?data) (map ucast (take 16 (drop n ?data))) (int n) None 0 None 0 None
      = Some (cnt, Some d, e, c)"
    using dec unfolding n_def[symmetric] by (simp only: tk)
  have "n + 16 \<le> length ?data" using ld n by (simp add: RX_DATA_LEN_def)
  from decode_blocks_one[OF n(1,2) this len(1) dec']
  have db: "decode_blocks uninit rs (l + 10) ?data = Some (False, word_of_int cnt, d)" .
  have "14 \<le> length d" using d by (simp add: RX_DATA_LEN_def)
  from mark_errors_total[OF this, of "word_of_int cnt"] d obtain bytes where
    b: "mark_errors (word_of_int cnt) d = Some bytes" "length bytes = RX_DATA_LEN" by auto
  have cf: "cget (rx_pru s) (uint r) (int n + 16) = Some frame" using fr by (simp add: n_def add.commute)
  have cp: "cput (replicate RX_DATA_LEN 0) 0 frame = Some ?data" using lf n by (simp add: cput_0 RX_DATA_LEN_def)
  have g: "cget bytes 0 (int n) = Some (take n bytes)" using b(2) n by (simp add: cget_def RX_DATA_LEN_def)
  have p: "cput (pk_data (rx_pkt s)) 0 (take n bytes) = Some (take n bytes @ drop n (pk_data (rx_pkt s)))"
    using ok b(2) n by (simp add: cput_0 rx_pkt_ok_def PKT_DATA_def RX_DATA_LEN_def)
  have m: "cput (rx_pru s) 2 (le16 v) = Some (take 2 (rx_pru s) @ le16 v @ drop 4 (rx_pru s))" for v
    using fr lf n by (auto simp: cput_def cget_def le16_def numeral_eq_Suc split: if_splits)
  have mr: "mac_rx alloc \<lparr>datalen = int n, pk_data = take n bytes @ drop n (pk_data (rx_pkt s))\<rparr> t
      = Some (rx_put alloc (take n bytes) t)" for t
    using mac_rx_put[where n = n and pkt = "\<lparr>datalen = int n, pk_data = take n bytes @ drop n (pk_data (rx_pkt s))\<rparr>" and s = t]
      b(2) n by (simp add: RX_DATA_LEN_def)
  have "decode_frame uninit rs alloc r l s = Some (None,
        (rx_put alloc (take n bytes) (s\<lparr>rx_pkt := \<lparr>datalen = int n,
            pk_data = take n bytes @ drop n (pk_data (rx_pkt s))\<rparr>\<rparr>))
          \<lparr>rx_pru := take 2 (rx_pru s) @ le16 (rx_next r l) @ drop 4 (rx_pru s)\<rparr>)"
    by (simp add: decode_frame_def OTHER_PACKET_CONTENT_BYTE_def ECC_LEN_def ul cf cp db b(1) g p mr m
        Let_def rx_next_def add.assoc)
  with b show ?thesis unfolding n_def by blast
qed

section \<open>From the transmitter's ring to the receiver's stack\<close>

lemma gsym_byte: "ucast (ucast (gsym x) :: u8) = gsym x" "Gf (ucast (gsym x)) = x"
proof -
  have b: "ucast (ucast b :: u16) = b" for b :: u8 by (rule bit_eqI) (auto simp: bit_simps)
  show "ucast (ucast (gsym x) :: u8) = gsym x" "Gf (ucast (gsym x)) = x"
    by (simp_all add: gsym_def b byte_of_inverse)
qed

text \<open>What the encoder emits does not depend on how many users share the structure, and the parity survives
  its trip through bytes.\<close>

lemma encode_users:
  assumes "n \<le> length data" "n \<le> 239"
  shows "encode_rs8 (vlc_rs u) data (int n) (replicate 16 0) m = encode_rs8 (vlc_rs v) data (int n) (replicate 16 0) m"
proof -
  have gp: "rs_gp (vlc_rs u) = rs_gp (vlc_rs v)" and nr: "nroots (vlc_rs x) = 16" for x by (simp_all add: vlc_rs_def rs_gp_def)
  show ?thesis
    using vlc.encode_foldl[where u = u and ps = "replicate 16 0" and len = "int n" and data = data and invmsk = m]
      vlc.encode_foldl[where u = v and ps = "replicate 16 0" and len = "int n" and data = data and invmsk = m] assms
    by (simp add: nr gp)
qed

text \<open>The positions in which two frames differ.\<close>

definition frame_errors :: "u8 list \<Rightarrow> u8 list \<Rightarrow> nat set" where
  "frame_errors f f' = {i. i < length f \<and> f ! i \<noteq> f' ! i}"

lemma frame_errors_same [simp]: "frame_errors f f = {}"
  by (simp add: frame_errors_def)

lemma card_frame_errors:
  assumes f: "length d = n" "length p = 16" "length f' = n + 16"
  shows "card (frame_errors (d @ map ucast p) f')
    = card (wrong_data n d f') + card (wrong_par 16 p (map ucast (drop n f') :: u16 list))"
proof -
  let ?P = "wrong_par 16 p (map ucast (drop n f') :: u16 list)"
  have b: "ucast (ucast b :: u16) = b" for b :: u8 by (rule bit_eqI) (auto simp: bit_simps)
  have P: "i \<in> ?P \<longleftrightarrow> i < 16 \<and> (ucast (p ! i) :: u8) \<noteq> f' ! (n + i)" for i
    using f by (auto simp: wrong_par_def b)
  have "frame_errors (d @ map ucast p) f' = wrong_data n d f' \<union> (\<lambda>i. n + i) ` ?P"
  proof (rule set_eqI)
    fix j
    show "j \<in> frame_errors (d @ map ucast p) f' \<longleftrightarrow> j \<in> wrong_data n d f' \<union> (\<lambda>i. n + i) ` ?P"
    proof (cases "j < n")
      case True
      then show ?thesis using f by (auto simp: frame_errors_def wrong_data_def nth_append)
    next
      case False
      then obtain i where i: "j = n + i" by (metis le_add_diff_inverse not_less)
      have "n + i \<in> (\<lambda>i. n + i) ` ?P \<longleftrightarrow> i \<in> ?P" "n + i \<notin> wrong_data n d f'" by (auto simp: wrong_data_def)
      moreover have "n + i \<in> frame_errors (d @ map ucast p) f' \<longleftrightarrow> i < 16 \<and> (ucast (p ! i) :: u8) \<noteq> f' ! (n + i)"
        using f by (auto simp: frame_errors_def nth_append)
      ultimately show ?thesis unfolding i Un_iff P by blast
    qed
  qed
  moreover have "card (wrong_data n d f' \<union> (\<lambda>i. n + i) ` ?P) = card (wrong_data n d f') + card ((\<lambda>i. n + i) ` ?P)"
    by (rule card_Un_disjoint) (auto simp: wrong_data_def wrong_par_def)
  moreover have "card ((\<lambda>i. n + i) ` ?P) = card ?P" by (rule card_image) (auto simp: inj_on_def)
  ultimately show ?thesis by simp
qed

text \<open>Up to eight wrong bytes in packet and parity together are corrected, and counted.\<close>

lemma decode_after_noise:
  assumes enc: "encode_rs8 (vlc_rs u) data (int n) (replicate 16 0) 0 = Some (0, par)"
    and n: "0 < n" "n \<le> 239" "n \<le> length data"
    and f': "length f' = n + 16" and few: "card (frame_errors (take n data @ map ucast par) f') \<le> 8"
  shows "decode_rs8 uninit (vlc_rs v) (Some (f' @ rest)) (map ucast (drop n f')) (int n) None 0 None 0 None
    = Some (int (card (frame_errors (take n data @ map ucast par) f')), Some (take n data @ drop n f' @ rest), None, None)"
proof -
  have nr: "nroots (vlc_rs u) = 16" "nroots (vlc_rs v) = 16" by (simp_all add: vlc_rs_def)
  have "length par = 16" using vlc.encode_decode[of "int n" u data 0] n enc by (auto simp: nr)
  then have card: "card (frame_errors (take n data @ map ucast par) f')
      = card (wrong_data n (take n data) f') + card (wrong_par 16 par (map ucast (drop n f')))"
    using n f' by (intro card_frame_errors) auto
  moreover have "wrong_data n (take n data) f' = wrong_data n data (f' @ rest)"
    using n f' by (auto simp: wrong_data_def nth_append)
  moreover have "encode_rs8 (vlc_rs v) data (int n) (replicate 16 0) 0 = Some (0, par)"
    using enc encode_users[of n data u 0 v] n by simp
  ultimately show ?thesis
    using vlc_plain.decode_corrects[of n v data "f' @ rest" "map ucast (drop n f')" 0 par uninit] n f' few by (simp add: nr)
qed

lemma rd16_cget:
  assumes "cget xs i n = Some ys" and "2 \<le> n"
  shows "rd16 xs i = rd16 ys 0"
  using assms by (auto simp: cget_def rd16_def ard_def nat_add_distrib split: if_splits)

lemma rd16_take: "2 \<le> n \<Longrightarrow> n \<le> length xs \<Longrightarrow> rd16 (take n xs @ ys) 0 = rd16 xs 0"
  by (auto simp: rd16_def ard_def nth_append)

lemma rd16_prefix: "take 2 xs = take 2 ys \<Longrightarrow> 2 \<le> length xs \<Longrightarrow> 2 \<le> length ys \<Longrightarrow> rd16 xs 0 = rd16 ys 0"
  using rd16_take[of 2 xs "[]"] rd16_take[of 2 ys "[]"] by simp

lemma rd16_slot:
  assumes "4 \<le> length xs"
  shows "rd16 (take 2 xs @ le16 v @ drop 4 xs) 2 = Some v" "rd16 (take 2 xs @ le16 v @ drop 4 xs) 0 = rd16 xs 0"
  using assms by (auto simp: rd16_def ard_def le16_def nth_append)

lemma write_frame:
  assumes data: "rd16 data 0 = Some l" "l \<le> RX_MTU_VALUE" "length data = PKT_DATA" and m: "unat w + 226 \<le> length m"
  shows "\<exists>w' d' m' frame. write_packet_to_pru_memory (vlc_rs u) data w m = Some (w', d', m') \<and> w' = w + l + 26
    \<and> length m' = length m \<and> cget m' (uint w) (int (unat l) + 26) = Some frame \<and> length frame = unat l + 26"
proof -
  have l190: "unat l < 190" using data(2) by (simp add: RX_MTU_VALUE_def word_le_nat_alt)
  from write_packet_block[OF data(1) this data(3) m, of u] obtain w' d' m' where
    wr: "write_packet_to_pru_memory (vlc_rs u) data w m = Some (w', d', m')" "w' = w + l + 26" "length m' = length m"
    using data(3) m l190 by (auto simp: PKT_DATA_def)
  have "uint w + (int (unat l) + 26) \<le> int (length m')" using wr(3) m l190 uint_unat[of w] by linarith
  then obtain frame where fr: "cget m' (uint w) (int (unat l) + 26) = Some frame" by (simp add: cget_def)
  have "length frame = unat l + 26" using cget_length[OF fr] by linarith
  with wr fr show ?thesis by blast
qed

text \<open>A frame that arrives with at most eight wrong bytes, the length word intact, is handed up as it was sent,
  marked with the number of wrong bytes if there were any.\<close>

lemma frame_corrected:
  assumes data: "rd16 data 0 = Some l" "0 < l" "l \<le> RX_MTU_VALUE" "length data = PKT_DATA"
    and wr: "write_packet_to_pru_memory (vlc_rs u) data w m = Some (w', d', m')" "unat w + 226 \<le> length m"
    and chan: "cget m' (uint w) (int (unat l) + 26) = Some frame"
      "cget (rx_pru s) (uint r) (int (unat l) + 26) = Some frame'"
      "take 2 frame' = take 2 frame" "card (frame_errors frame frame') \<le> 8"
    and ring: "rd16 (rx_pru s) 2 = Some r" "rd16 (rx_pru s) 0 = Some x" "x \<noteq> r" and ok: "rx_pkt_ok s"
  shows "\<exists>s' rest bytes. decode_round uninit (vlc_rs v) alloc stop s = Some (if stop then Some 0 else None, s')
    \<and> mark_errors (of_nat (card (frame_errors frame frame'))) (take (unat l + 10) data @ rest) = Some bytes
    \<and> length bytes = RX_DATA_LEN
    \<and> map sk_mac (netif_rx s') = map sk_mac (netif_rx s) @ (if alloc then [take (unat l + 10) bytes] else [])
    \<and> rd16 (rx_pru s') 2 = Some (rx_next r l) \<and> rd16 (rx_pru s') 0 = Some x
    \<and> drop 4 (rx_pru s') = drop 4 (rx_pru s) \<and> rx_pkt_ok s'"
proof -
  define n where "n = unat l + 10"
  define k where "k = card (frame_errors frame frame')"
  have ll: "0 < unat l" "unat l \<le> 150" using data(2,3)
    by (simp_all add: RX_MTU_VALUE_def word_le_nat_alt word_less_nat_alt unat_gt_0)
  then have l190: "unat l < 190" by simp
  from write_packet_block[OF data(1) l190 data(4) wr(2), of u, folded n_def] wr(1)
  obtain par where par: "encode_rs8 (vlc_rs u) data (int n) (replicate 16 0) 0 = Some (0, par)" "length par = 16"
    and m': "m' = take (unat w) m @ take n data @ map ucast par @ drop (unat w + n + 16) m" by auto
  have ni: "int (unat l) + 26 = int (n + 16)" "n \<le> 160" "10 < n" using ll by (simp_all add: n_def)
  have frame: "frame = take n data @ map ucast par"
    using chan(1) data(4) par(2) wr(2) ni(2) unfolding ni m'
    by (auto simp: cget_def PKT_DATA_def split: if_splits)
  have lf: "length frame' = n + 16" using cget_length[OF chan(2)] ni(1) by linarith
  define z where "z = replicate (RX_DATA_LEN - length frame') (0 :: u8)"
  let ?d = "take n data @ drop n frame' @ z"
  have ld: "length ?d = RX_DATA_LEN" using lf ni(2) data(4) by (simp add: z_def RX_DATA_LEN_def PKT_DATA_def)
  have "decode_rs8 uninit (vlc_rs v) (Some (frame' @ z)) (map ucast (drop n frame')) (int n) None 0 None 0 None
      = Some (int k, Some ?d, None, None)"
    unfolding k_def frame using ni data(4) lf chan(4) frame
    by (intro decode_after_noise[OF par(1)]) (simp_all add: PKT_DATA_def)
  moreover have "int (unat l) + 10 = int n" by (simp add: n_def)
  ultimately have dec: "decode_rs8 uninit (vlc_rs v) (Some (frame' @ replicate (RX_DATA_LEN - length frame') 0))
      (map ucast (drop (unat l + 10) frame')) (int (unat l) + 10) None 0 None 0 None = Some (int k, Some ?d, None, None)"
    by (simp only: n_def z_def)
  from decode_frame_one[OF data(2,3) ok chan(2) dec ld, of alloc] obtain bytes s' where
    b: "mark_errors (word_of_int (int k)) ?d = Some bytes" "length bytes = RX_DATA_LEN"
    and s': "decode_frame uninit (vlc_rs v) alloc r l s = Some (None, s')"
    "map sk_mac (netif_rx s') = map sk_mac (netif_rx s) @ (if alloc then [take (unat l + 10) bytes] else [])"
    "rx_pru s' = take 2 (rx_pru s) @ le16 (rx_next r l) @ drop 4 (rx_pru s)" "rx_pkt_ok s'"
    using ok ll by (force simp: rx_put_def rx_pkt_ok_def PKT_DATA_def RX_DATA_LEN_def)
  have "uint r + (int (unat l) + 26) \<le> int (length (rx_pru s))" using chan(2) by (simp add: cget_def split: if_splits)
  moreover have "0 \<le> uint r" by simp
  ultimately have l4: "4 \<le> length (rx_pru s)" by linarith
  have "rd16 (rx_pru s) (uint r) = rd16 frame' 0" using rd16_cget[OF chan(2)] by simp
  also have "\<dots> = rd16 frame 0"
    by (rule rd16_prefix[OF chan(3)]) (use lf frame ni data(4) in \<open>simp_all add: PKT_DATA_def\<close>)
  also have "\<dots> = Some l" using rd16_take[of n data] data(1,4) frame ni by (simp add: PKT_DATA_def)
  finally have "rd16 (rx_pru s) (uint r) = Some l" .
  then have "decode_round uninit (vlc_rs v) alloc stop s = Some (if stop then Some 0 else None, s')"
    using ring s'(1) data(2,3) by (simp add: decode_round_def)
  moreover have "rd16 (rx_pru s') 2 = Some (rx_next r l)" "rd16 (rx_pru s') 0 = Some x" "drop 4 (rx_pru s') = drop 4 (rx_pru s)"
    using rd16_slot[OF l4] ring(2) l4 by (simp_all add: s'(3) le16_def)
  moreover have "mark_errors (of_nat k) (take (unat l + 10) data @ drop n frame' @ z) = Some bytes" using b(1) by (simp add: n_def)
  ultimately show ?thesis using b(2) s'(2,4) unfolding k_def by blast
qed

section \<open>The thread against whatever the PRU writes\<close>

definition rx_inv :: "rx_drv \<Rightarrow> bool" where
  "rx_inv s \<longleftrightarrow> rx_pkt_ok s \<and> 6180 \<le> length (rx_pru s) \<and> (\<exists>r. rd16 (rx_pru s) 2 = Some r \<and> in_ring r)"

text \<open>The states the thread can be in: its own rounds alternate with writes of the PRU, which owns
  everything in the shared memory but the read index.\<close>

inductive rx_reach :: "rs_control \<Rightarrow> rx_drv \<Rightarrow> rx_drv \<Rightarrow> bool" for rs s0 where
  rx_reach_start: "rx_reach rs s0 s0"
| rx_reach_round: "rx_reach rs s0 s \<Longrightarrow> decode_round uninit rs alloc stop s = Some (None, s') \<Longrightarrow> rx_reach rs s0 s'"
| rx_reach_pru: "rx_reach rs s0 s \<Longrightarrow> length m = length (rx_pru s) \<Longrightarrow> take 2 (drop 2 m) = take 2 (drop 2 (rx_pru s))
     \<Longrightarrow> rx_reach rs s0 (s\<lparr>rx_pru := m\<rparr>)"

lemma rx_next_in_ring:
  assumes "in_ring r" "l \<le> RX_MTU_VALUE"
  shows "in_ring (rx_next r l)"
proof -
  have "unat r < 6004" "4 \<le> unat r" "unat l \<le> 150"
    using assms by (auto simp: in_ring_def BUFFER_LIMIT_def RX_MTU_VALUE_def word_less_nat_alt word_le_nat_alt)
  then have "unat (r + l + 26) = unat r + unat l + 26" by (simp add: unat_word_ariths)
  with \<open>4 \<le> unat r\<close> show ?thesis
    by (auto simp: in_ring_def rx_next_def BUFFER_LIMIT_def word_less_nat_alt word_le_nat_alt)
qed

lemma decode_frame_safe:
  assumes inv: "rx_inv s" and r: "rd16 (rx_pru s) 2 = Some r" and l: "0 < l" "l \<le> RX_MTU_VALUE"
  shows "\<exists>s'. decode_frame uninit (vlc_rs v) alloc r l s = Some (None, s') \<and> rx_pkt_ok s'
    \<and> rx_pru s' = take 2 (rx_pru s) @ le16 (rx_next r l) @ drop 4 (rx_pru s)"
proof -
  have un: "unat l \<le> 150" "unat r < 6004" "6180 \<le> length (rx_pru s)"
    using inv r l by (auto simp: rx_inv_def in_ring_def BUFFER_LIMIT_def RX_MTU_VALUE_def word_less_nat_alt word_le_nat_alt)
  obtain ri li where ri: "uint r = int ri" "unat r = ri" "unat l = li" using uint_unat by blast
  define frame where "frame = take (unat l + 26) (drop (unat r) (rx_pru s))"
  have fr: "cget (rx_pru s) (uint r) (int (unat l) + 26) = Some frame"
    using un unfolding frame_def ri by (simp add: cget_def nat_add_distrib)
  have lf: "length frame = unat l + 26" using un by (simp add: frame_def)
  let ?d = "frame @ replicate (RX_DATA_LEN - length frame) 0"
  have ld: "length ?d = RX_DATA_LEN" using lf un by (simp add: RX_DATA_LEN_def)
  have nr: "nroots (vlc_rs v) = 16" by (simp add: vlc_rs_def)
  have "\<exists>cnt d. decode_rs8 uninit (vlc_rs v) (Some ?d) (map ucast (drop (li + 10) frame)) (int (li + 10))
      None 0 None 0 None = Some (cnt, Some d, None, None) \<and> length d = RX_DATA_LEN"
    using vlc_plain.decode_total[of "li + 10" v ?d "map ucast (drop (li + 10) frame)" uninit 0] un lf ld
    unfolding ri nr by (auto simp: RX_DATA_LEN_def)
  then obtain cnt d where dec: "decode_rs8 uninit (vlc_rs v) (Some ?d) (map ucast (drop (unat l + 10) frame)) (int (unat l) + 10)
      None 0 None 0 None = Some (cnt, Some d, None, None)" and d: "length d = RX_DATA_LEN"
    unfolding ri by (auto simp: add.commute)
  have ok: "rx_pkt_ok s" using inv by (simp add: rx_inv_def)
  from decode_frame_one[OF l ok fr dec d, of alloc] ok un(1) show ?thesis
    by (auto simp: rx_pkt_ok_def PKT_DATA_def RX_DATA_LEN_def)
qed

text \<open>A round never faults, keeps the invariant, and gets past every frame of acceptable length.\<close>

theorem decode_round_safe:
  assumes inv: "rx_inv s"
  shows "\<exists>ret s'. decode_round uninit (vlc_rs v) alloc stop s = Some (ret, s') \<and> rx_inv s'"
proof -
  obtain r where r: "rd16 (rx_pru s) 2 = Some r" "in_ring r" using inv by (auto simp: rx_inv_def)
  have len: "6180 \<le> length (rx_pru s)" and ok: "rx_pkt_ok s" using inv by (auto simp: rx_inv_def)
  have ur: "0 \<le> uint r" "uint r < 6004"
    using r(2) by (auto simp: in_ring_def BUFFER_LIMIT_def word_less_def)
  have rd: "\<exists>x. rd16 (rx_pru s) i = Some x" if "0 \<le> i" "i < 6004" for i
    using that len by (auto simp: rd16_def ard_def)
  from rd[OF ur] obtain l where l: "rd16 (rx_pru s) (uint r) = Some l" by blast
  from rd[of 0] obtain x where x: "rd16 (rx_pru s) 0 = Some x" by auto
  show ?thesis
  proof (cases "r = x \<or> \<not> (0 < l \<and> l \<le> RX_MTU_VALUE)")
    case True
    then have "decode_round uninit (vlc_rs v) alloc stop s = Some (if r \<noteq> x \<and> stop then Some 0 else None, s)"
      using r(1) x l by (auto simp: decode_round_def)
    with inv show ?thesis by blast
  next
    case False
    then have l': "0 < l" "l \<le> RX_MTU_VALUE" "r \<noteq> x" by auto
    from decode_frame_safe[OF inv r(1) l'(1,2), of uninit v alloc] obtain s' where
      s': "decode_frame uninit (vlc_rs v) alloc r l s = Some (None, s')" "rx_pkt_ok s'"
        "rx_pru s' = take 2 (rx_pru s) @ le16 (rx_next r l) @ drop 4 (rx_pru s)" by blast
    have "4 \<le> length (rx_pru s)" using len by simp
    then have "rx_inv s'"
      unfolding rx_inv_def s'(3) using s'(2) len rd16_slot rx_next_in_ring[OF r(2) l'(2)] by simp
    with s'(1) l' r(1) x l show ?thesis by (simp add: decode_round_def)
  qed
qed

lemma rx_reach_inv:
  assumes "rx_reach (vlc_rs v) s0 s" and "rx_inv s0"
  shows "rx_inv s"
  using assms
proof (induction rule: rx_reach.induct)
  case (rx_reach_round s uninit alloc stop s')
  then show ?case using decode_round_safe[of s uninit v alloc stop] by auto
next
  case (rx_reach_pru s m)
  then have inv: "rx_inv s" by simp
  then have len: "6180 \<le> length m" "6180 \<le> length (rx_pru s)" using rx_reach_pru by (auto simp: rx_inv_def)
  then have "m ! 2 = rx_pru s ! 2" "m ! 3 = rx_pru s ! 3"
    using arg_cong[OF rx_reach_pru(3), of "\<lambda>xs. xs ! 0"] arg_cong[OF rx_reach_pru(3), of "\<lambda>xs. xs ! 1"] by auto
  then have "rd16 m 2 = rd16 (rx_pru s) 2" using len by (simp add: rd16_def ard_def)
  with inv rx_reach_pru(2) show ?case by (simp add: rx_inv_def rx_pkt_ok_def)
qed simp

lemma rx_reach_safe:
  assumes "rx_inv s0" "rx_reach (vlc_rs v) s0 s"
  shows "\<exists>ret s'. decode_round uninit (vlc_rs v) alloc stop s = Some (ret, s') \<and> rx_inv s'"
  using decode_round_safe[OF rx_reach_inv[OF assms(2,1)]] .

section \<open>Rounds that do nothing\<close>

text \<open>With an empty ring the thread goes round without looking at the stop request.\<close>

lemma idle_never_stops:
  assumes "rd16 (rx_pru s) 2 = Some r" and "rd16 (rx_pru s) 0 = Some r"
  shows "pru_phy_decoding uninit rs env s = Some (None, s)"
proof (induction env)
  case (Cons e env)
  then show ?case using assms by (cases e) (simp add: decode_round_def)
qed simp

text \<open>A length word out of range stays at the read index: no later round gets past it.\<close>

lemma bad_length_stuck:
  assumes "rd16 (rx_pru s) 2 = Some r" "rd16 (rx_pru s) 0 = Some w" "r \<noteq> w" "rd16 (rx_pru s) (uint r) = Some l"
    and "l = 0 \<or> l > RX_MTU_VALUE"
  shows "pru_phy_decoding uninit rs env s = Some (if \<exists>e\<in>set env. snd e then Some 0 else None, s)"
proof (induction env)
  case (Cons e env)
  then show ?case using assms by (cases e) (auto simp: decode_round_def)
qed simp

text \<open>The only value the thread returns is \<open>0\<close>.\<close>

lemma decode_round_return:
  "decode_round uninit rs alloc stop s = Some (Some ret, s') \<Longrightarrow> ret = 0 \<and> stop"
  by (auto simp: decode_round_def decode_frame_def Let_def dest!: decode_blocks_no_failure
      split: Option.bind_splits if_splits option.splits)

lemma thread_returns_0:
  "pru_phy_decoding uninit rs env s = Some (Some ret, s') \<Longrightarrow> ret = 0 \<and> (\<exists>e\<in>set env. snd e)"
proof (induction env arbitrary: s)
  case (Cons e env)
  then show ?case
    by (cases e) (fastforce dest: decode_round_return split: Option.bind_splits option.splits)
qed simp

section \<open>Marked packets\<close>

text \<open>A packet for a node in which errors were counted is no longer for that node: it carries the error id
  and the count. An uncorrectable packet has the count \<open>2 ^ 32 - 74\<close>.\<close>

lemma mark_errors_marks:
  assumes d: "14 \<le> length d" and e: "e \<noteq> 0" and id: "rd16 d 2 = Some i" "i \<noteq> RX_DUMMY_NODE_ID"
  shows "\<exists>b. mark_errors e d = Some b \<and> rd16 b 2 = Some error_node_id \<and> rd32 b 10 = Some e
    \<and> take 2 b = take 2 d \<and> take 6 (drop 4 b) = take 6 (drop 4 d) \<and> drop 14 b = drop 14 d"
proof -
  let ?b = "take 2 d @ le16 error_node_id @ take 6 (drop 4 d) @ le32 e @ drop 14 d"
  have "e > 0" using e by (simp add: word_neq_0_conv)
  moreover have "cput d 2 (le16 error_node_id) = Some (take 2 d @ le16 error_node_id @ drop 4 d)"
    using d by (simp add: cput_def)
  moreover have "cput (take 2 d @ le16 error_node_id @ drop 4 d) 10 (le32 e) = Some ?b"
    using d by (simp add: bytes_simps) (simp add: cput_def)
  ultimately have "mark_errors e d = Some ?b" using id by (simp add: mark_errors_def)
  moreover have "rd16 ?b 2 = Some error_node_id" "rd32 ?b 10 = Some e" using d by (simp_all add: bytes_simps)
  ultimately show ?thesis using d by simp
qed

lemma init_rs_error_packet_ok:
  "length d = PKT_DATA \<Longrightarrow> init_rs_error_packet d = Some (quality_bytes 98 @ drop 84 d, 84)"
  using quality_fill[of d 98] by (simp add: init_rs_error_packet_def Let_def)

end
