(* ===== verification/Vlc_Module.thy ===== *)
theory Vlc_Module
  imports Vlc_Rx
begin

text \<open>
  Loading and unloading the two kernel modules: \<^verbatim>\<open>init_module\<close> and \<^verbatim>\<open>cleanup_module\<close> of both
  \<^verbatim>\<open>ourvlc-1.c\<close>, with the device set-up they call. The kernel is a parameter: an environment record holds
  what it answers, and the state logs the calls into it in their order. \<open>blocking\<close> is the result of a call that may wait
  for the decoding thread. \<open>None\<close> is a dereference of \<^verbatim>\<open>NULL\<close> or a
  block freed twice. The list of Reed-Solomon structures is the module's own, since \<^verbatim>\<open>reed_solomon.o\<close> is linked
  into it, so the decoder is always its first entry.
\<close>

unbundle bit_operations_syntax

section \<open>The network device\<close>

record vlc_dev =
  hard_header_len :: int
  mtu :: int
  tx_queue_len :: int
  addr_len :: int
  dev_addr :: "u8 list"
  queue_on :: bool
  noarp :: bool
  hw_csum :: bool
  skb_sharing :: bool

definition VLC_HLEN :: int where "VLC_HLEN = 6"
definition MAC_ADDR_LEN :: int where "MAC_ADDR_LEN = 2"

definition vlc_setup :: "int \<Rightarrow> vlc_dev \<Rightarrow> vlc_dev" where
  "vlc_setup mtu_param dev = dev\<lparr>hard_header_len := VLC_HLEN, mtu := mtu_param, tx_queue_len := 100, skb_sharing := True\<rparr>"

definition vlc_open :: "vlc_dev \<Rightarrow> int \<times> vlc_dev" where
  "vlc_open dev = (0, dev\<lparr>dev_addr := [0, 2] @ drop 2 (dev_addr dev), queue_on := True\<rparr>)"

definition vlc_release :: "vlc_dev \<Rightarrow> int \<times> vlc_dev" where
  "vlc_release dev = (0, dev)"

definition vlc_ioctl :: "int \<Rightarrow> vlc_dev \<Rightarrow> int \<times> vlc_dev" where
  "vlc_ioctl cmd dev = (0, dev)"

text \<open>The device part of \<^verbatim>\<open>vlc_init\<close>, the same in both drivers.\<close>

definition vlc_init_dev :: "int \<Rightarrow> vlc_dev \<Rightarrow> vlc_dev" where
  "vlc_init_dev mtu_param dev =
     (let dev = vlc_setup mtu_param (dev\<lparr>addr_len := MAC_ADDR_LEN\<rparr>) in dev\<lparr>noarp := True, hw_csum := True\<rparr>)"

section \<open>Calls into the kernel\<close>

datatype kcall =
    Alloc_netdev | Register_netdev | Unregister_netdev | Free_netdev
  | Proc_mkdir | Create_proc string | Remove_proc string | Ioremap | Iounmap
  | Timer_init | Timer_start | Timer_destroy | Kthread_run | Kthread_stop
  | Buffers_freed | Init_rs | Free_rs

text \<open>\<^verbatim>\<open>kthread_stop\<close> asks the decoding thread to stop and waits until it has returned. The thread is a parameter: whether the
  request finds it right before its own test of the request, and otherwise what it sees of the shared memory in its next
  rounds; \<open>None\<close> is an address that is no longer mapped. A round after the memory was taken down goes like
  \<open>decode_round\<close>, but the decoder and the packet it would use are freed: decoding a frame is a fault.\<close>

record kthread =
  th_at_test :: bool
  th_sees :: "u8 list option list"

definition round_torn_down :: "u8 list option \<Rightarrow> int option option" where
  "round_torn_down view = do {
     m \<leftarrow> view;
     ridx \<leftarrow> rd16 m 2;
     widx \<leftarrow> rd16 m 0;
     if ridx = widx then Some None
     else do {
       len \<leftarrow> rd16 m (uint ridx);
       if len > 0 \<and> len \<le> RX_MTU_VALUE then None else Some (Some 0) } }"

fun rounds_torn_down :: "u8 list option list \<Rightarrow> int option option" where
  "rounds_torn_down [] = Some None"
| "rounds_torn_down (view # views) = do {
     ret \<leftarrow> round_torn_down view;
     (case ret of None \<Rightarrow> rounds_torn_down views | Some r \<Rightarrow> Some (Some r)) }"

text \<open>The result of \<^verbatim>\<open>kthread_stop\<close>, which is what the thread returned; \<open>Some None\<close>: after these rounds it still waits.\<close>

definition kthread_stop :: "kthread \<Rightarrow> int option option" where
  "kthread_stop th = (if th_at_test th then Some (Some 0) else rounds_torn_down (th_sees th))"

text \<open>A call that has returned, or that still waits in the state given.\<close>

datatype 'a blocking = Done 'a | Waiting 'a

text \<open>What the kernel answers: the memory of the device, or none; the result of registering it; the mapped PRU
  memory; the allocators; the results of the timer and thread calls (0 for success); the
  decoding thread, in case the load is undone.\<close>

record kernel =
  k_netdev :: "vlc_dev option"
  k_mtu :: int
  k_register :: int
  k_ioremap :: "u8 list option"
  k_rs_kmalloc :: kallocator
  k_pool_size :: int
  k_kmalloc :: "int \<Rightarrow> ptr"
  k_body :: "int \<Rightarrow> pkt_body"
  k_q :: "u8 list option"
  k_timer_init :: int
  k_timer_start :: int
  k_kthread :: int
  k_thread :: kthread

definition ENOMEM :: int where "ENOMEM = 12"

section \<open>The transmitter's module\<close>

record tx_mod =
  m_devs :: "vlc_dev option"
  m_drv :: drv
  m_q :: "u8 list option"
  m_rslist :: "rs_control list"
  m_rs :: "rs_control option"
  m_log :: "kcall list"

definition tx_call :: "kcall \<Rightarrow> tx_mod \<Rightarrow> tx_mod" where
  "tx_call c s = s\<lparr>m_log := m_log s @ [c]\<rparr>"

definition tx_cleanup_module :: "tx_mod \<Rightarrow> tx_mod option" where
  "tx_cleanup_module s = do {
     s \<leftarrow> (case m_devs s of
            None \<Rightarrow> Some s
          | Some dev \<Rightarrow> do {
              h \<leftarrow> cleanup_buffers (m_drv s);
              let s = tx_call Buffers_freed (s\<lparr>m_drv := (m_drv s)\<lparr>mem := h, tx_queue := None, ppool := None\<rparr>, m_q := None\<rparr>);
              let s = tx_call Unregister_netdev s;
              Some (tx_call Free_netdev s) });
     s \<leftarrow> (case m_rs s of
            None \<Rightarrow> Some s
          | Some rs \<Rightarrow> do {
              l \<leftarrow> free_rs (m_rslist s) 0;
              Some (tx_call Free_rs (s\<lparr>m_rslist := l\<rparr>)) });
     let s = tx_call Timer_destroy s;
     let s = tx_call (Remove_proc ''tx'') s;
     let s = tx_call (Remove_proc ''vlc'') s;
     Some (tx_call Iounmap s) }"

text \<open>The label \<^verbatim>\<open>out\<close>.\<close>

definition tx_out :: "int \<Rightarrow> tx_mod \<Rightarrow> (int \<times> tx_mod) option" where
  "tx_out ret s = (if ret \<noteq> 0 then map_option (\<lambda>s. (ret, s)) (tx_cleanup_module s) else Some (ret, s))"

text \<open>The part behind the mapping of the PRU memory \<open>m\<close>.\<close>

definition tx_init_mapped :: "kernel \<Rightarrow> (nat \<Rightarrow> int \<Rightarrow> int) \<Rightarrow> u8 list \<Rightarrow> tx_mod \<Rightarrow> (int \<times> tx_mod) option" where
  "tx_init_mapped k fptr m s = do {
     m \<leftarrow> cput m 0 (le32 0x00040004);
     let s = s\<lparr>m_drv := (m_drv s)\<lparr>pru := m\<rparr>\<rparr>;
     q \<leftarrow> m_q s;
     (q, len) \<leftarrow> init_vlc_quality_packet q;
     let s = s\<lparr>m_q := Some q\<rparr>;
     (l, rs) \<leftarrow> init_rs (k_rs_kmalloc k) fptr (m_rslist s) 8 0x11d 0 1 ECC_LEN;
     let s = tx_call Init_rs (s\<lparr>m_rslist := l, m_rs := rs\<rparr>);
     if rs = None then tx_out (- ENOMEM) s
     else (let s = tx_call Timer_init s; ret = k_timer_init k in
       if ret \<noteq> 0 then Some (ret, s)
       else (let s = tx_call Timer_start s; ret = k_timer_start k in
         if ret \<noteq> 0 then Some (ret, s) else tx_out ret s)) }"

definition tx_init_module :: "kernel \<Rightarrow> (nat \<Rightarrow> int \<Rightarrow> int) \<Rightarrow> tx_mod \<Rightarrow> (int \<times> tx_mod) option" where
  "tx_init_module k fptr s =
    (let s = tx_call Alloc_netdev s in
     case k_netdev k of
       None \<Rightarrow> tx_out 0 (s\<lparr>m_devs := None\<rparr>)
     | Some dev \<Rightarrow> do {
         d \<leftarrow> drv_init (k_pool_size k) (k_kmalloc k) (k_body k) (mem (m_drv s)) (pru (m_drv s));
         let s = s\<lparr>m_devs := Some (vlc_init_dev (k_mtu k) dev), m_drv := d, m_q := k_q k\<rparr>;
         let s = tx_call Register_netdev s;
         let ret = k_register k;
         let s = tx_call Proc_mkdir s;
         let s = tx_call (Create_proc ''tx'') s;
         let s = tx_call Ioremap s;
         (case k_ioremap k of
            None \<Rightarrow> tx_out ret s
          | Some m \<Rightarrow> tx_init_mapped k fptr m s) })"

section \<open>The receiver's module\<close>

record rx_mod =
  n_devs :: "vlc_dev option"
  n_mem :: pkt_heap
  n_pool :: ptr
  n_rx_pkt :: ptr
  n_rs_error_pkt :: "u8 list option"
  n_int_enabled :: int
  n_rslist :: "rs_control list"
  n_rs :: "rs_control option"
  n_task :: bool
  n_log :: "kcall list"

definition rx_call :: "kcall \<Rightarrow> rx_mod \<Rightarrow> rx_mod" where
  "rx_call c s = s\<lparr>n_log := n_log s @ [c]\<rparr>"

text \<open>\<^verbatim>\<open>vlc_init\<close>: the packet \<^verbatim>\<open>rx_pkt\<close> is allocated before the pool.\<close>

definition rx_vlc_init :: "kernel \<Rightarrow> vlc_dev \<Rightarrow> rx_mod \<Rightarrow> rx_mod option" where
  "rx_vlc_init k dev s = do {
     let rx = k_kmalloc k (- 1);
     let h = (case rx of None \<Rightarrow> n_mem s | Some a \<Rightarrow> (n_mem s)(a \<mapsto> \<lparr>nd_data = k_body k (- 1), nd_next = None\<rparr>));
     (h, pool) \<leftarrow> vlc_setup_pool (k_pool_size k) (k_kmalloc k) (k_body k) h;
     Some (s\<lparr>n_devs := Some (vlc_init_dev (k_mtu k) dev), n_int_enabled := 1, n_rx_pkt := rx, n_rs_error_pkt := k_q k,
             n_mem := h, n_pool := pool\<rparr>) }"

definition rx_cleanup_module :: "kthread \<Rightarrow> rx_mod \<Rightarrow> rx_mod blocking option" where
  "rx_cleanup_module th s = do {
     s \<leftarrow> (case n_devs s of
            None \<Rightarrow> Some s
          | Some dev \<Rightarrow> do {
              h \<leftarrow> vlc_teardown_pool (n_mem s) (n_pool s);
              h \<leftarrow> kfree h (n_rx_pkt s);
              let s = rx_call Buffers_freed (s\<lparr>n_mem := h, n_pool := None, n_rs_error_pkt := None\<rparr>);
              let s = rx_call Unregister_netdev s;
              Some (rx_call Free_netdev s) });
     let s = rx_call (Remove_proc ''rx'') s;
     let s = rx_call (Remove_proc ''tx'') s;
     let s = rx_call (Remove_proc ''vlc'') s;
     let s = rx_call Iounmap s;
     s \<leftarrow> (case n_rs s of
            None \<Rightarrow> Some s
          | Some rs \<Rightarrow> do {
              l \<leftarrow> free_rs (n_rslist s) 0;
              Some (rx_call Free_rs (s\<lparr>n_rslist := l\<rparr>)) });
     if n_task s then do {
       let s = rx_call Kthread_stop s;
       ret \<leftarrow> kthread_stop th;
       Some (if ret = None then Waiting s else Done (s\<lparr>n_task := False\<rparr>)) }
     else Some (Done s) }"

definition rx_out :: "kernel \<Rightarrow> int \<Rightarrow> rx_mod \<Rightarrow> (int \<times> rx_mod) blocking option" where
  "rx_out k ret s =
     (if ret \<noteq> 0 then map_option (map_blocking (\<lambda>s. (ret, s))) (rx_cleanup_module (k_thread k) s) else Some (Done (ret, s)))"

definition rx_init_mapped :: "kernel \<Rightarrow> (nat \<Rightarrow> int \<Rightarrow> int) \<Rightarrow> int \<Rightarrow> rx_mod \<Rightarrow> (int \<times> rx_mod) blocking option" where
  "rx_init_mapped k fptr ret s = do {
     (l, rs) \<leftarrow> init_rs (k_rs_kmalloc k) fptr (n_rslist s) 8 0x11d 0 1 ECC_LEN;
     let s = rx_call Init_rs (s\<lparr>n_rslist := l, n_rs := rs\<rparr>);
     if rs = None then rx_out k (- ENOMEM) s
     else do {
       q \<leftarrow> n_rs_error_pkt s;
       (q, len) \<leftarrow> init_rs_error_packet q;
       let s = rx_call Kthread_run (s\<lparr>n_rs_error_pkt := Some q\<rparr>);
       if k_kthread k < 0 then rx_out k (k_kthread k) (s\<lparr>n_task := False\<rparr>)
       else rx_out k ret (s\<lparr>n_task := True\<rparr>) } }"

definition rx_init_module :: "kernel \<Rightarrow> (nat \<Rightarrow> int \<Rightarrow> int) \<Rightarrow> rx_mod \<Rightarrow> (int \<times> rx_mod) blocking option" where
  "rx_init_module k fptr s =
    (let s = rx_call Alloc_netdev s in
     case k_netdev k of
       None \<Rightarrow> rx_out k 0 (s\<lparr>n_devs := None\<rparr>)
     | Some dev \<Rightarrow> do {
         s \<leftarrow> rx_vlc_init k dev s;
         let s = rx_call Register_netdev s;
         let ret = k_register k;
         let s = rx_call Proc_mkdir s;
         let s = rx_call (Create_proc ''rx'') s;
         let s = rx_call (Create_proc ''tx'') s;
         let s = rx_call Ioremap s;
         (case k_ioremap k of
            None \<Rightarrow> rx_out k ret s
          | Some m \<Rightarrow> rx_init_mapped k fptr ret s) })"

section \<open>The transmitter between loading and unloading\<close>

text \<open>A socket buffer that starts with the length of a packet of one block.\<close>

definition skb_ok :: "u8 list \<Rightarrow> bool" where
  "skb_ok skb \<longleftrightarrow> length skb \<le> PKT_DATA \<and> (case rd16 skb 0 of None \<Rightarrow> False | Some l \<Rightarrow> unat l < 190)"

text \<open>The steps: the network stack hands over a socket buffer, the timer fires, the PRU changes the shared memory,
  of which it leaves only the write index alone.\<close>

inductive drv_reach :: "rs_control \<Rightarrow> drv \<times> u8 list \<Rightarrow> drv \<times> u8 list \<Rightarrow> bool" for rs s0 where
  drv_reach_start: "drv_reach rs s0 s0"
| drv_reach_xmit: "drv_reach rs s0 (s, q) \<Longrightarrow> skb_ok skb \<Longrightarrow> drv_xmit skb s = Some (b, s') \<Longrightarrow> drv_reach rs s0 (s', q)"
| drv_reach_tick: "drv_reach rs s0 (s, q) \<Longrightarrow> phy_timer_handler rs q s = Some (s', q') \<Longrightarrow> drv_reach rs s0 (s', q')"
| drv_reach_pru: "drv_reach rs s0 (s, q) \<Longrightarrow> length m = length (pru s) \<Longrightarrow> take 2 m = take 2 (pru s)
    \<Longrightarrow> drv_reach rs s0 (s\<lparr>pru := m\<rparr>, q)"

lemma vlc_tx_frame:
  "vlc_tx skb s = Some (r, s') \<Longrightarrow>
     pru s' = pru s \<and> write_idx s' = write_idx s \<and> is_write_next s' = is_write_next s \<and> tx_pkt s' = tx_pkt s"
  by (auto simp: vlc_tx_def vlc_get_tx_buffer_def vlc_enqueue_pkt_def Let_def
      split: Option.bind_splits option.splits if_splits)

lemma xmit_keeps:
  assumes inv: "handler_inv s q" and skb: "skb_ok skb"
  shows "\<exists>b s'. drv_xmit skb s = Some (b, s') \<and> handler_inv s' q \<and> (tx_spent s \<longrightarrow> tx_spent s')"
proof -
  obtain as bs where i: "short_pkt q" "ring_ok s" "drv_at s as bs"
    "\<forall>b\<in>set bs. short_pkt (pk_data (nd_data (the (mem s b))))" using inv by (auto simp: handler_inv_def)
  show ?thesis
  proof (cases as)
    case Nil
    then have "drv_xmit skb s = Some (False, s)" using i(3) by (simp add: drv_xmit_def drv_at_def)
    with inv show ?thesis by blast
  next
    case (Cons a as')
    note at = i(3)[unfolded Cons]
    have sl: "length skb \<le> PKT_DATA" using skb by (simp add: skb_ok_def)
    from vlc_tx_ok[OF at sl] obtain s' where s': "vlc_tx skb s = Some (0, s')" "drv_at s' as' (bs @ [a])"
      "\<forall>c\<in>set bs. nd_data (the (mem s' c)) = nd_data (the (mem s c))"
      "pk_data (nd_data (the (mem s' a))) = skb @ drop (length skb) (pk_data (nd_data (the (mem s a))))" by blast
    note fr = vlc_tx_frame[OF s'(1)]
    have "length (pk_data (nd_data (the (mem s a)))) = PKT_DATA" using at by (simp add: drv_at_def)
    then have "short_pkt (pk_data (nd_data (the (mem s' a))))"
      using skb s'(4) by (auto simp: short_pkt_def skb_ok_def rd16_def ard_def nth_append split: option.splits Option.bind_splits if_splits)
    then have "handler_inv s' q"
      unfolding handler_inv_def using i(1,2,4) s'(2,3) fr
      by (intro conjI exI[of _ as'] exI[of _ "bs @ [a]"]) (auto simp: ring_ok_def)
    moreover have "tx_spent s \<longrightarrow> tx_spent s'"
      using tx_spent_at[OF at] tx_spent_at[OF s'(2)] fr by auto
    moreover have "drv_xmit skb s = Some (True, s')" using at s'(1) by (simp add: drv_xmit_def drv_at_def)
    ultimately show ?thesis by blast
  qed
qed

lemma pru_keeps:
  assumes inv: "handler_inv s q" and m: "length m = length (pru s)" "take 2 m = take 2 (pru s)"
  shows "handler_inv (s\<lparr>pru := m\<rparr>) q" "tx_spent (s\<lparr>pru := m\<rparr>) \<longleftrightarrow> tx_spent s"
proof -
  have "6230 \<le> length (pru s)" using inv by (auto simp: handler_inv_def ring_ok_def)
  then have "rd16 m 0 = rd16 (pru s) 0" using m by (intro rd16_prefix) auto
  then show "handler_inv (s\<lparr>pru := m\<rparr>) q" using inv m(1) by (auto simp: handler_inv_def ring_ok_def drv_at_def)
  show "tx_spent (s\<lparr>pru := m\<rparr>) \<longleftrightarrow> tx_spent s" by (simp add: tx_spent_def drv_at_def)
qed

lemma drv_reach_keeps:
  assumes "drv_reach (vlc_rs u) (s0, q0) (s, q)" and "handler_inv s0 q0"
  shows "handler_inv s q \<and> (tx_spent s0 \<longrightarrow> tx_spent s)"
  using assms(1)
proof (induction "(s, q)" arbitrary: s q rule: drv_reach.induct)
  case drv_reach_start
  with assms(2) show ?case by simp
next
  case (drv_reach_xmit s q skb b s')
  then show ?case using xmit_keeps[of s q skb] by auto
next
  case (drv_reach_tick s q s' q')
  then show ?case using handler_keeps[of s q u] by auto
next
  case (drv_reach_pru s q m)
  then show ?case using pru_keeps[of s q m] by auto
qed

section \<open>Loading the transmitter\<close>

text \<open>A kernel that grants everything: fresh blocks for \<^verbatim>\<open>tx_pkt\<close> and the pool, tables for the decoder, the
  device, the mapping and the timer.\<close>

definition fresh_blocks :: "kernel \<Rightarrow> pkt_heap \<Rightarrow> bool" where
  "fresh_blocks k h \<longleftrightarrow> 0 < k_pool_size k
     \<and> (\<forall>i j a. - 1 \<le> i \<longrightarrow> i < j \<longrightarrow> k_kmalloc k i = Some a \<longrightarrow> k_kmalloc k j \<noteq> Some a)
     \<and> (\<forall>i. - 1 \<le> i \<longrightarrow> i < k_pool_size k \<longrightarrow> (\<exists>a. k_kmalloc k i = Some a \<and> h a = None))
     \<and> (\<forall>i. length (pk_data (k_body k i)) = PKT_DATA \<and> 0 \<le> datalen (k_body k i) \<and> datalen (k_body k i) \<le> int PKT_DATA)"

definition grants :: "kernel \<Rightarrow> bool" where
  "grants k \<longleftrightarrow> k_netdev k \<noteq> None \<and> (\<exists>q. k_q k = Some q \<and> length q = PKT_DATA)
     \<and> (\<exists>m. k_ioremap k = Some m \<and> 6230 \<le> length m)
     \<and> kmalloc_sound (k_rs_kmalloc k) \<and> k_rs_kmalloc k 0 1 \<noteq> None \<and> k_rs_kmalloc k 1 256 \<noteq> None
     \<and> k_rs_kmalloc k 2 256 \<noteq> None \<and> k_rs_kmalloc k 3 17 \<noteq> None"

definition tx_load_log :: "kcall list" where
  "tx_load_log = [Alloc_netdev, Register_netdev, Proc_mkdir, Create_proc ''tx'', Ioremap, Init_rs, Timer_init, Timer_start]"

lemma fresh_drv_init:
  assumes fresh: "fresh_blocks k h"
  shows "\<exists>s as a. drv_init (k_pool_size k) (k_kmalloc k) (k_body k) h m = Some s \<and> drv_at s as []
    \<and> length as = nat (k_pool_size k) \<and> tx_pkt s = Some a \<and> a \<notin> set as
    \<and> (\<forall>c. mem s c = None \<longleftrightarrow> c \<notin> set (a # as) \<and> h c = None) \<and> (\<forall>c\<in>set (a # as). h c = None)"
proof -
  have "\<exists>s as a. drv_init (k_pool_size k) (k_kmalloc k) (k_body k) h m = Some s \<and> drv_at s as []
    \<and> length as = nat (k_pool_size k) \<and> tx_pkt s = Some a \<and> a \<notin> set as
    \<and> (\<forall>c. mem s c = None \<longleftrightarrow> c \<notin> set (a # as) \<and> h c = None)
    \<and> (\<forall>c\<in>set (a # as). \<exists>i. - 1 \<le> i \<and> i < k_pool_size k \<and> k_kmalloc k i = Some c)"
    by (rule drv_init_ok) (use fresh in \<open>fastforce simp: fresh_blocks_def\<close>)+
  moreover have "h c = None" if "\<exists>i. - 1 \<le> i \<and> i < k_pool_size k \<and> k_kmalloc k i = Some c" for c
    using that fresh unfolding fresh_blocks_def by force
  ultimately show ?thesis by blast
qed

lemma grants_rs: "grants k \<Longrightarrow> init_rs (k_rs_kmalloc k) fptr [] 8 0x11d 0 1 ECC_LEN = Some ([vlc_rs 1], Some (vlc_rs 1))"
  unfolding ECC_LEN_def by (rule init_rs_first) (simp_all add: grants_def)

lemma drv_init_start:
  "drv_init n kmalloc body h m = Some s \<Longrightarrow> pru s = m \<and> write_idx s = 4 \<and> is_write_next s"
  by (auto simp: drv_init_def Let_def split: Option.bind_splits)

text \<open>Loading: the pool is full, the ring empty with both indices 4, the decoder built and the timer running. A timer that
  cannot be set up makes the load fail, with everything else left as it is.\<close>

definition tx_loaded :: "kernel \<Rightarrow> pkt_heap \<Rightarrow> kcall list \<Rightarrow> tx_mod \<Rightarrow> bool" where
  "tx_loaded k h log s \<longleftrightarrow> (\<exists>as a q. drv_at (m_drv s) as [] \<and> length as = nat (k_pool_size k)
     \<and> tx_pkt (m_drv s) = Some a \<and> a \<notin> set as
     \<and> (\<forall>c. mem (m_drv s) c = None \<longleftrightarrow> c \<notin> set (a # as) \<and> h c = None) \<and> (\<forall>c\<in>set (a # as). h c = None)
     \<and> m_q s = Some q \<and> take 84 q = quality_bytes 99 \<and> handler_inv (m_drv s) q)
     \<and> take 4 (pru (m_drv s)) = [4, 0, 4, 0] \<and> m_devs s \<noteq> None \<and> m_rs s = Some (vlc_rs 1) \<and> m_rslist s = [vlc_rs 1]
     \<and> m_log s = log @ tx_load_log"

lemma start_indices: "le32 0x00040004 = [4, 0, 4, 0]" "rd16 ([4, 0, 4, 0] @ m) 0 = Some 4"
  by (simp_all add: le32_def rd16_def ard_def of_le16_def)

lemma tx_init_ok:
  assumes fresh: "fresh_blocks k (mem (m_drv s))" and g: "grants k" and l: "m_rslist s = []"
  shows "\<exists>s'. tx_loaded k (mem (m_drv s)) (m_log s) s'
    \<and> tx_init_module k fptr s = Some (if k_timer_init k \<noteq> 0 then (k_timer_init k, s'\<lparr>m_log := m_log s @ butlast tx_load_log\<rparr>)
        else (k_timer_start k, s'))"
proof -
  obtain dev q m where k: "k_netdev k = Some dev" "k_q k = Some q" "length q = PKT_DATA" "k_ioremap k = Some m"
    "6230 \<le> length m" using g by (auto simp: grants_def)
  from fresh_drv_init[OF fresh] obtain d as a where d: "drv_init (k_pool_size k) (k_kmalloc k) (k_body k) (mem (m_drv s))
      (pru (m_drv s)) = Some d" "drv_at d as []" "length as = nat (k_pool_size k)" "tx_pkt d = Some a" "a \<notin> set as"
    "\<forall>c. mem d c = None \<longleftrightarrow> c \<notin> set (a # as) \<and> mem (m_drv s) c = None" "\<forall>c\<in>set (a # as). mem (m_drv s) c = None" by blast
  let ?m = "le32 0x00040004 @ drop 4 m"
  let ?q = "quality_bytes 99 @ drop 84 q"
  let ?s = "s\<lparr>m_devs := Some (vlc_init_dev (k_mtu k) dev), m_drv := d\<lparr>pru := ?m\<rparr>, m_q := Some ?q, m_rslist := [vlc_rs 1],
    m_rs := Some (vlc_rs 1), m_log := m_log s @ tx_load_log\<rparr>"
  have m: "cput m 0 (le32 0x00040004) = Some ?m" using k(5) by (simp add: cput_0)
  note q = init_vlc_quality_packet_ok[OF k(3)]
  have init: "tx_init_module k fptr s = Some (if k_timer_init k \<noteq> 0
      then (k_timer_init k, ?s\<lparr>m_log := m_log s @ butlast tx_load_log\<rparr>) else (k_timer_start k, ?s))"
    by (simp add: tx_init_module_def tx_init_mapped_def tx_out_def k m d(1) q(1) l grants_rs[OF g] tx_call_def
        tx_load_log_def Let_def)
  have "ring_ok (d\<lparr>pru := ?m\<rparr>)"
    using k(5) drv_init_start[OF d(1)] 
    by (simp add: ring_ok_def start_indices(1) start_indices(2)[simplified] in_ring_def BUFFER_LIMIT_def)
  moreover have at: "drv_at (d\<lparr>pru := ?m\<rparr>) as []" using d(2) by (simp add: drv_at_def)
  ultimately have "handler_inv (d\<lparr>pru := ?m\<rparr>) ?q"
    using q(2) unfolding handler_inv_def by (intro conjI exI[of _ as] exI[of _ "[]"]) auto
  moreover have "take 84 ?q = quality_bytes 99" by (simp add: quality_bytes_def)
  ultimately have "tx_loaded k (mem (m_drv s)) (m_log s) ?s"
    unfolding tx_loaded_def using d at
    by (intro conjI exI[of _ as] exI[of _ a] exI[of _ ?q]) (simp_all add: start_indices(1))
  with init show ?thesis by blast
qed

section \<open>Unloading the transmitter\<close>

definition tx_unload_log :: "kcall list" where
  "tx_unload_log = [Buffers_freed, Unregister_netdev, Free_netdev, Free_rs, Timer_destroy, Remove_proc ''tx'',
     Remove_proc ''vlc'', Iounmap]"

text \<open>What \<open>tx_loaded\<close> says of the memory, for both modules: pool \<open>as\<close> and packet \<open>a\<close> were allocated on top of \<open>h\<close>.\<close>

definition grown :: "pkt_heap \<Rightarrow> nat \<Rightarrow> nat list \<Rightarrow> pkt_heap \<Rightarrow> bool" where
  "grown h a as h' \<longleftrightarrow> (\<forall>c. h' c = None \<longleftrightarrow> c \<notin> set (a # as) \<and> h c = None) \<and> (\<forall>c\<in>set (a # as). h c = None)"

lemma grown_freed:
  assumes "grown h a as h'" and "\<forall>c. h'' c = None \<longleftrightarrow> c \<in> set (a # as) \<or> h' c = None"
  shows "h'' c = None \<longleftrightarrow> h c = None"
  using assms(1) spec[OF assms(2), of c] unfolding grown_def by (cases "c \<in> set (a # as)") (auto simp: Ball_def)

text \<open>The runs in which the handler sends no packet of the queue: it only fires when the queue is empty or the last frame is not
  yet published.\<close>

inductive unsent_runs :: "rs_control \<Rightarrow> drv \<times> u8 list \<Rightarrow> drv \<times> u8 list \<Rightarrow> bool" for rs s0 where
  unsent_start: "unsent_runs rs s0 s0"
| unsent_xmit: "unsent_runs rs s0 (s, q) \<Longrightarrow> skb_ok skb \<Longrightarrow> drv_xmit skb s = Some (b, s') \<Longrightarrow> unsent_runs rs s0 (s', q)"
| unsent_tick: "unsent_runs rs s0 (s, q) \<Longrightarrow> is_write_next s \<longrightarrow> tx_queue s = None \<Longrightarrow> phy_timer_handler rs q s = Some (s', q')
    \<Longrightarrow> unsent_runs rs s0 (s', q')"
| unsent_pru: "unsent_runs rs s0 (s, q) \<Longrightarrow> length m = length (pru s) \<Longrightarrow> take 2 m = take 2 (pru s)
    \<Longrightarrow> unsent_runs rs s0 (s\<lparr>pru := m\<rparr>, q)"

text \<open>What such runs keep: the blocks in pool and queue are the same, and \<^verbatim>\<open>tx_pkt\<close> is the block allocated at the load.\<close>

definition unsent :: "nat \<Rightarrow> nat set \<Rightarrow> pkt_heap \<Rightarrow> drv \<Rightarrow> bool" where
  "unsent a B h s \<longleftrightarrow> (\<exists>as bs. drv_at s as bs \<and> set (as @ bs) = B) \<and> tx_pkt s = Some a \<and> a \<notin> B
     \<and> (\<forall>c. mem s c = None \<longleftrightarrow> c \<notin> insert a B \<and> h c = None)"

lemma vlc_tx_dom: "vlc_tx skb s = Some (r, s') \<Longrightarrow> (mem s' c = None) = (mem s c = None)"
  by (auto simp: vlc_tx_def vlc_get_tx_buffer_def vlc_enqueue_pkt_def Let_def
      split: Option.bind_splits option.splits if_splits)

lemma unsent_xmit_step:
  assumes u: "unsent a B h s" and skb: "skb_ok skb" and x: "drv_xmit skb s = Some (b, s')"
  shows "unsent a B h s'"
proof (cases "stopped s")
  case False
  obtain as bs where at: "drv_at s as bs" "set (as @ bs) = B" using u by (auto simp: unsent_def)
  obtain c as' where as: "as = c # as'" using at(1) False by (cases as) (auto simp: drv_at_def)
  have "length skb \<le> PKT_DATA" using skb by (simp add: skb_ok_def)
  from vlc_tx_ok[OF at(1)[unfolded as] this] x False have v: "vlc_tx skb s = Some (0, s')" "drv_at s' as' (bs @ [c])"
    by (auto simp: drv_xmit_def)
  then have "\<exists>as bs. drv_at s' as bs \<and> set (as @ bs) = B"
    using at(2) as by (intro exI[of _ as'] exI[of _ "bs @ [c]"]) auto
  then show ?thesis using u vlc_tx_dom[OF v(1)] vlc_tx_frame[OF v(1)] by (simp add: unsent_def)
qed (use u x in \<open>simp add: drv_xmit_def\<close>)

lemma unsent_same:
  assumes "unsent a B h s" "mem s' = mem s" "tx_pkt s' = tx_pkt s" "ppool s' = ppool s" "tx_queue s' = tx_queue s"
    "stopped s' = stopped s" "flag_exit s' = flag_exit s"
  shows "unsent a B h s'"
  using assms by (simp add: unsent_def drv_at_def)

lemma quiet_tick_same:
  assumes "phy_timer_handler rs q s = Some (s', q')" "is_write_next s \<longrightarrow> tx_queue s = None"
  shows "mem s' = mem s \<and> tx_pkt s' = tx_pkt s \<and> ppool s' = ppool s \<and> tx_queue s' = tx_queue s
    \<and> stopped s' = stopped s \<and> flag_exit s' = flag_exit s"
  using assms by (auto simp: phy_timer_handler_def handler_write_def Let_def split: Option.bind_splits if_splits)

lemma unsent_runs_keep:
  assumes "unsent_runs rs (s0, q0) (s, q)" and "unsent a B h s0"
  shows "unsent a B h s"
  using assms(1)
proof (induction "(s, q)" arbitrary: s q rule: unsent_runs.induct)
  case (unsent_xmit s q skb b s')
  then show ?case using unsent_xmit_step by blast
next
  case (unsent_tick s q s' q')
  then show ?case using quiet_tick_same[of rs q s s' q'] unsent_same[of a B h s s'] by blast
next
  case (unsent_pru s q m)
  then show ?case using unsent_same[of a B h s "s\<lparr>pru := m\<rparr>"] by simp
qed (use assms(2) in simp)

lemma tx_unload_unsent:
  assumes l: "tx_loaded k h log s" and q: "m_q s = Some q0" and run: "unsent_runs rs (m_drv s, q0) (d, q)"
  shows "\<exists>s'. tx_cleanup_module (s\<lparr>m_drv := d, m_q := Some q\<rparr>) = Some s' \<and> (\<forall>c. mem (m_drv s') c = None \<longleftrightarrow> h c = None)
    \<and> m_rslist s' = [] \<and> m_log s' = log @ tx_load_log @ tx_unload_log"
proof -
  obtain as a where i: "drv_at (m_drv s) as []" "tx_pkt (m_drv s) = Some a" "a \<notin> set as"
    "\<forall>c. mem (m_drv s) c = None \<longleftrightarrow> c \<notin> set (a # as) \<and> h c = None" and f: "\<forall>c\<in>set (a # as). h c = None"
    using l unfolding tx_loaded_def by blast
  have "unsent a (set as) h (m_drv s)"
    unfolding unsent_def using i by (intro conjI exI[of _ as] exI[of _ "[]"]) simp_all
  from unsent_runs_keep[OF run this] obtain as' bs' where
    u: "drv_at d as' bs'" "set (as' @ bs') = set as" "tx_pkt d = Some a" "a \<notin> set as"
      "\<forall>c. mem d c = None \<longleftrightarrow> c \<notin> insert a (set as) \<and> h c = None" by (auto simp: unsent_def)
  obtain dev where r: "m_devs s = Some dev" "m_rs s = Some (vlc_rs 1)" "m_rslist s = [vlc_rs 1]" "m_log s = log @ tx_load_log"
    using l unfolding tx_loaded_def by blast
  have m: "mem d a \<noteq> None" using u(5) by simp
  have na: "a \<notin> set (as' @ bs')" using u(2,4) by simp
  from cleanup_frees[OF u(1,3) na m] obtain h' where h': "cleanup_buffers d = Some h'"
    "\<forall>c. h' c = None \<longleftrightarrow> c \<in> set (a # as' @ bs') \<or> mem d c = None" by blast
  have "set (a # as' @ bs') = set (a # as)" using u(2) by simp
  then have same: "h' c = None \<longleftrightarrow> h c = None" for c
    using spec[OF h'(2), of c] spec[OF u(5), of c] f by auto
  show ?thesis
    using r h'(1) same free_rs_vlc[of 1] by (simp add: tx_cleanup_module_def tx_call_def tx_unload_log_def Let_def)
qed

text \<open>After a packet was sent the module frees its last packet twice.\<close>

lemma tx_unload_spent:
  assumes "tx_spent (m_drv s)" and "m_devs s \<noteq> None"
  shows "tx_cleanup_module s = None"
  using assms cleanup_double_free[of "m_drv s"] by (auto simp: tx_spent_def tx_cleanup_module_def)

section \<open>Loading and unloading the receiver\<close>

definition rx_load_log :: "kcall list" where
  "rx_load_log = [Alloc_netdev, Register_netdev, Proc_mkdir, Create_proc ''rx'', Create_proc ''tx'', Ioremap, Init_rs, Kthread_run]"

definition rx_unload_log :: "kcall list" where
  "rx_unload_log = [Buffers_freed, Unregister_netdev, Free_netdev, Remove_proc ''rx'', Remove_proc ''tx'',
     Remove_proc ''vlc'', Iounmap, Free_rs, Kthread_stop]"

definition rx_loaded :: "kernel \<Rightarrow> pkt_heap \<Rightarrow> kcall list \<Rightarrow> rx_mod \<Rightarrow> bool" where
  "rx_loaded k h log s \<longleftrightarrow> (\<exists>as a q. chain (n_mem s) (n_pool s) as \<and> distinct as \<and> length as = nat (k_pool_size k)
     \<and> n_rx_pkt s = Some a \<and> a \<notin> set as \<and> grown h a as (n_mem s)
     \<and> n_rs_error_pkt s = Some q \<and> take 84 q = quality_bytes 98)
     \<and> n_devs s \<noteq> None \<and> n_int_enabled s = 1 \<and> n_rs s = Some (vlc_rs 1) \<and> n_rslist s = [vlc_rs 1] \<and> n_task s
     \<and> n_log s = log @ rx_load_log"

lemma rx_unload:
  assumes "rx_loaded k h log s"
  shows "\<exists>s'. (\<forall>th. rx_cleanup_module th s = (case kthread_stop th of
        None \<Rightarrow> None | Some None \<Rightarrow> Some (Waiting s') | Some (Some ret) \<Rightarrow> Some (Done (s'\<lparr>n_task := False\<rparr>))))
    \<and> (\<forall>c. n_mem s' c = None \<longleftrightarrow> h c = None) \<and> n_rslist s' = []
    \<and> n_task s' \<and> n_log s' = log @ rx_load_log @ rx_unload_log"
proof -
  obtain as a where l: "chain (n_mem s) (n_pool s) as" "distinct as" "n_rx_pkt s = Some a" "a \<notin> set as" "grown h a as (n_mem s)"
    using assms unfolding rx_loaded_def by blast
  obtain dev where r: "n_devs s = Some dev" "n_rs s = Some (vlc_rs 1)" "n_rslist s = [vlc_rs 1]" "n_task s"
    "n_log s = log @ rx_load_log" using assms unfolding rx_loaded_def by blast
  let ?h = "n_mem s |` (- set as)"
  have "?h a \<noteq> None" using l(4,5) by (simp add: grown_def)
  then have k: "kfree ?h (n_rx_pkt s) = Some (?h(a := None))" using l(3) by (simp add: kfree_def)
  have "\<forall>c. (?h(a := None)) c = None \<longleftrightarrow> c \<in> set (a # as) \<or> n_mem s c = None" by (simp add: restrict_map_def)
  note same = grown_freed[OF l(5) this]
  let ?s = "s\<lparr>n_mem := ?h(a := None), n_pool := None, n_rs_error_pkt := None, n_rslist := [], n_log := log @ rx_load_log @ rx_unload_log\<rparr>"
  have "rx_cleanup_module th s = (case kthread_stop th of
        None \<Rightarrow> None | Some None \<Rightarrow> Some (Waiting ?s) | Some (Some ret) \<Rightarrow> Some (Done (?s\<lparr>n_task := False\<rparr>)))" for th
    using r k teardown_frees[OF l(1,2)] free_rs_vlc[of 1]
    by (cases "kthread_stop th")
       (auto simp: rx_cleanup_module_def rx_call_def rx_unload_log_def Let_def simp del: fun_upd_apply split: option.splits)
  moreover have "\<forall>c. n_mem ?s c = None \<longleftrightarrow> h c = None" using same by simp
  ultimately show ?thesis using r(4) by (intro exI[of _ ?s]) simp
qed

text \<open>When \<^verbatim>\<open>kthread_stop\<close> returns. While the ring looks empty, never.\<close>

lemma kthread_stop_idle:
  assumes "\<not> th_at_test th" and "\<forall>v\<in>set (th_sees th). \<exists>m i. v = Some m \<and> rd16 m 2 = Some i \<and> rd16 m 0 = Some i"
  shows "kthread_stop th = Some None"
proof -
  have "\<forall>v\<in>set vs. \<exists>m i. v = Some m \<and> rd16 m 2 = Some i \<and> rd16 m 0 = Some i \<Longrightarrow> rounds_torn_down vs = Some None" for vs
    by (induction vs) (auto simp: round_torn_down_def)
  with assms show ?thesis by (simp add: kthread_stop_def)
qed

lemma kthread_stop_unmapped: "\<not> th_at_test th \<Longrightarrow> th_sees th = None # vs \<Longrightarrow> kthread_stop th = None"
  by (simp add: kthread_stop_def round_torn_down_def)

lemma round_torn_down_as_round:
  assumes "round_torn_down (Some (rx_pru s)) = Some ret"
  shows "decode_round uninit rs alloc True s = Some (ret, s)"
  using assms by (auto simp: round_torn_down_def decode_round_def split: Option.bind_splits if_splits)

lemma drv_init_setup:
  "drv_init n kmalloc body h m = Some d \<Longrightarrow>
     vlc_setup_pool n kmalloc body (case kmalloc (- 1) of None \<Rightarrow> h
        | Some a \<Rightarrow> h(a \<mapsto> \<lparr>nd_data = body (- 1), nd_next = None\<rparr>)) = Some (mem d, ppool d) \<and> kmalloc (- 1) = tx_pkt d"
  by (auto simp: drv_init_def Let_def split: Option.bind_splits)

text \<open>Registration may fail without stopping the load; then everything is taken down again at its end.\<close>

lemma rx_init_ok:
  assumes fresh: "fresh_blocks k (n_mem s)" and g: "grants k" and t: "0 \<le> k_kthread k" and l: "n_rslist s = []"
  shows "\<exists>s'. rx_loaded k (n_mem s) (n_log s) s'
    \<and> rx_init_module k fptr s = (if k_register k = 0 then Some (Done (0, s'))
        else map_option (map_blocking (\<lambda>s. (k_register k, s))) (rx_cleanup_module (k_thread k) s'))"
proof -
  obtain dev q where k: "k_netdev k = Some dev" "k_q k = Some q" "length q = PKT_DATA" "k_ioremap k \<noteq> None"
    using g by (auto simp: grants_def)
  from fresh_drv_init[OF fresh] obtain d as a where d: "drv_init (k_pool_size k) (k_kmalloc k) (k_body k) (n_mem s)
      [] = Some d" "drv_at d as []" "length as = nat (k_pool_size k)" "tx_pkt d = Some a" "a \<notin> set as"
    "grown (n_mem s) a as (mem d)" unfolding grown_def by blast
  let ?q = "quality_bytes 98 @ drop 84 q"
  let ?s = "s\<lparr>n_devs := Some (vlc_init_dev (k_mtu k) dev), n_int_enabled := 1, n_rx_pkt := Some a, n_mem := mem d,
    n_pool := ppool d, n_rslist := [vlc_rs 1], n_rs := Some (vlc_rs 1), n_rs_error_pkt := Some ?q,
    n_log := n_log s @ rx_load_log, n_task := True\<rparr>"
  note su = drv_init_setup[OF d(1)]
  have "rx_init_module k fptr s = rx_out k (k_register k) ?s"
    using su d(4) k(4) init_rs_error_packet_ok[OF k(3)] grants_rs[OF g] t l k(1,2)
    by (auto simp: rx_init_module_def rx_vlc_init_def rx_init_mapped_def rx_call_def rx_load_log_def Let_def)
  moreover have "rx_loaded k (n_mem s) (n_log s) ?s"
    unfolding rx_loaded_def using d
    by (intro conjI exI[of _ as] exI[of _ a] exI[of _ ?q]) (simp_all add: drv_at_def quality_bytes_def)
  ultimately show ?thesis by (intro exI[of _ ?s]) (simp add: rx_out_def)
qed

section \<open>Failing loads\<close>

text \<open>Without a device, and without the mapping, both modules report success.\<close>

lemma load_without_device:
  assumes "k_netdev k = None"
  shows "tx_init_module k fptr s = Some (0, s\<lparr>m_devs := None, m_log := m_log s @ [Alloc_netdev]\<rparr>)"
    "rx_init_module k fptr r = Some (Done (0, r\<lparr>n_devs := None, n_log := n_log r @ [Alloc_netdev]\<rparr>))"
  using assms by (simp_all add: tx_init_module_def rx_init_module_def tx_out_def rx_out_def tx_call_def rx_call_def Let_def)

lemma load_without_mapping:
  assumes k: "k_ioremap k = None" "k_netdev k \<noteq> None" "k_register k = 0"
    and fresh: "fresh_blocks k (mem (m_drv s))" "fresh_blocks k (n_mem r)"
  shows "\<exists>s' r'. tx_init_module k fptr s = Some (0, s')
      \<and> m_log s' = m_log s @ [Alloc_netdev, Register_netdev, Proc_mkdir, Create_proc ''tx'', Ioremap]
      \<and> rx_init_module k fptr r = Some (Done (0, r'))
      \<and> n_log r' = n_log r @ [Alloc_netdev, Register_netdev, Proc_mkdir, Create_proc ''rx'', Create_proc ''tx'', Ioremap]"
proof -
  from fresh_drv_init[OF fresh(1)] obtain d where d: "drv_init (k_pool_size k) (k_kmalloc k) (k_body k) (mem (m_drv s))
    (pru (m_drv s)) = Some d" by blast
  from fresh_drv_init[OF fresh(2)] obtain e a where
    e: "drv_init (k_pool_size k) (k_kmalloc k) (k_body k) (n_mem r) [] = Some e" "tx_pkt e = Some a" by blast
  obtain dev where dev: "k_netdev k = Some dev" using k(2) by blast
  have "\<exists>s'. tx_init_module k fptr s = Some (0, s')
      \<and> m_log s' = m_log s @ [Alloc_netdev, Register_netdev, Proc_mkdir, Create_proc ''tx'', Ioremap]"
    using k d dev by (simp add: tx_init_module_def tx_out_def tx_call_def Let_def)
  moreover have "\<exists>r'. rx_init_module k fptr r = Some (Done (0, r'))
      \<and> n_log r' = n_log r @ [Alloc_netdev, Register_netdev, Proc_mkdir, Create_proc ''rx'', Create_proc ''tx'', Ioremap]"
    using k e(2) drv_init_setup[OF e(1)] dev by (auto simp: rx_init_module_def rx_vlc_init_def rx_out_def rx_call_def Let_def)
  ultimately show ?thesis by blast
qed

end
