(* ===== verification/System.thy ===== *)
theory System
  imports Node Gateway Vlc_Tx Vlc_Module
begin

text \<open>
  What holds across components: the frames that travel between
  gateway, VLC transmitter and node, and the status report on its way back.
\<close>

unbundle bit_operations_syntax

section \<open>From the gateway to the node over RF\<close>

lemma recv_whole:
  assumes "length f \<le> length b"
  shows "recvfrom (Some f) b = (int (length f), f @ drop (length f) b)"
  using assms by (simp add: recvfrom_def Let_def min_def)

lemma from_gateway_frame: "length m = 6 \<Longrightarrow> is_from_gateway (NODE_MAC @ m @ rest) \<longleftrightarrow> m = RF_MAC"
  by (simp add: is_from_gateway_def ether_shost_def ether_dhost_def mac_defs)

lemma rf_hop:
  assumes p: "gp_wf p" "length (gp_data p) \<le> 1000" and s: "length (rf_buf s) = 1024" and mac: "6 \<le> length mac"
  shows "\<exists>frame b. transmit_packet_rf sendto mac p = Some (sendto frame, frame)
    \<and> receive_rf (Some frame) s = Some (if take 6 mac = RF_MAC
        then s\<lparr>rf_buf := b, process_queue := snd (fq_push (to_node_packet (p\<lparr>gp_vlc_id := 0\<rparr>)) (process_queue s)),
          from_rf := from_rf s + 1\<rparr>
        else s\<lparr>rf_buf := b\<rparr>)"
proof -
  let ?F = "NODE_MAC @ take 6 mac @ ETH_P_ALL_be @ gp_header p 0 @ gp_payload p"
  have len: "unat (gp_payload_len p) = length (gp_data p)" using p(1) by (simp add: gp_wf_def)
  have t: "transmit_packet_rf sendto mac p = Some (sendto ?F, ?F)"
    using p(2) len mac by (intro transmit_packet_rf_frame) simp_all
  have lf: "length ?F = 24 + length (gp_data p)" using len mac by (simp add: gp_payload_def)
  have rv: "recvfrom (Some ?F) (rf_buf s) = (int (length ?F), ?F @ drop (length ?F) (rf_buf s))"
    using p(2) s lf by (intro recv_whole) simp
  have g: "is_from_gateway (?F @ drop (length ?F) (rf_buf s)) \<longleftrightarrow> take 6 mac = RF_MAC"
    using mac from_gateway_frame[of "take 6 mac"] by simp
  have d: "drop (nat ETHER_HDR) (?F @ drop (length ?F) (rf_buf s))
      = gp_header p 0 @ gp_payload p @ drop (length ?F) (rf_buf s)"
    using mac by (simp add: ETHER_HDR_def)
  have "receive_rf (Some ?F) s = Some (if take 6 mac = RF_MAC
      then s\<lparr>rf_buf := ?F @ drop (length ?F) (rf_buf s),
        process_queue := snd (fq_push (to_node_packet (p\<lparr>gp_vlc_id := 0\<rparr>)) (process_queue s)), from_rf := from_rf s + 1\<rparr>
      else s\<lparr>rf_buf := ?F @ drop (length ?F) (rf_buf s)\<rparr>)"
    unfolding receive_rf_def rv Let_def prod.case g d node_reads_rf_frame[OF p(1), of 0] by simp
  with t show ?thesis by blast
qed

section \<open>From the gateway to the VLC transmitter\<close>

lemma gp_rebuild:
  "\<lparr>gp_node_id = gp_node_id p, gp_vlc_id = v, gp_payload_len = gp_payload_len p,
     gp_seq_number = gp_seq_number p, gp_data = gp_data p\<rparr> = p\<lparr>gp_vlc_id := v\<rparr>"
  by (cases p) simp

lemma vlc_arrival:
  assumes p: "gp_wf p" "length (gp_data p) \<le> 1000"
  shows "\<exists>frame. transmit_packet_vlc sendto MY_MAC p = Some (sendto frame, frame)
    \<and> (\<forall>s. length (eth_buf s) = 1024 \<longrightarrow> (\<exists>b. length b = 1024
      \<and> tx_arrival (Some frame) s = Some (s\<lparr>eth_buf := b\<rparr>, Some (p\<lparr>gp_vlc_id := gp_vlc_id p + 1\<rparr>))))"
proof -
  let ?q = "p\<lparr>gp_vlc_id := gp_vlc_id p + 1\<rparr>"
  let ?F = "VLC_MAC @ take 6 MY_MAC @ ETH_P_ALL_be @ gp_header p (gp_vlc_id p + 1) @ gp_payload p"
  have len: "unat (gp_payload_len p) = length (gp_data p)" using p(1) by (simp add: gp_wf_def)
  have t: "transmit_packet_vlc sendto MY_MAC p = Some (sendto ?F, ?F)"
    using p(2) len by (intro transmit_packet_vlc_frame) simp_all
  have lf: "length ?F = 24 + length (gp_data p)" using len by (simp add: gp_payload_def)
  have "\<exists>b. length b = 1024 \<and> tx_arrival (Some ?F) s = Some (s\<lparr>eth_buf := b\<rparr>, Some ?q)" if le: "length (eth_buf s) = 1024" for s
  proof -
    let ?b = "?F @ drop (length ?F) (eth_buf s)"
    have rv: "recvfrom (Some ?F) (eth_buf s) = (int (length ?F), ?b)"
      using p(2) le lf by (intro recv_whole) simp
    have "take 6 MY_MAC = MY_MAC" by (simp add: MY_MAC_def)
    then have g: "is_for_this_tx ?b" using filters_accept(2) by simp
    have d: "drop (nat ETHER_HDR) ?b = gp_header p (gp_vlc_id p + 1) @ gp_payload p @ drop (length ?F) (eth_buf s)"
      by (simp add: ETHER_HDR_def)
    have q: "generate_gateway_packet_from_bytes (drop (nat ETHER_HDR) ?b) = Some ?q"
      unfolding d by (rule vlc_tx_reads_frame[OF p(1)])
    from tx_arrival_packet[OF q g rv] lf le p(2) show ?thesis by (intro exI[of _ ?b]) simp
  qed
  with t show ?thesis by blast
qed

lemma vlc_hop:
  assumes p: "gp_wf p" "length (gp_data p) \<le> 1000" and inv: "tx_inv s" and room: "queue_size s + 1 < QUEUE_LIMIT"
  shows "\<exists>frame s'. transmit_packet_vlc sendto MY_MAC p = Some (sendto frame, frame)
    \<and> tx_receive (Some frame) s = Some s' \<and> tx_inv s'
    \<and> fq_items (tx_vlc_queue s') = fq_items (tx_vlc_queue s) @ [p\<lparr>gp_vlc_id := gp_vlc_id p + 1\<rparr>]"
proof -
  let ?q = "p\<lparr>gp_vlc_id := gp_vlc_id p + 1\<rparr>"
  have "length (eth_buf s) = 1024" using inv by (simp add: tx_inv_def)
  with vlc_arrival[OF p, of sendto] obtain frame b where t: "transmit_packet_vlc sendto MY_MAC p = Some (sendto frame, frame)"
    and a: "tx_arrival (Some frame) s = Some (s\<lparr>eth_buf := b\<rparr>, Some ?q)" by blast
  let ?s = "s\<lparr>eth_buf := b, tx_vlc_queue := snd (fq_push ?q (tx_vlc_queue s)), queue_size := queue_size s + 1\<rparr>"
  have r: "tx_receive (Some frame) s = Some ?s" using a room by (simp add: tx_receive_whole)
  have "fq_items (tx_vlc_queue ?s) = fq_items (tx_vlc_queue s) @ [?q]"
    using inv room by (simp add: fq_push_def tx_inv_def)
  with t r tx_receive_inv[OF inv r] show ?thesis by (intro exI[of _ frame] exI[of _ ?s]) auto
qed

section \<open>A lost update of the transmitter's counter\<close>

text \<open>Length of the queue, counter and buffers of a running transmitter.\<close>

definition tx_shape :: "int \<Rightarrow> gateway_packet list \<Rightarrow> tx_state \<Rightarrow> bool" where
  "tx_shape k ps s \<longleftrightarrow> queue_size s = k \<and> fq_items (tx_vlc_queue s) = ps \<and> fq_limit (tx_vlc_queue s) = QUEUE_LIMIT
     \<and> length (tx_vlc_buff s) = 1024 \<and> length (eth_buf s) = 1024"

abbreviation any_run :: "tx_prog \<Rightarrow> bool" where "any_run \<equiv> tx_runs (\<lambda>x. True)"

lemma runs_receive:
  assumes "tx_runs A (t, r, s)" and "r_step rx (r, s) = Some (r', s')" and "A (t, r', s')"
  shows "tx_runs A (t, r', s')"
  using runs_step[OF assms(1) step_receive[OF assms(2)] assms(3)] .

lemma runs_transmit:
  assumes "tx_runs A (t, r, s)" and "t_step n (t, s) = Some (t', s', out)" and "A (t', r, s')"
  shows "tx_runs A (t', r, s')"
  using runs_step[OF assms(1) step_transmit[OF assms(2)] assms(3)] .

lemma run_arrive:
  assumes run: "tx_runs A (t, R_recv, s)" and sh: "tx_shape k ps s" and p: "gp_wf p" "length (gp_data p) \<le> 1000"
    and room: "k + 1 < QUEUE_LIMIT" "int (length ps) < QUEUE_LIMIT"
    and A: "\<And>r s. (\<forall>n. r \<noteq> R_store n) \<Longrightarrow> A (t, r, s)"
  shows "\<exists>s'. tx_runs A (t, R_load, s') \<and> tx_shape k (ps @ [p\<lparr>gp_vlc_id := gp_vlc_id p + 1\<rparr>]) s'"
proof -
  let ?q = "p\<lparr>gp_vlc_id := gp_vlc_id p + 1\<rparr>"
  from vlc_arrival[OF p, of "\<lambda>f. 1"] sh obtain frame b where
    a: "length b = 1024" "tx_arrival (Some frame) s = Some (s\<lparr>eth_buf := b\<rparr>, Some ?q)" unfolding tx_shape_def by blast
  let ?s = "s\<lparr>eth_buf := b\<rparr>" and ?s' = "s\<lparr>eth_buf := b, tx_vlc_queue := snd (fq_push ?q (tx_vlc_queue s))\<rparr>"
  have "tx_runs A (t, R_check ?q, ?s)"
    by (rule runs_receive[OF run, of "Some frame"]) (simp_all add: a A)
  then have "tx_runs A (t, R_enqueue ?q, ?s)"
    by (rule runs_receive[of _ _ _ _ None]) (use sh room in \<open>simp_all add: tx_shape_def A\<close>)
  then have "tx_runs A (t, R_load, ?s')"
    by (rule runs_receive[of _ _ _ _ None]) (simp_all add: A)
  moreover have "tx_shape k (ps @ [?q]) ?s'" using sh room a(1) by (simp add: tx_shape_def fq_push_def)
  ultimately show ?thesis by blast
qed

lemma run_send:
  assumes run: "any_run (T_idle, r, s)" and sh: "tx_shape k (p # ps) s"
    and p: "unat (gp_payload_len p) \<le> length (gp_data p)" "unat (gp_payload_len p) \<le> 1014"
  shows "\<exists>s'. any_run (T_load, r, s') \<and> tx_shape k ps s'"
proof -
  have l: "length (tx_vlc_buff s) = 1024" using sh by (simp add: tx_shape_def)
  have "\<exists>n\<in>set [0 :: int]. 0 \<le> n" by simp
  from transmit_to_vlc_bytes[OF l p(2,1) this] obtain b where tv: "transmit_to_vlc [0] (tx_vlc_buff s) p = Some (1, b, vlc_header_bytes p @ gp_payload p)"
    and lb: "length b = 1024" by blast
  then obtain n where f: "fill_vlc_buff (tx_vlc_buff s) p = Some (b, n)"
    by (auto simp: transmit_to_vlc_def split: Option.bind_splits)
  let ?s = "s\<lparr>tx_vlc_queue := (tx_vlc_queue s)\<lparr>fq_items := ps\<rparr>\<rparr>"
  have "any_run (T_fill p, r, ?s)"
    by (rule runs_transmit[OF run, of 0]) (use sh in \<open>simp_all add: tx_shape_def fq_empty_def fq_pop_def\<close>)
  then have "any_run (T_write n, r, ?s\<lparr>tx_vlc_buff := b\<rparr>)" by (rule runs_transmit[of _ _ _ _ 0]) (simp_all add: f)
  then have "any_run (T_load, r, ?s\<lparr>tx_vlc_buff := b\<rparr>)" by (rule runs_transmit[of _ _ _ _ 0]) simp_all
  moreover have "tx_shape k ps (?s\<lparr>tx_vlc_buff := b\<rparr>)" using sh lb by (simp add: tx_shape_def)
  ultimately show ?thesis by blast
qed

lemma run_counts:
  "any_run (t, R_load, s) \<Longrightarrow> tx_shape k ps s \<Longrightarrow> any_run (t, R_store k, s)"
  "any_run (T_load, r, s) \<Longrightarrow> tx_shape k ps s \<Longrightarrow> any_run (T_store k, r, s)"
  "any_run (t, R_store n, s) \<Longrightarrow> tx_shape k ps s \<Longrightarrow> \<exists>s'. any_run (t, R_recv, s') \<and> tx_shape (n + 1) ps s'"
  "any_run (T_store n, r, s) \<Longrightarrow> tx_shape k ps s \<Longrightarrow> \<exists>s'. any_run (T_idle, r, s') \<and> tx_shape (n - 1) ps s'"
  using runs_receive[of "\<lambda>x. True" t R_load s None "R_store k" s] runs_transmit[of "\<lambda>x. True" T_load r s 0 "T_store k" s]
    runs_receive[of "\<lambda>x. True" t "R_store n" s None R_recv "s\<lparr>queue_size := n + 1\<rparr>"]
    runs_transmit[of "\<lambda>x. True" "T_store n" r s 0 T_idle "s\<lparr>queue_size := n - 1\<rparr>"]
  by (auto simp: tx_shape_def)

lemma tx_init_shape: "length garbage = 1024 \<Longrightarrow> tx_shape 0 [] (tx_init garbage)"
  by (simp add: tx_shape_def tx_init_def fq_new_def QUEUE_LIMIT_def)

text \<open>The transmitting thread has loaded the counter when main enqueues the next packet and loads it too; the later store wins, and
  the counter stays one too high for good.\<close>

lemma lost_update:
  assumes p: "gp_wf p" "length (gp_data p) \<le> 1000"
  shows "\<exists>s. any_run (T_idle, R_recv, s) \<and> tx_shape 1 [] s"
proof -
  let ?q = "p\<lparr>gp_vlc_id := gp_vlc_id p + 1\<rparr>" and ?g = "replicate 1024 (0 :: u8)"
  have room: "0 + 1 < QUEUE_LIMIT" "1 + 1 < QUEUE_LIMIT" "int (length []) < QUEUE_LIMIT" by (simp_all add: QUEUE_LIMIT_def)
  have q: "unat (gp_payload_len ?q) \<le> length (gp_data ?q)" "unat (gp_payload_len ?q) \<le> 1014"
    using p by (simp_all add: gp_wf_def)
  have g: "length ?g = 1024" by simp
  from run_arrive[where A = "\<lambda>x. True", OF runs_init[OF g] tx_init_shape[OF g] p room(1,3)] obtain s1 where
    "any_run (T_idle, R_load, s1)" "tx_shape 0 [?q] s1" by auto
  from run_counts(3)[OF run_counts(1)[OF this] this(2)] obtain s2 where "any_run (T_idle, R_recv, s2)" "tx_shape 1 [?q] s2" by auto
  from run_send[OF this q] obtain s3 where 3: "any_run (T_load, R_recv, s3)" "tx_shape 1 [] s3" by blast
  from run_arrive[where A = "\<lambda>x. True", OF run_counts(2)[OF 3] 3(2) p room(2,3)] obtain s4 where
    4: "any_run (T_store 1, R_load, s4)" "tx_shape 1 [?q] s4" by auto
  from run_counts(4)[OF run_counts(1)[OF 4] 4(2)] obtain s5 where 5: "any_run (T_idle, R_store 1, s5)" "tx_shape 0 [?q] s5" by auto
  from run_counts(3)[OF 5] obtain s6 where "any_run (T_idle, R_recv, s6)" "tx_shape 2 [?q] s6" by auto
  from run_send[OF this q] obtain s7 where 7: "any_run (T_load, R_recv, s7)" "tx_shape 2 [] s7" by blast
  from run_counts(4)[OF run_counts(2)[OF 7] 7(2)] show ?thesis by auto
qed

section \<open>From the VLC transmitter to the node\<close>

text \<open>The node's thread up to the parsed packet.\<close>

lemma node_parses_light:
  assumes wf: "gp_wf p" and len: "0 < length (gp_data p)" "length (gp_data p) \<le> 100" and n: "node_inv t"
  shows "\<exists>b b0 b1. recvfrom (Some (vlc_header_bytes p @ gp_payload p)) (buff t) = (10 + int (length (gp_data p)), b)
    \<and> ard b 0 = Some b0 \<and> ard b 1 = Some b1 \<and> push_bit 8 (ucast b1) + ucast b0 = gp_payload_len p
    \<and> generate_from_bytes b = Some (to_node_packet p) \<and> 0 < gp_payload_len p \<and> gp_payload_len p \<le> MTU_VALUE"
proof -
  have ul: "unat (gp_payload_len p) = length (gp_data p)" using wf by (simp add: gp_wf_def)
  let ?F = "vlc_header_bytes p @ gp_payload p"
  have lf: "length ?F = 10 + length (gp_data p)" using ul by (simp add: gp_payload_def)
  have lb: "length (buff t) = 1024" using n by (auto simp: node_inv_def)
  let ?b = "?F @ drop (length ?F) (buff t)"
  have rv: "recvfrom (Some ?F) (buff t) = (int (length ?F), ?b)"
    using len lb lf by (intro recv_whole) simp
  have gb: "generate_from_bytes ?b = Some (to_node_packet p)"
    using node_reads_vlc_frame[OF wf, of "drop (length ?F) (buff t)"] by simp
  obtain b0 b1 where b: "ard ?b 0 = Some b0" "ard ?b 1 = Some b1" "of_le16 b0 b1 = gp_payload_len p"
    by (simp add: vlc_header_bytes_def le16_def ard_def)
  have pl: "push_bit 8 (ucast b1) + ucast b0 = gp_payload_len p" using b(3) by (simp add: shift_add_le16)
  have m: "0 < gp_payload_len p" "gp_payload_len p \<le> MTU_VALUE"
    using ul len by (simp_all add: MTU_VALUE_def word_less_nat_alt word_le_nat_alt)
  have "int (length ?F) = 10 + int (length (gp_data p))" using lf by simp
  with rv b(1,2) pl gb m show ?thesis by auto
qed

lemma node_takes_light:
  assumes wf: "gp_wf p" and len: "0 < length (gp_data p)" "length (gp_data p) \<le> 100"
    and id: "gp_node_id p = 1" "gp_vlc_id p = 1" and n: "node_inv t"
  shows "\<exists>t'. receive_vlc (Some (vlc_header_bytes p @ gp_payload p)) t = Some t'
    \<and> process_queue t' = snd (fq_push (to_node_packet p) (process_queue t))
    \<and> Frame_Rx t' = [1] \<and> from_vlc t' = from_vlc t + 1"
proof -
  have "awr (Frame_Rx t) 0 1 = Some [1]" using n by (auto simp: node_inv_def awr_def length_Suc_conv)
  with node_parses_light[OF wf len n] id show ?thesis
    by (auto simp: receive_vlc_def Let_def to_node_packet_def SELF_ID_def RS_ERROR_ID_def N_VLC_def)
qed

text \<open>A packet that arrives with the error id is counted and queued as the node's own.\<close>

lemma light_error_hop:
  assumes wf: "gp_wf p" and len: "4 \<le> length (gp_data p)" "length (gp_data p) \<le> 100"
    and id: "gp_node_id p = error_node_id" "gp_vlc_id p = 1" and k: "rd_int (gp_data p) 0 = Some k" "0 \<le> k"
    and n: "node_inv t"
  shows "\<exists>t'. receive_vlc (Some (vlc_header_bytes p @ gp_payload p)) t = Some t'
    \<and> process_queue t' = snd (fq_push (to_node_packet (p\<lparr>gp_node_id := SELF_ID\<rparr>)) (process_queue t))
    \<and> rs_error_bytes t' = rs_error_bytes t + k \<and> Frame_Rx t' = [1] \<and> from_vlc t' = from_vlc t + 1"
proof -
  have f: "awr (Frame_Rx t) 0 1 = Some [1]" using n by (auto simp: node_inv_def awr_def length_Suc_conv)
  have l0: "0 < length (gp_data p)" using len by linarith
  from node_parses_light[OF wf l0 len(2) n] f id k show ?thesis
    by (auto simp: receive_vlc_def Let_def to_node_packet_def SELF_ID_def RS_ERROR_ID_def N_VLC_def error_node_id_def)
qed

text \<open>What the receiver's driver makes of a corrected packet.\<close>

lemma mark_corrected:
  assumes wf: "gp_wf p" "4 \<le> length (gp_data p)" and id: "gp_node_id p \<noteq> RX_DUMMY_NODE_ID" and k: "k \<noteq> 0"
  shows "mark_errors k (vlc_header_bytes p @ gp_payload p @ rest)
    = Some (vlc_header_bytes (p\<lparr>gp_node_id := error_node_id\<rparr>) @ le32 k @ drop 4 (gp_payload p) @ rest)"
proof -
  have "gp_payload p = gp_data p" using wf(1) by (simp add: gp_payload_def gp_wf_def)
  then have split: "gp_payload p = take 4 (gp_payload p) @ drop 4 (gp_payload p)" "length (take 4 (gp_payload p)) = 4"
    using wf(2) by simp_all
  obtain a c where a: "gp_payload p = a @ c" "length a = 4" "c = drop 4 (gp_payload p)" using split by metis
  have "k > 0" using k by (simp add: word_neq_0_conv)
  then show ?thesis
    using id a(2) unfolding a(3)[symmetric] unfolding a(1) vlc_header_bytes_def
    by (simp add: mark_errors_def bytes_simps)
qed

text \<open>Along the light path: with one to eight wrong bytes the packet reaches the node's queue with its
  sequence number and length, as a packet for this node whichever node it was for, and with the number of
  wrong bytes in place of the first four bytes of its payload.\<close>

lemma noisy_light_path:
  assumes p: "gp_wf p" "4 \<le> length (gp_data p)" "length (gp_data p) \<le> 100"
      "gp_node_id p \<noteq> RX_DUMMY_NODE_ID" "gp_vlc_id p = 1"
    and data: "data = vlc_header_bytes p @ gp_payload p @ rest" "length data = PKT_DATA"
    and wr: "write_packet_to_pru_memory (vlc_rs u) data w m = Some (w', d', m')" "unat w + 226 \<le> length m"
    and chan: "cget m' (uint w) (int (length (gp_data p)) + 26) = Some frame"
      "cget (rx_pru s) (uint r) (int (length (gp_data p)) + 26) = Some frame'"
      "take 2 frame' = take 2 frame" "1 \<le> card (frame_errors frame frame')" "card (frame_errors frame frame') \<le> 8"
    and ring: "rd16 (rx_pru s) 2 = Some r" "rd16 (rx_pru s) 0 = Some x" "x \<noteq> r" and ok: "rx_pkt_ok s" "node_inv t"
  shows "\<exists>s' bytes t'. decode_round uninit (vlc_rs v) True stop s = Some (if stop then Some 0 else None, s')
    \<and> map sk_mac (netif_rx s') = map sk_mac (netif_rx s) @ [bytes]
    \<and> receive_vlc (Some bytes) t = Some t'
    \<and> process_queue t' = snd (fq_push (to_node_packet (p\<lparr>
        gp_data := le32 (of_nat (card (frame_errors frame frame'))) @ drop 4 (gp_data p), gp_node_id := SELF_ID\<rparr>)) (process_queue t))
    \<and> rs_error_bytes t' = rs_error_bytes t + int (card (frame_errors frame frame'))"
proof -
  define k where "k = card (frame_errors frame frame')"
  define L where "L = gp_payload_len p"
  have L: "unat L = length (gp_data p)" "gp_payload p = gp_data p" using p(1) by (simp_all add: gp_wf_def gp_payload_def L_def)
  have "0 < length (gp_data p)" using p(2) by linarith
  then have l: "0 < L" "L \<le> RX_MTU_VALUE" using L p(3) by (simp_all add: RX_MTU_VALUE_def word_less_nat_alt word_le_nat_alt)
  have rd: "rd16 data 0 = Some L" unfolding data(1) vlc_header_bytes_def L_def by (simp add: bytes_simps)
  have tk: "take (unat L + 10) data = vlc_header_bytes p @ gp_payload p" using L by (simp add: data(1))
  from frame_corrected[OF rd l data(2) wr chan(1,2)[folded L(1)] chan(3,5) ring ok(1), of uninit v True stop]
  obtain s' rest' bytes where s': "decode_round uninit (vlc_rs v) True stop s = Some (if stop then Some 0 else None, s')"
    and b: "mark_errors (of_nat k) (vlc_header_bytes p @ gp_payload p @ rest') = Some bytes"
    "map sk_mac (netif_rx s') = map sk_mac (netif_rx s) @ [take (unat L + 10) bytes]"
    unfolding tk k_def[symmetric] by auto
  have k1: "1 \<le> k" "k \<le> 8" using chan(4,5) by (simp_all add: k_def)
  then have "unat (of_nat k :: u32) = k" by (simp add: unat_of_nat)
  with k1(1) have k0: "(of_nat k :: u32) \<noteq> 0" by (metis not_one_le_zero unat_0)
  let ?q = "p\<lparr>gp_node_id := error_node_id, gp_data := le32 (of_nat k) @ drop 4 (gp_data p)\<rparr>"
  have q: "gp_wf ?q" "length (gp_data ?q) = length (gp_data p)" using p(1,2) by (simp_all add: gp_wf_def)
  have "take (unat L + 10) bytes = vlc_header_bytes ?q @ gp_payload ?q"
    using mark_corrected[OF p(1,2,4) k0, of rest'] b(1) L p(2) q by (auto simp: vlc_header_bytes_def gp_payload_def L_def)
  moreover have "rd_int (gp_data ?q) 0 = Some (int k)"
    using rd_int_here[of "int k" "drop 4 (gp_data p)"] k1 by (simp add: le_int_def c_int_def)
  ultimately show ?thesis
    using light_error_hop[OF q(1), of "int k" t] q(2) p(2,3,5) ok(2) s' b(2) unfolding k_def[symmetric] by auto
qed

section \<open>Reports to the gateway\<close>

text \<open>The transmitter reports the length of its queue.\<close>

lemma queue_report_hop:
  assumes inv: "tx_inv s" and g: "gw_inv g"
  shows "\<exists>frame g'. tx_report VLC_MAC s = Some frame \<and> receive_vlc_report (Some frame) g = Some g'
    \<and> vk g' = [int (length (fq_items (tx_vlc_queue s)))]"
proof -
  let ?F = "MY_MAC @ take 6 VLC_MAC @ ETH_P_ALL_be @ [1] @ le_int (queue_size s)"
  have q: "queue_size s = int (length (fq_items (tx_vlc_queue s)))" "queue_size s < QUEUE_LIMIT"
    using inv by (auto simp: tx_inv_def)
  then have ci: "c_int (queue_size s)" by (simp add: c_int_def QUEUE_LIMIT_def)
  have t: "tx_report VLC_MAC s = Some ?F" unfolding tx_report_def by (rule send_queue_report_bytes) simp
  have lb: "length (vlc_report_buf g) = 1024" and va: "ard (vlc_addresses g) 0 = Some VLC_MAC" and lv: "length (vk g) = 1"
    using g by (auto simp: gw_inv_def gw_shape_def)
  let ?b = "?F @ drop (length ?F) (vlc_report_buf g)"
  have rv: "recvfrom (Some ?F) (vlc_report_buf g) = (int (length ?F), ?b)" using lb by (intro recv_whole) simp
  have tv: "take 6 VLC_MAC = VLC_MAC" by (simp add: VLC_MAC_def)
  have ok: "is_vlc_tx_address GW_N_VLC (vlc_addresses g) ?b = Some True"
    by (simp add: is_vlc_tx_address_def GW_N_VLC_def cforb.simps tv ether_shost_def ether_dhost_def va)
  have d: "drop (nat ETHER_HDR) ?b = [1] @ le_int (queue_size s) @ drop (length ?F) (vlc_report_buf g)"
    by (simp add: ETHER_HDR_def)
  have a: "ard (drop (nat ETHER_HDR) ?b) 0 = Some 1" unfolding d by (simp add: ard_def)
  have r: "rd_int (drop (nat ETHER_HDR) ?b) 1 = Some (queue_size s)"
    unfolding d by (rule rd_int_le_int) (simp_all add: ci)
  have w: "awr (vk g) 0 (queue_size s) = Some [queue_size s]" using lv by (auto simp: awr_def length_Suc_conv)
  have "receive_vlc_report (Some ?F) g = Some (g\<lparr>vlc_report_buf := ?b, vk := [queue_size s]\<rparr>)"
    unfolding receive_vlc_report_def rv Let_def prod.case
    using ok a r w va by (simp add: GW_N_VLC_def del: append_Cons append_Nil drop_append take_append)
  with t show ?thesis by (intro exI[of _ ?F]) (simp add: q(1))
qed

text \<open>The node reports what it received; the gateway takes over the acknowledgement number and the
  link quality.\<close>

lemma ack_loop_runs:
  assumes sh: "gw_shape s" and u: "unacked_seq (gw_status s) = [a]" "1 \<le> a"
    and pat: "bits (ACK_bit_pattern r)" "pattern_length r = int (length (ACK_bit_pattern r))" "a + pattern_length r < 2 ^ 31"
  shows "cfor 0 (pattern_length r) (ack_entry r 0) s = Some s"
proof -
  obtain row where row: "pkt_state (gw_status s) = [row]" using sh by (auto simp: gw_shape_def length_Suc_conv)
  have "ack_entry r 0 k s = Some s" if k: "0 \<le> k" "k < pattern_length r" for k
  proof -
    obtain b where b: "ard (ACK_bit_pattern r) k = Some b" using k pat(2) by (auto simp: ard_def)
    moreover have "b \<noteq> 0x31" using ard_in_set[OF b] pat(1) by (auto simp: bits_def)
    moreover have "chk (a + k) = Some (a + k)" "chk (a + k - 1) = Some (a + k - 1)"
      using u(2) k pat(3) by (simp_all add: chk_def c_int_def)
    ultimately show ?thesis using u row k by (auto simp: ack_entry_def pkt_get_def Let_def)
  qed
  then have "\<exists>t. cfor 0 (pattern_length r) (ack_entry r 0) s = Some t \<and> t = s"
    using pat(2) by (intro cfor_total[where I = "\<lambda>k t. t = s"]) auto
  then show ?thesis by simp
qed

lemma gw_shape_report:
  "gw_shape g \<Longrightarrow> length b = 1024 \<Longrightarrow>
   gw_shape (g\<lparr>report_buf := b, gw_status := (gw_status g)\<lparr>unacked_seq := [a]\<rparr>\<rparr>)"
  by (simp add: gw_shape_def)

definition node_report :: "node_status \<Rightarrow> real \<Rightarrow> status_report_packet" where
  "node_report st q = \<lparr>sr_node_id = 1, ACK_number = rcv_seq st, pattern_length = int (length (report_pattern st)),
     ACK_bit_pattern = map (\<lambda>b. b AND 1) (report_pattern st), n_vlc = 1,
     vlc_data = [\<lparr>vlc_tx_id = 1, vlc_link_quality = c_trunc (fl64 (q * 255))\<rparr>]\<rparr>"

lemma report_received:
  assumes n: "node_inv s" and g: "gw_inv g" and sent: "\<exists>n\<in>set tries. 0 \<le> n"
    and fits: "last_rcv_seq (status s) - rcv_seq (status s) + 1 \<le> 7984" and q: "VLC_LQ s = [q]"
  shows "\<exists>frame b. send_report tries NODE_MAC s = Some frame \<and> length b = 1024
    \<and> receive_report (Some frame) g = do {
        t \<leftarrow> cfor 0 (pattern_length (node_report (status s) q)) (ack_entry (node_report (status s) q) 0)
          (g\<lparr>report_buf := b, gw_status := (gw_status g)\<lparr>unacked_seq := [rcv_seq (status s)]\<rparr>\<rparr>);
        cfor 0 1 (set_error (node_report (status s) q) 0) t }"
proof -
  have q01: "0 \<le> q" "q \<le> 1" using n q by (auto simp: node_inv_def)
  have ok: "status_ok (status s)" using n by (simp add: node_inv_def)
  let ?pat = "report_pattern (status s)" and ?ls = "report_links [q]"
  let ?R = "report_bytes 1 (rcv_seq (status s)) ?pat ?ls"
  let ?F = "RF_MAC @ take 6 NODE_MAC @ ETH_P_ALL_be @ ?R"
  have t: "send_report tries NODE_MAC s = Some ?F"
    using send_report_frame[OF n _ sent fits, of NODE_MAC] q by simp
  have lp: "int (length ?pat) \<le> 7984" using length_report_pattern[OF ok] fits by simp
  have ls: "?ls = [\<lparr>vlc_tx_id = 1, vlc_link_quality = c_trunc (fl64 (q * 255))\<rparr>]" by (simp add: report_links_def)
  have lb: "length (report_buf g) = 1024" and na: "ard (node_addresses g) 0 = Some NODE_MAC"
    and u1: "length (unacked_seq (gw_status g)) = 1"
    using g by (auto simp: gw_inv_def gw_shape_def)
  have lf: "length ?F \<le> 1024" using lp by (simp add: length_report_bytes ls)
  let ?b = "?F @ drop (length ?F) (report_buf g)"
  have rv: "recvfrom (Some ?F) (report_buf g) = (int (length ?F), ?b)" using lb lf by (intro recv_whole) simp
  have pos: "0 < int (length ?F)" by simp
  have tn: "take 6 NODE_MAC = NODE_MAC" by (simp add: NODE_MAC_def)
  have fr: "is_from_node N_NODE (node_addresses (g\<lparr>report_buf := ?b\<rparr>)) ?b = Some True"
    by (simp add: na is_from_node_def N_NODE_def cforb.simps tn ether_shost_def ether_dhost_def)
  have d: "drop (nat ETHER_HDR) ?b = ?R @ drop (length ?F) (report_buf g)" by (simp add: ETHER_HDR_def)
  have "generate_status_report_from_string (drop (nat ETHER_HDR) ?b)
      = Some \<lparr>sr_node_id = 1, ACK_number = rcv_seq (status s), pattern_length = int (length ?pat),
        ACK_bit_pattern = map (\<lambda>b. b AND 1) ?pat, n_vlc = int (length ?ls), vlc_data = ?ls\<rparr>"
    unfolding d
  proof (rule parse_report_bytes)
    show "c_int (rcv_seq (status s))" using ok by (simp add: status_ok_def c_int_def MAX_SEQ_NUMBER_def)
    show "c_int (int (length ?pat))" using lp by (simp add: c_int_def)
  qed (use c_trunc_byte[OF q01] in \<open>simp_all add: ls byte_int_def\<close>)
  then have ps: "generate_status_report_from_string (drop (nat ETHER_HDR) ?b) = Some (node_report (status s) q)"
    by (simp add: node_report_def ls)
  have r: "sr_node_id (node_report (status s) q) = 1" "ACK_number (node_report (status s) q) = rcv_seq (status s)"
    "n_vlc (node_report (status s) q) = 1" by (simp_all add: node_report_def)
  have w: "awr (unacked_seq (gw_status g)) 0 (rcv_seq (status s)) = Some [rcv_seq (status s)]"
    using u1 by (auto simp: awr_def length_Suc_conv)
  have lb': "length ?b = 1024" using lb lf by simp
  have "receive_report (Some ?F) g = do {
        t \<leftarrow> cfor 0 (pattern_length (node_report (status s) q)) (ack_entry (node_report (status s) q) 0)
          (g\<lparr>report_buf := ?b, gw_status := (gw_status g)\<lparr>unacked_seq := [rcv_seq (status s)]\<rparr>\<rparr>);
        cfor 0 1 (set_error (node_report (status s) q) 0) t }"
    unfolding receive_report_def rv Let_def prod.case if_P[OF pos] fr ps bind.bind_lunit
    using w r by (simp add: N_NODE_def del: append_assoc)
  with t lb' show ?thesis by blast
qed

lemma status_report_hop:
  assumes n: "node_inv s" and g: "gw_inv g" and sent: "\<exists>n\<in>set tries. 0 \<le> n"
    and seq: "1 \<le> rcv_seq (status s)" and fits: "last_rcv_seq (status s) - rcv_seq (status s) + 1 \<le> 7984"
  shows "\<exists>frame g'. send_report tries NODE_MAC s = Some frame \<and> receive_report (Some frame) g = Some g'
    \<and> unacked_seq (gw_status g') = [rcv_seq (status s)]
    \<and> gw_e g' = [[fl64 (1 - fl64 (of_int (c_trunc (fl64 (VLC_LQ s ! 0 * 255))) / 255))]]"
proof -
  obtain q where q: "VLC_LQ s = [q]" using n by (auto simp: node_inv_def)
  let ?rep = "node_report (status s) q"
  from report_received[OF n g sent fits q] obtain frame b where
    f: "send_report tries NODE_MAC s = Some frame" "length b = 1024"
    and r: "receive_report (Some frame) g = do {
        t \<leftarrow> cfor 0 (pattern_length ?rep) (ack_entry ?rep 0)
          (g\<lparr>report_buf := b, gw_status := (gw_status g)\<lparr>unacked_seq := [rcv_seq (status s)]\<rparr>\<rparr>);
        cfor 0 1 (set_error ?rep 0) t }" by blast
  let ?g = "g\<lparr>report_buf := b, gw_status := (gw_status g)\<lparr>unacked_seq := [rcv_seq (status s)]\<rparr>\<rparr>"
  let ?e = "[[fl64 (1 - fl64 (of_int (c_trunc (fl64 (q * 255))) / 255))]]"
  have sh: "gw_shape ?g" using g f(2) unfolding gw_inv_def by (intro gw_shape_report) blast+
  have ok: "status_ok (status s)" using n by (simp add: node_inv_def)
  then have "rcv_seq (status s) + pattern_length ?rep < 2 ^ 31"
    using fits length_report_pattern[OF ok] by (simp add: node_report_def status_ok_def MAX_SEQ_NUMBER_def)
  then have al: "cfor 0 (pattern_length ?rep) (ack_entry ?rep 0) ?g = Some ?g"
    using and_1_bit seq by (intro ack_loop_runs[OF sh]) (auto simp: node_report_def bits_def)
  have "length (gw_e g) = 1" "length (gw_e g ! 0) = 1" using g by (auto simp: gw_inv_def gw_shape_def)
  then have el: "cfor 0 1 (set_error ?rep 0) ?g = Some (?g\<lparr>gw_e := ?e\<rparr>)"
    by (auto simp: node_report_def c_simps set_error_def ard_def awr_def length_Suc_conv)
  show ?thesis using f(1) r al el by (simp add: q)
qed

text \<open>Before the node has acknowledged anything the gateway reads the packet state at index \<open>-1\<close>.\<close>

lemma first_report_fault:
  assumes n: "node_inv s" and g: "gw_inv g" and sent: "\<exists>n\<in>set tries. 0 \<le> n"
    and seq: "rcv_seq (status s) = 0" and fits: "last_rcv_seq (status s) \<le> 7983"
  shows "\<exists>frame. send_report tries NODE_MAC s = Some frame \<and> receive_report (Some frame) g = None"
proof -
  obtain q where q: "VLC_LQ s = [q]" using n by (auto simp: node_inv_def)
  have ok: "status_ok (status s)" "0 \<le> last_rcv_seq (status s)" using n by (auto simp: node_inv_def status_ok_def)
  from length_report_pattern[OF ok(1)] ok(2) seq have "0 < length (report_pattern (status s))" by linarith
  moreover have "length (pkt_state (gw_status g)) = 1" using g by (simp add: gw_inv_def gw_shape_def)
  moreover have "last_rcv_seq (status s) - rcv_seq (status s) + 1 \<le> 7984" using seq fits by simp
  note report_received[OF n g sent this q]
  ultimately show ?thesis
    by (auto simp: node_report_def cfor_step ack_entry_def pkt_get_def seq ard_def GW_MAX_SEQ_NUMBER_def chk_def c_int_def)
qed

end
