(* ===== verification/Ring.thy ===== *)
theory Ring
  imports Vlc_Module
begin

text \<open>
  The rings in the memory the drivers share with the PRUs, as sequences of frames: the transmitter's handler appends to
  its ring, the receiver's thread takes from the front of its own. The frames between read and write index are the
  abstract contents; with them the two drivers implement a first-in-first-out channel for any number of packets,
  through the wrap-around of the indices, as long as the writer does not run over frames that were not yet read, which the
  handler does not check.
\<close>

unbundle bit_operations_syntax

section \<open>Frames and their places\<close>

text \<open>A packet the receiver takes: its length word counts the payload, ten bytes of header precede it.\<close>

definition frame_len :: "u8 list \<Rightarrow> u16" where
  "frame_len p = (case rd16 p 0 of None \<Rightarrow> 0 | Some l \<Rightarrow> l)"

definition packet_fits :: "u8 list \<Rightarrow> bool" where
  "packet_fits p \<longleftrightarrow> 0 < frame_len p \<and> frame_len p \<le> RX_MTU_VALUE \<and> length p = unat (frame_len p) + 10"

text \<open>The frame of a packet: the packet and its parity.\<close>

definition frame_of :: "u8 list \<Rightarrow> u8 list" where
  "frame_of p = p @ map ucast (snd (the (encode_rs8 (vlc_rs 1) p (int (length p)) (replicate 16 0) 0)))"

text \<open>The frames \<open>fs\<close> stand in \<open>m\<close> from index \<open>r\<close> on, and the one behind them would be at \<open>w\<close>.\<close>

fun ring_frames :: "u8 list \<Rightarrow> u16 \<Rightarrow> u8 list list \<Rightarrow> u16 \<Rightarrow> bool" where
  "ring_frames m r [] w \<longleftrightarrow> r = w"
| "ring_frames m r (f # fs) w \<longleftrightarrow>
     r \<noteq> w \<and> cget m (uint r) (int (length f)) = Some f \<and> ring_frames m (rx_next r (frame_len f)) fs w"

lemma packet_fits_len: "packet_fits p \<Longrightarrow> rd16 p 0 = Some (frame_len p)"
  by (auto simp: packet_fits_def frame_len_def split: option.splits)

lemma packet_fits_bounds: "packet_fits p \<Longrightarrow> 11 \<le> length p \<and> length p \<le> 160"
  by (auto simp: packet_fits_def RX_MTU_VALUE_def word_le_nat_alt word_less_nat_alt unat_gt_0 Suc_le_eq)

lemma encode_prefix:
  assumes "n \<le> length data" "n \<le> 239"
  shows "encode_rs8 (vlc_rs u) data (int n) (replicate 16 0) m = encode_rs8 (vlc_rs v) (take n data) (int n) (replicate 16 0) m"
proof -
  have gp: "rs_gp (vlc_rs u) = rs_gp (vlc_rs v)" and nr: "nroots (vlc_rs x) = 16" for x by (simp_all add: vlc_rs_def rs_gp_def)
  show ?thesis
    using vlc.encode_foldl[where u = u and ps = "replicate 16 0" and len = "int n" and data = data and invmsk = m]
      vlc.encode_foldl[where u = v and ps = "replicate 16 0" and len = "int n" and data = "take n data" and invmsk = m] assms
    by (simp add: nr gp)
qed

lemma frame_of_block:
  assumes "encode_rs8 (vlc_rs u) data (int n) (replicate 16 0) 0 = Some (0, par)" "n \<le> length data" "n \<le> 239"
  shows "take n data @ map ucast par = frame_of (take n data)"
  using assms encode_prefix[of n data u 0 1] by (simp add: frame_of_def min_absorb2)

text \<open>What the handler writes for a packet that fits: the frame, at the write index.\<close>

lemma write_packet_frame:
  assumes p: "packet_fits p" and data: "take (length p) data = p" "length data = PKT_DATA" and w: "unat w + 226 \<le> length m"
  shows "\<exists>d. write_packet_to_pru_memory (vlc_rs u) data w m = Some (w + frame_len p + 26, d,
      take (unat w) m @ frame_of p @ drop (unat w + length p + 16) m)"
    and "length (frame_of p) = length p + 16" "frame_len (frame_of p) = frame_len p"
proof -
  note b = packet_fits_bounds[OF p] packet_fits_len[OF p]
  have n: "length p = unat (frame_len p) + 10" using p by (simp add: packet_fits_def)
  have "2 \<le> length p" "length p \<le> length data" using b(1) data(2) by (simp_all add: PKT_DATA_def)
  then have rd: "rd16 data 0 = Some (frame_len p)" using rd16_take[of "length p" data "[]"] data(1) b(2) by simp
  have "unat (frame_len p) < 190" using b(1) n by simp
  from write_packet_block[OF rd this data(2) w, of u, folded n] obtain par where
    par: "encode_rs8 (vlc_rs u) data (int (length p)) (replicate 16 0) 0 = Some (0, par)" "length par = 16"
    "write_packet_to_pru_memory (vlc_rs u) data w m = Some (w + frame_len p + 26, take (length p) data @ map ucast par @ drop (length p + 16) data,
       take (unat w) m @ take (length p) data @ map ucast par @ drop (unat w + length p + 16) m)" by blast
  have f: "p @ map ucast par = frame_of p"
    using frame_of_block[OF par(1)] b(1) data by (simp add: PKT_DATA_def)
  then show "\<exists>d. write_packet_to_pru_memory (vlc_rs u) data w m = Some (w + frame_len p + 26, d,
      take (unat w) m @ frame_of p @ drop (unat w + length p + 16) m)"
    using par(3) data(1) by (simp flip: f)
  show "length (frame_of p) = length p + 16" using par(2) by (simp flip: f)
  have "rd16 (p @ map ucast par) 0 = rd16 p 0" using rd16_take[of "length p" p] b(1) by simp
  then show "frame_len (frame_of p) = frame_len p" by (simp add: frame_len_def flip: f)
qed

section \<open>The receiver takes frames in order\<close>

text \<open>A frame that arrives with at most eight wrong bytes, none of them in the length word; and what goes up the stack for
  a packet in whose frame \<open>k\<close> wrong bytes were corrected.\<close>

definition arrives :: "u8 list \<Rightarrow> u8 list \<Rightarrow> bool" where
  "arrives p f \<longleftrightarrow> packet_fits p \<and> length f = length p + 16 \<and> take 2 f = take 2 p \<and> card (frame_errors (frame_of p) f) \<le> 8"

definition marked :: "nat \<Rightarrow> u8 list \<Rightarrow> u8 list" where
  "marked k p = (if k = 0 then p else take (length p)
     (take 2 p @ (if rd16 p 2 = Some RX_DUMMY_NODE_ID then take 2 (drop 2 p) else le16 error_node_id)
      @ take 6 (drop 4 p) @ le32 (of_nat k) @ drop 14 p))"

lemma mark_errors_marked:
  assumes p: "10 \<le> length p" and k: "k \<le> 8"
    and b: "mark_errors (of_nat k) (p @ rest) = Some bytes"
  shows "take (length p) bytes = marked k p"
proof (cases "k = 0")
  case True
  then show ?thesis using b by (auto simp: mark_errors_def marked_def)
next
  case False
  define d where "d = p @ rest"
  have u: "unat (of_nat k :: u32) = k" using k by (simp add: unat_of_nat)
  then have k0: "(of_nat k :: u32) > 0" using False by (metis word_neq_0_conv unat_0)
  have p2: "14 \<le> length d"
    using b k0 unfolding d_def[symmetric] by (auto simp: mark_errors_def cput_def split: if_splits Option.bind_splits)
  obtain i where i: "rd16 d 2 = Some i" "rd16 p 2 = Some i" using p by (auto simp: d_def rd16_def ard_def nth_append)
  let ?id = "if i = RX_DUMMY_NODE_ID then take 2 (drop 2 d) else le16 error_node_id"
  have id: "length ?id = 2" using p2 by simp
  have "(if i \<noteq> RX_DUMMY_NODE_ID then cput d 2 (le16 error_node_id) else Some d) = Some (take 2 d @ ?id @ drop 4 d)"
    using p2 by (auto simp: cput_def simp flip: take_add append_assoc)
  moreover have "cput (take 2 d @ ?id @ drop 4 d) 10 (le32 (of_nat k)) = Some (take 2 d @ ?id @ take 6 (drop 4 d) @ le32 (of_nat k) @ drop 14 d)"
    using p2 id by (simp add: cput_def)
  ultimately have "bytes = take 2 d @ ?id @ take 6 (drop 4 d) @ le32 (of_nat k) @ drop 14 d"
    using b k0 i(1) unfolding d_def[symmetric] by (simp add: mark_errors_def)
  then show ?thesis using False i(2) p by (simp add: marked_def d_def)
qed

lemma rd16_len: "rd16 xs i = Some v \<Longrightarrow> 0 \<le> i \<and> i + 2 \<le> int (length xs)"
  by (auto simp: rd16_def ard_def split: if_splits Option.bind_splits)

text \<open>One round on the frame at the read index.\<close>

lemma round_takes_frame:
  assumes a: "arrives p f" and fr: "cget (rx_pru s) (uint r) (int (length f)) = Some f"
    and ring: "rd16 (rx_pru s) 2 = Some r" "rd16 (rx_pru s) 0 = Some x" "x \<noteq> r" and ok: "rx_pkt_ok s"
  shows "\<exists>s'. decode_round uninit (vlc_rs v) alloc False s = Some (None, s')
    \<and> map sk_mac (netif_rx s') = map sk_mac (netif_rx s) @ (if alloc then [marked (card (frame_errors (frame_of p) f)) p] else [])
    \<and> rd16 (rx_pru s') 2 = Some (rx_next r (frame_len p)) \<and> rd16 (rx_pru s') 0 = Some x
    \<and> drop 4 (rx_pru s') = drop 4 (rx_pru s) \<and> length (rx_pru s') = length (rx_pru s) \<and> rx_pkt_ok s'"
proof -
  have p: "packet_fits p" and f: "length f = length p + 16" "take 2 f = take 2 p" "card (frame_errors (frame_of p) f) \<le> 8"
    using a by (simp_all add: arrives_def)
  note b = packet_fits_bounds[OF p]
  have l: "0 < frame_len p" "frame_len p \<le> RX_MTU_VALUE" "length p = unat (frame_len p) + 10"
    using p by (simp_all add: packet_fits_def)
  define data where "data = p @ replicate (PKT_DATA - length p) 0"
  have data: "take (length p) data = p" "length data = PKT_DATA" using b by (simp_all add: data_def PKT_DATA_def)
  have rd: "rd16 data 0 = Some (frame_len p)"
    using rd16_take[of "length p" data "[]"] data b packet_fits_len[OF p] by (simp add: PKT_DATA_def)
  let ?m = "replicate 226 0 :: u8 list"
  have "unat (0 :: u16) + 226 \<le> length ?m" by simp
  note wp = write_packet_frame[OF p data this]
  from wp(1)[of 1] obtain d where wr: "write_packet_to_pru_memory (vlc_rs 1) data 0 ?m = Some (0 + frame_len p + 26, d,
      frame_of p @ drop (length p + 16) ?m)" by auto
  have i26: "int (unat (frame_len p)) + 26 = int (length p + 16)" using l(3) by simp
  have c1: "cget (frame_of p @ drop (length p + 16) ?m) (uint (0 :: u16)) (int (unat (frame_len p)) + 26) = Some (frame_of p)"
    using wp(2) unfolding i26 by (simp add: cget_def)
  have c2: "cget (rx_pru s) (uint r) (int (unat (frame_len p)) + 26) = Some f" using fr f(1) unfolding i26 by simp
  have "2 \<le> length p" using b by simp
  then have c3: "take 2 f = take 2 (frame_of p)" using f(2) by (simp add: frame_of_def)
  have "unat (0 :: u16) + 226 \<le> length ?m" by simp
  from frame_corrected[OF rd l(1,2) data(2) wr this c1 c2 c3 f(3) ring ok, of uninit v alloc False] obtain s' rest bytes where
    s': "decode_round uninit (vlc_rs v) alloc False s = Some (None, s')" "length bytes = RX_DATA_LEN"
    "map sk_mac (netif_rx s') = map sk_mac (netif_rx s) @ (if alloc then [take (length p) bytes] else [])"
    "rd16 (rx_pru s') 2 = Some (rx_next r (frame_len p))" "rd16 (rx_pru s') 0 = Some x"
    "drop 4 (rx_pru s') = drop 4 (rx_pru s)" "rx_pkt_ok s'"
    and mk: "mark_errors (of_nat (card (frame_errors (frame_of p) f))) (p @ rest) = Some bytes"
    using l(3) data(1) by auto
  have "10 \<le> length p" using b by simp
  note m = mark_errors_marked[OF this f(3) mk]
  have "length (rx_pru s') = length (rx_pru s)"
    using arg_cong[OF s'(6), of length] rd16_len[OF s'(4)] rd16_len[OF ring(1)] by simp
  with s' m show ?thesis by auto
qed

text \<open>The rounds touch only the read index, which lies before the ring.\<close>

lemma cget_low:
  assumes "drop 4 m' = drop 4 m" "length m' = length m" "4 \<le> i"
  shows "cget m' i n = cget m i n"
proof -
  have "drop (nat i) m' = drop (nat i - 4) (drop 4 m')" "drop (nat i) m = drop (nat i - 4) (drop 4 m)" using assms(3) by simp_all
  then have "drop (nat i) m' = drop (nat i) m" using assms(1) by simp
  then show ?thesis using assms(2) by (simp add: cget_def)
qed

lemma in_ring_uint: "in_ring r \<Longrightarrow> 4 \<le> uint r \<and> uint r < 6004"
  by (auto simp: in_ring_def BUFFER_LIMIT_def word_le_def word_less_def)

lemma ring_frames_low:
  assumes "drop 4 m' = drop 4 m" "length m' = length m"
  shows "in_ring r \<Longrightarrow> \<forall>f\<in>set fs. frame_len f \<le> RX_MTU_VALUE \<Longrightarrow> ring_frames m r fs w \<Longrightarrow> ring_frames m' r fs w"
proof (induction fs arbitrary: r)
  case (Cons f fs)
  then have "in_ring (rx_next r (frame_len f))" by (intro rx_next_in_ring) simp_all
  with Cons cget_low[OF assms, of "uint r" "int (length f)"] in_ring_uint[of r] show ?case by simp
qed simp

lemma arrives_len:
  assumes "arrives p f"
  shows "frame_len f = frame_len p" "frame_len f \<le> RX_MTU_VALUE"
proof -
  have p: "packet_fits p" "length f = length p + 16" "take 2 f = take 2 p" using assms by (simp_all add: arrives_def)
  then have "rd16 f 0 = rd16 p 0" using packet_fits_bounds[OF p(1)] by (intro rd16_prefix) auto
  then show "frame_len f = frame_len p" by (simp add: frame_len_def)
  then show "frame_len f \<le> RX_MTU_VALUE" using p(1) by (simp add: packet_fits_def)
qed

text \<open>What goes up the stack: each packet for which the kernel has a buffer, marked where it was corrected.\<close>

definition handed_up :: "bool list \<Rightarrow> u8 list list \<Rightarrow> u8 list list \<Rightarrow> u8 list list" where
  "handed_up allocs ps fs = map (\<lambda>(a, p, f). marked (card (frame_errors (frame_of p) f)) p) (filter fst (zip allocs (zip ps fs)))"

lemma handed_up_clean: "handed_up (replicate (length ps) True) ps (map frame_of ps) = ps"
  by (induction ps) (simp_all add: handed_up_def marked_def)

lemma thread_takes_frames:
  assumes "list_all2 arrives ps fs" "length allocs = length ps" "ring_frames (rx_pru s) r fs w" "in_ring r"
    "rd16 (rx_pru s) 2 = Some r" "rd16 (rx_pru s) 0 = Some w" "rx_pkt_ok s"
  shows "\<exists>s'. pru_phy_decoding uninit (vlc_rs v) (map (\<lambda>a. (a, False)) allocs) s = Some (None, s')
    \<and> map sk_mac (netif_rx s') = map sk_mac (netif_rx s) @ handed_up allocs ps fs
    \<and> rd16 (rx_pru s') 2 = Some w \<and> rd16 (rx_pru s') 0 = Some w \<and> rx_pkt_ok s'"
  using assms
proof (induction ps fs arbitrary: allocs s r rule: list_all2_induct)
  case Nil
  then show ?case by (simp add: handed_up_def)
next
  case (Cons p ps f fs)
  then obtain a al where al: "allocs = a # al" by (cases allocs) auto
  note len = arrives_len[OF Cons.hyps(1)]
  from Cons.prems(2) have fr: "w \<noteq> r" "cget (rx_pru s) (uint r) (int (length f)) = Some f"
    "ring_frames (rx_pru s) (rx_next r (frame_len p)) fs w" by (auto simp: len(1))
  from round_takes_frame[OF Cons.hyps(1) fr(2) Cons.prems(4,5) fr(1) Cons.prems(6), of uninit v a] obtain s1 where
    s1: "decode_round uninit (vlc_rs v) a False s = Some (None, s1)"
    "map sk_mac (netif_rx s1) = map sk_mac (netif_rx s) @ (if a then [marked (card (frame_errors (frame_of p) f)) p] else [])"
    "rd16 (rx_pru s1) 2 = Some (rx_next r (frame_len p))" "rd16 (rx_pru s1) 0 = Some w"
    "drop 4 (rx_pru s1) = drop 4 (rx_pru s)" "length (rx_pru s1) = length (rx_pru s)" "rx_pkt_ok s1" by blast
  have ir: "in_ring (rx_next r (frame_len p))" using Cons.prems(3) len by (intro rx_next_in_ring) simp_all
  have "\<forall>g\<in>set fs. frame_len g \<le> RX_MTU_VALUE"
    using Cons.hyps(2) arrives_len(2) by (metis in_set_conv_nth list_all2_conv_all_nth)
  from ring_frames_low[OF s1(5,6) ir this fr(3)] have "ring_frames (rx_pru s1) (rx_next r (frame_len p)) fs w" .
  from Cons.IH[OF _ this ir s1(3,4,7), of al] Cons.prems(1) al s1(1,2) show ?case
    by (auto simp: handed_up_def)
qed

section \<open>The transmitter appends frames in order\<close>

text \<open>The places of the frames in the ring, and the condition that a new frame \<open>f\<close> at the write index runs over none of
  them. The handler tests only that the new write index is not the read index.\<close>

fun ring_slots :: "u16 \<Rightarrow> u8 list list \<Rightarrow> (u16 \<times> nat) list" where
  "ring_slots r [] = []"
| "ring_slots r (f # fs) = (r, length f) # ring_slots (rx_next r (frame_len f)) fs"

definition ring_room :: "u16 \<Rightarrow> u8 list list \<Rightarrow> u16 \<Rightarrow> u8 list \<Rightarrow> bool" where
  "ring_room r fs w f \<longleftrightarrow> list_all (\<lambda>(a, n). (unat a + n \<le> unat w \<or> unat w + length f \<le> unat a)
     \<and> a \<noteq> rx_next w (frame_len f)) (ring_slots r fs)"

lemma rx_next_moves: "in_ring w \<Longrightarrow> l \<le> RX_MTU_VALUE \<Longrightarrow> rx_next w l \<noteq> w"
proof -
  assume "in_ring w" "l \<le> RX_MTU_VALUE"
  then have "unat w < 6004" "4 \<le> unat w" "unat l \<le> 150"
    by (auto simp: in_ring_def BUFFER_LIMIT_def RX_MTU_VALUE_def word_less_nat_alt word_le_nat_alt)
  moreover from this have "unat (w + l + 26) = unat w + unat l + 26" by (simp add: unat_word_ariths)
  ultimately show ?thesis
    by (auto simp: rx_next_def BUFFER_LIMIT_def word_le_nat_alt word_unat_eq_iff)
qed

lemma cget_put:
  fixes a w :: u16
  assumes "unat w + length f \<le> length m"
  shows "cget (take (unat w) m @ f @ drop (unat w + length f) m) (uint w) (int (length f)) = Some f"
    and "unat a + n \<le> unat w \<or> unat w + length f \<le> unat a \<Longrightarrow>
      cget (take (unat w) m @ f @ drop (unat w + length f) m) (uint a) (int n) = cget m (uint a) (int n)"
proof -
  let ?m = "take (unat w) m @ f @ drop (unat w + length f) m"
  obtain wi ai where u: "uint w = int wi" "unat w = wi" "uint a = int ai" "unat a = ai" by (metis uint_unat)
  have l: "length ?m = length m" using assms by simp
  show "cget ?m (uint w) (int (length f)) = Some f" using assms unfolding u by (simp add: cget_def)
  assume d: "unat a + n \<le> unat w \<or> unat w + length f \<le> unat a"
  have "take n (drop ai ?m) = take n (drop ai m)"
  proof (cases "ai + n \<le> wi")
    case True
    then show ?thesis using assms unfolding u by (simp add: drop_take min_absorb1)
  next
    case False
    with d have "wi + length f \<le> ai" by (simp add: u)
    then show ?thesis using assms unfolding u by simp
  qed
  then show "cget ?m (uint a) (int n) = cget m (uint a) (int n)" using l unfolding u by (simp add: cget_def)
qed

lemma ring_frames_snoc:
  assumes f: "unat w + length f \<le> length m" "in_ring w" "frame_len f \<le> RX_MTU_VALUE"
  shows "ring_frames m r fs w \<Longrightarrow> ring_room r fs w f \<Longrightarrow>
    ring_frames (take (unat w) m @ f @ drop (unat w + length f) m) r (fs @ [f]) (rx_next w (frame_len f))"
proof (induction fs arbitrary: r)
  case Nil
  then show ?case using cget_put(1)[OF f(1)] rx_next_moves[OF f(2,3)] by auto
next
  case (Cons g gs)
  then have n: "r \<noteq> rx_next w (frame_len f)" "unat r + length g \<le> unat w \<or> unat w + length f \<le> unat r"
    "ring_room (rx_next r (frame_len g)) gs w f" by (auto simp: ring_room_def)
  with Cons cget_put(2)[OF f(1) n(2)] show ?case by simp
qed

lemma frame_of_len: "packet_fits p \<Longrightarrow> length (frame_of p) = length p + 16 \<and> frame_len (frame_of p) = frame_len p"
  using write_packet_frame(2,3)[of p "p @ replicate (PKT_DATA - length p) 0" 0 "replicate 226 0"] packet_fits_bounds[of p]
  by (simp add: PKT_DATA_def)

text \<open>A tick with a packet in the queue and room in the ring appends its frame and publishes it.\<close>

lemma ring_room_first: "ring_frames m r fs w \<Longrightarrow> ring_room r fs w f \<Longrightarrow> in_ring w \<Longrightarrow> frame_len f \<le> RX_MTU_VALUE
    \<Longrightarrow> rx_next w (frame_len f) \<noteq> r"
  using rx_next_moves by (cases fs) (auto simp: ring_room_def)

lemma take_length_take: "take (length (take n xs)) xs = take n xs"
  by (cases "n \<le> length xs") simp_all

lemma pkt_bytes_prefix: "drv_at s as bs \<Longrightarrow> b \<in> set bs \<Longrightarrow> p = pkt_bytes (mem s) b \<Longrightarrow>
    take (length p) (pk_data (nd_data (the (mem s b)))) = p \<and> length (pk_data (nd_data (the (mem s b)))) = PKT_DATA"
  by (auto simp: drv_at_def pkt_bytes_def Let_def take_length_take simp del: length_take)

lemma tick_writes:
  assumes inv: "handler_inv s q" and wn: "is_write_next s" and at: "drv_at s as (b # bs)"
    and p: "p = pkt_bytes (mem s) b" "packet_fits p"
    and ring: "rd16 (pru s) 2 = Some r" "rd16 (pru s) 0 = Some w" "rx_next w (frame_len p) \<noteq> r"
  defines "w' \<equiv> rx_next w (frame_len p)"
  shows "\<exists>s'. phy_timer_handler (vlc_rs u) q s = Some (s', q) \<and> handler_inv s' q \<and> is_write_next s'
    \<and> drv_at s' (b # as) bs \<and> map (pkt_bytes (mem s')) bs = map (pkt_bytes (mem s)) bs
    \<and> rd16 (pru s') 2 = Some r \<and> rd16 (pru s') 0 = Some w' \<and> in_ring w \<and> unat w + length (frame_of p) \<le> length (pru s)
    \<and> length (pru s') = length (pru s)
    \<and> drop 4 (pru s') = drop 4 (take (unat w) (pru s) @ frame_of p @ drop (unat w + length (frame_of p)) (pru s))"
proof -
  obtain as' bs' where i: "short_pkt q" "ring_ok s" "drv_at s as' bs'"
    "\<forall>b\<in>set bs'. short_pkt (pk_data (nd_data (the (mem s b))))" using inv by (auto simp: handler_inv_def)
  have bs': "bs' = b # bs" using drv_at_unique[OF i(3) at] by simp
  have sb: "short_pkt (pk_data (nd_data (the (mem s b))))" using i(4) bs' by simp
  have bb: "b \<in> set (b # bs)" by simp
  note d = conjunct1[OF pkt_bytes_prefix[OF at bb p(1)]] conjunct2[OF pkt_bytes_prefix[OF at bb p(1)]]
  from handler_write_packet[OF i(2) at sb, of u q] obtain s1 w1 d1 where s1: "handler_write (vlc_rs u) q s = Some (s1, q)"
    "ring_ok s1" "drv_at s1 (b # as) bs" "\<forall>c\<in>set bs. nd_data (the (mem s1 c)) = nd_data (the (mem s c))"
    "take 4 (pru s1) = take 4 (pru s)" "\<not> is_write_next s1" "in_ring w" "write_idx s1 = wrap w1"
    "write_packet_to_pru_memory (vlc_rs u) (pk_data (nd_data (the (mem s b)))) w (pru s) = Some (w1, d1, pru s1)"
    using ring(2) by auto
  have lm: "6230 \<le> length (pru s)" using i(2) by (auto simp: ring_ok_def)
  have "unat w < 6004" using s1(7) by (simp add: in_ring_def BUFFER_LIMIT_def word_less_nat_alt)
  then have m226: "unat w + 226 \<le> length (pru s)" using lm by simp
  note wp = write_packet_frame[OF p(2) d m226]
  have pw: "w1 = w + frame_len p + 26" "pru s1 = take (unat w) (pru s) @ frame_of p @ drop (unat w + length (frame_of p)) (pru s)"
    using wp(1)[of u] s1(9) wp(2) by (auto simp: add.assoc)
  have fit: "unat w + length (frame_of p) \<le> length (pru s)" using wp(2) packet_fits_bounds[OF p(2)] m226 by simp
  have wi: "write_idx s1 = w'" using s1(8) pw(1) by (simp add: wrap_def rx_next_def w'_def)
  have l1: "length (pru s1) = length (pru s)" using pw(2) fit by simp
  have r2: "rd16 (pru s1) 2 = Some r" using rd16_low[OF s1(5) l1, of 2] ring(1) by simp
  have ne: "rd16 (pru s1) 2 \<noteq> Some (write_idx s1)" using ring(3) by (simp add: wi r2 w'_def)
  have "in_ring (write_idx s1)" using s1(2,6) by (simp add: ring_ok_def)
  from handler_publish[OF s1(2) this, of q] ne s1(3) obtain s' where
    s': "phy_timer_handler (vlc_rs u) q s = Some (s', q)" "ring_ok s'" "mem s' = mem s1" "drv_at s' (b # as) bs"
    "pru s' = le16 w' @ drop 2 (pru s1)" "is_write_next s'"
    unfolding wi by (auto simp: phy_timer_handler_def wn s1(1))
  have low: "drop 4 (pru s') = drop 4 (pru s1)" "length (pru s') = length (pru s1)" "rd16 (pru s') 2 = rd16 (pru s1) 2"
    using lm l1 by (simp_all add: s'(5) rd16_def ard_def nth_append)
  have w0: "rd16 (pru s') 0 = Some w'" by (simp add: s'(5) bytes_simps)
  have "handler_inv s' q"
    unfolding handler_inv_def using i(1,4) s'(2,3,4) s1(4) bs' by (intro conjI exI[of _ "b # as"] exI[of _ bs]) auto
  moreover have "map (pkt_bytes (mem s')) bs = map (pkt_bytes (mem s)) bs" using s1(4) s'(3) by (simp add: pkt_bytes_def)
  moreover have "rd16 (pru s') 2 = Some r" "length (pru s') = length (pru s)" using low r2 l1 by simp_all
  moreover note low(1)[unfolded pw(2)]
  ultimately show ?thesis using s'(1,4,6) w0 s1(7) fit by blast
qed

lemma tick_sends:
  assumes inv: "handler_inv s q" and wn: "is_write_next s" and at: "drv_at s as (b # bs)"
    and p: "p = pkt_bytes (mem s) b" "packet_fits p"
    and ring: "rd16 (pru s) 2 = Some r" "rd16 (pru s) 0 = Some w" "ring_frames (pru s) r fs w" "in_ring r"
      "\<forall>f\<in>set fs. frame_len f \<le> RX_MTU_VALUE" "ring_room r fs w (frame_of p)"
  defines "w' \<equiv> rx_next w (frame_len p)"
  shows "\<exists>s'. phy_timer_handler (vlc_rs u) q s = Some (s', q) \<and> handler_inv s' q \<and> is_write_next s'
    \<and> drv_at s' (b # as) bs \<and> map (pkt_bytes (mem s')) bs = map (pkt_bytes (mem s)) bs
    \<and> rd16 (pru s') 2 = Some r \<and> rd16 (pru s') 0 = Some w' \<and> ring_frames (pru s') r (fs @ [frame_of p]) w'"
proof -
  note fl = frame_of_len[OF p(2)]
  have l: "frame_len (frame_of p) \<le> RX_MTU_VALUE" using fl p(2) by (simp add: packet_fits_def)
  have w: "in_ring w" using inv ring(2) by (auto simp: handler_inv_def ring_ok_def)
  have ne: "rx_next w (frame_len p) \<noteq> r" using ring_room_first[OF ring(3,6) w l] fl by simp
  from tick_writes[OF inv wn at p ring(1,2) ne, of u] obtain s' where
    s': "phy_timer_handler (vlc_rs u) q s = Some (s', q)" "handler_inv s' q" "is_write_next s'" "drv_at s' (b # as) bs"
    "map (pkt_bytes (mem s')) bs = map (pkt_bytes (mem s)) bs" "rd16 (pru s') 2 = Some r" "rd16 (pru s') 0 = Some w'"
    and m: "unat w + length (frame_of p) \<le> length (pru s)" "length (pru s') = length (pru s)"
    "drop 4 (pru s') = drop 4 (take (unat w) (pru s) @ frame_of p @ drop (unat w + length (frame_of p)) (pru s))"
    unfolding w'_def by blast
  let ?m = "take (unat w) (pru s) @ frame_of p @ drop (unat w + length (frame_of p)) (pru s)"
  have lm: "length (pru s') = length ?m" using m(1,2) by simp
  have fs: "\<forall>f\<in>set (fs @ [frame_of p]). frame_len f \<le> RX_MTU_VALUE" using ring(5) l by simp
  have "ring_frames ?m r (fs @ [frame_of p]) w'" using ring_frames_snoc[OF m(1) w l ring(3,6)] fl by (simp add: w'_def)
  from ring_frames_low[OF m(3) lm ring(4) fs this] s' show ?thesis by blast
qed

text \<open>Consecutive ticks: the whole queue goes into the ring, in order.\<close>

fun ticks :: "rs_control \<Rightarrow> nat \<Rightarrow> u8 list \<Rightarrow> drv \<Rightarrow> (drv \<times> u8 list) option" where
  "ticks rs 0 q s = Some (s, q)"
| "ticks rs (Suc n) q s = do { (s, q) \<leftarrow> phy_timer_handler rs q s; ticks rs n q s }"

fun ring_rooms :: "u16 \<Rightarrow> u8 list list \<Rightarrow> u16 \<Rightarrow> u8 list list \<Rightarrow> bool" where
  "ring_rooms r fs w [] \<longleftrightarrow> True"
| "ring_rooms r fs w (f # gs) \<longleftrightarrow> ring_room r fs w f \<and> ring_rooms r (fs @ [f]) (rx_next w (frame_len f)) gs"

lemma ticks_send:
  assumes "handler_inv s q" "is_write_next s" "drv_at s as bs" "map (pkt_bytes (mem s)) bs = ps" "list_all packet_fits ps"
    "rd16 (pru s) 2 = Some r" "rd16 (pru s) 0 = Some w" "ring_frames (pru s) r fs w" "in_ring r"
    "\<forall>f\<in>set fs. frame_len f \<le> RX_MTU_VALUE" "ring_rooms r fs w (map frame_of ps)"
  shows "\<exists>s' w'. ticks (vlc_rs u) (length ps) q s = Some (s', q) \<and> handler_inv s' q \<and> is_write_next s'
    \<and> drv_at s' (rev bs @ as) [] \<and> rd16 (pru s') 2 = Some r \<and> rd16 (pru s') 0 = Some w'
    \<and> ring_frames (pru s') r (fs @ map frame_of ps) w'"
  using assms
proof (induction ps arbitrary: s as bs fs w)
  case Nil
  then show ?case by auto
next
  case (Cons p ps)
  then obtain b bs' where bs: "bs = b # bs'" "p = pkt_bytes (mem s) b" "map (pkt_bytes (mem s)) bs' = ps" by auto
  have p: "packet_fits p" "ring_room r fs w (frame_of p)" using Cons.prems(5,11) by simp_all
  note fl = frame_of_len[OF p(1)]
  from tick_sends[OF Cons.prems(1,2) Cons.prems(3)[unfolded bs(1)] bs(2) p(1) Cons.prems(6-10) p(2), of u] obtain s1 where
    s1: "phy_timer_handler (vlc_rs u) q s = Some (s1, q)" "handler_inv s1 q" "is_write_next s1" "drv_at s1 (b # as) bs'"
    "map (pkt_bytes (mem s1)) bs' = ps" "rd16 (pru s1) 2 = Some r" "rd16 (pru s1) 0 = Some (rx_next w (frame_len p))"
    "ring_frames (pru s1) r (fs @ [frame_of p]) (rx_next w (frame_len p))" using bs(3) by auto
  have "frame_len p \<le> RX_MTU_VALUE" using p(1) by (simp add: packet_fits_def)
  then have "list_all packet_fits ps" "\<forall>f\<in>set (fs @ [frame_of p]). frame_len f \<le> RX_MTU_VALUE"
    "ring_rooms r (fs @ [frame_of p]) (rx_next w (frame_len p)) (map frame_of ps)"
    using Cons.prems(5,10,11) fl by auto
  from Cons.IH[OF s1(2-5) this(1) s1(6-8) Cons.prems(9) this(2,3)] s1(1) show ?case by (simp add: bs(1))
qed

text \<open>There is room for everything that fits between the write index and the end of the ring, when the ring is empty.\<close>

lemma ring_slots_snoc: "ring_slots r (fs @ [f]) = ring_slots r fs @ [(foldl (\<lambda>r f. rx_next r (frame_len f)) r fs, length f)]"
  by (induction fs arbitrary: r) simp_all

lemma rx_next_straight:
  assumes "unat w + unat l + 26 < 6004"
  shows "unat (rx_next w l) = unat w + unat l + 26"
proof -
  have "unat (w + l + 26) = unat w + unat l + 26" using assms by (simp add: unat_word_ariths)
  then show ?thesis using assms by (simp add: rx_next_def BUFFER_LIMIT_def word_le_nat_alt)
qed

lemma ring_rooms_straight:
  assumes "\<forall>(a, n)\<in>set (ring_slots r fs). unat a + n \<le> unat w" "foldl (\<lambda>r f. rx_next r (frame_len f)) r fs = w"
    "list_all packet_fits ps" "unat w + sum_list (map (\<lambda>p. length p + 16) ps) < 6004"
  shows "ring_rooms r fs w (map frame_of ps)"
  using assms
proof (induction ps arbitrary: fs w)
  case (Cons p ps)
  let ?f = "frame_of p" and ?w = "rx_next w (frame_len p)"
  have p: "packet_fits p" using Cons.prems(3) by simp
  note fl = frame_of_len[OF p]
  have n: "length p = unat (frame_len p) + 10" using p by (simp add: packet_fits_def)
  have nx: "unat ?w = unat w + length ?f" using Cons.prems(4) fl n by (subst rx_next_straight) auto
  have "\<forall>(a, k)\<in>set (ring_slots r fs). unat a \<le> unat w" using Cons.prems(1) by fastforce
  then have "ring_room r fs w ?f"
    using Cons.prems(1) fl nx by (fastforce simp: ring_room_def list_all_iff)
  moreover have "\<forall>(a, k)\<in>set (ring_slots r (fs @ [?f])). unat a + k \<le> unat ?w"
    using Cons.prems(1,2) nx by (fastforce simp: ring_slots_snoc)
  moreover have "foldl (\<lambda>r f. rx_next r (frame_len f)) r (fs @ [?f]) = ?w" using Cons.prems(2) fl by simp
  ultimately show ?case using Cons.IH[of "fs @ [?f]" ?w] Cons.prems(3,4) fl nx by (simp add: ac_simps)
qed simp

section \<open>From stack to stack\<close>

text \<open>Socket buffers handed to an idle driver are queued in order; the ring is not touched.\<close>

lemma packet_fits_skb: "packet_fits p \<Longrightarrow> skb_ok p \<and> length p \<le> PKT_DATA"
  using packet_fits_len[of p] packet_fits_bounds[of p]
  by (auto simp: skb_ok_def packet_fits_def PKT_DATA_def word_less_nat_alt)

lemma xmit_all:
  assumes "handler_inv s q" "list_all packet_fits ps" "int (length (drv_items s) + length ps) \<le> drv_cap s"
  shows "\<exists>s'. enq_all drv_xmit ps s = Some s' \<and> handler_inv s' q \<and> drv_items s' = drv_items s @ ps
    \<and> pru s' = pru s \<and> is_write_next s' = is_write_next s"
  using assms
proof (induction ps arbitrary: s)
  case (Cons p ps)
  have p: "skb_ok p" "length p \<le> PKT_DATA" using packet_fits_skb Cons.prems(2) by auto
  have "drv_inv s" using Cons.prems(1) by (auto simp: handler_inv_def drv_inv_def)
  from drv_xmit_ok[OF this p(2)] Cons.prems(3) obtain s1 where
    s1: "drv_xmit p s = Some (True, s1)" "drv_items s1 = drv_items s @ [p]" "drv_cap s1 = drv_cap s" by auto
  have fr: "pru s1 = pru s" "is_write_next s1 = is_write_next s"
    using s1(1) vlc_tx_frame[of p s] by (auto simp: drv_xmit_def split: if_splits)
  have "handler_inv s1 q" using xmit_keeps[OF Cons.prems(1) p(1)] s1(1) by auto
  from Cons.IH[OF this] Cons.prems(2,3) s1 fr show ?case by simp
qed simp

lemma arrives_clean: "packet_fits p \<Longrightarrow> arrives p (frame_of p)"
  using frame_of_len[of p] packet_fits_bounds[of p] by (auto simp: arrives_def frame_of_def frame_errors_def)

section \<open>Overrun\<close>

text \<open>The handler does not compare the place of the new frame with the read index: when the frame at the read index begins
  inside that place, the tick writes over it and publishes the new frame all the same.\<close>

lemma tick_overruns:
  assumes inv: "handler_inv s q" "is_write_next s" "drv_at s as (b # bs)" "p = pkt_bytes (mem s) b" "packet_fits p"
    and ring: "rd16 (pru s) 2 = Some r" "rd16 (pru s) 0 = Some w" and r: "unat w < unat r" "unat r < unat w + length p + 16"
    and ne: "rx_next w (frame_len p) \<noteq> r"
  shows "\<exists>s'. phy_timer_handler (vlc_rs u) q s = Some (s', q)
    \<and> rd16 (pru s') 0 = Some (rx_next w (frame_len p)) \<and> rd16 (pru s') 2 = Some r
    \<and> pru s' ! unat r = frame_of p ! (unat r - unat w)"
proof -
  from tick_writes[OF inv ring ne, of u] obtain s' where s': "phy_timer_handler (vlc_rs u) q s = Some (s', q)"
    "rd16 (pru s') 2 = Some r" "rd16 (pru s') 0 = Some (rx_next w (frame_len p))"
    and m: "in_ring w" "unat w + length (frame_of p) \<le> length (pru s)" "length (pru s') = length (pru s)"
    "drop 4 (pru s') = drop 4 (take (unat w) (pru s) @ frame_of p @ drop (unat w + length (frame_of p)) (pru s))" by blast
  let ?m = "take (unat w) (pru s) @ frame_of p @ drop (unat w + length (frame_of p)) (pru s)"
  have w4: "4 \<le> unat w" using m(1) by (simp add: in_ring_def word_le_nat_alt)
  have "pru s' ! unat r = drop 4 (pru s') ! (unat r - 4)" using w4 r(1) m(2,3) frame_of_len[OF inv(5)] r(2) by simp
  also have "\<dots> = ?m ! unat r" unfolding m(4) using w4 r m(2) frame_of_len[OF inv(5)] by (subst nth_drop) auto
  also have "\<dots> = frame_of p ! (unat r - unat w)"
    using r m(2) conjunct1[OF frame_of_len[OF inv(5)]] by (auto simp: nth_append)
  finally show ?thesis using s' by blast
qed

end
