(* ===== verification/End_To_End.thy ===== *)
theory End_To_End
  imports System Ring
begin

text \<open>
  The whole way of a batch of packets over light: the gateway sends them to the VLC transmitter, whose threads queue them
  and write them to the network device; the driver puts their frames into the ring; the receiver's driver takes them out
  of its own ring and hands them to the node. Each program takes its steps one after the other, iteration by iteration and with
  nothing in between: all frames are received before the first packet is transmitted. Between the rings is the light channel, of which only the contents of the receiver's ring are assumed.
\<close>

section \<open>The steps of each program\<close>

text \<open>The Ethernet frames of the gateway; the receiving loop of the transmitter on them; its transmitting thread; the receiving
  thread of the node.\<close>

fun gw_sends :: "(u8 list \<Rightarrow> int) \<Rightarrow> gateway_packet list \<Rightarrow> u8 list list option" where
  "gw_sends sendto [] = Some []"
| "gw_sends sendto (p # ps) = do {
     (n, frame) \<leftarrow> transmit_packet_vlc sendto MY_MAC p;
     frames \<leftarrow> gw_sends sendto ps;
     Some (frame # frames) }"

fun tx_receives :: "u8 list list \<Rightarrow> tx_state \<Rightarrow> tx_state option" where
  "tx_receives [] s = Some s"
| "tx_receives (f # fs) s = do { s \<leftarrow> tx_receive (Some f) s; tx_receives fs s }"

fun tx_transmits :: "int list \<Rightarrow> nat \<Rightarrow> tx_state \<Rightarrow> (tx_state \<times> u8 list list) option" where
  "tx_transmits tries 0 s = Some (s, [])"
| "tx_transmits tries (Suc n) s = do {
     (s, fs) \<leftarrow> tx_transmit_vlc tries s;
     (s, gs) \<leftarrow> tx_transmits tries n s;
     Some (s, fs @ gs) }"

fun node_receives :: "u8 list list \<Rightarrow> node_state \<Rightarrow> node_state option" where
  "node_receives [] t = Some t"
| "node_receives (f # fs) t = do { t \<leftarrow> receive_vlc (Some f) t; node_receives fs t }"

section \<open>Batches\<close>

text \<open>A packet for the node over its transmitter, as the gateway makes it and as it is behind the gateway.\<close>

definition for_node :: "gateway_packet \<Rightarrow> bool" where
  "for_node p \<longleftrightarrow> gp_wf p \<and> 0 < length (gp_data p) \<and> length (gp_data p) \<le> 100 \<and> gp_node_id p = 1 \<and> gp_vlc_id p = 0"

definition numbered :: "gateway_packet \<Rightarrow> gateway_packet" where
  "numbered p = p\<lparr>gp_vlc_id := gp_vlc_id p + 1\<rparr>"

definition light_bytes :: "gateway_packet \<Rightarrow> u8 list" where
  "light_bytes p = vlc_header_bytes p @ gp_payload p"

lemma gateway_to_tx:
  assumes "list_all for_node ps" "tx_inv s" "queue_size s + int (length ps) < QUEUE_LIMIT"
  shows "\<exists>frames s'. gw_sends sendto ps = Some frames \<and> tx_receives frames s = Some s' \<and> tx_inv s'
    \<and> fq_items (tx_vlc_queue s') = fq_items (tx_vlc_queue s) @ map numbered ps"
  using assms
proof (induction ps arbitrary: s)
  case (Cons p ps)
  then have p: "gp_wf p" "length (gp_data p) \<le> 1000" "queue_size s + 1 < QUEUE_LIMIT" by (auto simp: for_node_def)
  from vlc_hop[OF p(1,2) Cons.prems(2) p(3), of sendto] obtain frame s1 where
    s1: "transmit_packet_vlc sendto MY_MAC p = Some (sendto frame, frame)" "tx_receive (Some frame) s = Some s1" "tx_inv s1"
    "fq_items (tx_vlc_queue s1) = fq_items (tx_vlc_queue s) @ [numbered p]" by (auto simp: numbered_def)
  then have "queue_size s1 = queue_size s + 1" using Cons.prems(2) by (simp add: tx_inv_def)
  with Cons.IH[OF _ s1(3)] Cons.prems(1,3) s1 show ?case by (fastforce simp: numbered_def)
qed simp

lemma tx_to_device:
  assumes "tx_inv s" "fq_items (tx_vlc_queue s) = ps" "\<forall>p\<in>set ps. length (gp_data p) \<le> 100" and sent: "\<exists>n\<in>set tries. 0 \<le> n"
  shows "\<exists>s'. tx_transmits tries (length ps) s = Some (s', map light_bytes ps) \<and> tx_inv s' \<and> fq_items (tx_vlc_queue s') = []"
  using assms(1-3)
proof (induction ps arbitrary: s)
  case (Cons p ps)
  then have "unat (gp_payload_len p) \<le> 1014" by (auto simp: tx_inv_def gp_wf_def)
  from tx_transmit_head[OF Cons.prems(1,2) this sent] obtain s1 where
    s1: "tx_transmit_vlc tries s = Some (s1, [light_bytes p])" "fq_items (tx_vlc_queue s1) = ps" by (auto simp: light_bytes_def)
  with tx_transmit_inv[OF Cons.prems(1)] Cons.IH[of s1] Cons.prems(3) show ?case by fastforce
qed simp

lemma light_bytes_fit: "for_node p \<Longrightarrow> packet_fits (light_bytes (numbered p))"
proof -
  assume "for_node p"
  then have p: "unat (gp_payload_len p) = length (gp_data p)" "0 < length (gp_data p)" "length (gp_data p) \<le> 100"
    by (simp_all add: for_node_def gp_wf_def)
  have "frame_len (light_bytes (numbered p)) = gp_payload_len p"
    by (simp add: frame_len_def light_bytes_def vlc_header_bytes_def numbered_def bytes_simps)
  moreover have "length (light_bytes (numbered p)) = unat (gp_payload_len p) + 10"
    using p(1) by (simp add: light_bytes_def gp_payload_def numbered_def)
  ultimately show ?thesis
    using p by (simp add: packet_fits_def RX_MTU_VALUE_def word_less_nat_alt word_le_nat_alt)
qed

lemma node_takes_batch:
  assumes "list_all for_node ps" "node_inv t"
  shows "\<exists>t'. node_receives (map (\<lambda>p. light_bytes (numbered p)) ps) t = Some t' \<and> node_inv t'
    \<and> process_queue t' = foldl (\<lambda>q p. snd (fq_push (to_node_packet (numbered p)) q)) (process_queue t) ps
    \<and> from_vlc t' = from_vlc t + int (length ps)"
  using assms
proof (induction ps arbitrary: t)
  case (Cons p ps)
  then have p: "gp_wf (numbered p)" "0 < length (gp_data (numbered p))" "length (gp_data (numbered p)) \<le> 100"
    "gp_node_id (numbered p) = 1" "gp_vlc_id (numbered p) = 1" by (auto simp: for_node_def numbered_def gp_wf_def)
  from node_takes_light[OF p Cons.prems(2)] obtain t1 where t1: "receive_vlc (Some (light_bytes (numbered p))) t = Some t1"
    "process_queue t1 = snd (fq_push (to_node_packet (numbered p)) (process_queue t))" "from_vlc t1 = from_vlc t + 1"
    by (auto simp: light_bytes_def)
  from Cons.IH[OF _ receive_vlc_inv[OF Cons.prems(2) t1(1)]] Cons.prems(1) t1 show ?case by fastforce
qed simp

text \<open>A queue with room for all packets takes all of them, in order; a full one drops.\<close>

definition queued :: "gateway_packet list \<Rightarrow> node_packet fifo \<Rightarrow> node_packet fifo \<Rightarrow> bool" where
  "queued ps q q' \<longleftrightarrow> q' = foldl (\<lambda>q p. snd (fq_push (to_node_packet (numbered p)) q)) q ps
     \<and> (int (length (fq_items q)) + int (length ps) \<le> fq_limit q
        \<longrightarrow> fq_items q' = fq_items q @ map (\<lambda>p. to_node_packet (numbered p)) ps)"

lemma queued_iff: "queued ps q q' \<longleftrightarrow> q' = foldl (\<lambda>q p. snd (fq_push (to_node_packet (numbered p)) q)) q ps"
proof -
  have "int (length (fq_items q)) + int (length ps) \<le> fq_limit q \<Longrightarrow>
      fq_items (foldl (\<lambda>q p. snd (fq_push (to_node_packet (numbered p)) q)) q ps)
        = fq_items q @ map (\<lambda>p. to_node_packet (numbered p)) ps"
    by (induction ps arbitrary: q) (simp_all add: fq_push_def)
  then show ?thesis by (auto simp: queued_def)
qed

section \<open>From the gateway to the node\<close>

lemma batch_over_light:
  assumes ps: "list_all for_node ps"
    and tx: "tx_inv s" "fq_items (tx_vlc_queue s) = []" "int (length ps) < QUEUE_LIMIT" "\<exists>n\<in>set tries. 0 \<le> n"
    and drv: "handler_inv d q" "is_write_next d" "drv_items d = []" "int (length ps) \<le> drv_cap d"
      "rd16 (pru d) 2 = Some r" "rd16 (pru d) 0 = Some r"
      "ring_rooms r [] r (map (\<lambda>p. frame_of (light_bytes (numbered p))) ps)"
    and node: "node_inv t"
  shows "\<exists>frames s1 s2 bytes d1 d2 w. gw_sends sendto ps = Some frames \<and> tx_receives frames s = Some s1
    \<and> tx_transmits tries (length ps) s1 = Some (s2, bytes) \<and> fq_items (tx_vlc_queue s2) = []
    \<and> bytes = map (\<lambda>p. light_bytes (numbered p)) ps
    \<and> enq_all drv_xmit bytes d = Some d1 \<and> ticks (vlc_rs u) (length ps) q d1 = Some (d2, q)
    \<and> rd16 (pru d2) 2 = Some r \<and> rd16 (pru d2) 0 = Some w \<and> ring_frames (pru d2) r (map frame_of bytes) w
    \<and> (\<forall>x r' w'. ring_frames (rx_pru x) r' (map frame_of bytes) w' \<longrightarrow> in_ring r' \<longrightarrow> rd16 (rx_pru x) 2 = Some r'
        \<longrightarrow> rd16 (rx_pru x) 0 = Some w' \<longrightarrow> rx_pkt_ok x \<longrightarrow> netif_rx x = []
        \<longrightarrow> (\<exists>x' t'. pru_phy_decoding uninit (vlc_rs v) (map (\<lambda>p. (True, False)) ps) x = Some (None, x')
              \<and> node_receives (map sk_mac (netif_rx x')) t = Some t' \<and> node_inv t'
              \<and> process_queue t' = foldl (\<lambda>q p. snd (fq_push (to_node_packet (numbered p)) q)) (process_queue t) ps
              \<and> from_vlc t' = from_vlc t + int (length ps)))"
proof -
  let ?B = "map (\<lambda>p. light_bytes (numbered p)) ps"
  have "queue_size s + int (length ps) < QUEUE_LIMIT" using tx(1-3) by (simp add: tx_inv_def)
  from gateway_to_tx[OF ps tx(1) this, of sendto] tx(2) obtain frames s1 where
    s1: "gw_sends sendto ps = Some frames" "tx_receives frames s = Some s1" "tx_inv s1"
    "fq_items (tx_vlc_queue s1) = map numbered ps" by auto
  have "\<forall>p\<in>set (map numbered ps). length (gp_data p) \<le> 100" using ps by (auto simp: list_all_iff for_node_def numbered_def)
  from tx_to_device[OF s1(3,4) this tx(4)] obtain s2 where
    s2: "tx_transmits tries (length ps) s1 = Some (s2, ?B)" "fq_items (tx_vlc_queue s2) = []" by (auto simp: comp_def)
  have fits: "list_all packet_fits ?B" using ps light_bytes_fit by (auto simp: list_all_iff)
  from xmit_all[OF drv(1) fits] drv(2-4) obtain d1 where d1: "enq_all drv_xmit ?B d = Some d1" "handler_inv d1 q"
    "drv_items d1 = ?B" "pru d1 = pru d" "is_write_next d1" by auto
  then obtain as bs where at: "drv_at d1 as bs" by (auto simp: handler_inv_def)
  have r: "in_ring r" using drv(1,6) by (auto simp: handler_inv_def ring_ok_def)
  have rooms: "ring_rooms r [] r (map frame_of ?B)" using drv(7) by (simp add: comp_def)
  from ticks_send[OF d1(2,5) at _ fits _ _ _ r _ rooms, of u] d1(3,4) drv(5,6) drv_at_items[OF at] obtain d2 w where
    d2: "ticks (vlc_rs u) (length ps) q d1 = Some (d2, q)" "rd16 (pru d2) 0 = Some w" "ring_frames (pru d2) r (map frame_of ?B) w"
    "rd16 (pru d2) 2 = Some r" by auto
  have ar: "list_all2 arrives ?B (map frame_of ?B)"
    using fits arrives_clean by (auto simp: list_all2_conv_all_nth list_all_length)
  obtain t' where t': "node_receives ?B t = Some t'" "node_inv t'"
    "process_queue t' = foldl (\<lambda>q p. snd (fq_push (to_node_packet (numbered p)) q)) (process_queue t) ps"
    "from_vlc t' = from_vlc t + int (length ps)" using node_takes_batch[OF ps node] by blast
  have rx: "\<exists>x'. pru_phy_decoding uninit (vlc_rs v) (map (\<lambda>p. (True, False)) ps) x = Some (None, x') \<and> map sk_mac (netif_rx x') = ?B"
    if "ring_frames (rx_pru x) r' (map frame_of ?B) w'" "in_ring r'" "rd16 (rx_pru x) 2 = Some r'"
      "rd16 (rx_pru x) 0 = Some w'" "rx_pkt_ok x" "netif_rx x = []" for x r' w'
    using thread_takes_frames[OF ar _ that(1-5), of "replicate (length ?B) True" uninit v] that(6) handed_up_clean[of ?B]
    by (auto simp: map_replicate_const)
  have "\<exists>x' t'. pru_phy_decoding uninit (vlc_rs v) (map (\<lambda>p. (True, False)) ps) x = Some (None, x')
        \<and> node_receives (map sk_mac (netif_rx x')) t = Some t' \<and> node_inv t'
        \<and> process_queue t' = foldl (\<lambda>q p. snd (fq_push (to_node_packet (numbered p)) q)) (process_queue t) ps
        \<and> from_vlc t' = from_vlc t + int (length ps)"
    if "ring_frames (rx_pru x) r' (map frame_of ?B) w'" "in_ring r'" "rd16 (rx_pru x) 2 = Some r'"
      "rd16 (rx_pru x) 0 = Some w'" "rx_pkt_ok x" "netif_rx x = []" for x r' w'
  proof -
    from rx[OF that] obtain x' where "pru_phy_decoding uninit (vlc_rs v) (map (\<lambda>p. (True, False)) ps) x = Some (None, x')"
      "map sk_mac (netif_rx x') = ?B" by blast
    with t' show ?thesis by (intro exI[of _ x'] exI[of _ t']) simp
  qed
  then show ?thesis using s1(1,2) s2 d1(1) d2
    by (intro exI[of _ frames] exI[of _ s1] exI[of _ s2] exI[of _ ?B] exI[of _ d1] exI[of _ d2] exI[of _ w]) blast
qed

end
