(* ===== verification/Pru_Rx.thy ===== *)
theory Pru_Rx
  imports Ring
begin

text \<open>
  The program of the receiver's PRU (RXPRU.p), which watches the light, looks for the preamble and the start delimiter and
  writes the frames it decodes into the ring from which the driver's thread reads. A register is a natural number: no sum of
  the program reaches 32 bits. An access outside the data memory, and the jump to END for an unknown state, are \<open>None\<close>. The
  wait for room in the ring at FINAL is a state of its own, left by a later look at the read index.
\<close>

unbundle bit_operations_syntax

section \<open>The program\<close>

record rxpru =
  x_r4 :: nat    \<comment> \<open>state: preamble detection, first and second symbol of a bit\<close>
  x_r8 :: nat    \<comment> \<open>symbols of the preamble byte\<close>
  x_r9 :: nat    \<comment> \<open>bytes of the preamble\<close>
  x_r10 :: nat   \<comment> \<open>previous symbol\<close>
  x_r12 :: nat   \<comment> \<open>first symbol of the bit\<close>
  x_r14 :: nat   \<comment> \<open>part of the packet: SFD, length, body, final\<close>
  x_r15 :: nat   \<comment> \<open>bits left\<close>
  x_r16 :: nat   \<comment> \<open>length, then number of bytes\<close>
  x_r20 :: nat   \<comment> \<open>offset in the ring\<close>
  x_r21 :: nat   \<comment> \<open>byte being decoded\<close>
  x_r23 :: nat   \<comment> \<open>bytes written\<close>
  x_final :: bool \<comment> \<open>the program is in the loop at FINAL\<close>

definition RXP_PREAMBLE_LEN :: nat where "RXP_PREAMBLE_LEN = 3"
definition RXP_SFD :: nat where "RXP_SFD = 0xA3"
definition RXP_BUFFER_LIMIT :: nat where "RXP_BUFFER_LIMIT = 6004"
definition RXP_PAYLOAD_LEN :: nat where "RXP_PAYLOAD_LEN = 74"
definition RXP_OTHER :: nat where "RXP_OTHER = 2 * 2 + 4 + 16"

definition preamble_detection :: "nat \<Rightarrow> rxpru \<Rightarrow> rxpru" where
  "preamble_detection r7 s =
    (let s = (if (if even (x_r8 s) then r7 > x_r10 s else x_r10 s > r7) then s\<lparr>x_r8 := x_r8 s + 1\<rparr>
              else s\<lparr>x_r8 := 1, x_r9 := 0, x_r10 := r7\<rparr>);
         s = s\<lparr>x_r10 := r7\<rparr> in
     if 8 \<le> x_r8 s then
       (let s = s\<lparr>x_r8 := 0, x_r9 := x_r9 s + 1\<rparr> in
        if RXP_PREAMBLE_LEN \<le> x_r9 s then s\<lparr>x_r15 := 7, x_r16 := 0, x_r4 := 1, x_r14 := 0\<rparr> else s)
     else s)"

definition decode_ook_first :: "nat \<Rightarrow> rxpru \<Rightarrow> rxpru" where
  "decode_ook_first r7 s = s\<lparr>x_r12 := r7, x_r4 := 2\<rparr>"

text \<open>Back to the search, the previous symbol being \<open>r\<close>.\<close>

definition rx_reset :: "nat \<Rightarrow> rxpru \<Rightarrow> rxpru" where
  "rx_reset r s = s\<lparr>x_r8 := 1, x_r9 := 0, x_r10 := r, x_r4 := 0\<rparr>"

definition rx_sfd :: "nat \<Rightarrow> bool \<Rightarrow> rxpru \<Rightarrow> rxpru" where
  "rx_sfd r7 r13 s =
    (let s = s\<lparr>x_r16 := drop_bit (x_r15 s) RXP_SFD XOR of_bool r13\<rparr> in
     if odd (x_r16 s) then rx_reset r7 s
     else if x_r15 s = 0 then s\<lparr>x_r15 := 15, x_r16 := 0, x_r4 := 1, x_r14 := 1\<rparr>
     else s\<lparr>x_r15 := x_r15 s - 1, x_r4 := 1\<rparr>)"

definition process_length :: "u8 list \<Rightarrow> rxpru \<Rightarrow> (u8 list \<times> rxpru) option" where
  "process_length m s =
    (if x_r16 s \<noteq> RXP_PAYLOAD_LEN then Some (m, rx_reset 0 s)
     else do {
       w \<leftarrow> rd16 m 0;
       let s = s\<lparr>x_r20 := unat w\<rparr>;
       m \<leftarrow> cput m (int (x_r20 s)) (le16 (of_nat (x_r16 s)));
       let s = s\<lparr>x_r20 := x_r20 s + 2\<rparr>;
       let s = (if RXP_BUFFER_LIMIT > x_r20 s then s else s\<lparr>x_r20 := 4\<rparr>);
       Some (m, s\<lparr>x_r15 := 7, x_r21 := 0, x_r23 := 0, x_r16 := x_r16 s + RXP_OTHER, x_r14 := 2, x_r4 := 1\<rparr>) })"

definition rx_length :: "u8 list \<Rightarrow> bool \<Rightarrow> rxpru \<Rightarrow> (u8 list \<times> rxpru) option" where
  "rx_length m r13 s =
    (let s = s\<lparr>x_r16 := x_r16 s + of_bool r13 * 2 ^ x_r15 s\<rparr> in
     if x_r15 s = 0 then process_length m s else Some (m, s\<lparr>x_r15 := x_r15 s - 1, x_r4 := 1\<rparr>))"

definition final :: "u8 list \<Rightarrow> rxpru \<Rightarrow> (u8 list \<times> rxpru) option" where
  "final m s = do {
     r25 \<leftarrow> rd16 m 2;
     if unat r25 = x_r20 s then Some (m, s\<lparr>x_final := True\<rparr>)
     else do {
       m \<leftarrow> cput m 0 (le16 (of_nat (x_r20 s)));
       Some (m, (rx_reset 0 s)\<lparr>x_final := False\<rparr>) } }"

definition process_packet_byte :: "u8 list \<Rightarrow> rxpru \<Rightarrow> (u8 list \<times> rxpru) option" where
  "process_packet_byte m s = do {
     let s = s\<lparr>x_r23 := x_r23 s + 1\<rparr>;
     m \<leftarrow> awr m (int (x_r20 s)) (of_nat (x_r21 s));
     let s = s\<lparr>x_r20 := x_r20 s + 1\<rparr>;
     let s = (if RXP_BUFFER_LIMIT > x_r20 s then s else s\<lparr>x_r20 := 4\<rparr>);
     if x_r16 s \<le> x_r23 s then final m s
     else Some (m, s\<lparr>x_r15 := 7, x_r21 := 0, x_r4 := 1\<rparr>) }"

definition rx_body :: "u8 list \<Rightarrow> bool \<Rightarrow> rxpru \<Rightarrow> (u8 list \<times> rxpru) option" where
  "rx_body m r13 s =
    (let s = s\<lparr>x_r21 := x_r21 s + of_bool r13 * 2 ^ x_r15 s\<rparr> in
     if x_r15 s = 0 then process_packet_byte m s else Some (m, s\<lparr>x_r15 := x_r15 s - 1, x_r4 := 1\<rparr>))"

definition check_packet_state :: "u8 list \<Rightarrow> nat \<Rightarrow> bool \<Rightarrow> rxpru \<Rightarrow> (u8 list \<times> rxpru) option" where
  "check_packet_state m r7 r13 s =
    (if x_r14 s = 0 then Some (m, rx_sfd r7 r13 s)
     else if x_r14 s = 1 then rx_length m r13 s
     else if x_r14 s = 2 then rx_body m r13 s
     else if x_r14 s = 3 then final m s
     else None)"

text \<open>Two equal symbols are an error: in the body the bit is guessed, for the code to correct, before it the search starts
  again.\<close>

definition decode_ook_second :: "u8 list \<Rightarrow> nat \<Rightarrow> rxpru \<Rightarrow> (u8 list \<times> rxpru) option" where
  "decode_ook_second m r7 s =
    (if r7 > x_r12 s then check_packet_state m r7 True s
     else if x_r12 s > r7 then check_packet_state m r7 False s
     else if 1 < x_r14 s then check_packet_state m r7 (\<not> 0 < x_r12 s) s
     else Some (m, rx_reset r7 s))"

definition rx_bit :: "u8 list \<Rightarrow> nat \<Rightarrow> rxpru \<Rightarrow> (u8 list \<times> rxpru) option" where
  "rx_bit m r7 s =
    (if x_r4 s = 0 then Some (m, preamble_detection r7 s)
     else if x_r4 s = 1 then Some (m, decode_ook_first r7 s)
     else if x_r4 s = 2 then decode_ook_second m r7 s
     else None)"

text \<open>The loop over the symbols of a word. In the loop at FINAL the rest of the word waits.\<close>

fun rx_bits :: "u8 list \<Rightarrow> rxpru \<Rightarrow> bool list \<Rightarrow> (u8 list \<times> rxpru \<times> bool list) option" where
  "rx_bits m s [] = Some (m, s, [])"
| "rx_bits m s (b # bs) = (if x_final s then Some (m, s, b # bs)
     else rx_bit m (of_bool b) s \<bind> (\<lambda>(m, s). rx_bits m s bs))"

definition word_bits :: "u16 \<Rightarrow> bool list" where
  "word_bits w = map (bit w) (rev [0..<16])"

text \<open>A word arrives, and a turn of the loop at FINAL; \<open>rest\<close> are the symbols not yet processed. A word that arrives while the
  program is in that loop is lost.\<close>

definition readdata :: "u16 \<Rightarrow> u8 list \<Rightarrow> rxpru \<Rightarrow> bool list \<Rightarrow> (u8 list \<times> rxpru \<times> bool list) option" where
  "readdata w m s rest = (if x_final s then Some (m, s, rest) else rx_bits m s (word_bits w))"

definition poll_final :: "u8 list \<Rightarrow> rxpru \<Rightarrow> bool list \<Rightarrow> (u8 list \<times> rxpru \<times> bool list) option" where
  "poll_final m s rest = (if x_final s then final m s \<bind> (\<lambda>(m, s). rx_bits m s rest) else Some (m, s, rest))"

text \<open>START: the indices, and the registers of the search.\<close>

definition rxpru_start :: "u8 list \<Rightarrow> (u8 list \<times> rxpru) option" where
  "rxpru_start m = do {
     m \<leftarrow> cput m 0 (le32 0x00040004);
     Some (m, \<lparr>x_r4 = 0, x_r8 = 1, x_r9 = 0, x_r10 = 0, x_r12 = 0, x_r14 = 0, x_r15 = 7, x_r16 = 0, x_r20 = 0, x_r21 = 0,
       x_r23 = 0, x_final = False\<rparr>) }"

section \<open>Safety for every input\<close>

text \<open>Whatever arrives, the program touches the ring and the write index only, publishes indices inside the ring only, and does
  not fault.\<close>

definition rxp_inv :: "u8 list \<Rightarrow> rxpru \<Rightarrow> bool" where
  "rxp_inv m s \<longleftrightarrow> 6005 \<le> length m \<and> (\<exists>w. rd16 m 0 = Some w \<and> in_ring w) \<and> (\<exists>r. rd16 m 2 = Some r)
     \<and> x_r4 s \<le> 2 \<and> x_r14 s \<le> 2 \<and> (x_r14 s = 2 \<longrightarrow> 4 \<le> x_r20 s \<and> x_r20 s < RXP_BUFFER_LIMIT)
     \<and> (x_final s \<longrightarrow> x_r14 s = 2)"

text \<open>A step that is safe in this sense; the part of the memory it may change is the ring and the first two bytes.\<close>

definition rxp_safe :: "u8 list \<Rightarrow> (u8 list \<times> rxpru) option \<Rightarrow> bool" where
  "rxp_safe m res \<longleftrightarrow> (\<exists>m' s'. res = Some (m', s') \<and> rxp_inv m' s' \<and> length m' = length m
     \<and> take 2 (drop 2 m') = take 2 (drop 2 m) \<and> drop 6006 m' = drop 6006 m)"

lemma rxp_safeI: "res = Some (m', s') \<Longrightarrow> rxp_inv m' s' \<Longrightarrow> length m' = length m \<Longrightarrow> take 2 (drop 2 m') = take 2 (drop 2 m)
    \<Longrightarrow> drop 6006 m' = drop 6006 m \<Longrightarrow> rxp_safe m res"
  by (auto simp: rxp_safe_def)

lemma rxp_safe_same: "rxp_inv m s \<Longrightarrow> rxp_safe m (Some (m, s))"
  by (auto simp: rxp_safe_def)

lemma rxp_safe_trans: "length m1 = length m \<Longrightarrow> take 2 (drop 2 m1) = take 2 (drop 2 m) \<Longrightarrow> drop 6006 m1 = drop 6006 m
    \<Longrightarrow> rxp_safe m1 res \<Longrightarrow> rxp_safe m res"
  by (auto simp: rxp_safe_def)

lemma rd16_index_part: "take 2 (drop 2 m') = take 2 (drop 2 m) \<Longrightarrow> length m' = length m \<Longrightarrow> 4 \<le> length m \<Longrightarrow> rd16 m' 2 = rd16 m 2"
proof -
  assume a: "take 2 (drop 2 m') = take 2 (drop 2 m)" "length m' = length m" "4 \<le> length m"
  have "m' ! 2 = m ! 2" "m' ! 3 = m ! 3"
    using arg_cong[OF a(1), of "\<lambda>x. x ! 0"] arg_cong[OF a(1), of "\<lambda>x. x ! 1"] a(2,3) by simp_all
  then show ?thesis using a(2) by (simp add: rd16_def ard_def)
qed

lemma final_safe:
  assumes "rxp_inv m s" "x_r14 s = 2"
  shows "rxp_safe m (final m s)"
proof -
  obtain r where r: "rd16 m 2 = Some r" and l: "6005 \<le> length m" and i: "4 \<le> x_r20 s" "x_r20 s < 6004" and s: "x_r4 s \<le> 2"
    using assms by (auto simp: rxp_inv_def RXP_BUFFER_LIMIT_def)
  show ?thesis
  proof (cases "unat r = x_r20 s")
    case True
    have "rxp_inv m (s\<lparr>x_final := True\<rparr>)" using assms by (simp add: rxp_inv_def)
    from rxp_safe_same[OF this] True r show ?thesis by (simp add: final_def)
  next
    case False
    let ?m = "le16 (of_nat (x_r20 s)) @ drop 2 m"
    have m: "cput m 0 (le16 (of_nat (x_r20 s))) = Some ?m" using l by (simp add: cput_def numeral_2_eq_2)
    have "unat (of_nat (x_r20 s) :: u16) = x_r20 s" using i by (simp add: unat_of_nat)
    then have "in_ring (of_nat (x_r20 s))" using i by (simp add: in_ring_def BUFFER_LIMIT_def word_le_nat_alt word_less_nat_alt)
    moreover have "rd16 ?m 0 = Some (of_nat (x_r20 s))" by (simp add: bytes_simps)
    moreover have p: "take 2 (drop 2 ?m) = take 2 (drop 2 m)" "length ?m = length m" "drop 6006 ?m = drop 6006 m" using l by simp_all
    moreover have "rd16 ?m 2 = Some r" using rd16_index_part[OF p(1,2)] l r by simp
    ultimately have "rxp_inv ?m ((rx_reset 0 s)\<lparr>x_final := False\<rparr>)"
      using assms l by (simp add: rxp_inv_def rx_reset_def)
    then show ?thesis using p r m False by (intro rxp_safeI[where m' = ?m]) (simp_all add: final_def)
  qed
qed

lemma write_ring_keeps:
  assumes "cput m (int i) xs = Some m'" "4 \<le> i" "i + length xs \<le> 6006" "6005 \<le> length m"
  shows "length m' = length m" "take 4 m' = take 4 m" "take 2 (drop 2 m') = take 2 (drop 2 m)" "drop 6006 m' = drop 6006 m"
    "rd16 m' 0 = rd16 m 0" "rd16 m' 2 = rd16 m 2"
proof -
  have m': "m' = take i m @ xs @ drop (i + length xs) m" "i + length xs \<le> length m"
    using assms(1) by (auto simp: cput_def nat_add_distrib split: if_splits)
  then have "i \<le> length m" by simp
  with m' show l: "length m' = length m" and t4: "take 4 m' = take 4 m" using assms(2) by (simp_all add: min_absorb1 min_absorb2)
  have "take 2 (drop 2 x) = drop 2 (take 4 x)" for x :: "u8 list" by (simp add: drop_take)
  then show t2: "take 2 (drop 2 m') = take 2 (drop 2 m)" using t4 by simp
  show "drop 6006 m' = drop 6006 m" using m' assms(3) by simp
  show "rd16 m' 2 = rd16 m 2" using rd16_index_part[OF t2 l] assms(4) by simp
  show "rd16 m' 0 = rd16 m 0" using rd16_low[OF t4 l] by simp
qed

lemma awr_cput: "awr m i x = cput m i [x]"
proof (cases "0 \<le> i \<and> i < int (length m)")
  case True
  then obtain n where "i = int n" "n < length m" by (metis int_nat_eq nat_less_iff of_nat_0_le_iff nat_int)
  then show ?thesis by (simp add: awr_def cput_def upd_conv_take_nth_drop)
qed (auto simp: awr_def cput_def)

lemma byte_safe:
  assumes "rxp_inv m s" "x_r14 s = 2"
  shows "rxp_safe m (process_packet_byte m s)"
proof -
  have l: "6005 \<le> length m" and i: "4 \<le> x_r20 s" "x_r20 s < 6004" using assms by (auto simp: rxp_inv_def RXP_BUFFER_LIMIT_def)
  obtain m1 where m1: "cput m (int (x_r20 s)) [of_nat (x_r21 s)] = Some m1" using l i by (auto simp: cput_def)
  have le: "x_r20 s + length [of_nat (x_r21 s) :: u8] \<le> 6006" using i by simp
  note k = write_ring_keeps[OF m1 i(1) le l]
  let ?i = "if RXP_BUFFER_LIMIT > x_r20 s + 1 then x_r20 s + 1 else 4"
  let ?s = "s\<lparr>x_r23 := x_r23 s + 1, x_r20 := ?i\<rparr>"
  have inv: "rxp_inv m1 ?s" using assms k i by (auto simp: rxp_inv_def RXP_BUFFER_LIMIT_def)
  have "process_packet_byte m s = (if x_r16 ?s \<le> x_r23 ?s then final m1 ?s else Some (m1, ?s\<lparr>x_r15 := 7, x_r21 := 0, x_r4 := 1\<rparr>))"
    using m1 by (simp add: process_packet_byte_def awr_cput)
  moreover have "rxp_safe m1 (final m1 ?s)" by (rule final_safe[OF inv]) (use assms in simp)
  moreover have "rxp_inv m1 (?s\<lparr>x_r15 := 7, x_r21 := 0, x_r4 := 1\<rparr>)" using inv by (simp add: rxp_inv_def)
  note rxp_safe_same[OF this]
  ultimately show ?thesis using rxp_safe_trans[OF k(1,3,4)] by presburger
qed

lemma length_safe:
  assumes "rxp_inv m s" "x_r14 s = 1" "\<not> x_final s"
  shows "rxp_safe m (process_length m s)"
proof (cases "x_r16 s = RXP_PAYLOAD_LEN")
  case True
  obtain w where w: "rd16 m 0 = Some w" "in_ring w" and l: "6005 \<le> length m" using assms by (auto simp: rxp_inv_def)
  then have i: "4 \<le> unat w" "unat w < 6004" by (auto simp: in_ring_def BUFFER_LIMIT_def word_le_nat_alt word_less_nat_alt)
  obtain m1 where m1: "cput m (int (unat w)) (le16 (of_nat (x_r16 s))) = Some m1" using l i by (auto simp: cput_def simp del: of_nat_unat)
  have le: "unat w + length (le16 (of_nat (x_r16 s))) \<le> 6006" using i by simp
  note k = write_ring_keeps[OF m1 i(1) le l]
  let ?s = "s\<lparr>x_r20 := (if RXP_BUFFER_LIMIT > unat w + 2 then unat w + 2 else 4), x_r15 := 7, x_r21 := 0, x_r23 := 0,
    x_r16 := x_r16 s + RXP_OTHER, x_r14 := 2, x_r4 := 1\<rparr>"
  have "process_length m s = Some (m1, ?s)" using True w m1 by (simp add: process_length_def)
  moreover have "rxp_inv m1 ?s" using assms k i by (auto simp: rxp_inv_def RXP_BUFFER_LIMIT_def)
  ultimately show ?thesis using k by (intro rxp_safeI[where m' = m1 and s' = ?s])
next
  case False
  then show ?thesis using assms by (auto simp: process_length_def rx_reset_def rxp_inv_def intro!: rxp_safe_same)
qed

lemma rx_bit_safe:
  assumes "rxp_inv m s" "\<not> x_final s"
  shows "rxp_safe m (rx_bit m r7 s)"
proof -
  have pk: "rxp_safe m (check_packet_state m r7 b s)" for b
  proof -
    consider "x_r14 s = 0" | "x_r14 s = 1" | "x_r14 s = 2" using assms by (force simp: rxp_inv_def)
    then show ?thesis
    proof cases
      case 1
      with assms show ?thesis
        by (auto simp: check_packet_state_def rx_sfd_def rx_reset_def Let_def rxp_inv_def intro!: rxp_safe_same)
    next
      case 2
      have "rxp_inv m (s\<lparr>x_r16 := v\<rparr>)" "rxp_inv m (s\<lparr>x_r16 := v, x_r15 := k, x_r4 := 1\<rparr>)"
        "rxp_inv m (s\<lparr>x_r15 := k, x_r4 := 1\<rparr>)" for v k using assms by (simp_all add: rxp_inv_def)
      with 2 length_safe assms(2) show ?thesis by (auto simp: check_packet_state_def rx_length_def Let_def intro!: rxp_safe_same)
    next
      case 3
      have "rxp_inv m (s\<lparr>x_r21 := v\<rparr>)" "rxp_inv m (s\<lparr>x_r21 := v, x_r15 := k, x_r4 := 1\<rparr>)"
        "rxp_inv m (s\<lparr>x_r15 := k, x_r4 := 1\<rparr>)" for v k using assms by (simp_all add: rxp_inv_def)
      with 3 byte_safe show ?thesis by (auto simp: check_packet_state_def rx_body_def Let_def intro!: rxp_safe_same)
    qed
  qed
  have "rxp_inv m (preamble_detection r7 s)" "rxp_inv m (decode_ook_first r7 s)" "rxp_inv m (rx_reset r7 s)"
    using assms by (auto simp: preamble_detection_def decode_ook_first_def rx_reset_def rxp_inv_def Let_def)
  note safe = this[THEN rxp_safe_same]
  have "x_r4 s \<le> 2" using assms by (simp add: rxp_inv_def)
  then have "x_r4 s = 0 \<or> x_r4 s = 1 \<or> x_r4 s = 2" by linarith
  then show ?thesis using safe pk by (auto simp: rx_bit_def decode_ook_second_def)
qed

lemma rx_bits_safe: "rxp_inv m s \<Longrightarrow> \<exists>m' s' rest. rx_bits m s bs = Some (m', s', rest) \<and> rxp_safe m (Some (m', s'))"
proof (induction bs arbitrary: m s)
  case Nil
  then show ?case using rxp_safe_same by auto
next
  case (Cons b bs)
  show ?case
  proof (cases "x_final s")
    case True
    with Cons.prems show ?thesis using rxp_safe_same by auto
  next
    case False
    from rx_bit_safe[OF Cons.prems False, of "of_bool b"] obtain m1 s1 where
      r: "rx_bit m (of_bool b) s = Some (m1, s1)" "rxp_inv m1 s1" "length m1 = length m" "take 2 (drop 2 m1) = take 2 (drop 2 m)"
        "drop 6006 m1 = drop 6006 m" unfolding rxp_safe_def by blast
    from Cons.IH[OF r(2)] rxp_safe_trans[OF r(3-5)] False r(1) show ?thesis by fastforce
  qed
qed

lemma readdata_safe: "rxp_inv m s \<Longrightarrow> \<exists>m' s' rest'. readdata w m s rest = Some (m', s', rest') \<and> rxp_safe m (Some (m', s'))"
  unfolding readdata_def using rx_bits_safe[of m s "word_bits w"] rxp_safe_same[of m s] by auto

lemma poll_safe:
  assumes "rxp_inv m s"
  shows "\<exists>m' s' rest'. poll_final m s rest = Some (m', s', rest') \<and> rxp_safe m (Some (m', s'))"
proof (cases "x_final s")
  case True
  then have "x_r14 s = 2" using assms by (simp add: rxp_inv_def)
  from final_safe[OF assms this] obtain m1 s1 where r: "final m s = Some (m1, s1)" "rxp_inv m1 s1" "length m1 = length m"
    "take 2 (drop 2 m1) = take 2 (drop 2 m)" "drop 6006 m1 = drop 6006 m" unfolding rxp_safe_def by blast
  from rx_bits_safe[OF r(2), of rest] rxp_safe_trans[OF r(3-5)] True r(1) show ?thesis by (fastforce simp: poll_final_def)
qed (use assms rxp_safe_same in \<open>auto simp: poll_final_def\<close>)

lemma rxpru_start_inv:
  assumes "6005 \<le> length m"
  shows "\<exists>m' s'. rxpru_start m = Some (m', s') \<and> rxp_inv m' s' \<and> length m' = length m \<and> rd16 m' 0 = Some 4 \<and> rd16 m' 2 = Some 4"
proof -
  let ?m = "le32 0x00040004 @ drop 4 m"
  have "cput m 0 (le32 0x00040004) = Some ?m" using assms by (simp add: cput_def)
  moreover have "le32 0x00040004 = le16 4 @ le16 4" by (simp add: le32_def le16_def drop_bit_eq_div)
  then have "rd16 ?m 0 = Some 4" "rd16 ?m 2 = Some 4" by (simp_all add: bytes_simps)
  ultimately show ?thesis using assms by (simp add: rxpru_start_def rxp_inv_def in_ring_def BUFFER_LIMIT_def)
qed

end
