(* ===== verification/Pru_Tx.thy ===== *)
theory Pru_Tx
  imports Ring
begin

text \<open>
  The program of the transmitter's PRU (TXPRU.p), which reads frames from the ring the driver fills and drives the light.
  A register is a natural number: no sum of the program reaches 32 bits. The bits the program shifts out are its output,
  sixteen for each load of a shift register. A read or write outside the data memory, and the jump to END for an unknown
  state, are \<open>None\<close>. What the driver does to the memory meanwhile happens between two cycles. The first part is the
  program; the second shows which symbols it puts on the line.
\<close>

section \<open>The program\<close>

record txpru =
  t_r1 :: nat   \<comment> \<open>transmitted bit counter\<close>
  t_r2 :: nat   \<comment> \<open>state: preamble, SFD, length, content, packet end\<close>
  t_r3 :: nat   \<comment> \<open>value for the shift register\<close>
  t_r5 :: nat   \<comment> \<open>the shift register used last\<close>
  t_r7 :: nat   \<comment> \<open>symbol counter\<close>
  t_r9 :: nat   \<comment> \<open>read index\<close>
  t_r10 :: nat  \<comment> \<open>length word of the packet\<close>
  t_r12 :: nat  \<comment> \<open>bytes of the packet\<close>
  t_r15 :: nat  \<comment> \<open>bytes encoded so far\<close>
  t_r16 :: nat  \<comment> \<open>byte being encoded\<close>
  t_r18 :: nat  \<comment> \<open>preamble counter\<close>
  t_r26 :: bool \<comment> \<open>packet finished\<close>
  t_r27 :: bool \<comment> \<open>state was reset\<close>
  t_poll :: bool \<comment> \<open>the program is at CHECK\_INDEX\<close>

definition PREAMBLE_LEN :: nat where "PREAMBLE_LEN = 3"
definition PREAMBLE_VALUE :: nat where "PREAMBLE_VALUE = 0xAA"
definition SFD_VALUE :: nat where "SFD_VALUE = 0xA3"
definition PRU_BUFFER_LIMIT :: nat where "PRU_BUFFER_LIMIT = 6004"

text \<open>The bytes of a packet beside its payload: two addresses, sequence number and parity. The source gives the sequence
  number 24 bytes, the program image beside it, the receiver's program and both drivers give it 4.\<close>

definition TX_OTHER_SOURCE :: nat where "TX_OTHER_SOURCE = 2 * 2 + 24 + 16"
definition TX_OTHER_IMAGE :: nat where "TX_OTHER_IMAGE = 2 * 2 + 4 + 16"

text \<open>One raw symbol, and the two symbols of a coded bit: low-high for 1, high-low for 0.\<close>

definition emit_symbol :: "bool \<Rightarrow> txpru \<Rightarrow> txpru" where
  "emit_symbol b s = s\<lparr>t_r3 := t_r3 s + of_bool b * 2 ^ t_r1 s, t_r1 := t_r1 s + 1\<rparr>"

definition encodebit :: "bool \<Rightarrow> txpru \<Rightarrow> txpru" where
  "encodebit b s = s\<lparr>t_r3 := t_r3 s + (if b then 2 else 1) * 2 ^ t_r1 s, t_r1 := t_r1 s + 2\<rparr>"

definition tx_preamble :: "txpru \<Rightarrow> txpru" where
  "tx_preamble s = (let s = emit_symbol (bit PREAMBLE_VALUE (t_r7 s)) s in
     if t_r7 s = 0 then (let s = s\<lparr>t_r18 := t_r18 s + 1\<rparr> in
       if t_r18 s = PREAMBLE_LEN then s\<lparr>t_r2 := 1, t_r7 := 7\<rparr> else s\<lparr>t_r7 := 7\<rparr>)
     else s\<lparr>t_r7 := t_r7 s - 1\<rparr>)"

definition tx_sfd :: "u8 list \<Rightarrow> txpru \<Rightarrow> txpru option" where
  "tx_sfd m s = (let b = bit SFD_VALUE (t_r7 s) in
     if t_r7 s = 0 then do {
       l \<leftarrow> rd16 m (int (t_r9 s));
       Some (encodebit b (s\<lparr>t_r2 := 2, t_r7 := 15, t_r10 := unat l, t_r9 := t_r9 s + 2\<rparr>)) }
     else Some (encodebit b (s\<lparr>t_r7 := t_r7 s - 1\<rparr>)))"

definition tx_datalength :: "nat \<Rightarrow> u8 list \<Rightarrow> txpru \<Rightarrow> txpru option" where
  "tx_datalength other m s = (let b = bit (t_r10 s) (t_r7 s) in
     if t_r7 s = 0 then do {
       let s = s\<lparr>t_r2 := 3, t_r7 := 7, t_r15 := 0, t_r12 := t_r10 s + other\<rparr>;
       x \<leftarrow> ard m (int (t_r9 s));
       Some (encodebit b (s\<lparr>t_r16 := unat x, t_r9 := t_r9 s + 1\<rparr>)) }
     else Some (encodebit b (s\<lparr>t_r7 := t_r7 s - 1\<rparr>)))"

definition tx_packet_done :: "u8 list \<Rightarrow> txpru \<Rightarrow> (u8 list \<times> txpru) option" where
  "tx_packet_done m s = do {
     let s = s\<lparr>t_r2 := 4\<rparr>;
     let s = (if PRU_BUFFER_LIMIT > t_r9 s then s else s\<lparr>t_r9 := 4\<rparr>);
     m \<leftarrow> cput m 2 (le16 (of_nat (t_r9 s)));
     Some (m, s\<lparr>t_r26 := True, t_r7 := 3, t_r18 := 0\<rparr>) }"

definition tx_dataook :: "u8 list \<Rightarrow> txpru \<Rightarrow> (u8 list \<times> txpru) option" where
  "tx_dataook m s = (let b = bit (t_r16 s) (t_r7 s) in
     if t_r7 s = 0 then do {
       let s = s\<lparr>t_r7 := 7, t_r15 := t_r15 s + 1\<rparr>;
       (m, s) \<leftarrow> (if t_r15 s = t_r12 s then tx_packet_done m s
         else do { x \<leftarrow> ard m (int (t_r9 s)); Some (m, s\<lparr>t_r16 := unat x, t_r9 := t_r9 s + 1\<rparr>) });
       Some (m, encodebit b s) }
     else Some (m, encodebit b (s\<lparr>t_r7 := t_r7 s - 1\<rparr>)))"

definition tx_packet_end :: "txpru \<Rightarrow> txpru" where
  "tx_packet_end s = (let s = s\<lparr>t_r18 := 2 ^ t_r1 s\<rparr>; s = s\<lparr>t_r3 := t_r3 s + t_r18 s, t_r1 := t_r1 s + 1\<rparr> in
     if t_r7 s = 0 then s\<lparr>t_r2 := 0, t_r7 := 7, t_r18 := 0\<rparr> else s\<lparr>t_r7 := t_r7 s - 1\<rparr>)"

definition tx_check_state :: "nat \<Rightarrow> u8 list \<Rightarrow> txpru \<Rightarrow> (u8 list \<times> txpru) option" where
  "tx_check_state other m s =
    (if t_r2 s = 0 then Some (m, tx_preamble s)
     else if t_r2 s = 1 then map_option (Pair m) (tx_sfd m s)
     else if t_r2 s = 2 then map_option (Pair m) (tx_datalength other m s)
     else if t_r2 s = 3 then tx_dataook m s
     else if t_r2 s = 4 then Some (m, tx_packet_end s)
     else None)"

text \<open>GETVALUE collects symbols until there are exactly sixteen: a program that jumped over sixteen would not return.\<close>

partial_function (option) aftergetvalue :: "nat \<Rightarrow> u8 list \<Rightarrow> txpru \<Rightarrow> (u8 list \<times> txpru) option" where
  "aftergetvalue other m s = do {
     (m, s) \<leftarrow> tx_check_state other m s;
     if t_r1 s \<noteq> 16 then aftergetvalue other m s else Some (m, s) }"

definition getvalue :: "nat \<Rightarrow> u8 list \<Rightarrow> txpru \<Rightarrow> (u8 list \<times> txpru) option" where
  "getvalue other m s = aftergetvalue other m (s\<lparr>t_r1 := 0, t_r3 := 0\<rparr>)"

definition reset_state_to_preamble :: "txpru \<Rightarrow> txpru" where
  "reset_state_to_preamble s = s\<lparr>t_r2 := 0, t_r7 := 7, t_r18 := 0, t_r27 := True\<rparr>"

definition check_index :: "u8 list \<Rightarrow> txpru \<Rightarrow> txpru option" where
  "check_index m s = do {
     w \<leftarrow> rd16 m 0;
     r \<leftarrow> rd16 m 2;
     let s = s\<lparr>t_r9 := unat r\<rparr>;
     if unat r \<noteq> unat w then Some (s\<lparr>t_r27 := False, t_r26 := False, t_poll := False\<rparr>)
     else if \<not> t_r27 s then Some (reset_state_to_preamble s)
     else Some s }"

text \<open>The two shift registers are loaded in turn; only after a load of the first one the program looks whether a packet is
  finished.\<close>

definition loadgposh :: "nat \<Rightarrow> u8 list \<Rightarrow> txpru \<Rightarrow> (u8 list \<times> txpru) option" where
  "loadgposh other m s =
    (if t_r5 s = 0 then do {
       (m, s) \<leftarrow> getvalue other m (s\<lparr>t_r5 := 1\<rparr>);
       Some (m, s\<lparr>t_poll := t_r26 s\<rparr>) }
     else getvalue other m (s\<lparr>t_r5 := 0\<rparr>))"

text \<open>A cycle: one look at the indices, or one load, whose sixteen symbols go onto the line from the lowest bit on.\<close>

definition tx_cycle :: "nat \<Rightarrow> u8 list \<Rightarrow> txpru \<Rightarrow> (nat list \<times> u8 list \<times> txpru) option" where
  "tx_cycle other m s =
    (if t_poll s then map_option (\<lambda>s. ([], m, s)) (check_index m s)
     else map_option (\<lambda>(m, s). ([t_r3 s], m, s)) (loadgposh other m s))"

primrec tx_cycles :: "nat \<Rightarrow> nat \<Rightarrow> u8 list \<Rightarrow> txpru \<Rightarrow> (nat list \<times> u8 list \<times> txpru) option" where
  "tx_cycles other 0 m s = Some ([], m, s)"
| "tx_cycles other (Suc n) m s = do {
     (xs, m, s) \<leftarrow> tx_cycle other m s;
     (ys, m, s) \<leftarrow> tx_cycles other n m s;
     Some (xs @ ys, m, s) }"

text \<open>The registers when START is done.\<close>

definition tx_start :: txpru where
  "tx_start = \<lparr>t_r1 = 0, t_r2 = 0, t_r3 = 0, t_r5 = 0, t_r7 = 7, t_r9 = 0, t_r10 = 0, t_r12 = 0, t_r15 = 0, t_r16 = 0,
     t_r18 = 0, t_r26 = False, t_r27 = True, t_poll = True\<rparr>"

section \<open>The symbols of a frame\<close>

definition shifted_out :: "nat \<Rightarrow> bool list" where
  "shifted_out x = map (bit x) [0..<16]"

definition msb_first :: "nat \<Rightarrow> nat \<Rightarrow> bool list" where
  "msb_first n x = map (bit x) (rev [0..<n])"

definition manchester :: "bool list \<Rightarrow> bool list" where
  "manchester bs = concat (map (\<lambda>b. [\<not> b, b]) bs)"

definition preamble :: "bool list" where
  "preamble = concat (replicate PREAMBLE_LEN (msb_first 8 PREAMBLE_VALUE))"

definition body_symbols :: "u8 list \<Rightarrow> bool list" where
  "body_symbols xs = manchester (concat (map (\<lambda>x. msb_first 8 (unat x)) xs))"

text \<open>A frame is a length word and the bytes behind it; the word goes out as a number, the bytes one by one.\<close>

definition frame_symbols :: "u8 list \<Rightarrow> bool list" where
  "frame_symbols f = preamble @ manchester (msb_first 8 SFD_VALUE) @ manchester (msb_first 16 (unat (frame_len f)))
     @ body_symbols (drop 2 f)"

definition separator :: "bool list" where
  "separator = replicate 4 True"

lemma msb_first_Suc: "msb_first (Suc n) x = bit x n # msb_first n x"
  by (simp add: msb_first_def)

lemma msb_first_0 [simp]: "msb_first 0 x = []"
  by (simp add: msb_first_def)

lemma manchester_simps [simp]: "manchester [] = []" "manchester (b # bs) = [\<not> b, b] @ manchester bs"
  by (simp_all add: manchester_def)

lemma manchester_append: "manchester (bs @ cs) = manchester bs @ manchester cs"
  by (simp add: manchester_def)

lemma length_msb_first [simp]: "length (msb_first n x) = n"
  by (simp add: msb_first_def)

lemma length_manchester [simp]: "length (manchester bs) = 2 * length bs"
  by (induction bs) simp_all

section \<open>The program as a machine of symbol pairs\<close>

text \<open>Away from the packing into words, the program is a machine with two symbols per step: two passes of GETVALUE's loop
  in the states with raw symbols, one pass otherwise. Its step also tells whether a packet was finished.\<close>

definition core :: "txpru \<Rightarrow> txpru" where
  "core s = s\<lparr>t_r1 := 0, t_r3 := 0, t_r5 := 0, t_r18 := (if t_r2 s = 4 then 0 else t_r18 s), t_r26 := False,
     t_r27 := False, t_poll := False\<rparr>"

definition tx_pair :: "nat \<Rightarrow> u8 list \<Rightarrow> txpru \<Rightarrow> (u8 list \<times> txpru) option" where
  "tx_pair other m s = (if t_r2 s = 0 \<or> t_r2 s = 4 then tx_check_state other m s \<bind> (\<lambda>(m, s). tx_check_state other m s)
     else tx_check_state other m s)"

definition tx_mac :: "nat \<Rightarrow> u8 list \<Rightarrow> txpru \<Rightarrow> ((bool \<times> bool \<times> bool) \<times> u8 list \<times> txpru) option" where
  "tx_mac other m c = map_option (\<lambda>(m, s). ((bit (t_r3 s) 0, bit (t_r3 s) 1, t_r26 s), m, core s)) (tx_pair other m (core c))"

primrec tx_macs :: "nat \<Rightarrow> nat \<Rightarrow> u8 list \<Rightarrow> txpru \<Rightarrow> ((bool \<times> bool \<times> bool) list \<times> u8 list \<times> txpru) option" where
  "tx_macs other 0 m c = Some ([], m, core c)"
| "tx_macs other (Suc n) m c = do {
     (x, m, c) \<leftarrow> tx_mac other m c;
     (xs, m, c) \<leftarrow> tx_macs other n m c;
     Some (x # xs, m, c) }"

definition symbols_of :: "(bool \<times> bool \<times> bool) list \<Rightarrow> bool list" where
  "symbols_of xs = concat (map (\<lambda>(x, y, d). [x, y]) xs)"

definition even_pos :: "txpru \<Rightarrow> bool" where
  "even_pos s \<longleftrightarrow> (t_r2 s = 0 \<or> t_r2 s = 4 \<longrightarrow> odd (t_r7 s))"

lemmas tx_defs = tx_check_state_def tx_preamble_def tx_sfd_def tx_datalength_def tx_dataook_def tx_packet_done_def tx_packet_end_def
  emit_symbol_def encodebit_def Let_def

lemma core_simps [simp]: "t_r2 (core s) = t_r2 s" "t_r7 (core s) = t_r7 s" "t_r9 (core s) = t_r9 s" "t_r10 (core s) = t_r10 s"
  "t_r12 (core s) = t_r12 s" "t_r15 (core s) = t_r15 s" "t_r16 (core s) = t_r16 s" "t_r1 (core s) = 0" "t_r3 (core s) = 0"
  "t_r26 (core s) = False" "core (core s) = core s" "even_pos (core s) = even_pos s"
  by (simp_all add: core_def even_pos_def)

text \<open>Two passes on a state with packed symbols do what they do on the core, behind the packed symbols.\<close>

lemma horner_snoc2: "horner_sum of_bool 2 (bs @ [x, y]) = (horner_sum of_bool 2 bs :: nat) + of_bool x * 2 ^ length bs + of_bool y * 2 ^ (length bs + 1)"
  by (simp add: horner_sum_append algebra_simps)

definition pack :: "txpru \<Rightarrow> txpru \<Rightarrow> txpru" where
  "pack s c = c\<lparr>t_r1 := t_r1 s + t_r1 c, t_r3 := t_r3 s + 2 ^ t_r1 s * t_r3 c, t_r5 := t_r5 s,
     t_r18 := (if t_r2 s = 4 \<and> t_r7 s \<noteq> 0 then 2 ^ t_r1 s else t_r18 c), t_r26 := (t_r26 s \<or> t_r26 c), t_r27 := t_r27 s,
     t_poll := t_poll s\<rparr>"

lemma pass_packed: "tx_check_state other m s = map_option (\<lambda>(m, c). (m, pack s c)) (tx_check_state other m (core s))"
proof -
  consider "t_r2 s = 0" | "t_r2 s = 1" | "t_r2 s = 2" | "t_r2 s = 3" | "t_r2 s = 4" | "4 < t_r2 s" by linarith
  then show ?thesis
  proof cases
    case 1
    then show ?thesis by (simp add: tx_defs core_def pack_def)
  next
    case 2
    then show ?thesis by (simp add: tx_defs core_def pack_def split: Option.bind_split)
  next
    case 3
    then show ?thesis by (simp add: tx_defs core_def pack_def split: Option.bind_split)
  next
    case 4
    then show ?thesis by (simp add: tx_defs core_def pack_def split: Option.bind_split)
  next
    case 5
    then show ?thesis by (simp add: tx_defs core_def pack_def)
  qed (simp add: tx_check_state_def)
qed

text \<open>What a pass adds: one symbol in the raw states, two otherwise.\<close>

lemma pass_adds:
  assumes "tx_check_state other m (core s) = Some (m', c)"
  shows "t_r2 s = 0 \<or> t_r2 s = 4 \<Longrightarrow> t_r1 c = 1 \<and> t_r3 c < 2 \<and> m' = m \<and> \<not> t_r26 c
      \<and> (t_r7 s \<noteq> 0 \<longrightarrow> t_r2 c = t_r2 s \<and> t_r7 c = t_r7 s - 1) \<and> (t_r7 s = 0 \<longrightarrow> t_r7 c = 7 \<and> t_r2 c < 2)"
    and "t_r2 s \<noteq> 0 \<Longrightarrow> t_r2 s \<noteq> 4 \<Longrightarrow> t_r1 c = 2 \<and> t_r3 c < 4 \<and> even_pos c \<and> (\<not> t_r26 c \<longrightarrow> m' = m)"
  using assms
  by (auto simp: tx_defs even_pos_def split: if_splits Option.bind_splits)

lemma pack_simps [simp]: "t_r2 (pack s c) = t_r2 c" "t_r7 (pack s c) = t_r7 c" "t_r9 (pack s c) = t_r9 c"
  "t_r1 (pack s c) = t_r1 s + t_r1 c" "t_r3 (pack s c) = t_r3 s + 2 ^ t_r1 s * t_r3 c" "t_r5 (pack s c) = t_r5 s"
  "t_r26 (pack s c) = (t_r26 s \<or> t_r26 c)" "t_r27 (pack s c) = t_r27 s" "t_poll (pack s c) = t_poll s"
  "even_pos (pack s c) = even_pos c"
  by (simp_all add: pack_def even_pos_def)

lemma core_pack: "(t_r2 s = 4 \<and> t_r7 s \<noteq> 0 \<Longrightarrow> t_r2 c = 4) \<Longrightarrow> core (pack s c) = core c"
  by (auto simp: core_def pack_def)

lemma two_bits: "(v :: nat) < 4 \<Longrightarrow> horner_sum of_bool 2 [bit v 0, bit v 1] = v"
proof -
  assume "v < 4"
  then consider "v = 0" | "v = 1" | "v = 2" | "v = 3" by linarith
  then show ?thesis by cases (simp_all add: bit_0)
qed

text \<open>The step of the machine, on a state in which symbols are already packed.\<close>

lemma tx_mac_packed:
  assumes mac: "tx_mac other m s = Some ((x, y, d), m', c')" and e: "even_pos s"
  shows "\<exists>s'. tx_pair other m s = Some (m', s') \<and> core s' = c' \<and> t_r3 s' = t_r3 s + 2 ^ t_r1 s * horner_sum of_bool 2 [x, y]
    \<and> t_r1 s' = t_r1 s + 2 \<and> t_r26 s' = (t_r26 s \<or> d) \<and> t_r5 s' = t_r5 s \<and> t_r27 s' = t_r27 s \<and> t_poll s' = t_poll s
    \<and> even_pos s' \<and> (\<not> d \<longrightarrow> m' = m)"
proof (cases "t_r2 s = 0 \<or> t_r2 s = 4")
  case True
  then have o: "odd (t_r7 s)" "t_r7 s \<noteq> 0" using e by (auto simp: even_pos_def elim: oddE)
  from mac True obtain c0 where c0: "tx_check_state other m (core s) = Some (m, c0)"
    unfolding tx_mac_def tx_pair_def by (auto simp: tx_check_state_def)
  note a = pass_adds(1)[OF c0 True]
  then have n: "t_r2 c0 = t_r2 s" "t_r7 c0 = t_r7 s - 1" "t_r1 c0 = 1" "t_r3 c0 < 2" "\<not> t_r26 c0" using o by auto
  have t0: "t_r2 c0 = 0 \<or> t_r2 c0 = 4" using True n by simp
  from mac True c0 obtain c1 where c1: "tx_check_state other m (core c0) = Some (m, c1)"
    unfolding tx_mac_def tx_pair_def using t0 by (auto simp: tx_check_state_def)
  note b = pass_adds(1)[OF c1 t0]
  have p1: "tx_check_state other m s = Some (m, pack s c0)" "tx_check_state other m c0 = Some (m, pack c0 c1)"
    using pass_packed[of other m s] pass_packed[of other m c0] c0 c1 by simp_all
  have k: "core (pack s c0) = core c0" by (rule core_pack) (simp add: n)
  have p2: "tx_check_state other m (pack s c0) = Some (m, pack (pack s c0) c1)"
    using pass_packed[of other m "pack s c0"] c1 by (simp add: k)
  have m': "m' = m" "(x, y, d) = (bit (t_r3 (pack c0 c1)) 0, bit (t_r3 (pack c0 c1)) 1, t_r26 (pack c0 c1))" "c' = core (pack c0 c1)"
    using mac True c0 p1 by (simp_all add: tx_mac_def tx_pair_def)
  have v: "t_r3 c0 + 2 * t_r3 c1 < 4" "t_r1 c1 = 1" "\<not> t_r26 c1" using n b by auto
  have x: "horner_sum of_bool 2 [x, y] = t_r3 c0 + 2 * t_r3 c1" using two_bits[OF v(1)] m' n by simp
  have d: "\<not> d" using m' n v by simp
  have ev: "even_pos c1" unfolding even_pos_def using b n o by (cases "t_r7 c0 = 0") (auto simp: even_pos_def)
  have "core (pack (pack s c0) c1) = core c1" "core (pack c0 c1) = core c1"
    using b n by (auto intro!: core_pack)
  then have "tx_pair other m s = Some (m', pack (pack s c0) c1)" "core (pack (pack s c0) c1) = c'"
    using True p1 p2 m' by (simp_all add: tx_pair_def)
  then show ?thesis using x d n v ev m'
    by (intro exI[of _ "pack (pack s c0) c1"]) (simp add: algebra_simps)
next
  case False
  from mac False obtain c0 where c0: "tx_check_state other m (core s) = Some (m', c0)" "c' = core c0"
    "x = bit (t_r3 c0) 0" "y = bit (t_r3 c0) 1" "d = t_r26 c0"
    unfolding tx_mac_def tx_pair_def by auto
  have a: "t_r1 c0 = 2" "t_r3 c0 < 4" "even_pos c0" "\<not> d \<longrightarrow> m' = m" using pass_adds(2)[OF c0(1)] False c0 by simp_all
  have x: "horner_sum of_bool 2 [x, y] = t_r3 c0" using two_bits[OF a(2)] c0 by simp
  have "core (pack s c0) = core c0" by (rule core_pack) (use False in simp)
  then show ?thesis using pass_packed[of other m s] False c0 a x by (simp add: tx_pair_def)
qed

lemma tx_mac_core [simp]: "tx_mac other m (core c) = tx_mac other m c"
  by (simp add: tx_mac_def)

lemma tx_macs_core [simp]: "tx_macs other n m (core c) = tx_macs other n m c"
  by (cases n) simp_all

lemma tx_mac_result: "tx_mac other m c = Some (x, m', c') \<Longrightarrow> core c' = c'"
  by (auto simp: tx_mac_def)

lemma tx_macs_add: "tx_macs other (a + b) m c = do {
    (xs, m, c) \<leftarrow> tx_macs other a m c; (ys, m, c) \<leftarrow> tx_macs other b m c; Some (xs @ ys, m, c) }"
  by (induction a arbitrary: m c) (auto split: Option.bind_splits)

lemma tx_macs_length: "tx_macs other n m c = Some (xs, m', c') \<Longrightarrow> length xs = n"
  by (induction n arbitrary: m c xs) (auto split: Option.bind_splits)

lemma tx_macs_split:
  assumes "tx_macs other n m c = Some (xs, m', c')" "k \<le> n"
  obtains m1 c1 where "tx_macs other k m c = Some (take k xs, m1, c1)" "tx_macs other (n - k) m1 c1 = Some (drop k xs, m', c')"
proof -
  have "tx_macs other (k + (n - k)) m c = Some (xs, m', c')" using assms by simp
  then obtain ys zs m1 c1 where r: "tx_macs other k m c = Some (ys, m1, c1)" "tx_macs other (n - k) m1 c1 = Some (zs, m', c')" "xs = ys @ zs"
    unfolding tx_macs_add by (auto split: Option.bind_splits)
  then show thesis using that tx_macs_length[OF r(1)] by simp
qed

lemma tx_macs_join: "tx_macs other a m c = Some (xs, m1, c1) \<Longrightarrow> tx_macs other b m1 c1 = Some (ys, m2, c2)
    \<Longrightarrow> tx_macs other (a + b) m c = Some (xs @ ys, m2, c2)"
  by (simp add: tx_macs_add)

definition finishes :: "(bool \<times> bool \<times> bool) list \<Rightarrow> bool" where
  "finishes xs \<longleftrightarrow> (\<exists>(x, y, d)\<in>set xs. d)"

lemma finishes_simps [simp]: "finishes [] = False" "finishes ((x, y, d) # xs) = (d \<or> finishes xs)"
  "finishes (xs @ ys) = (finishes xs \<or> finishes ys)"
  by (auto simp: finishes_def)

lemma symbols_of_simps [simp]: "symbols_of [] = []" "symbols_of ((x, y, d) # xs) = [x, y] @ symbols_of xs"
  "symbols_of (xs @ ys) = symbols_of xs @ symbols_of ys"
  by (simp_all add: symbols_of_def)

lemma length_symbols_of [simp]: "length (symbols_of xs) = 2 * length xs"
  by (induction xs) (auto simp: symbols_of_def)

text \<open>GETVALUE returns with the symbols of eight steps.\<close>

lemma aftergetvalue_pair:
  assumes "even_pos s" "even (t_r1 s)"
  shows "aftergetvalue other m s = tx_pair other m s \<bind> (\<lambda>(m, s). if t_r1 s \<noteq> 16 then aftergetvalue other m s else Some (m, s))"
proof (cases "t_r2 s = 0 \<or> t_r2 s = 4")
  case True
  then have "\<exists>s1. tx_check_state other m s = Some (m, s1) \<and> t_r1 s1 = t_r1 s + 1"
    by (auto simp: tx_defs)
  moreover have "t_r1 s + 1 \<noteq> 16" using assms(2) by presburger
  ultimately obtain s1 where s1: "tx_check_state other m s = Some (m, s1)" "t_r1 s1 \<noteq> 16" by force
  then have "aftergetvalue other m s = aftergetvalue other m s1" by (subst aftergetvalue.simps) simp
  also have "\<dots> = tx_check_state other m s1 \<bind> (\<lambda>(m, s). if t_r1 s \<noteq> 16 then aftergetvalue other m s else Some (m, s))"
    by (rule aftergetvalue.simps)
  finally show ?thesis using True s1 by (simp add: tx_pair_def)
qed (simp add: tx_pair_def aftergetvalue.simps[of other m s])

lemma aftergetvalue_macs:
  assumes "tx_macs other n m s = Some (xs, m', c')" "even_pos s" "0 < n" "n \<le> 8" "t_r1 s = 16 - 2 * n" "length bs = 16 - 2 * n"
    "t_r3 s = horner_sum of_bool 2 bs"
  shows "\<exists>s'. aftergetvalue other m s = Some (m', s') \<and> core s' = c' \<and> t_r3 s' = horner_sum of_bool 2 (bs @ symbols_of xs)
    \<and> t_r26 s' = (t_r26 s \<or> finishes xs) \<and> t_r5 s' = t_r5 s \<and> t_r27 s' = t_r27 s \<and> t_poll s' = t_poll s
    \<and> even_pos s' \<and> (\<not> finishes xs \<longrightarrow> m' = m)"
  using assms
proof (induction n arbitrary: m s xs bs)
  case (Suc n)
  from Suc.prems(1) obtain x y d ys m1 c1 where mac: "tx_mac other m s = Some ((x, y, d), m1, c1)"
    "tx_macs other n m1 c1 = Some (ys, m', c')" "xs = (x, y, d) # ys" by (auto split: Option.bind_splits)
  from tx_mac_packed[OF mac(1) Suc.prems(2)] obtain s1 where s1: "tx_pair other m s = Some (m1, s1)" "core s1 = c1"
    "t_r3 s1 = horner_sum of_bool 2 (bs @ [x, y])" "t_r1 s1 = t_r1 s + 2" "t_r26 s1 = (t_r26 s \<or> d)" "t_r5 s1 = t_r5 s"
    "t_r27 s1 = t_r27 s" "t_poll s1 = t_poll s" "even_pos s1" "\<not> d \<longrightarrow> m1 = m"
    using Suc.prems(5,6,7) by (auto simp: horner_sum_append)
  note pair = aftergetvalue_pair[OF Suc.prems(2), of other m]
  have ev: "even (t_r1 s)" using Suc.prems(5) by simp
  show ?case
  proof (cases n)
    case 0
    then have "aftergetvalue other m s = Some (m1, s1)" using pair[OF ev] s1 Suc.prems(5) by simp
    moreover have "m' = m1" "c' = c1" "ys = []" using mac(2) 0 s1(2) by auto
    ultimately show ?thesis using s1 mac(3) by auto
  next
    case (Suc k)
    then have r: "t_r1 s1 = 16 - 2 * n" "0 < n" "n \<le> 8" "length (bs @ [x, y]) = 16 - 2 * n" using Suc.prems s1(4) by simp_all
    then have "t_r1 s1 \<noteq> 16" by arith
    then have "aftergetvalue other m s = aftergetvalue other m1 s1" using pair[OF ev] s1(1) by simp
    moreover have "tx_macs other n m1 s1 = Some (ys, m', c')" using mac(2) s1(2) tx_macs_core[of other n m1 s1] by simp
    from Suc.IH[OF this s1(9) r(2,3,1,4) s1(3)] obtain s' where "aftergetvalue other m1 s1 = Some (m', s')" "core s' = c'"
      "t_r3 s' = horner_sum of_bool 2 ((bs @ [x, y]) @ symbols_of ys)" "t_r26 s' = (t_r26 s1 \<or> finishes ys)"
      "t_r5 s' = t_r5 s1" "t_r27 s' = t_r27 s1" "t_poll s' = t_poll s1" "even_pos s'" "\<not> finishes ys \<longrightarrow> m' = m1" by blast
    ultimately show ?thesis using s1 mac(3) by auto
  qed
qed simp

lemma shifted_out_horner: "length bs = 16 \<Longrightarrow> shifted_out (horner_sum of_bool 2 bs) = bs"
  unfolding shifted_out_def by (rule nth_equalityI) (simp_all add: bit_horner_sum_bit_iff)

lemma getvalue_macs:
  assumes "tx_macs other 8 m s = Some (xs, m', c')" "even_pos s"
  shows "\<exists>s'. getvalue other m s = Some (m', s') \<and> core s' = c' \<and> shifted_out (t_r3 s') = symbols_of xs
    \<and> t_r26 s' = (t_r26 s \<or> finishes xs) \<and> t_r5 s' = t_r5 s \<and> t_r27 s' = t_r27 s \<and> t_poll s' = t_poll s
    \<and> even_pos s' \<and> (\<not> finishes xs \<longrightarrow> m' = m)"
proof -
  let ?s = "s\<lparr>t_r1 := 0, t_r3 := 0\<rparr>"
  have c: "core ?s = core s" "even_pos ?s" using assms(2) by (simp_all add: core_def even_pos_def)
  have "tx_macs other 8 m ?s = Some (xs, m', c')"
    using assms(1) by (simp only: tx_macs_core[of other 8 m s, symmetric] tx_macs_core[of other 8 m ?s, symmetric] c(1))
  from aftergetvalue_macs[OF this c(2), of "[]"] show ?thesis
    using tx_macs_length[OF assms(1)] by (auto simp: getvalue_def shifted_out_horner)
qed

end
