(* ===== verification/Pru_Send.thy ===== *)
theory Pru_Send
  imports Pru_Tx
begin

text \<open>
  What the transmitter's PRU sends: the steps of each state of its program, the whole frame at its read index, and, from the
  start to the next wait, all frames of the ring. The words it loads, read from the lowest bit on, are the symbols of the
  frames with a separator between them.
\<close>

section \<open>The steps of each state\<close>

definition pairs_of :: "bool list \<Rightarrow> (bool \<times> bool \<times> bool) list" where
  "pairs_of bs = map (\<lambda>b. (\<not> b, b, False)) bs"

text \<open>The same when the last bit finishes the packet.\<close>

fun done_pairs :: "bool list \<Rightarrow> (bool \<times> bool \<times> bool) list" where
  "done_pairs [] = []"
| "done_pairs [b] = [(\<not> b, b, True)]"
| "done_pairs (b # c # bs) = (\<not> b, b, False) # done_pairs (c # bs)"

lemma pairs_of_simps [simp]: "pairs_of [] = []" "pairs_of (b # bs) = (\<not> b, b, False) # pairs_of bs"
  "pairs_of (bs @ cs) = pairs_of bs @ pairs_of cs" "symbols_of (pairs_of bs) = manchester bs" "\<not> finishes (pairs_of bs)"
  by (simp_all add: pairs_of_def) (induction bs, simp_all)+

lemma done_pairs_symbols [simp]: "symbols_of (done_pairs bs) = manchester bs"
  by (induction bs rule: done_pairs.induct) simp_all

lemma done_pairs_last: "bs \<noteq> [] \<Longrightarrow> \<exists>ys b. done_pairs bs = ys @ [(\<not> b, b, True)] \<and> \<not> finishes ys"
proof (induction bs rule: done_pairs.induct)
  case (3 b c bs)
  then obtain ys e where "done_pairs (c # bs) = ys @ [(\<not> e, e, True)]" "\<not> finishes ys" by auto
  then show ?case by (intro exI[of _ "(\<not> b, b, False) # ys"] exI[of _ e]) simp
qed auto

lemmas mac_defs = tx_mac_def tx_pair_def tx_defs core_def

lemma bit_pair: "bit (if b then 2 else 1 :: nat) 0 = (\<not> b)" "bit (if b then 2 else 1 :: nat) (Suc 0) = b"
  by (simp_all add: bit_0 bit_Suc)

lemma preamble_mac:
  assumes "t_r2 c = 0" "t_r7 c = Suc k" "even k" "k < 8"
  shows "tx_mac other m c = Some ((True, False, False), m, core (if k \<noteq> 0 then c\<lparr>t_r7 := k - 1\<rparr>
    else if t_r18 c + 1 = PREAMBLE_LEN then c\<lparr>t_r2 := 1, t_r7 := 7, t_r18 := t_r18 c + 1\<rparr> else c\<lparr>t_r7 := 7, t_r18 := t_r18 c + 1\<rparr>))"
proof -
  have "k = 0 \<or> k = 2 \<or> k = 4 \<or> k = 6" using assms(3,4) by presburger
  then have "bit PREAMBLE_VALUE (Suc k)" "\<not> bit PREAMBLE_VALUE k"
    by (auto simp: PREAMBLE_VALUE_def bit_iff_odd)
  then show ?thesis using assms(1,2) by (auto simp: mac_defs bit_0 bit_Suc)
qed

lemma end_mac:
  assumes "t_r2 c = 4" "t_r7 c = Suc k"
  shows "tx_mac other m c = Some ((True, True, False), m, core (if k \<noteq> 0 then c\<lparr>t_r7 := k - 1\<rparr> else c\<lparr>t_r2 := 0, t_r7 := 7, t_r18 := 0\<rparr>))"
  using assms by (auto simp: mac_defs bit_0 bit_Suc)

lemma sfd_mac:
  assumes "t_r2 c = 1"
  shows "t_r7 c = Suc k \<Longrightarrow> tx_mac other m c = Some ((\<not> bit SFD_VALUE (t_r7 c), bit SFD_VALUE (t_r7 c), False), m, core (c\<lparr>t_r7 := k\<rparr>))"
    and "t_r7 c = 0 \<Longrightarrow> rd16 m (int (t_r9 c)) = Some l \<Longrightarrow> tx_mac other m c =
      Some ((\<not> bit SFD_VALUE 0, bit SFD_VALUE 0, False), m, core (c\<lparr>t_r2 := 2, t_r7 := 15, t_r10 := unat l, t_r9 := t_r9 c + 2\<rparr>))"
  using assms by (auto simp: mac_defs bit_pair)

lemma length_mac:
  assumes "t_r2 c = 2"
  shows "t_r7 c = Suc k \<Longrightarrow> tx_mac other m c = Some ((\<not> bit (t_r10 c) (t_r7 c), bit (t_r10 c) (t_r7 c), False), m, core (c\<lparr>t_r7 := k\<rparr>))"
    and "t_r7 c = 0 \<Longrightarrow> ard m (int (t_r9 c)) = Some x \<Longrightarrow> tx_mac other m c =
      Some ((\<not> bit (t_r10 c) 0, bit (t_r10 c) 0, False), m,
        core (c\<lparr>t_r2 := 3, t_r7 := 7, t_r15 := 0, t_r12 := t_r10 c + other, t_r16 := unat x, t_r9 := t_r9 c + 1\<rparr>))"
  using assms by (auto simp: mac_defs bit_pair)

lemma content_mac:
  assumes "t_r2 c = 3"
  shows "t_r7 c = Suc k \<Longrightarrow> tx_mac other m c = Some ((\<not> bit (t_r16 c) (t_r7 c), bit (t_r16 c) (t_r7 c), False), m, core (c\<lparr>t_r7 := k\<rparr>))"
    and "t_r7 c = 0 \<Longrightarrow> t_r15 c + 1 \<noteq> t_r12 c \<Longrightarrow> ard m (int (t_r9 c)) = Some x \<Longrightarrow> tx_mac other m c =
      Some ((\<not> bit (t_r16 c) 0, bit (t_r16 c) 0, False), m,
        core (c\<lparr>t_r7 := 7, t_r15 := t_r15 c + 1, t_r16 := unat x, t_r9 := t_r9 c + 1\<rparr>))"
  using assms by (auto simp: mac_defs bit_pair)

lemma content_done:
  assumes "t_r2 c = 3" "t_r7 c = 0" "t_r15 c + 1 = t_r12 c" "i = (if PRU_BUFFER_LIMIT > t_r9 c then t_r9 c else 4)"
    "cput m 2 (le16 (of_nat i)) = Some m'"
  shows "tx_mac other m c = Some ((\<not> bit (t_r16 c) 0, bit (t_r16 c) 0, True), m',
    core (c\<lparr>t_r2 := 4, t_r7 := 3, t_r9 := i, t_r15 := t_r15 c + 1, t_r18 := 0\<rparr>))"
proof (cases "PRU_BUFFER_LIMIT > t_r9 c")
  case True
  with assms show ?thesis by (simp add: mac_defs bit_pair)
next
  case False
  with assms show ?thesis by (simp add: mac_defs bit_pair)
qed

section \<open>A frame\<close>

lemma preamble_byte:
  assumes "t_r2 c = 0" "t_r7 c = 7"
  shows "tx_macs other 4 m c = Some (replicate 4 (True, False, False), m, core (if t_r18 c + 1 = PREAMBLE_LEN
    then c\<lparr>t_r2 := 1, t_r7 := 7, t_r18 := t_r18 c + 1\<rparr> else c\<lparr>t_r7 := 7, t_r18 := t_r18 c + 1\<rparr>))"
proof -
  have "tx_macs other (Suc (Suc (Suc (Suc 0)))) m c = Some (replicate (Suc (Suc (Suc (Suc 0)))) (True, False, False), m, core (if t_r18 c + 1 = PREAMBLE_LEN
    then c\<lparr>t_r2 := 1, t_r7 := 7, t_r18 := t_r18 c + 1\<rparr> else c\<lparr>t_r7 := 7, t_r18 := t_r18 c + 1\<rparr>))"
    using assms preamble_mac[of c 6 other m] preamble_mac[of "c\<lparr>t_r7 := 5\<rparr>" 4 other m] preamble_mac[of "c\<lparr>t_r7 := 3\<rparr>" 2 other m]
      preamble_mac[of "c\<lparr>t_r7 := 1\<rparr>" 0 other m]
    by simp
  then show ?thesis by (simp add: numeral_eq_Suc)
qed

lemma preamble_steps:
  assumes "t_r2 c = 0" "t_r7 c = 7" "t_r18 c = 0"
  shows "tx_macs other 12 m c = Some (replicate 12 (True, False, False), m, core (c\<lparr>t_r2 := 1, t_r7 := 7, t_r18 := 3\<rparr>))"
proof -
  have 1: "tx_macs other 4 m c = Some (replicate 4 (True, False, False), m, core (c\<lparr>t_r7 := 7, t_r18 := 1\<rparr>))"
    using preamble_byte[of c other m] assms by (simp add: PREAMBLE_LEN_def)
  have 2: "tx_macs other 4 m (core (c\<lparr>t_r7 := 7, t_r18 := 1\<rparr>)) = Some (replicate 4 (True, False, False), m, core (c\<lparr>t_r7 := 7, t_r18 := 2\<rparr>))"
    using preamble_byte[of "c\<lparr>t_r7 := 7, t_r18 := 1\<rparr>" other m] assms by (simp add: PREAMBLE_LEN_def numeral_2_eq_2)
  have 3: "tx_macs other 4 m (core (c\<lparr>t_r7 := 7, t_r18 := 2\<rparr>)) = Some (replicate 4 (True, False, False), m, core (c\<lparr>t_r2 := 1, t_r7 := 7, t_r18 := 3\<rparr>))"
    using preamble_byte[of "c\<lparr>t_r7 := 7, t_r18 := 2\<rparr>" other m] assms by (simp add: PREAMBLE_LEN_def)
  from tx_macs_join[OF 1 tx_macs_join[OF 2 3]] show ?thesis by (simp flip: replicate_add)
qed

lemma tx_macs_step: "tx_mac other m c = Some (x, m1, core c1) \<Longrightarrow> tx_macs other n m1 c1 = Some (xs, m', c')
    \<Longrightarrow> tx_macs other (Suc n) m c = Some (x # xs, m', c')"
  by simp

lemma sfd_steps:
  "t_r2 c = 1 \<Longrightarrow> t_r7 c = k \<Longrightarrow> rd16 m (int (t_r9 c)) = Some l \<Longrightarrow> tx_macs other (Suc k) m c =
    Some (pairs_of (msb_first (Suc k) SFD_VALUE), m, core (c\<lparr>t_r2 := 2, t_r7 := 15, t_r10 := unat l, t_r9 := t_r9 c + 2\<rparr>))"
proof (induction k arbitrary: c)
  case (Suc k)
  from tx_macs_step[OF sfd_mac(1)[OF Suc.prems(1,2)] Suc.IH] Suc.prems show ?case by (simp add: msb_first_Suc[of "Suc k"])
qed (simp add: sfd_mac(2) msb_first_Suc)

lemma length_steps:
  "t_r2 c = 2 \<Longrightarrow> t_r7 c = k \<Longrightarrow> ard m (int (t_r9 c)) = Some x \<Longrightarrow> tx_macs other (Suc k) m c =
    Some (pairs_of (msb_first (Suc k) (t_r10 c)), m,
      core (c\<lparr>t_r2 := 3, t_r7 := 7, t_r15 := 0, t_r12 := t_r10 c + other, t_r16 := unat x, t_r9 := t_r9 c + 1\<rparr>))"
proof (induction k arbitrary: c)
  case (Suc k)
  from tx_macs_step[OF length_mac(1)[OF Suc.prems(1,2)] Suc.IH] Suc.prems show ?case by (simp add: msb_first_Suc[of "Suc k"])
qed (simp add: length_mac(2) msb_first_Suc)

lemma byte_steps:
  "t_r2 c = 3 \<Longrightarrow> t_r7 c = k \<Longrightarrow> t_r15 c + 1 \<noteq> t_r12 c \<Longrightarrow> ard m (int (t_r9 c)) = Some x \<Longrightarrow> tx_macs other (Suc k) m c =
    Some (pairs_of (msb_first (Suc k) (t_r16 c)), m, core (c\<lparr>t_r7 := 7, t_r15 := t_r15 c + 1, t_r16 := unat x, t_r9 := t_r9 c + 1\<rparr>))"
proof (induction k arbitrary: c)
  case (Suc k)
  from tx_macs_step[OF content_mac(1)[OF Suc.prems(1,2)] Suc.IH] Suc.prems show ?case by (simp add: msb_first_Suc[of "Suc k"])
qed (simp add: content_mac(2) msb_first_Suc)

lemma last_byte_steps:
  assumes i: "i = (if PRU_BUFFER_LIMIT > r then r else 4)" and m': "cput m 2 (le16 (of_nat i)) = Some m'"
  shows "t_r2 c = 3 \<Longrightarrow> t_r7 c = k \<Longrightarrow> t_r15 c + 1 = t_r12 c \<Longrightarrow> t_r9 c = r \<Longrightarrow> tx_macs other (Suc k) m c =
    Some (done_pairs (msb_first (Suc k) (t_r16 c)), m', core (c\<lparr>t_r2 := 4, t_r7 := 3, t_r9 := i, t_r15 := t_r15 c + 1, t_r18 := 0\<rparr>))"
proof (induction k arbitrary: c)
  case 0
  have "i = (if PRU_BUFFER_LIMIT > t_r9 c then t_r9 c else 4)" using i 0(4) by simp
  from content_done[OF 0(1-3) this m', of other] show ?case by (simp add: msb_first_Suc)
next
  case (Suc k)
  from tx_macs_step[OF content_mac(1)[OF Suc.prems(1,2)] Suc.IH] Suc.prems show ?case
    by (simp add: msb_first_Suc[of "Suc k"] msb_first_Suc[of k])
qed

text \<open>The bytes of the body; the first one is already in its register.\<close>

lemma done_pairs_append: "cs \<noteq> [] \<Longrightarrow> done_pairs (bs @ cs) = pairs_of bs @ done_pairs cs"
proof (induction bs)
  case (Cons b bs)
  then show ?case by (cases "bs @ cs") auto
qed simp

lemma msb_first_nonempty [simp]: "0 < n \<Longrightarrow> msb_first n x \<noteq> []"
  by (simp add: msb_first_def)

lemma body_steps:
  assumes "i = (if PRU_BUFFER_LIMIT > t_r9 c + length xs then t_r9 c + length xs else 4)" "cput m 2 (le16 (of_nat i)) = Some m'"
    "t_r2 c = 3" "t_r7 c = 7" "t_r16 c = unat x" "t_r15 c + length (x # xs) = t_r12 c"
    "\<forall>j<length xs. ard m (int (t_r9 c + j)) = Some (xs ! j)"
  shows "\<exists>c'. tx_macs other (8 * length (x # xs)) m c = Some (done_pairs (concat (map (\<lambda>x. msb_first 8 (unat x)) (x # xs))), m', c')
    \<and> t_r2 c' = 4 \<and> t_r7 c' = 3 \<and> t_r9 c' = i \<and> t_r18 c' = 0"
  using assms
proof (induction xs arbitrary: c x)
  case Nil
  have "8 * length [x] = Suc 7" by simp
  moreover have "tx_macs other (Suc 7) m c = Some (done_pairs (msb_first (Suc 7) (t_r16 c)), m',
      core (c\<lparr>t_r2 := 4, t_r7 := 3, t_r9 := i, t_r15 := t_r15 c + 1, t_r18 := 0\<rparr>))"
    by (rule last_byte_steps[OF Nil.prems(1,2)]) (use Nil.prems in simp_all)
  ultimately show ?case using Nil.prems(5) by (simp add: core_def)
next
  case (Cons y ys)
  let ?c = "c\<lparr>t_r7 := 7, t_r15 := t_r15 c + 1, t_r16 := unat y, t_r9 := t_r9 c + 1\<rparr>"
  have "ard m (int (t_r9 c)) = Some y" using Cons.prems(7) by (metis Nat.add_0_right length_Cons nth_Cons_0 zero_less_Suc)
  with byte_steps[of c 7 m y other] Cons.prems have
    1: "tx_macs other 8 m c = Some (pairs_of (msb_first 8 (unat x)), m, core ?c)" by simp
  have "\<forall>j<length ys. ard m (int (t_r9 ?c + j)) = Some (ys ! j)"
  proof (intro allI impI)
    fix j assume "j < length ys"
    with Cons.prems(7)[rule_format, of "Suc j"] show "ard m (int (t_r9 ?c + j)) = Some (ys ! j)" by (simp add: ac_simps)
  qed
  moreover have "i = (if PRU_BUFFER_LIMIT > t_r9 ?c + length ys then t_r9 ?c + length ys else 4)" using Cons.prems(1) by simp
  moreover have "t_r2 ?c = 3" "t_r7 ?c = 7" "t_r16 ?c = unat y" "t_r15 ?c + length (y # ys) = t_r12 ?c" using Cons.prems by simp_all
  ultimately obtain c' where 2: "tx_macs other (8 * length (y # ys)) m ?c
      = Some (done_pairs (concat (map (\<lambda>x. msb_first 8 (unat x)) (y # ys))), m', c')"
    "t_r2 c' = 4" "t_r7 c' = 3" "t_r9 c' = i" "t_r18 c' = 0"
    using Cons.IH[of ?c y, OF _ Cons.prems(2)] by blast
  have "8 * length (x # y # ys) = 8 + 8 * length (y # ys)" by simp
  moreover have "tx_macs other (8 * length (y # ys)) m (core ?c)
      = Some (done_pairs (concat (map (\<lambda>x. msb_first 8 (unat x)) (y # ys))), m', c')" using 2(1) by simp
  moreover note tx_macs_join[OF 1 this]
  ultimately show ?case using 2(2-5) by (auto simp: done_pairs_append)
qed

lemma preamble_alternates: "preamble = concat (replicate 12 [True, False])"
proof -
  have "msb_first 8 PREAMBLE_VALUE = [True, False, True, False, True, False, True, False]"
    by code_simp
  then show ?thesis by (simp add: preamble_def PREAMBLE_LEN_def numeral_eq_Suc)
qed

lemma cget_ard: "cget m i n = Some f \<Longrightarrow> j < length f \<Longrightarrow> ard m (i + int j) = Some (f ! j)"
  by (auto simp: cget_def ard_def nat_add_distrib split: if_splits)

lemma cget_rd16: "cget m i n = Some f \<Longrightarrow> 2 \<le> length f \<Longrightarrow> rd16 m i = Some (frame_len f)"
  using cget_ard[of m i n f 0] cget_ard[of m i n f 1] by (cases f; cases "tl f") (simp_all add: rd16_def frame_len_def ard_Cons)

lemma frame_steps:
  assumes f: "cget m (int r) n = Some f" "length f = unat (frame_len f) + 2 + other" "0 < other"
    and i: "i = (if PRU_BUFFER_LIMIT > r + length f then r + length f else 4)" "cput m 2 (le16 (of_nat i)) = Some m'"
    and c: "t_r2 c = 0" "t_r7 c = 7" "t_r18 c = 0" "t_r9 c = r"
  shows "\<exists>ys b c'. tx_macs other (36 + 8 * (length f - 2)) m c = Some (ys @ [(\<not> b, b, True)], m', c') \<and> \<not> finishes ys
    \<and> symbols_of (ys @ [(\<not> b, b, True)]) = frame_symbols f \<and> t_r2 c' = 4 \<and> t_r7 c' = 3 \<and> t_r9 c' = i \<and> t_r18 c' = 0"
proof -
  let ?l = "frame_len f"
  obtain x xs where xs: "drop 2 f = x # xs" using f(2,3) by (cases "drop 2 f") auto
  have len: "length f = length xs + 3" using arg_cong[OF xs, of length] by simp
  have rd: "rd16 m (int r) = Some ?l" using cget_rd16[OF f(1)] f(2) by simp
  have bytes: "ard m (int (r + j)) = Some (f ! j)" if "j < length f" for j using cget_ard[OF f(1) that] by simp
  have at: "f ! (j + 2) = (x # xs) ! j" if "j < length (x # xs)" for j using nth_drop[of 2 f j] xs len by (simp add: ac_simps)
  define c1 where "c1 = c\<lparr>t_r2 := 1, t_r7 := 7, t_r18 := 3\<rparr>"
  define c2 where "c2 = c1\<lparr>t_r2 := 2, t_r7 := 15, t_r10 := unat ?l, t_r9 := t_r9 c1 + 2\<rparr>"
  define c3 where "c3 = c2\<lparr>t_r2 := 3, t_r7 := 7, t_r15 := 0, t_r12 := t_r10 c2 + other, t_r16 := unat x, t_r9 := t_r9 c2 + 1\<rparr>"
  have 1: "tx_macs other 12 m c = Some (replicate 12 (True, False, False), m, core c1)"
    using preamble_steps[OF c(1-3)] by (simp add: c1_def)
  have 2: "tx_macs other (Suc 7) m c1 = Some (pairs_of (msb_first (Suc 7) SFD_VALUE), m, core c2)"
    unfolding c2_def by (rule sfd_steps) (use rd c in \<open>simp_all add: c1_def\<close>)
  have "ard m (int (t_r9 c2)) = Some x" using bytes[of 2] at[of 0] len c(4) by (simp add: c2_def c1_def numeral_2_eq_2)
  from length_steps[of c2 15 m x other, OF _ _ this]
  have 3: "tx_macs other (Suc 15) m c2 = Some (pairs_of (msb_first (Suc 15) (unat ?l)), m, core c3)"
    by (simp add: c2_def c3_def)
  have "\<forall>j<length xs. ard m (int (t_r9 c3 + j)) = Some (xs ! j)"
  proof (intro allI impI)
    fix j assume "j < length xs"
    with bytes[of "j + 3"] at[of "Suc j"] len c(4) show "ard m (int (t_r9 c3 + j)) = Some (xs ! j)"
      by (simp add: c3_def c2_def c1_def ac_simps numeral_3_eq_3)
  qed
  moreover have "i = (if PRU_BUFFER_LIMIT > t_r9 c3 + length xs then t_r9 c3 + length xs else 4)"
    using i(1) len c(4) by (simp add: c3_def c2_def c1_def ac_simps)
  ultimately obtain c' where 4: "tx_macs other (8 * length (x # xs)) m c3
      = Some (done_pairs (concat (map (\<lambda>x. msb_first 8 (unat x)) (x # xs))), m', c')"
    and c': "t_r2 c' = 4" "t_r7 c' = 3" "t_r9 c' = i" "t_r18 c' = 0"
    using body_steps[OF _ i(2), of c3 xs x other] f(2) len by (auto simp: c3_def c2_def)
  let ?bits = "concat (map (\<lambda>x. msb_first 8 (unat x)) (x # xs))"
  let ?out = "replicate 12 (True, False, False) @ pairs_of (msb_first (Suc 7) SFD_VALUE) @ pairs_of (msb_first (Suc 15) (unat ?l))"
  have n: "12 + (Suc 7 + (Suc 15 + 8 * length (x # xs))) = 36 + 8 * (length f - 2)" using len by simp
  have run: "tx_macs other (36 + 8 * (length f - 2)) m c = Some (?out @ done_pairs ?bits, m', c')"
    using tx_macs_join[OF 1, OF tx_macs_join[OF 2[folded tx_macs_core[of _ _ _ c1]], OF tx_macs_join[OF 3[folded tx_macs_core[of _ _ _ c2]]
      4[folded tx_macs_core[of _ _ _ c3]]]], unfolded n] by simp
  obtain ys b where yb: "done_pairs ?bits = ys @ [(\<not> b, b, True)]" "\<not> finishes ys" using done_pairs_last[of ?bits] by auto
  have pre: "symbols_of (replicate 12 (True, False, False)) = preamble" "\<not> finishes (replicate 12 (True, False, False))"
    by (simp_all add: symbols_of_def finishes_def preamble_alternates)
  have "symbols_of (?out @ done_pairs ?bits) = frame_symbols f"
    unfolding symbols_of_simps(3) done_pairs_symbols pairs_of_simps(4) pre(1) frame_symbols_def body_symbols_def xs by simp
  moreover have "\<not> finishes (?out @ ys)" using yb(2) pre(2) by simp
  ultimately show ?thesis using run c' unfolding yb(1)
    by (intro exI[of _ "?out @ ys"] exI[of _ b] exI[of _ c']) simp
qed

section \<open>After a frame\<close>

definition at_end :: "txpru \<Rightarrow> bool" where
  "at_end d \<longleftrightarrow> t_r2 d = 4 \<and> t_r7 d = 3 \<and> t_r18 d = 0"

text \<open>What follows a frame: the separator, the next preamble and SFD. Only fifteen pairs of it matter: by then the program has
  looked at the indices.\<close>

definition tail_symbols :: "bool list" where
  "tail_symbols = separator @ preamble @ [False, True]"

lemma separator_steps:
  assumes "at_end d"
  shows "tx_macs other 2 m d = Some ([(True, True, False), (True, True, False)], m, core (d\<lparr>t_r2 := 0, t_r7 := 7, t_r18 := 0\<rparr>))"
proof -
  have "tx_macs other (Suc (Suc 0)) m d = Some ([(True, True, False), (True, True, False)], m, core (d\<lparr>t_r2 := 0, t_r7 := 7, t_r18 := 0\<rparr>))"
    using assms end_mac[of d 2 other m] end_mac[of "d\<lparr>t_r7 := 1\<rparr>" 0 other m] by (simp add: at_end_def)
  then show ?thesis by (simp add: numeral_2_eq_2)
qed

lemma tail_steps:
  assumes d: "at_end d"
  shows "\<exists>xs c. tx_macs other 15 m d = Some (xs, m, c) \<and> symbols_of xs = tail_symbols \<and> \<not> finishes xs \<and> t_r9 c = t_r9 d"
proof -
  let ?c = "d\<lparr>t_r2 := 0, t_r7 := 7, t_r18 := 0\<rparr>" and ?e = "d\<lparr>t_r2 := 1, t_r7 := 7, t_r18 := 3\<rparr>"
  have b: "bit SFD_VALUE 7" by (simp add: SFD_VALUE_def bit_iff_odd)
  have 1: "tx_macs other 12 m (core ?c) = Some (replicate 12 (True, False, False), m, core ?e)"
    using preamble_steps[of ?c other m] by simp
  have 2: "tx_macs other 1 m (core ?e) = Some ([(False, True, False)], m, core (?e\<lparr>t_r7 := 6\<rparr>))"
    using sfd_mac(1)[of ?e 6 other m] b by simp
  have "symbols_of ([(True, True, False), (True, True, False)] @ replicate 12 (True, False, False) @ [(False, True, False)]) = tail_symbols"
    by (simp add: symbols_of_def tail_symbols_def separator_def preamble_alternates numeral_eq_Suc)
  moreover have "\<not> finishes ([(True, True, False), (True, True, False)] @ replicate 12 (True, False, False) @ [(False, True, False)])"
    by (simp add: finishes_def)
  ultimately show ?thesis using tx_macs_join[OF separator_steps[OF d] tx_macs_join[OF 1 2]] by simp
qed

lemma mac_mono: "tx_mac other m c = Some ((x, y, False), m', c') \<Longrightarrow> t_r9 c \<le> t_r9 c' \<and> m' = m"
  by (auto simp: tx_mac_def tx_pair_def tx_defs split: if_splits Option.bind_splits)

lemma macs_mono: "tx_macs other n m c = Some (xs, m', c') \<Longrightarrow> \<not> finishes xs \<Longrightarrow> t_r9 c \<le> t_r9 c' \<and> m' = m"
proof (induction n arbitrary: m c xs)
  case (Suc n)
  then obtain x y d ys m1 c1 where mac: "tx_mac other m c = Some ((x, y, d), m1, c1)"
    "tx_macs other n m1 c1 = Some (ys, m', c')" "xs = (x, y, d) # ys" by (auto split: Option.bind_splits)
  with Suc.IH[OF mac(2)] Suc.prems(2) mac_mono[of other m c x y m1 c1] show ?case by auto
qed auto

lemma symbols_of_take: "symbols_of (take n xs) = take (2 * n) (symbols_of xs)"
  by (induction xs arbitrary: n) (auto simp: symbols_of_def take_Cons' diff_mult_distrib2 numeral_2_eq_2 split: prod.split)

lemma finishes_take: "finishes (take n xs) \<Longrightarrow> finishes xs"
  by (auto simp: finishes_def dest: in_set_takeD)

lemma tail_prefix:
  assumes d: "at_end d" and q: "q \<le> 15"
  shows "\<exists>xs c. tx_macs other q m d = Some (xs, m, c) \<and> symbols_of xs = take (2 * q) tail_symbols \<and> \<not> finishes xs \<and> t_r9 c = t_r9 d"
proof -
  obtain xs c where r: "tx_macs other 15 m d = Some (xs, m, c)" "symbols_of xs = tail_symbols" "\<not> finishes xs" "t_r9 c = t_r9 d"
    using tail_steps[OF d] by blast
  from tx_macs_split[OF r(1) q] obtain m1 c1 where s: "tx_macs other q m d = Some (take q xs, m1, c1)"
    "tx_macs other (15 - q) m1 c1 = Some (drop q xs, m, c)" .
  have f: "\<not> finishes (take q xs)" "\<not> finishes (drop q xs)" using r(3) finishes_simps(3)[of "take q xs" "drop q xs"] by simp_all
  have "m1 = m" "t_r9 c1 = t_r9 d" using macs_mono[OF s(1) f(1)] macs_mono[OF s(2) f(2)] r(4) by auto
  then show ?thesis using s(1) f(1) r(2) symbols_of_take[of q xs] by auto
qed

lemma rd16_cput: "cput m i (le16 x) = Some m' \<Longrightarrow> rd16 m' i = Some x"
  by (auto simp: cput_def le16_def rd16_def ard_def nth_append nat_add_distrib split: if_splits)

lemma mac_finishes:
  assumes "tx_mac other m c = Some ((x, y, True), m', c')"
  shows "at_end c' \<and> rd16 m' 2 = Some (of_nat (t_r9 c')) \<and> t_r9 c' < 6004"
proof -
  have c: "t_r2 c = 3" "t_r7 c = 0" "t_r15 c + 1 = t_r12 c"
    using assms by (auto simp: tx_mac_def tx_pair_def tx_defs split: if_splits Option.bind_splits)
  define i where "i = (if PRU_BUFFER_LIMIT > t_r9 c then t_r9 c else 4)"
  have "cput m 2 (le16 (of_nat i)) \<noteq> None"
    using assms c unfolding i_def by (auto simp: tx_mac_def tx_pair_def tx_defs split: if_splits Option.bind_splits)
  then obtain m1 where m1: "cput m 2 (le16 (of_nat i)) = Some m1" by blast
  have "m' = m1" "c' = core (c\<lparr>t_r2 := 4, t_r7 := 3, t_r9 := i, t_r15 := t_r15 c + 1, t_r18 := 0\<rparr>)"
    using content_done[OF c i_def m1, of other] assms by simp_all
  then show ?thesis using rd16_cput[OF m1] by (simp add: at_end_def core_def i_def PRU_BUFFER_LIMIT_def)
qed

text \<open>Where a packet was finished, the state is at most as many steps behind the end of that packet.\<close>

definition soon_after :: "nat \<Rightarrow> u8 list \<Rightarrow> nat \<Rightarrow> txpru \<Rightarrow> bool" where
  "soon_after other m n s \<longleftrightarrow> (\<exists>d q xs. q \<le> n \<and> at_end d \<and> rd16 m 2 = Some (of_nat (t_r9 d)) \<and> t_r9 d < 6004
     \<and> tx_macs other q m d = Some (xs, m, core s))"

lemma soon_after_mono: "soon_after other m n s \<Longrightarrow> n \<le> k \<Longrightarrow> soon_after other m k s"
  unfolding soon_after_def by (meson order_trans)

lemma finish_soon_after:
  assumes "tx_macs other (Suc n) m s = Some (xs, m', core s')" "finishes xs"
  shows "soon_after other m' n s'"
  using assms
proof (induction n arbitrary: m s xs)
  case 0
  then obtain x y where mac: "tx_mac other m s = Some ((x, y, True), m', core s')" "xs = [(x, y, True)]"
    using tx_mac_result by (fastforce simp: finishes_def split: Option.bind_splits)
  from mac_finishes[OF mac(1)] show ?case
    unfolding soon_after_def by (intro exI[of _ "core s'"] exI[of _ 0] exI[of _ "[]"]) simp
next
  case (Suc n)
  then obtain x y d ys m1 c1 where mac: "tx_mac other m s = Some ((x, y, d), m1, c1)"
    "tx_macs other (Suc n) m1 c1 = Some (ys, m', core s')" "xs = (x, y, d) # ys" by (auto split: Option.bind_splits)
  show ?case
  proof (cases "finishes ys")
    case True
    from Suc.IH[OF mac(2) this] show ?thesis unfolding soon_after_def by (meson le_SucI)
  next
    case False
    then have d: "d" using Suc.prems(2) mac(3) by simp
    with mac_finishes[of other m s x y m1 c1] mac(1) macs_mono[OF mac(2) False] mac(2) show ?thesis
      unfolding soon_after_def by (intro exI[of _ c1] exI[of _ "Suc n"] exI[of _ ys]) simp
  qed
qed

lemma soon_after_r9: "soon_after other m n s \<Longrightarrow> n \<le> 15 \<Longrightarrow> rd16 m 2 = Some (of_nat (t_r9 s)) \<and> t_r9 s < 6004"
proof -
  assume "soon_after other m n s" "n \<le> 15"
  then obtain d q xs where d: "q \<le> 15" "at_end d" "rd16 m 2 = Some (of_nat (t_r9 d))" "t_r9 d < 6004"
    "tx_macs other q m d = Some (xs, m, core s)" unfolding soon_after_def by (blast intro: order_trans)
  with tail_prefix[OF d(2,1), of other m] show ?thesis by auto
qed

lemma soon_after_steps:
  assumes "soon_after other m n s" "n + k \<le> 15" "tx_macs other k m s = Some (xs, m', core s')"
  shows "soon_after other m (n + k) s'" "m' = m"
proof -
  obtain d q ys where d: "q \<le> n" "at_end d" "rd16 m 2 = Some (of_nat (t_r9 d))" "t_r9 d < 6004"
    "tx_macs other q m d = Some (ys, m, core s)" using assms(1) unfolding soon_after_def by auto
  have "tx_macs other k m (core s) = Some (xs, m', core s')" using assms(3) by simp
  note j = tx_macs_join[OF d(5) this]
  have qk: "q + k \<le> 15" using d(1) assms(2) by simp
  from tail_prefix[OF d(2) qk, of other m] j show "m' = m" by auto
  with d j show "soon_after other m (n + k) s'" unfolding soon_after_def
    by (intro exI[of _ d] exI[of _ "q + k"] exI[of _ "ys @ xs"]) simp
qed

section \<open>From words to symbols\<close>

text \<open>The program between two loads. A finished packet it has not looked at yet is at most seven steps away, and the next load
  is the one after which it looks.\<close>

definition running :: "nat \<Rightarrow> u8 list \<Rightarrow> txpru \<Rightarrow> bool" where
  "running other m s \<longleftrightarrow> \<not> t_poll s \<and> \<not> t_r27 s \<and> even_pos s \<and> t_r5 s \<le> 1
     \<and> (t_r26 s \<longrightarrow> t_r5 s = 0 \<and> soon_after other m 7 s)"

definition waiting :: "txpru \<Rightarrow> bool" where
  "waiting s \<longleftrightarrow> t_poll s \<and> t_r27 s \<and> t_r2 s = 0 \<and> t_r7 s = 7 \<and> t_r18 s = 0 \<and> t_r5 s \<le> 1"

definition ring_empty :: "u8 list \<Rightarrow> bool" where
  "ring_empty m \<longleftrightarrow> rd16 m 2 = rd16 m 0"

lemma tx_cycles_add: "tx_cycles other (a + b) m s = do {
    (xs, m, s) \<leftarrow> tx_cycles other a m s; (ys, m, s) \<leftarrow> tx_cycles other b m s; Some (xs @ ys, m, s) }"
  by (induction a arbitrary: m s) (auto split: Option.bind_splits)

lemma tx_cycles_join: "tx_cycles other a m s = Some (xs, m1, s1) \<Longrightarrow> tx_cycles other b m1 s1 = Some (ys, m2, s2)
    \<Longrightarrow> tx_cycles other (a + b) m s = Some (xs @ ys, m2, s2)"
  by (simp add: tx_cycles_add)

text \<open>A load: eight steps, sixteen symbols.\<close>

lemma load_word:
  assumes xs: "tx_macs other 8 m s = Some (xs, m', c')" and s: "running other m s"
  shows "\<exists>s' x. tx_cycles other 1 m s = Some ([x], m', s') \<and> shifted_out x = symbols_of xs \<and> core s' = c' \<and> even_pos s' \<and> \<not> t_r27 s'
    \<and> t_r5 s' = 1 - t_r5 s \<and> t_r26 s' = (t_r26 s \<or> finishes xs) \<and> t_poll s' = (t_r26 s' \<and> t_r5 s = 0)
    \<and> (t_r26 s' \<longrightarrow> soon_after other m' (if t_r5 s = 0 then 15 else 7) s')"
proof -
  let ?s = "s\<lparr>t_r5 := 1 - t_r5 s\<rparr>"
  have c: "core ?s = core s" "even_pos ?s" using s by (simp_all add: core_def even_pos_def running_def)
  have "tx_macs other 8 m ?s = Some (xs, m', c')"
    using xs by (simp only: tx_macs_core[of other 8 m s, symmetric] tx_macs_core[of other 8 m ?s, symmetric] c(1))
  from getvalue_macs[OF this c(2)] obtain s' where
    g: "getvalue other m ?s = Some (m', s')" and s': "core s' = c'" "shifted_out (t_r3 s') = symbols_of xs"
    "t_r26 s' = (t_r26 s \<or> finishes xs)" "t_r5 s' = 1 - t_r5 s" "\<not> t_r27 s'" "\<not> t_poll s'" "even_pos s'" "\<not> finishes xs \<longrightarrow> m' = m"
    using s by (auto simp: running_def)
  let ?p = "s'\<lparr>t_poll := t_r26 s' \<and> t_r5 s = 0\<rparr>"
  have "t_r5 s = 0 \<or> t_r5 s = 1" using s by (auto simp: running_def)
  then have run: "tx_cycles other 1 m s = Some ([t_r3 ?p], m', ?p)"
    using g s s'(6) by (auto simp: tx_cycle_def loadgposh_def running_def)
  have cp: "core ?p = c'" "even_pos ?p" using s'(1,7) by (auto simp: core_def even_pos_def)
  have soon: "soon_after other m' (if t_r5 s = 0 then 15 else 7) ?p" if "t_r26 s'"
  proof (cases "finishes xs")
    case True
    have "tx_macs other (Suc 7) m s = Some (xs, m', core ?p)" using xs cp(1) by simp
    from finish_soon_after[OF this True] have "soon_after other m' 7 ?p" .
    then show ?thesis by (rule soon_after_mono) simp
  next
    case False
    then have p: "t_r5 s = 0" "soon_after other m 7 s" using that s s'(3) by (auto simp: running_def)
    have "tx_macs other 8 m s = Some (xs, m', core ?p)" using xs cp(1) by simp
    from soon_after_steps[OF p(2) _ this] p(1) show ?thesis by simp
  qed
  show ?thesis using run s' cp soon by (intro exI[of _ ?p] exI[of _ "t_r3 ?p"]) simp
qed

lemma look_on:
  assumes "t_poll s" "soon_after other m 15 s" "\<not> ring_empty m" "rd16 m 0 = Some w" "even_pos s" "t_r5 s \<le> 1"
  shows "\<exists>s'. tx_cycles other 1 m s = Some ([], m, s') \<and> core s' = core s \<and> running other m s'"
proof -
  note r = soon_after_r9[OF assms(2) order_refl]
  then have "unat (of_nat (t_r9 s) :: u16) = t_r9 s" by (simp add: unat_of_nat)
  with r assms show ?thesis
    by (auto simp: tx_cycle_def check_index_def ring_empty_def running_def core_def even_pos_def Let_def)
qed

lemma look_wait:
  assumes "t_poll s" "soon_after other m 15 s" "ring_empty m" "\<not> t_r27 s" "t_r5 s \<le> 1"
  shows "\<exists>s'. tx_cycles other 1 m s = Some ([], m, s') \<and> waiting s'"
proof -
  have "rd16 m 2 = Some (of_nat (t_r9 s))" "rd16 m 0 = Some (of_nat (t_r9 s))"
    using soon_after_r9[OF assms(2) order_refl] assms(3) by (simp_all add: ring_empty_def)
  with assms(1,4,5) show ?thesis
    by (simp add: tx_cycle_def check_index_def waiting_def reset_state_to_preamble_def Let_def)
qed

lemma word_on:
  assumes a: "tx_macs other 8 m s = Some (xs, m2, c2)" and s: "running other m s" and ne: "\<not> ring_empty m2" "rd16 m2 0 = Some w"
  shows "\<exists>n x s3. tx_cycles other n m s = Some ([x], m2, s3) \<and> shifted_out x = symbols_of xs \<and> core s3 = c2 \<and> running other m2 s3"
proof -
  have r5: "t_r5 s = 0 \<or> t_r5 s = 1" using s by (auto simp: running_def)
  from load_word[OF a s] obtain s2 x where s2: "tx_cycles other 1 m s = Some ([x], m2, s2)"
    "shifted_out x = symbols_of xs" "core s2 = c2" "even_pos s2" "\<not> t_r27 s2" "t_r5 s2 = 1 - t_r5 s"
    "t_poll s2 = (t_r26 s2 \<and> t_r5 s = 0)" "t_r26 s2 \<longrightarrow> soon_after other m2 (if t_r5 s = 0 then 15 else 7) s2" by blast
  show ?thesis
  proof (cases "t_poll s2")
    case True
    with s2 have p: "soon_after other m2 15 s2" "t_r5 s2 \<le> 1" by simp_all
    from look_on[OF True p(1) ne s2(4) p(2)] obtain s3 where
      s3: "tx_cycles other 1 m2 s2 = Some ([], m2, s3)" "core s3 = core s2" "running other m2 s3" by blast
    from tx_cycles_join[OF s2(1) s3(1)] s2(2,3) s3(2,3) show ?thesis
      by (intro exI[of _ "1 + 1"] exI[of _ x] exI[of _ s3]) simp
  next
    case False
    with s2 r5 have "running other m2 s2" by (auto simp: running_def)
    with s2 show ?thesis by blast
  qed
qed

lemma last_words:
  assumes xs: "tx_macs other K m s = Some (xs, m1, d)" "0 < K" "K \<le> 8" and s: "running other m s" and d: "at_end d" "finishes xs"
    and e: "ring_empty m1"
  shows "\<exists>n words s' q. q \<le> 15 \<and> tx_cycles other n m s = Some (words, m1, s') \<and> waiting s'
    \<and> concat (map shifted_out words) = symbols_of xs @ take (2 * q) tail_symbols"
proof -
  have r5: "t_r5 s = 0 \<or> t_r5 s = 1" using s by (auto simp: running_def)
  let ?q = "8 - K"
  have q: "?q \<le> 15" "?q \<le> 7" "K + ?q = 8" using xs(2,3) by simp_all
  from tail_prefix[OF d(1) q(1), of other m1] obtain zs c where
    t: "tx_macs other ?q m1 d = Some (zs, m1, c)" "symbols_of zs = take (2 * ?q) tail_symbols" by blast
  from load_word[OF tx_macs_join[OF xs(1) t(1), unfolded q(3)] s] obtain s2 x where s2: "tx_cycles other 1 m s = Some ([x], m1, s2)"
    "shifted_out x = symbols_of (xs @ zs)" "core s2 = c" "even_pos s2" "\<not> t_r27 s2" "t_r5 s2 = 1 - t_r5 s" "t_r26 s2"
    "t_poll s2 = (t_r5 s = 0)" "soon_after other m1 (if t_r5 s = 0 then 15 else 7) s2" using d(2) by auto
  show ?thesis
  proof (cases "t_r5 s = 0")
    case True
    with s2 have p: "t_poll s2" "soon_after other m1 15 s2" "t_r5 s2 \<le> 1" by simp_all
    from look_wait[OF p(1,2) e s2(5) p(3)] obtain s' where s': "tx_cycles other 1 m1 s2 = Some ([], m1, s')" "waiting s'" by blast
    from tx_cycles_join[OF s2(1) s'(1)] s'(2) q(1) s2(2) t(2) show ?thesis
      by (intro exI[of _ "1 + 1"] exI[of _ "[x]"] exI[of _ s'] exI[of _ ?q]) simp
  next
    case False
    with s2 r5 have p: "running other m1 s2" "t_r5 s2 = 0" by (auto simp: running_def)
    have q2: "?q + 8 \<le> 15" using q(2) by simp
    from tail_prefix[OF d(1) q2, of other m1] obtain ys c' where
      y: "tx_macs other (?q + 8) m1 d = Some (ys, m1, c')" "symbols_of ys = take (2 * (?q + 8)) tail_symbols" by blast
    then have "tx_macs other 8 m1 c = Some (drop ?q ys, m1, c')" "ys = zs @ drop ?q ys"
      using t(1) tx_macs_length[OF t(1)] by (auto simp: tx_macs_add split: Option.bind_splits)
    then have y2: "tx_macs other 8 m1 s2 = Some (drop ?q ys, m1, c')" "symbols_of zs @ symbols_of (drop ?q ys) = symbols_of ys"
      using s2(3) tx_macs_core[of other 8 m1 s2] by (auto simp flip: symbols_of_simps(3))
    from load_word[OF y2(1) p(1)] p(2) s2(7) obtain s3 x3 where s3: "tx_cycles other 1 m1 s2 = Some ([x3], m1, s3)"
      "shifted_out x3 = symbols_of (drop ?q ys)" "\<not> t_r27 s3" "t_r5 s3 = 1" "t_poll s3" "soon_after other m1 15 s3" by auto
    from look_wait[OF s3(5,6) e s3(3)] s3(4) obtain s' where s': "tx_cycles other 1 m1 s3 = Some ([], m1, s')" "waiting s'" by auto
    have "symbols_of (xs @ zs) @ symbols_of (drop ?q ys) = symbols_of xs @ take (2 * (?q + 8)) tail_symbols" using y2(2) y(2) by simp
    with tx_cycles_join[OF s2(1) tx_cycles_join[OF s3(1) s'(1)]] s'(2) q2 s2(2) s3(2) show ?thesis
      by (intro exI[of _ "1 + (1 + 1)"] exI[of _ "[x, x3]"] exI[of _ s'] exI[of _ "?q + 8"]) simp
  qed
qed

text \<open>All steps up to the one that empties the ring: the symbols of these steps are on the line, then some of what would
  follow, then the program waits.\<close>

definition ring_ahead :: "nat \<Rightarrow> nat \<Rightarrow> u16 \<Rightarrow> u8 list \<Rightarrow> txpru \<Rightarrow> bool" where
  "ring_ahead other K w m s \<longleftrightarrow> (\<forall>k<K. \<forall>ys mk ck. tx_macs other k m s = Some (ys, mk, ck) \<longrightarrow> \<not> ring_empty mk \<and> rd16 mk 0 = Some w)"

lemma burst:
  assumes "tx_macs other K m s = Some (xs, m1, d)" "0 < K" "running other m s" "ring_ahead other K w m s"
    and d: "at_end d" "ring_empty m1" and "finishes (drop (K - 1) xs)"
  shows "\<exists>n words s' q. q \<le> 15 \<and> tx_cycles other n m s = Some (words, m1, s') \<and> waiting s'
    \<and> concat (map shifted_out words) = symbols_of xs @ take (2 * q) tail_symbols"
  using assms(1-4,7)
proof (induction K arbitrary: m s xs rule: less_induct)
  case (less K)
  show ?case
  proof (cases "8 < K")
    case True
    then have le: "8 \<le> K" by simp
    from tx_macs_split[OF less.prems(1) le] obtain m2 c2 where
      a: "tx_macs other 8 m s = Some (take 8 xs, m2, c2)" and b: "tx_macs other (K - 8) m2 c2 = Some (drop 8 xs, m1, d)" .
    have ne: "\<not> ring_empty m2" "rd16 m2 0 = Some w" using less.prems(4) True a unfolding ring_ahead_def by blast+
    from word_on[OF a less.prems(3) ne] obtain k x s3 where
      s3: "tx_cycles other k m s = Some ([x], m2, s3)" "shifted_out x = symbols_of (take 8 xs)" "core s3 = c2" "running other m2 s3" by blast
    have same: "tx_macs other j m2 s3 = tx_macs other j m2 c2" for j
      using tx_macs_core[of other j m2 s3] s3(3) by simp
    have b3: "tx_macs other (K - 8) m2 s3 = Some (drop 8 xs, m1, d)" using b same by simp
    have fin: "finishes (drop (K - 8 - 1) (drop 8 xs))" using less.prems(5) True by simp
    have ah: "ring_ahead other (K - 8) w m2 s3"
      unfolding ring_ahead_def same
    proof (intro allI impI)
      fix j ys mk ck assume j: "j < K - 8" "tx_macs other j m2 c2 = Some (ys, mk, ck)"
      then have "8 + j < K" by simp
      with tx_macs_join[OF a j(2)] less.prems(4) show "\<not> ring_empty mk \<and> rd16 mk 0 = Some w" unfolding ring_ahead_def by blast
    qed
    from less.IH[OF _ b3 _ s3(4) ah fin] True obtain n words s' q where
      r: "q \<le> 15" "tx_cycles other n m2 s3 = Some (words, m1, s')" "waiting s'"
      "concat (map shifted_out words) = symbols_of (drop 8 xs) @ take (2 * q) tail_symbols" by auto
    have "symbols_of xs = symbols_of (take 8 xs) @ symbols_of (drop 8 xs)" by (metis append_take_drop_id symbols_of_simps(3))
    with r s3(2) tx_cycles_join[OF s3(1) r(2)] show ?thesis
      by (intro exI[of _ "k + n"] exI[of _ "x # words"] exI[of _ s'] exI[of _ q]) simp
  next
    case False
    have "finishes xs" using less.prems(5) by (metis append_take_drop_id finishes_simps(3))
    with last_words[OF less.prems(1,2) _ less.prems(3) d(1) _ d(2)] False show ?thesis by simp
  qed
qed

section \<open>All frames of the ring\<close>

definition frame_fits :: "u8 list \<Rightarrow> bool" where
  "frame_fits f \<longleftrightarrow> length f = unat (frame_len f) + 26 \<and> frame_len f \<le> RX_MTU_VALUE"

text \<open>Consecutive frames on the line.\<close>

fun line_symbols :: "u8 list list \<Rightarrow> bool list" where
  "line_symbols [] = []"
| "line_symbols [f] = frame_symbols f"
| "line_symbols (f # g # fs) = frame_symbols f @ separator @ line_symbols (g # fs)"

lemma ring_ahead_core [simp]: "ring_ahead other K w m (core c) = ring_ahead other K w m c"
  by (simp add: ring_ahead_def)

lemma ring_ahead_join:
  assumes "tx_macs other a m c = Some (xs, m1, c1)" "ring_ahead other a w m c" "ring_ahead other b w m1 c1"
  shows "ring_ahead other (a + b) w m c"
  unfolding ring_ahead_def
proof (intro allI impI)
  fix k ys mk ck assume k: "k < a + b" "tx_macs other k m c = Some (ys, mk, ck)"
  show "\<not> ring_empty mk \<and> rd16 mk 0 = Some w"
  proof (cases "k < a")
    case True
    with assms(2) k show ?thesis unfolding ring_ahead_def by blast
  next
    case False
    then have le: "a \<le> k" by simp
    from tx_macs_split[OF k(2) le] obtain m2 c2 where
      "tx_macs other a m c = Some (take a ys, m2, c2)" "tx_macs other (k - a) m2 c2 = Some (drop a ys, mk, ck)" .
    moreover have "k - a < b" using k(1) le by simp
    ultimately show ?thesis using assms(1,3) unfolding ring_ahead_def by simp
  qed
qed

lemma ring_ahead_quiet:
  assumes "tx_macs other K m c = Some (ys @ zs, m', c')" "length zs \<le> 1" "\<not> finishes ys" "\<not> ring_empty m" "rd16 m 0 = Some w"
  shows "ring_ahead other K w m c"
  unfolding ring_ahead_def
proof (intro allI impI)
  fix k xs mk ck assume k: "k < K" "tx_macs other k m c = Some (xs, mk, ck)"
  have le: "k \<le> K" using k(1) by simp
  have "k \<le> length ys" using tx_macs_length[OF assms(1)] assms(2) k(1) by simp
  then have "xs = take k ys" using tx_macs_split[OF assms(1) le] k(2) by fastforce
  then have "\<not> finishes xs" using assms(3) finishes_take by blast
  with macs_mono[OF k(2)] assms(4,5) show "\<not> ring_empty mk \<and> rd16 mk 0 = Some w" by simp
qed

lemma next_index:
  assumes "in_ring r" "frame_fits f"
  shows "(if PRU_BUFFER_LIMIT > unat r + length f then unat r + length f else 4) = unat (rx_next r (frame_len f))"
proof -
  have "unat r < 6004" "unat (frame_len f) \<le> 150" "length f = unat (frame_len f) + 26"
    using assms by (auto simp: in_ring_def frame_fits_def BUFFER_LIMIT_def RX_MTU_VALUE_def word_less_nat_alt word_le_nat_alt)
  moreover from this have "unat (r + frame_len f + 26) = unat r + unat (frame_len f) + 26" by (simp add: unat_word_ariths)
  ultimately show ?thesis by (simp add: rx_next_def BUFFER_LIMIT_def PRU_BUFFER_LIMIT_def word_le_nat_alt)
qed

lemma store_index:
  assumes "4 \<le> length m"
  obtains m' where "cput m 2 (le16 x) = Some m'" "rd16 m' 2 = Some x" "rd16 m' 0 = rd16 m 0" "drop 4 m' = drop 4 m" "length m' = length m"
proof -
  have "cput m 2 (le16 x) = Some (take 2 m @ le16 x @ drop 4 m)" using assms by (simp add: cput_def)
  moreover from this have "rd16 (take 2 m @ le16 x @ drop 4 m) 2 = Some x" by (rule rd16_cput)
  moreover have "rd16 (take 2 m @ le16 x @ drop 4 m) 0 = rd16 m 0" using assms by (simp add: rd16_def ard_def nth_append)
  ultimately show thesis using that[of "take 2 m @ le16 x @ drop 4 m"] assms by simp
qed

lemma frames_steps:
  assumes "ring_frames m r fs w" "fs \<noteq> []" "\<forall>f\<in>set fs. frame_fits f" "in_ring r" "rd16 m 2 = Some r" "rd16 m 0 = Some w"
    "t_r2 c = 0" "t_r7 c = 7" "t_r18 c = 0" "t_r9 c = unat r"
  shows "\<exists>K xs m1 d. 0 < K \<and> tx_macs TX_OTHER_IMAGE K m c = Some (xs, m1, d) \<and> symbols_of xs = line_symbols fs \<and> at_end d
    \<and> finishes (drop (K - 1) xs) \<and> ring_ahead TX_OTHER_IMAGE K w m c \<and> rd16 m1 2 = Some w \<and> rd16 m1 0 = Some w
    \<and> drop 4 m1 = drop 4 m \<and> length m1 = length m"
  using assms
proof (induction fs arbitrary: m r c)
  case (Cons f fs)
  let ?r = "rx_next r (frame_len f)" and ?K = "36 + 8 * (length f - 2)"
  have f: "r \<noteq> w" "cget m (int (unat r)) (int (length f)) = Some f" "ring_frames m ?r fs w" "frame_fits f"
    using Cons.prems(1,3) by simp_all
  have len: "length f = unat (frame_len f) + 2 + TX_OTHER_IMAGE" "0 < TX_OTHER_IMAGE"
    using f(4) by (simp_all add: frame_fits_def TX_OTHER_IMAGE_def)
  have "4 \<le> length m" using rd16_len[OF Cons.prems(5)] by simp
  then obtain m1 where m1: "cput m 2 (le16 ?r) = Some m1" "rd16 m1 2 = Some ?r" "rd16 m1 0 = rd16 m 0" "drop 4 m1 = drop 4 m" "length m1 = length m"
    by (rule store_index)
  have i: "cput m 2 (le16 (of_nat (unat ?r))) = Some m1" using m1(1) by simp
  from frame_steps[OF f(2) len next_index[OF Cons.prems(4) f(4), symmetric] i Cons.prems(7-10)] obtain ys b d where
    run: "tx_macs TX_OTHER_IMAGE ?K m c = Some (ys @ [(\<not> b, b, True)], m1, d)" "\<not> finishes ys"
    "symbols_of (ys @ [(\<not> b, b, True)]) = frame_symbols f" and d: "at_end d" "t_r9 d = unat ?r" by (auto simp: at_end_def)
  have ne: "\<not> ring_empty m" using f(1) Cons.prems(5,6) by (simp add: ring_empty_def)
  have ah: "ring_ahead TX_OTHER_IMAGE ?K w m c" by (rule ring_ahead_quiet[OF run(1) _ run(2) ne Cons.prems(6)]) simp
  have last: "drop (?K - 1) (ys @ [(\<not> b, b, True)]) = [(\<not> b, b, True)]" using tx_macs_length[OF run(1)] by simp
  show ?case
  proof (cases fs)
    case Nil
    with f(3) m1 run d ah last Cons.prems(6) show ?thesis
      by (intro exI[of _ ?K] exI[of _ "ys @ [(\<not> b, b, True)]"] exI[of _ m1] exI[of _ d]) simp
  next
    case (Cons g gs)
    let ?c = "d\<lparr>t_r2 := 0, t_r7 := 7, t_r18 := 0\<rparr>" and ?sep = "[(True, True, False), (True, True, False)]"
    have ir: "in_ring ?r" using Cons.prems(4) f(4) by (intro rx_next_in_ring) (simp_all add: frame_fits_def)
    have fl: "\<forall>g\<in>set fs. frame_len g \<le> RX_MTU_VALUE" using Cons.prems(3) by (simp add: frame_fits_def)
    from ring_frames_low[OF m1(4,5) ir fl f(3)] have rf: "ring_frames m1 ?r fs w" .
    have "\<exists>K xs m2 d. 0 < K \<and> tx_macs TX_OTHER_IMAGE K m1 ?c = Some (xs, m2, d) \<and> symbols_of xs = line_symbols fs \<and> at_end d
      \<and> finishes (drop (K - 1) xs) \<and> ring_ahead TX_OTHER_IMAGE K w m1 ?c \<and> rd16 m2 2 = Some w \<and> rd16 m2 0 = Some w
      \<and> drop 4 m2 = drop 4 m1 \<and> length m2 = length m1"
      by (rule Cons.IH[OF rf _ _ ir m1(2)]) (use Cons Cons.prems(3,6) m1(3) d(2) in simp_all)
    then obtain K xs m2 d2 where r2: "0 < K" "tx_macs TX_OTHER_IMAGE K m1 ?c = Some (xs, m2, d2)" "symbols_of xs = line_symbols fs" "at_end d2"
      "finishes (drop (K - 1) xs)" "ring_ahead TX_OTHER_IMAGE K w m1 ?c" "rd16 m2 2 = Some w" "rd16 m2 0 = Some w"
      "drop 4 m2 = drop 4 m1" "length m2 = length m1" by blast
    note sep = separator_steps[OF d(1), of TX_OTHER_IMAGE m1]
    have "tx_macs TX_OTHER_IMAGE K m1 (core ?c) = Some (xs, m2, d2)" using r2(2) by simp
    note run2 = tx_macs_join[OF sep this]
    have ne1: "\<not> ring_empty m1" using rf m1(2,3) Cons Cons.prems(6) by (simp add: ring_empty_def)
    have ah1: "ring_ahead TX_OTHER_IMAGE 2 w m1 d"
      by (rule ring_ahead_quiet[where ys = ?sep and zs = "[]"]) (use sep ne1 m1(3) Cons.prems(6) in simp_all)
    have "ring_ahead TX_OTHER_IMAGE K w m1 (core ?c)" using r2(6) by simp
    note ah2 = ring_ahead_join[OF run(1) ah ring_ahead_join[OF sep ah1 this]]
    have l: "length (ys @ [(\<not> b, b, True)]) = ?K" using tx_macs_length[OF run(1)] .
    have "finishes (drop (?K + (2 + K) - 1) ((ys @ [(\<not> b, b, True)]) @ ?sep @ xs))"
      using r2(1,5) l by (simp add: drop_append drop_Cons' del: append_assoc)
    with tx_macs_join[OF run(1) run2] ah2 r2 m1(4,5) run(3) show ?thesis unfolding Cons
      by (intro exI[of _ "?K + (2 + K)"] exI[of _ "(ys @ [(\<not> b, b, True)]) @ ?sep @ xs"] exI[of _ m2] exI[of _ d2])
        (simp add: separator_def numeral_eq_Suc del: append_assoc)
  qed
qed simp

text \<open>From one wait to the next: the whole ring goes onto the line. Of what would follow, at most thirty symbols do.\<close>

lemma tx_sends_ring:
  assumes ring: "ring_frames m r fs w" "fs \<noteq> []" "\<forall>f\<in>set fs. frame_fits f" "in_ring r" "rd16 m 2 = Some r" "rd16 m 0 = Some w"
    and s: "waiting s"
  shows "\<exists>n words m' s' q. q \<le> 15 \<and> tx_cycles TX_OTHER_IMAGE n m s = Some (words, m', s') \<and> waiting s'
    \<and> concat (map shifted_out words) = line_symbols fs @ take (2 * q) tail_symbols
    \<and> rd16 m' 2 = Some w \<and> rd16 m' 0 = Some w \<and> drop 4 m' = drop 4 m \<and> length m' = length m"
proof -
  let ?s = "s\<lparr>t_r9 := unat r, t_r27 := False, t_r26 := False, t_poll := False\<rparr>"
  have "r \<noteq> w" using ring(1,2) by (cases fs) simp_all
  then have "unat r \<noteq> unat w" by (simp add: word_unat_eq_iff)
  then have 1: "tx_cycles TX_OTHER_IMAGE 1 m s = Some ([], m, ?s)"
    using s ring(5,6) by (simp add: tx_cycle_def check_index_def waiting_def Let_def)
  have run: "running TX_OTHER_IMAGE m ?s" using s by (simp add: running_def waiting_def even_pos_def)
  have c: "t_r2 ?s = 0" "t_r7 ?s = 7" "t_r18 ?s = 0" "t_r9 ?s = unat r" using s by (simp_all add: waiting_def)
  from frames_steps[OF ring c] obtain K xs m1 d where
    k: "0 < K" "tx_macs TX_OTHER_IMAGE K m ?s = Some (xs, m1, d)" "symbols_of xs = line_symbols fs" "at_end d"
    "finishes (drop (K - 1) xs)" "ring_ahead TX_OTHER_IMAGE K w m ?s"
    and m1: "rd16 m1 2 = Some w" "rd16 m1 0 = Some w" "drop 4 m1 = drop 4 m" "length m1 = length m" by blast
  have "ring_empty m1" using m1 by (simp add: ring_empty_def)
  from burst[OF k(2,1) run k(6,4) this k(5)] obtain n words s' q where
    b: "q \<le> 15" "tx_cycles TX_OTHER_IMAGE n m ?s = Some (words, m1, s')" "waiting s'"
    "concat (map shifted_out words) = symbols_of xs @ take (2 * q) tail_symbols" by blast
  from tx_cycles_join[OF 1 b(2)] b(1,3,4) m1 k(3) show ?thesis
    by (intro exI[of _ "1 + n"] exI[of _ words] exI[of _ m1] exI[of _ s'] exI[of _ q]) simp
qed

lemma tx_start_waits: "waiting tx_start"
  by (simp add: waiting_def tx_start_def)

end
