(* ===== verification/Pru_Receive.thy ===== *)
theory Pru_Receive
  imports Pru_Rx Pru_Send
begin

text \<open>
  What the receiver's PRU makes of the line: it finds a frame behind a clean preamble, delimiter and length word, takes any
  symbols for its body, two for a bit, and appends what it decoded to the ring.
\<close>

section \<open>Runs\<close>

lemma rx_bits_append:
  "rx_bits m s xs = Some (m1, s1, []) \<Longrightarrow> rx_bits m s (xs @ ys) = rx_bits m1 s1 ys"
proof (induction xs arbitrary: m s)
  case (Cons x xs)
  then obtain m2 s2 where "\<not> x_final s" "rx_bit m (of_bool x) s = Some (m2, s2)" "rx_bits m2 s2 xs = Some (m1, s1, [])"
    by (auto split: if_splits Option.bind_splits)
  with Cons.IH show ?case by simp
qed simp

text \<open>Two symbols are a bit: the clean ones anywhere in the packet, any two in its body.\<close>

lemma pair_clean:
  assumes "x_r4 s = 1" "\<not> x_final s"
  shows "rx_bits m s ((\<not> b) # b # ys) = check_packet_state m (of_bool b) b (s\<lparr>x_r12 := of_bool (\<not> b), x_r4 := 2\<rparr>)
    \<bind> (\<lambda>(m, s). rx_bits m s ys)"
  using assms by (simp add: rx_bit_def decode_ook_first_def decode_ook_second_def)

lemma pair_body:
  assumes "x_r4 s = 1" "\<not> x_final s" "x_r14 s = 2"
  shows "rx_bits m s (a # b # ys) = rx_body m (\<not> a) (s\<lparr>x_r12 := of_bool a, x_r4 := 2\<rparr>) \<bind> (\<lambda>(m, s). rx_bits m s ys)"
  using assms by (simp add: rx_bit_def decode_ook_first_def decode_ook_second_def check_packet_state_def)

section \<open>The head of a frame\<close>

text \<open>The registers of the search.\<close>

definition searching :: "nat \<Rightarrow> nat \<Rightarrow> nat \<Rightarrow> rxpru \<Rightarrow> bool" where
  "searching cnt pre prev s \<longleftrightarrow> x_r4 s = 0 \<and> \<not> x_final s \<and> x_r8 s = cnt \<and> x_r9 s = pre \<and> x_r10 s = prev"

definition locked :: "rxpru \<Rightarrow> bool" where
  "locked s \<longleftrightarrow> x_r4 s = 1 \<and> x_r14 s = 0 \<and> x_r15 s = 7 \<and> \<not> x_final s"

text \<open>A step of the search as a function of these registers: \<open>None\<close> when the preamble is complete.\<close>

fun search_step :: "nat \<times> nat \<times> nat \<Rightarrow> bool \<Rightarrow> (nat \<times> nat \<times> nat) option" where
  "search_step (cnt, pre, prev) b =
    (let r7 = of_bool b in
     if (if even cnt then r7 > prev else prev > r7)
     then (if cnt < 7 then Some (cnt + 1, pre, r7) else if pre < 2 then Some (0, pre + 1, r7) else None)
     else Some (1, 0, r7))"

primrec search :: "nat \<times> nat \<times> nat \<Rightarrow> bool list \<Rightarrow> (nat \<times> nat \<times> nat) option" where
  "search st [] = Some st"
| "search st (b # bs) = search_step st b \<bind> (\<lambda>st. search st bs)"

lemma search_symbol:
  assumes "searching cnt pre prev s"
  shows "search_step (cnt, pre, prev) b = Some (c, p, q) \<Longrightarrow> \<exists>s'. rx_bit m (of_bool b) s = Some (m, s') \<and> searching c p q s'"
    and "search_step (cnt, pre, prev) b = None \<Longrightarrow> \<exists>s'. rx_bit m (of_bool b) s = Some (m, s') \<and> locked s'"
  using assms
  by (cases b; auto simp: searching_def locked_def rx_bit_def preamble_detection_def RXP_PREAMBLE_LEN_def Let_def split: if_splits)+

lemma search_runs:
  "searching cnt pre prev s \<Longrightarrow> search (cnt, pre, prev) bs = Some (c, p, q) \<Longrightarrow>
    \<exists>s'. rx_bits m s bs = Some (m, s', []) \<and> searching c p q s'"
proof (induction bs arbitrary: cnt pre prev s)
  case (Cons b bs)
  then obtain c1 p1 q1 where st: "search_step (cnt, pre, prev) b = Some (c1, p1, q1)" "search (c1, p1, q1) bs = Some (c, p, q)"
    by (auto split: Option.bind_splits simp del: search_step.simps)
  from search_symbol(1)[OF Cons.prems(1) st(1), of m] obtain s1 where s1: "rx_bit m (of_bool b) s = Some (m, s1)" "searching c1 p1 q1 s1" by blast
  from Cons.IH[OF s1(2) st(2)] s1(1) Cons.prems(1) show ?case by (auto simp: searching_def)
qed auto

lemma search_completes:
  assumes "searching cnt pre prev s" "search (cnt, pre, prev) bs = Some (c, p, q)" "search_step (c, p, q) b = None"
  shows "\<exists>s'. rx_bits m s (bs @ [b]) = Some (m, s', []) \<and> locked s'"
proof -
  from search_runs[OF assms(1,2), of m] obtain s1 where s1: "rx_bits m s bs = Some (m, s1, [])" "searching c p q s1" by blast
  from search_symbol(2)[OF s1(2) assms(3), of m] obtain s2 where "rx_bit m (of_bool b) s1 = Some (m, s2)" "locked s2" by blast
  with s1 rx_bits_append[OF s1(1), of "[b]"] show ?thesis by (auto simp: searching_def)
qed

text \<open>From the start of a search, and behind a separator, the preamble is found.\<close>

lemma preamble_split: "preamble = concat (replicate 11 [True, False]) @ [True] @ [False]"
  by (simp add: preamble_alternates numeral_eq_Suc)

lemma preamble_found:
  assumes "searching 1 0 prev s" "prev \<le> 1"
  shows "\<exists>s'. rx_bits m s preamble = Some (m, s', []) \<and> locked s'"
    and "\<exists>s'. rx_bits m s (separator @ preamble) = Some (m, s', []) \<and> locked s'"
proof -
  have p: "prev = 0 \<or> prev = 1" using assms(2) by auto
  have 1: "search (1, 0, prev) (concat (replicate 11 [True, False]) @ [True]) = Some (7, 2, 1)"
    and 2: "search (1, 0, prev) (separator @ concat (replicate 11 [True, False]) @ [True]) = Some (7, 2, 1)"
    using p by (elim disjE; hypsubst; code_simp)+
  have n: "search_step (7, 2, 1) False = None" by simp
  from search_completes[OF assms(1) 1 n, of m] show "\<exists>s'. rx_bits m s preamble = Some (m, s', []) \<and> locked s'"
    by (simp add: preamble_split)
  from search_completes[OF assms(1) 2 n, of m] show "\<exists>s'. rx_bits m s (separator @ preamble) = Some (m, s', []) \<and> locked s'"
    by (simp add: preamble_split)
qed

text \<open>Delimiter and length word.\<close>

lemma odd_xor_of_bool: "odd ((n :: nat) XOR of_bool b) = (odd n \<noteq> b)"
  by (metis bit_0 bit_xor_iff bit_of_bool_iff)

lemma sfd_found:
  "x_r4 s = 1 \<Longrightarrow> x_r14 s = 0 \<Longrightarrow> x_r15 s = k \<Longrightarrow> \<not> x_final s \<Longrightarrow>
    \<exists>s'. rx_bits m s (manchester (msb_first (Suc k) RXP_SFD)) = Some (m, s', []) \<and> x_r4 s' = 1 \<and> x_r14 s' = 1 \<and> x_r15 s' = 15
      \<and> x_r16 s' = 0 \<and> \<not> x_final s'"
proof (induction k arbitrary: s)
  case 0
  let ?b = "bit RXP_SFD 0"
  have "rx_bits m s [\<not> ?b, ?b] = Some (m, rx_sfd (of_bool ?b) ?b (s\<lparr>x_r12 := of_bool (\<not> ?b), x_r4 := 2\<rparr>), [])"
    using pair_clean[of s m ?b "[]"] 0 by (simp add: check_packet_state_def)
  then show ?case using 0 by (simp add: msb_first_Suc rx_sfd_def Let_def odd_xor_of_bool bit_0)
next
  case (Suc k)
  let ?b = "bit RXP_SFD (Suc k)" and ?ys = "manchester (msb_first (Suc k) RXP_SFD)"
  let ?s = "rx_sfd (of_bool ?b) ?b (s\<lparr>x_r12 := of_bool (\<not> ?b), x_r4 := 2\<rparr>)"
  have o: "odd (drop_bit (Suc k) RXP_SFD) = ?b" by (simp add: bit_iff_odd_drop_bit)
  have run: "rx_bits m s ((\<not> ?b) # ?b # ?ys) = rx_bits m ?s ?ys"
    using pair_clean[of s m ?b ?ys] Suc.prems by (simp add: check_packet_state_def)
  have "x_r4 ?s = 1" "x_r14 ?s = 0" "x_r15 ?s = k" "\<not> x_final ?s"
    using Suc.prems o by (simp_all add: rx_sfd_def Let_def odd_xor_of_bool)
  from Suc.IH[OF this] run show ?case by (simp add: msb_first_Suc[of "Suc k"])
qed

lemma length_found:
  "x_r4 s = 1 \<Longrightarrow> x_r14 s = 1 \<Longrightarrow> x_r15 s = k \<Longrightarrow> \<not> x_final s \<Longrightarrow>
    \<exists>s'. rx_bits m s (manchester (msb_first (Suc k) l)) = process_length m s' \<bind> (\<lambda>(m, s). Some (m, s, []))
      \<and> x_r16 s' = x_r16 s + take_bit (Suc k) l \<and> x_r14 s' = 1 \<and> \<not> x_final s'"
proof (induction k arbitrary: s)
  case 0
  let ?b = "bit l 0"
  have "rx_bits m s [\<not> ?b, ?b] = rx_length m ?b (s\<lparr>x_r12 := of_bool (\<not> ?b), x_r4 := 2\<rparr>) \<bind> (\<lambda>(m, s). Some (m, s, []))"
    using pair_clean[of s m ?b "[]"] 0 by (simp add: check_packet_state_def)
  moreover have "rx_length m ?b (s\<lparr>x_r12 := of_bool (\<not> ?b), x_r4 := 2\<rparr>)
      = process_length m (s\<lparr>x_r12 := of_bool (\<not> ?b), x_r4 := 2, x_r16 := x_r16 s + of_bool ?b\<rparr>)"
    using 0 by (simp add: rx_length_def Let_def)
  ultimately show ?case using 0
    by (intro exI[of _ "s\<lparr>x_r12 := of_bool (\<not> ?b), x_r4 := 2, x_r16 := x_r16 s + of_bool ?b\<rparr>"])
      (simp add: msb_first_Suc bit_0 take_bit_Suc mod_2_eq_odd)
next
  case (Suc k)
  let ?b = "bit l (Suc k)" and ?ys = "manchester (msb_first (Suc k) l)"
  let ?s = "s\<lparr>x_r12 := of_bool (\<not> ?b), x_r4 := 1, x_r16 := x_r16 s + of_bool ?b * 2 ^ Suc k, x_r15 := k\<rparr>"
  have "rx_length m ?b (s\<lparr>x_r12 := of_bool (\<not> ?b), x_r4 := 2\<rparr>) = Some (m, ?s)"
    using Suc.prems by (simp add: rx_length_def Let_def)
  then have run: "rx_bits m s ((\<not> ?b) # ?b # ?ys) = rx_bits m ?s ?ys"
    using pair_clean[of s m ?b ?ys] Suc.prems by (simp add: check_packet_state_def)
  have "x_r4 ?s = 1" "x_r14 ?s = 1" "x_r15 ?s = k" "\<not> x_final ?s" using Suc.prems by simp_all
  from Suc.IH[OF this] run show ?case
    by (auto simp: msb_first_Suc[of "Suc k"] take_bit_Suc_from_most[of "Suc k"] algebra_simps)
qed

section \<open>The body of a frame\<close>

text \<open>The receiver reads the first symbol of each pair: where the two are equal, it guesses the bit that fits the first one.\<close>

fun demodulate :: "bool list \<Rightarrow> bool list" where
  "demodulate (a # b # zs) = (\<not> a) # demodulate zs"
| "demodulate zs = []"

definition bits_value :: "bool list \<Rightarrow> nat" where
  "bits_value bs = horner_sum of_bool 2 (rev bs)"

fun received_bytes :: "nat \<Rightarrow> bool list \<Rightarrow> u8 list" where
  "received_bytes 0 zs = []"
| "received_bytes (Suc n) zs = of_nat (bits_value (demodulate (take 16 zs))) # received_bytes n (drop 16 zs)"

lemma bits_value_simps [simp]: "bits_value [] = 0" "bits_value (b # bs) = of_bool b * 2 ^ length bs + bits_value bs"
  by (simp_all add: bits_value_def horner_sum_append)

lemma demodulate_manchester [simp]: "demodulate (manchester bs) = bs"
  by (induction bs) simp_all

lemma length_demodulate: "length (demodulate zs) = length zs div 2"
  by (induction zs rule: demodulate.induct) simp_all

lemma length_received_bytes [simp]: "length (received_bytes n zs) = n"
  by (induction n zs rule: received_bytes.induct) simp_all

lemma bits_value_msb_first: "bits_value (msb_first n x) = take_bit n x"
  by (induction n) (simp_all add: msb_first_Suc take_bit_Suc_from_most)

text \<open>Without noise the bytes are those that were sent.\<close>

lemma received_body_symbols: "received_bytes (length xs) (body_symbols xs) = xs"
proof (induction xs)
  case (Cons x xs)
  have s: "body_symbols (x # xs) = manchester (msb_first 8 (unat x)) @ body_symbols xs"
    by (simp add: body_symbols_def manchester_append)
  have "unat x < 2 ^ LENGTH(8)" by (rule unsigned_less)
  then have "take_bit 8 (unat x) = unat x" by (simp add: take_bit_nat_eq_self)
  with Cons show ?case by (simp add: s bits_value_msb_first)
qed simp

lemma length_body_symbols: "length (body_symbols xs) = 16 * length xs"
  by (induction xs) (simp_all add: body_symbols_def manchester_append)

lemma byte_found:
  "x_r4 s = 1 \<Longrightarrow> x_r14 s = 2 \<Longrightarrow> x_r15 s = k \<Longrightarrow> \<not> x_final s \<Longrightarrow> length zs = 2 * Suc k \<Longrightarrow>
    \<exists>s'. rx_bits m s (zs @ ys) = process_packet_byte m s' \<bind> (\<lambda>(m, s). rx_bits m s ys)
      \<and> x_r21 s' = x_r21 s + bits_value (demodulate zs) \<and> x_r14 s' = 2 \<and> \<not> x_final s' \<and> x_r16 s' = x_r16 s \<and> x_r20 s' = x_r20 s \<and> x_r23 s' = x_r23 s"
proof (induction k arbitrary: s zs)
  case 0
  then obtain a b where z: "zs = [a, b]" by (auto simp: length_Suc_conv numeral_2_eq_2)
  have "rx_body m (\<not> a) (s\<lparr>x_r12 := of_bool a, x_r4 := 2\<rparr>)
      = process_packet_byte m (s\<lparr>x_r12 := of_bool a, x_r4 := 2, x_r21 := x_r21 s + of_bool (\<not> a)\<rparr>)"
    using 0 by (simp add: rx_body_def Let_def)
  then show ?case using 0 pair_body[of s m a b ys] z
    by (intro exI[of _ "s\<lparr>x_r12 := of_bool a, x_r4 := 2, x_r21 := x_r21 s + of_bool (\<not> a)\<rparr>"]) simp
next
  case (Suc k)
  then obtain a b zs' where z: "zs = a # b # zs'" "length zs' = 2 * Suc k" by (auto simp: length_Suc_conv)
  let ?s = "s\<lparr>x_r12 := of_bool a, x_r4 := 1, x_r21 := x_r21 s + of_bool (\<not> a) * 2 ^ Suc k, x_r15 := k\<rparr>"
  have "rx_body m (\<not> a) (s\<lparr>x_r12 := of_bool a, x_r4 := 2\<rparr>) = Some (m, ?s)" using Suc.prems by (simp add: rx_body_def Let_def)
  then have run: "rx_bits m s (zs @ ys) = rx_bits m ?s (zs' @ ys)" using pair_body[of s m a b "zs' @ ys"] Suc.prems z by simp
  have l: "length (demodulate zs') = Suc k" using z(2) by (simp add: length_demodulate)
  have "x_r4 ?s = 1" "x_r14 ?s = 2" "x_r15 ?s = k" "\<not> x_final ?s" using Suc.prems by simp_all
  from Suc.IH[OF this z(2)] run l show ?case unfolding z(1) by (auto simp: algebra_simps)
qed

lemma body_found:
  assumes "x_r4 s = 1" "x_r14 s = 2" "x_r15 s = 7" "x_r21 s = 0" "\<not> x_final s" "x_r23 s + Suc n = x_r16 s"
    "length zs = 16 * Suc n" "x_r20 s + Suc n \<le> 6004" "x_r20 s + Suc n \<le> length m"
  shows "\<exists>s'. rx_bits m s (zs @ ys) = final (take (x_r20 s) m @ received_bytes (Suc n) zs @ drop (x_r20 s + Suc n) m) s' \<bind> (\<lambda>(m, s). rx_bits m s ys)
    \<and> x_r20 s' = (if RXP_BUFFER_LIMIT > x_r20 s + Suc n then x_r20 s + Suc n else 4) \<and> x_r14 s' = 2 \<and> \<not> x_final s'"
  using assms
proof (induction n arbitrary: s zs m)
  case 0
  then have "length zs = 2 * Suc 7" by simp
  from byte_found[OF 0(1-3,5) this, of m ys] obtain s1 where s1:
    "rx_bits m s (zs @ ys) = process_packet_byte m s1 \<bind> (\<lambda>(m, s). rx_bits m s ys)"
    "x_r21 s1 = bits_value (demodulate zs)" "x_r14 s1 = 2" "\<not> x_final s1" "x_r16 s1 = x_r16 s" "x_r20 s1 = x_r20 s" "x_r23 s1 = x_r23 s"
    using 0(4) by auto
  let ?i = "if RXP_BUFFER_LIMIT > x_r20 s1 + 1 then x_r20 s1 + 1 else 4"
  have "process_packet_byte m s1 = final (take (x_r20 s) m @ received_bytes (Suc 0) zs @ drop (x_r20 s + Suc 0) m) (s1\<lparr>x_r23 := x_r23 s1 + 1, x_r20 := ?i\<rparr>)"
    using 0 s1 by (simp add: process_packet_byte_def awr_cput cput_def)
  with s1 show ?case by (intro exI[of _ "s1\<lparr>x_r23 := x_r23 s1 + 1, x_r20 := ?i\<rparr>"]) simp
next
  case (Suc n)
  let ?a = "take 16 zs" and ?zs = "drop 16 zs"
  have "length ?a = 2 * Suc 7" using Suc.prems(7) by simp
  from byte_found[OF Suc.prems(1-3,5) this, of m "?zs @ ys"] obtain s1 where s1:
    "rx_bits m s (zs @ ys) = process_packet_byte m s1 \<bind> (\<lambda>(m, s). rx_bits m s (?zs @ ys))"
    "x_r21 s1 = bits_value (demodulate ?a)" "x_r14 s1 = 2" "\<not> x_final s1" "x_r16 s1 = x_r16 s" "x_r20 s1 = x_r20 s" "x_r23 s1 = x_r23 s"
    using Suc.prems(4) by (auto simp flip: append_assoc)
  let ?x = "of_nat (bits_value (demodulate ?a)) :: u8" and ?i = "x_r20 s"
  let ?s = "s1\<lparr>x_r23 := x_r23 s1 + 1, x_r20 := ?i + 1, x_r15 := 7, x_r21 := 0, x_r4 := 1\<rparr>" and ?m = "take ?i m @ [?x] @ drop (?i + 1) m"
  have "process_packet_byte m s1 = Some (?m, ?s)"
    using Suc.prems s1 by (simp add: process_packet_byte_def awr_cput cput_def RXP_BUFFER_LIMIT_def)
  then have run: "rx_bits m s (zs @ ys) = rx_bits ?m ?s (?zs @ ys)" using s1(1) by simp
  have "\<exists>s'. rx_bits ?m ?s (?zs @ ys) = final (take (x_r20 ?s) ?m @ received_bytes (Suc n) ?zs @ drop (x_r20 ?s + Suc n) ?m) s' \<bind> (\<lambda>(m, s). rx_bits m s ys)
    \<and> x_r20 s' = (if RXP_BUFFER_LIMIT > x_r20 ?s + Suc n then x_r20 ?s + Suc n else 4) \<and> x_r14 s' = 2 \<and> \<not> x_final s'"
    by (rule Suc.IH) (use Suc.prems s1 in simp_all)
  moreover have "take (x_r20 ?s) ?m = take ?i m @ [?x]" "drop (x_r20 ?s + Suc n) ?m = drop (?i + Suc (Suc n)) m" using Suc.prems(9) by (simp_all add: add.commute)
  ultimately show ?case using run by (simp only: append_assoc received_bytes.simps append_Cons append_Nil) auto
qed

section \<open>A whole frame\<close>

text \<open>A frame as the line delivers it: head and length word as they were sent, then whatever symbols came for the body.\<close>

definition frame_head :: "bool list" where
  "frame_head = preamble @ manchester (msb_first 8 SFD_VALUE) @ manchester (msb_first 16 RXP_PAYLOAD_LEN)"

definition received_frame :: "bool list \<Rightarrow> u8 list" where
  "received_frame zs = le16 (of_nat RXP_PAYLOAD_LEN) @ received_bytes (RXP_PAYLOAD_LEN + RXP_OTHER) zs"

lemma head_found:
  assumes pre: "rx_bits m s pre = Some (m, s0, [])" "locked s0"
    and w: "rd16 m 0 = Some w" "unat w + 100 \<le> 6004" "unat w + 100 \<le> length m"
  shows "\<exists>s'. rx_bits m s (pre @ manchester (msb_first 8 SFD_VALUE) @ manchester (msb_first 16 RXP_PAYLOAD_LEN)) =
      Some (take (unat w) m @ le16 (of_nat RXP_PAYLOAD_LEN) @ drop (unat w + 2) m, s', [])
    \<and> x_r4 s' = 1 \<and> x_r14 s' = 2 \<and> x_r15 s' = 7 \<and> x_r21 s' = 0 \<and> x_r23 s' = 0 \<and> x_r16 s' = 98 \<and> x_r20 s' = unat w + 2 \<and> \<not> x_final s'"
proof -
  have sf: "RXP_SFD = SFD_VALUE" by (simp add: RXP_SFD_def SFD_VALUE_def)
  have s0: "x_r4 s0 = 1" "x_r14 s0 = 0" "x_r15 s0 = 7" "\<not> x_final s0" using pre(2) by (simp_all add: locked_def)
  from sfd_found[OF s0, of m] obtain s1 where
    s1: "rx_bits m s0 (manchester (msb_first 8 SFD_VALUE)) = Some (m, s1, [])" "x_r4 s1 = 1" "x_r14 s1 = 1" "x_r15 s1 = 15" "x_r16 s1 = 0" "\<not> x_final s1"
    by (auto simp: sf)
  from length_found[OF s1(2-4,6), of m RXP_PAYLOAD_LEN] obtain s2 where
    s2: "rx_bits m s1 (manchester (msb_first 16 RXP_PAYLOAD_LEN)) = process_length m s2 \<bind> (\<lambda>(m, s). Some (m, s, []))"
    "x_r16 s2 = take_bit 16 RXP_PAYLOAD_LEN" "x_r14 s2 = 1" "\<not> x_final s2" using s1(5) by auto
  have r16: "x_r16 s2 = RXP_PAYLOAD_LEN" using s2(2) by (simp add: RXP_PAYLOAD_LEN_def take_bit_nat_eq_self)
  obtain wi where wi: "uint w = int wi" "unat w = wi" by (metis uint_unat)
  have "cput m (uint w) (le16 (of_nat RXP_PAYLOAD_LEN)) = Some (take wi m @ le16 (of_nat RXP_PAYLOAD_LEN) @ drop (wi + 2) m)"
    using w(2,3) unfolding wi by (simp add: cput_def)
  then have "process_length m s2 = Some (take wi m @ le16 (of_nat RXP_PAYLOAD_LEN) @ drop (wi + 2) m,
      s2\<lparr>x_r20 := wi + 2, x_r15 := 7, x_r21 := 0, x_r23 := 0, x_r16 := 98, x_r14 := 2, x_r4 := 1\<rparr>)"
    using r16 w wi by (simp add: process_length_def RXP_BUFFER_LIMIT_def RXP_PAYLOAD_LEN_def RXP_OTHER_def)
  with s2 rx_bits_append[OF pre(1), of "manchester (msb_first 8 SFD_VALUE) @ manchester (msb_first 16 RXP_PAYLOAD_LEN)"]
    rx_bits_append[OF s1(1), of "manchester (msb_first 16 RXP_PAYLOAD_LEN)"] wi(2)
  show ?thesis by simp
qed

lemma frame_found:
  assumes pre: "rx_bits m s pre = Some (m, s0, [])" "locked s0"
    and w: "rd16 m 0 = Some w" "in_ring w" "unat w + 100 \<le> 6004" "6005 \<le> length m" and zs: "length zs = 1568"
    and r: "rd16 m 2 = Some r" "rx_next w 74 \<noteq> r"
  defines "m' \<equiv> le16 (rx_next w 74) @ drop 2 (take (unat w) m @ received_frame zs @ drop (unat w + 100) m)"
  shows "\<exists>s'. rx_bits m s (pre @ manchester (msb_first 8 SFD_VALUE) @ manchester (msb_first 16 RXP_PAYLOAD_LEN) @ zs) = Some (m', s', [])
    \<and> searching 1 0 0 s'"
proof -
  let ?l = "le16 (of_nat RXP_PAYLOAD_LEN) :: u8 list"
  let ?m = "take (unat w) m @ ?l @ drop (unat w + 2) m"
  have "unat w + 100 \<le> length m" using w(3,4) by simp
  from head_found[OF pre w(1,3) this] obtain s1 where
    s1: "rx_bits m s (pre @ manchester (msb_first 8 SFD_VALUE) @ manchester (msb_first 16 RXP_PAYLOAD_LEN)) = Some (?m, s1, [])"
    "x_r4 s1 = 1" "x_r14 s1 = 2" "x_r15 s1 = 7" "x_r21 s1 = 0" "x_r23 s1 = 0" "x_r16 s1 = 98" "x_r20 s1 = unat w + 2" "\<not> x_final s1" by blast
  have lm: "length ?m = length m" using w(3,4) by simp
  have "x_r23 s1 + Suc 97 = x_r16 s1" "length zs = 16 * Suc 97" "x_r20 s1 + Suc 97 \<le> 6004" "x_r20 s1 + Suc 97 \<le> length ?m"
    using s1 zs w(3,4) lm by simp_all
  from body_found[OF s1(2-5,9) this, of "[]"] obtain s2 where
    s2: "rx_bits ?m s1 zs = final (take (unat w + 2) ?m @ received_bytes 98 zs @ drop (unat w + 100) ?m) s2 \<bind> (\<lambda>(m, s). Some (m, s, []))"
    "x_r20 s2 = (if 6004 > unat w + 100 then unat w + 100 else 4)" "\<not> x_final s2" using s1(8) by (auto simp: RXP_BUFFER_LIMIT_def)
  have m2: "take (unat w + 2) ?m @ received_bytes 98 zs @ drop (unat w + 100) ?m = take (unat w) m @ received_frame zs @ drop (unat w + 100) m"
    (is "_ = ?n") using w(3,4) by (simp add: received_frame_def RXP_PAYLOAD_LEN_def RXP_OTHER_def add.commute[of 100])
  have w4: "4 \<le> unat w" using w(2) by (simp add: in_ring_def word_le_nat_alt)
  have ln: "length (received_frame zs) = 100" by (simp add: received_frame_def RXP_PAYLOAD_LEN_def RXP_OTHER_def)
  have low: "take 4 ?n = take 4 m" "length ?n = length m" using w4 w(3,4) ln by (simp_all add: min_absorb1)
  have "unat (w + 74 + 26) = unat w + 100" using w(3) by (simp add: unat_word_ariths)
  then have nx: "x_r20 s2 = unat (rx_next w 74)"
    using s2(2) by (simp add: rx_next_def BUFFER_LIMIT_def word_le_nat_alt)
  have "rd16 ?n 2 = Some r" using rd16_low[OF low, of 2] r(1) by simp
  moreover have "unat r \<noteq> unat (rx_next w 74)" using r(2) by (simp add: word_unat_eq_iff)
  moreover have "cput ?n 0 (le16 (rx_next w 74)) = Some m'" using low(2) w(4) unfolding m'_def by (simp add: cput_def numeral_2_eq_2)
  ultimately have "final ?n s2 = Some (m', (rx_reset 0 s2)\<lparr>x_final := False\<rparr>)" using nx by (simp add: final_def)
  with rx_bits_append[OF s1(1), of zs] s2(1) m2 show ?thesis by (simp add: searching_def rx_reset_def)
qed

section \<open>Frames one behind the other\<close>

text \<open>Frames of a hundred bytes divide the ring evenly.\<close>

definition aligned :: "u16 \<Rightarrow> bool" where
  "aligned w \<longleftrightarrow> in_ring w \<and> unat w mod 100 = 4"

lemma aligned_room: "aligned w \<Longrightarrow> unat w + 100 \<le> 6004"
proof -
  assume "aligned w"
  then have "unat w < 6004" "unat w mod 100 = 4" by (auto simp: aligned_def in_ring_def BUFFER_LIMIT_def word_less_nat_alt)
  moreover obtain q where "unat w = 100 * q + unat w mod 100" by (metis mult_div_mod_eq)
  ultimately have "unat w = 100 * q + 4" "q < 60" by simp_all
  then show ?thesis by simp
qed

lemma aligned_next:
  assumes "aligned w"
  shows "aligned (rx_next w 74)"
proof -
  have u: "unat (w + 74 + 26) = unat w + 100" using aligned_room[OF assms] by (simp add: unat_word_ariths)
  have "in_ring (rx_next w 74)" using assms by (intro rx_next_in_ring) (simp_all add: aligned_def RX_MTU_VALUE_def)
  moreover have "unat (rx_next w 74) mod 100 = 4"
  proof (cases "BUFFER_LIMIT \<le> w + 74 + 26")
    case False
    then have "unat (rx_next w 74) = unat w + 100" unfolding rx_next_def using u by presburger
    then show ?thesis using assms by (simp add: aligned_def)
  qed (simp add: rx_next_def)
  ultimately show ?thesis by (simp add: aligned_def)
qed

lemma received_frame_len: "length (received_frame z) = 100" "frame_len (received_frame z) = 74"
proof -
  show "length (received_frame z) = 100" by (simp add: received_frame_def RXP_PAYLOAD_LEN_def RXP_OTHER_def)
  have "rd16 (received_frame z) 0 = Some 74" unfolding received_frame_def by (simp add: bytes_simps RXP_PAYLOAD_LEN_def)
  then show "frame_len (received_frame z) = 74" by (simp add: frame_len_def)
qed

definition received_line :: "bool list list \<Rightarrow> bool list" where
  "received_line zs = (case zs of [] \<Rightarrow> [] | z # zs \<Rightarrow> frame_head @ z @ concat (map (\<lambda>z. separator @ frame_head @ z) zs))"

text \<open>The ring in the receiver's memory: published frames between the indices, the write index on the grid.\<close>

definition rx_ring :: "u8 list \<Rightarrow> u16 \<Rightarrow> u8 list list \<Rightarrow> u16 \<Rightarrow> bool" where
  "rx_ring m r gs w \<longleftrightarrow> rd16 m 2 = Some r \<and> rd16 m 0 = Some w \<and> in_ring r \<and> aligned w \<and> 6005 \<le> length m
     \<and> ring_frames m r gs w \<and> (\<forall>g\<in>set gs. frame_len g \<le> RX_MTU_VALUE)"

lemma publish_keeps: "drop 4 (le16 x @ drop 2 y) = drop 4 y" "take 2 (drop 2 (le16 x @ drop 2 y)) = take 2 (drop 2 y)"
  "2 \<le> length y \<Longrightarrow> length (le16 x @ drop 2 y) = length y"
  by simp_all

lemma frame_stored:
  assumes pre: "rx_bits m s pre = Some (m, s0, [])" "locked s0" and ring: "rx_ring m r gs w" "ring_room r gs w (received_frame z)"
    and z: "length z = 1568"
  shows "\<exists>m' s'. rx_bits m s (pre @ manchester (msb_first 8 SFD_VALUE) @ manchester (msb_first 16 RXP_PAYLOAD_LEN) @ z) = Some (m', s', [])
    \<and> searching 1 0 0 s' \<and> rx_ring m' r (gs @ [received_frame z]) (rx_next w 74) \<and> length m' = length m"
proof -
  let ?f = "received_frame z"
  have rg: "rd16 m 2 = Some r" "rd16 m 0 = Some w" "in_ring r" "aligned w" "6005 \<le> length m" "ring_frames m r gs w"
    "\<forall>g\<in>set gs. frame_len g \<le> RX_MTU_VALUE" using ring(1) by (simp_all add: rx_ring_def)
  have w: "in_ring w" "unat w + 100 \<le> 6004" using rg(4) aligned_room by (auto simp: aligned_def)
  have l: "frame_len ?f \<le> RX_MTU_VALUE" by (simp add: received_frame_len RX_MTU_VALUE_def)
  have ne: "rx_next w 74 \<noteq> r" using ring_room_first[OF rg(6) ring(2) w(1) l] by (simp add: received_frame_len)
  let ?n = "take (unat w) m @ ?f @ drop (unat w + 100) m"
  let ?m = "le16 (rx_next w 74) @ drop 2 ?n"
  from frame_found[OF pre rg(2) w rg(5) z rg(1) ne] obtain s' where
    run: "rx_bits m s (pre @ manchester (msb_first 8 SFD_VALUE) @ manchester (msb_first 16 RXP_PAYLOAD_LEN) @ z) = Some (?m, s', [])" "searching 1 0 0 s'"
    by blast
  have fit: "unat w + length ?f \<le> length m" using w(2) rg(5) by (simp add: received_frame_len)
  have w4: "4 \<le> unat w" using w(1) by (simp add: in_ring_def word_le_nat_alt)
  have n: "length ?n = length m" "take 4 ?n = take 4 m" using fit w4 by (simp_all add: received_frame_len min_absorb1)
  have "2 \<le> length ?n" unfolding n(1) using rg(5) by simp
  note m = publish_keeps(1)[of "rx_next w 74" ?n] publish_keeps(3)[OF this, of "rx_next w 74"] publish_keeps(2)[of "rx_next w 74" ?n]
  have "ring_frames ?n r (gs @ [?f]) (rx_next w 74)"
    using ring_frames_snoc[OF fit w(1) l rg(6) ring(2)] by (simp add: received_frame_len)
  from ring_frames_low[OF m(1,2) rg(3) _ this] rg(7) l have "ring_frames ?m r (gs @ [?f]) (rx_next w 74)" by simp
  moreover have "rd16 ?m 2 = Some r" using rd16_index_part[OF m(3,2)] rd16_low[OF n(2,1), of 2] n(1) rg(1,5) by simp
  moreover have "rd16 ?m 0 = Some (rx_next w 74)" by (simp add: bytes_simps)
  ultimately have "rx_ring ?m r (gs @ [?f]) (rx_next w 74)"
    using rg aligned_next[OF rg(4)] m(2) n(1) l by (simp add: rx_ring_def del: length_append length_drop)
  moreover have "length ?m = length m" by (rule trans[OF m(2) n(1)])
  ultimately show ?thesis using run by blast
qed

lemma frames_stored:
  assumes "searching 1 0 prev s" "prev \<le> 1" "rx_ring m r gs w" "ring_rooms r gs w (map received_frame zs)" "\<forall>z\<in>set zs. length z = 1568"
  shows "\<exists>m' s' w' prev'. rx_bits m s (concat (map (\<lambda>z. separator @ frame_head @ z) zs)) = Some (m', s', []) \<and> searching 1 0 prev' s' \<and> prev' \<le> 1
    \<and> rx_ring m' r (gs @ map received_frame zs) w' \<and> length m' = length m"
  using assms
proof (induction zs arbitrary: s m gs w prev)
  case Nil
  then show ?case by auto
next
  case (Cons z zs)
  from preamble_found(2)[OF Cons.prems(1,2), of m] obtain s0 where s0: "rx_bits m s (separator @ preamble) = Some (m, s0, [])" "locked s0" by blast
  from frame_stored[OF s0 Cons.prems(3), of z] Cons.prems(4,5) obtain m1 s1 where
    s1: "rx_bits m s (separator @ frame_head @ z) = Some (m1, s1, [])" "searching 1 0 0 s1"
      "rx_ring m1 r (gs @ [received_frame z]) (rx_next w 74)" "length m1 = length m" by (auto simp: frame_head_def)
  have "ring_rooms r (gs @ [received_frame z]) (rx_next w 74) (map received_frame zs)"
    using Cons.prems(4) by (simp add: received_frame_len)
  from Cons.IH[OF s1(2) _ s1(3) this] Cons.prems(5) obtain m' s' w' prev' where
    "rx_bits m1 s1 (concat (map (\<lambda>z. separator @ frame_head @ z) zs)) = Some (m', s', [])" "searching 1 0 prev' s'" "prev' \<le> 1"
    "rx_ring m' r ((gs @ [received_frame z]) @ map received_frame zs) w'" "length m' = length m1" by auto
  with rx_bits_append[OF s1(1)] s1(4) show ?case by auto
qed

lemma line_stored:
  assumes s: "searching 1 0 prev s" "prev \<le> 1" and ring: "rx_ring m r gs w" "ring_rooms r gs w (map received_frame zs)" "\<forall>z\<in>set zs. length z = 1568"
  shows "\<exists>m' s' w' prev'. rx_bits m s (received_line zs) = Some (m', s', []) \<and> searching 1 0 prev' s' \<and> prev' \<le> 1
    \<and> rx_ring m' r (gs @ map received_frame zs) w' \<and> length m' = length m"
proof (cases zs)
  case Nil
  with assms show ?thesis by (auto simp: received_line_def)
next
  case (Cons z zs')
  from preamble_found(1)[OF s, of m] obtain s0 where s0: "rx_bits m s preamble = Some (m, s0, [])" "locked s0" by blast
  from frame_stored[OF s0 ring(1), of z] ring(2,3) Cons obtain m1 s1 where
    s1: "rx_bits m s (frame_head @ z) = Some (m1, s1, [])" "searching 1 0 0 s1"
      "rx_ring m1 r (gs @ [received_frame z]) (rx_next w 74)" "length m1 = length m" by (auto simp: frame_head_def)
  have "ring_rooms r (gs @ [received_frame z]) (rx_next w 74) (map received_frame zs')"
    using ring(2) Cons by (simp add: received_frame_len)
  from frames_stored[OF s1(2) _ s1(3) this] ring(3) Cons obtain m' s' w' prev' where
    "rx_bits m1 s1 (concat (map (\<lambda>z. separator @ frame_head @ z) zs')) = Some (m', s', [])" "searching 1 0 prev' s'" "prev' \<le> 1"
    "rx_ring m' r ((gs @ [received_frame z]) @ map received_frame zs') w'" "length m' = length m1" by auto
  with rx_bits_append[OF s1(1)] s1(4) Cons show ?thesis by (auto simp: received_line_def)
qed

end
