(* ===== verification/Pru_Link.thy ===== *)
theory Pru_Link
  imports Pru_Receive
begin

text \<open>
  The light link: the transmitter's PRU, the line and the receiver's PRU between the two rings. What holds when the ring of the
  transmitter runs empty, when frames have another length, and when the transmitter's program is built from its source, is
  also here, and the receiver's driver thread and PRU as one system on shared memory.
\<close>

section \<open>Between frames\<close>

text \<open>The least number of symbols before the receiver's program writes to memory.\<close>

definition symbols_needed :: "rxpru \<Rightarrow> nat" where
  "symbols_needed s = min 49 (if x_r4 s = 0 then 49 else if x_r14 s = 0 then 34 + 2 * x_r15 s - (x_r4 s - 1)
     else if x_r14 s = 1 then 2 + 2 * x_r15 s - (x_r4 s - 1) else 0)"

lemma needed_step:
  assumes "1 < symbols_needed s" "x_r4 s \<le> 2"
  shows "\<exists>s'. rx_bit m r7 s = Some (m, s') \<and> symbols_needed s \<le> symbols_needed s' + 1 \<and> x_r4 s' \<le> 2 \<and> x_final s' = x_final s"
proof -
  have "x_r4 s = 0 \<or> x_r4 s = 1 \<or> x_r4 s = 2" using assms(2) by linarith
  then show ?thesis
  proof (elim disjE)
    assume "x_r4 s = 0"
    then show ?thesis by (auto simp: rx_bit_def preamble_detection_def Let_def symbols_needed_def)
  next
    assume "x_r4 s = 1"
    then show ?thesis using assms by (auto simp: rx_bit_def decode_ook_first_def symbols_needed_def)
  next
    assume 2: "x_r4 s = 2"
    have pk: "\<exists>s'. check_packet_state m r7 b s = Some (m, s') \<and> symbols_needed s \<le> symbols_needed s' + 1 \<and> x_r4 s' \<le> 2 \<and> x_final s' = x_final s" for b
    proof (cases "x_r14 s = 0")
      case True
      then show ?thesis using 2 by (auto simp: check_packet_state_def rx_sfd_def rx_reset_def Let_def symbols_needed_def)
    next
      case False
      then have "x_r14 s = 1" "0 < x_r15 s" using assms 2 by (auto simp: symbols_needed_def split: if_splits)
      then show ?thesis using 2 by (auto simp: check_packet_state_def rx_length_def Let_def symbols_needed_def)
    qed
    moreover have "symbols_needed (rx_reset r7 s) = 49" "x_r4 (rx_reset r7 s) = 0" "x_final (rx_reset r7 s) = x_final s"
      by (simp_all add: symbols_needed_def rx_reset_def)
    moreover have "symbols_needed s \<le> 49" by (simp add: symbols_needed_def)
    ultimately show ?thesis using 2 by (auto simp: rx_bit_def decode_ook_second_def)
  qed
qed

lemma quiet_symbols:
  "length bs < symbols_needed s \<Longrightarrow> x_r4 s \<le> 2 \<Longrightarrow> \<not> x_final s \<Longrightarrow> \<exists>s'. rx_bits m s bs = Some (m, s', [])"
proof (induction bs arbitrary: s)
  case (Cons b bs)
  then have "1 < symbols_needed s" by simp
  from needed_step[OF this Cons.prems(2), of m "of_bool b"] obtain s1 where
    s1: "rx_bit m (of_bool b) s = Some (m, s1)" "symbols_needed s \<le> symbols_needed s1 + 1" "x_r4 s1 \<le> 2" "\<not> x_final s1"
    using Cons.prems(3) by auto
  then have "length bs < symbols_needed s1" using Cons.prems(1) by simp
  from Cons.IH[OF this s1(3,4)] s1(1) Cons.prems(3) show ?case by simp
qed simp

text \<open>A frame with another length word is passed over.\<close>

lemma other_length_ignored:
  assumes pre: "searching 1 0 prev s" "prev \<le> 1" and l: "l < 65536" "l \<noteq> RXP_PAYLOAD_LEN"
  shows "\<exists>s'. rx_bits m s (preamble @ manchester (msb_first 8 SFD_VALUE) @ manchester (msb_first 16 l)) = Some (m, s', []) \<and> searching 1 0 0 s'"
proof -
  have sf: "RXP_SFD = SFD_VALUE" by (simp add: RXP_SFD_def SFD_VALUE_def)
  from preamble_found(1)[OF pre, of m] obtain s0 where s0: "rx_bits m s preamble = Some (m, s0, [])" "locked s0" by blast
  then have k: "x_r4 s0 = 1" "x_r14 s0 = 0" "x_r15 s0 = 7" "\<not> x_final s0" by (simp_all add: locked_def)
  from sfd_found[OF k, of m] obtain s1 where
    s1: "rx_bits m s0 (manchester (msb_first 8 SFD_VALUE)) = Some (m, s1, [])" "x_r4 s1 = 1" "x_r14 s1 = 1" "x_r15 s1 = 15" "x_r16 s1 = 0" "\<not> x_final s1"
    by (auto simp: sf)
  from length_found[OF s1(2-4,6), of m l] obtain s2 where
    s2: "rx_bits m s1 (manchester (msb_first 16 l)) = process_length m s2 \<bind> (\<lambda>(m, s). Some (m, s, []))"
    "x_r16 s2 = l" "\<not> x_final s2" using s1(5) l(1) by (auto simp: take_bit_nat_eq_self)
  have "process_length m s2 = Some (m, rx_reset 0 s2)" using s2(2) l(2) by (simp add: process_length_def)
  with s2 rx_bits_append[OF s0(1), of "manchester (msb_first 8 SFD_VALUE) @ manchester (msb_first 16 l)"]
    rx_bits_append[OF s1(1), of "manchester (msb_first 16 l)"]
  show ?thesis by (simp add: searching_def rx_reset_def)
qed

section \<open>A ring that ran empty\<close>

text \<open>When the transmitter waits, the line has already seen a part of the next preamble; the real one then begins behind
  it, and the receiver, which counts the symbols of both, looks for the delimiter too early.\<close>

lemma too_early:
  assumes "locked s"
  shows "\<exists>s'. rx_bits m s [True, False] = Some (m, s', []) \<and> searching 1 0 0 s'"
proof -
  have b: "bit RXP_SFD 7" by (simp add: RXP_SFD_def bit_iff_odd)
  then have "odd (drop_bit 7 RXP_SFD)" by (simp add: bit_iff_odd_drop_bit)
  then show ?thesis using pair_clean[of s m False "[]"] assms
    by (simp add: locked_def check_packet_state_def rx_sfd_def Let_def odd_xor_of_bool rx_reset_def searching_def)
qed

lemma search_append: "search st (xs @ ys) = search st xs \<bind> (\<lambda>st. search st ys)"
  by (induction xs arbitrary: st) (auto split: Option.bind_splits)

lemma alternating_found_nothing:
  "\<forall>j\<in>set [0..<12]. (case search (1, 0, 0) (concat (replicate j [True, False])) of Some (c, p, v) \<Rightarrow> v = 0 | None \<Rightarrow> False)"
  by code_simp

lemma delimiter_length_symbols: "manchester (msb_first 8 SFD_VALUE) @ manchester (msb_first 16 RXP_PAYLOAD_LEN) =
    [False, True, True, False, False, True, True, False, True, False, True, False, False, True, False, True]
    @ concat (replicate 9 [True, False]) @ [False, True, True, False, True, False, False, True, True, False, False, True, True, False]"
proof -
  have "rev [0..<16] = [15, 14, 13, 12, 11, 10, 9, 8, 7, 6, 5, 4, 3, 2, 1, 0]" "rev [0..<8] = [7, 6, 5, 4, 3, 2, 1, 0]" by code_simp+
  moreover have "concat (replicate 9 [True, False]) = [True, False, True, False, True, False, True, False, True, False,
    True, False, True, False, True, False, True, False]" by code_simp
  ultimately show ?thesis by (simp add: msb_first_def SFD_VALUE_def RXP_PAYLOAD_LEN_def bit_iff_odd)
qed

lemma rest_not_found:
  "search (c, p, 0) (manchester (msb_first 8 SFD_VALUE) @ manchester (msb_first 16 RXP_PAYLOAD_LEN)) = Some (2, 0, 0)"
proof -
  have 1: "search (1, 0, 0) [True, True, False, False, True, True, False, True, False, True, False, False, True, False, True] = Some (3, 0, 1)"
    by code_simp
  have 2: "search (3, 0, 1) (concat (replicate 9 [True, False])) = Some (2, 2, 0)" by code_simp
  have 3: "search (2, 2, 0) [False, True, True, False, True, False, False, True, True, False, False, True, True, False] = Some (2, 0, 0)"
    by code_simp
  have "search_step (c, p, 0) False = Some (1, 0, 0)" by simp
  then have "search (c, p, 0) [False, True, True, False, False, True, True, False, True, False, True, False, False, True, False, True] = Some (3, 0, 1)"
    using 1 by (simp del: search_step.simps)
  then show ?thesis unfolding delimiter_length_symbols search_append using 2 3 by (simp only: Option.bind.simps)
qed

lemma lost_head:
  assumes s: "searching 1 0 prev s" "prev \<le> 1" and q: "3 \<le> q" "q \<le> 14"
  shows "\<exists>s'. rx_bits m s (take (2 * q) tail_symbols @ frame_head) = Some (m, s', []) \<and> searching 2 0 0 s'"
proof -
  define j where "j = q - 3"
  have j: "q = j + 3" "j < 12" using q by (simp_all add: j_def)
  let ?sl = "manchester (msb_first 8 SFD_VALUE) @ manchester (msb_first 16 RXP_PAYLOAD_LEN)"
  have alt: "concat (replicate a [True, False]) @ concat (replicate b [True, False]) = concat (replicate (a + b) [True, False])" for a b :: nat
    by (simp add: replicate_add)
  have "concat (replicate 12 [True, False]) = concat (replicate (j + 1) [True, False]) @ concat (replicate (11 - j) [True, False])"
    unfolding alt using j(2) by simp
  moreover have "length (concat (replicate (j + 1) [True, False])) = 2 * (j + 1)" by (simp add: length_concat sum_list_replicate)
  ultimately have "take (2 * (j + 1)) (concat (replicate 12 [True, False])) = concat (replicate (j + 1) [True, False])"
    by (metis append_eq_conv_conj)
  moreover have "length (concat (replicate 12 [True, False])) = 24" by (simp add: length_concat sum_list_replicate)
  ultimately have "take (2 * q) tail_symbols = separator @ concat (replicate (j + 1) [True, False])"
    using j by (simp add: tail_symbols_def separator_def preamble_alternates)
  moreover have "concat (replicate (j + 1) [True, False]) @ concat (replicate 12 [True, False])
      = concat (replicate 12 [True, False]) @ [True, False] @ concat (replicate j [True, False])"
    unfolding alt using alt[of 12 "1 + j"] by (simp add: add.commute)
  ultimately have str: "take (2 * q) tail_symbols @ frame_head = (separator @ preamble) @ [True, False] @ concat (replicate j [True, False]) @ ?sl"
    by (simp add: frame_head_def preamble_alternates)
  from preamble_found(2)[OF s, of m] obtain s0 where s0: "rx_bits m s (separator @ preamble) = Some (m, s0, [])" "locked s0" by blast
  from too_early[OF s0(2), of m] obtain s1 where s1: "rx_bits m s0 [True, False] = Some (m, s1, [])" "searching 1 0 0 s1" by blast
  obtain c p where "search (1, 0, 0) (concat (replicate j [True, False])) = Some (c, p, 0)"
    using bspec[OF alternating_found_nothing, of j] j(2) by (auto split: option.splits)
  then have "search (1, 0, 0) (concat (replicate j [True, False]) @ ?sl) = Some (2, 0, 0)"
    unfolding search_append[of _ "concat (replicate j [True, False])"] using rest_not_found by (simp only: Option.bind.simps)
  from search_runs[OF s1(2) this, of m] obtain s2 where
    s2: "rx_bits m s1 (concat (replicate j [True, False]) @ ?sl) = Some (m, s2, [])" "searching 2 0 0 s2" by blast
  show ?thesis unfolding str using rx_bits_append[OF s0(1)] rx_bits_append[OF s1(1)] s2 by auto
qed

section \<open>From ring to ring\<close>

lemma frame_symbols_head: "frame_len f = 74 \<Longrightarrow> frame_symbols f = frame_head @ body_symbols (drop 2 f)"
  by (simp add: frame_symbols_def frame_head_def RXP_PAYLOAD_LEN_def)

lemma line_received: "\<forall>f\<in>set fs. frame_len f = 74 \<Longrightarrow> line_symbols fs = received_line (map (\<lambda>f. body_symbols (drop 2 f)) fs)"
  by (induction fs rule: line_symbols.induct) (auto simp: received_line_def frame_symbols_head)

text \<open>Noise in the body of a frame: the bytes of which some symbol was hit.\<close>

definition damaged_bytes :: "u8 list \<Rightarrow> bool list \<Rightarrow> nat list" where
  "damaged_bytes f z = filter (\<lambda>i. take 16 (drop (16 * i) z) \<noteq> take 16 (drop (16 * i) (body_symbols (drop 2 f)))) [0..<98]"

definition body_noise :: "u8 list \<Rightarrow> bool list \<Rightarrow> bool" where
  "body_noise f z \<longleftrightarrow> length z = 1568 \<and> length (damaged_bytes f z) \<le> 8"

lemma received_bytes_nth: "i < n \<Longrightarrow> received_bytes n zs ! i = of_nat (bits_value (demodulate (take 16 (drop (16 * i) zs))))"
proof (induction n zs arbitrary: i rule: received_bytes.induct)
  case (2 n zs)
  then show ?case by (cases i) (simp_all add: algebra_simps)
qed simp

lemma frame_received: "packet_fits p \<Longrightarrow> frame_len p = 74 \<Longrightarrow> received_frame (body_symbols (drop 2 (frame_of p))) = frame_of p"
proof -
  assume p: "packet_fits p" "frame_len p = 74"
  note b = packet_fits_bounds[OF p(1)] packet_fits_len[OF p(1)]
  have l: "length (frame_of p) = 100" using frame_of_len[OF p(1)] p by (simp add: packet_fits_def)
  obtain a c ps where c: "p = a # c # ps" using b(1) by (cases p; cases "tl p") auto
  have "of_le16 a c = 74" using b(2) p(2) c by (simp add: rd16_def ard_Cons)
  then have "take 2 (frame_of p) = le16 74"
    unfolding frame_of_def c using le16_of_le16[of a c] by simp
  then have "frame_of p = le16 74 @ drop 2 (frame_of p)" by (metis append_take_drop_id)
  moreover have "received_bytes 98 (body_symbols (drop 2 (frame_of p))) = drop 2 (frame_of p)"
    using received_body_symbols[of "drop 2 (frame_of p)"] l by simp
  ultimately show ?thesis by (simp add: received_frame_def RXP_PAYLOAD_LEN_def RXP_OTHER_def)
qed

lemma noise_arrives:
  assumes p: "packet_fits p" "frame_len p = 74" and z: "body_noise (frame_of p) z"
  shows "arrives p (received_frame z)"
proof -
  let ?f = "frame_of p" and ?g = "received_frame z" and ?D = "damaged_bytes (frame_of p) z"
  have lf: "length ?f = 100" "length p = 84" using frame_of_len[OF p(1)] p by (simp_all add: packet_fits_def)
  have f: "?f = received_frame (body_symbols (drop 2 ?f))" using frame_received[OF p] by simp
  have two: "take 2 (received_frame y) = le16 74" for y by (simp add: received_frame_def RXP_PAYLOAD_LEN_def)
  have same: "?f ! i = ?g ! i" if "i < 100" "\<not> (2 \<le> i \<and> i - 2 \<in> set ?D)" for i
  proof (cases "i < 2")
    case True
    have "take 2 ?f = take 2 ?g" by (subst f) (simp only: two)
    then show ?thesis using True by (metis nth_take)
  next
    case False
    have nth: "received_frame y ! i = received_bytes 98 y ! (i - 2)" for y
      using False by (simp add: received_frame_def RXP_PAYLOAD_LEN_def RXP_OTHER_def nth_append)
    have "i - 2 < 98" "take 16 (drop (16 * (i - 2)) z) = take 16 (drop (16 * (i - 2)) (body_symbols (drop 2 ?f)))"
      using that False by (auto simp: damaged_bytes_def)
    then show ?thesis by (subst f) (simp add: nth received_bytes_nth)
  qed
  have "frame_errors ?f ?g \<subseteq> (\<lambda>i. i + 2) ` set ?D"
  proof
    fix i assume "i \<in> frame_errors ?f ?g"
    then have "2 \<le> i" "i - 2 \<in> set ?D" using same[of i] lf(1) by (auto simp: frame_errors_def)
    then show "i \<in> (\<lambda>i. i + 2) ` set ?D" by (intro image_eqI[of _ _ "i - 2"]) simp_all
  qed
  then have "card (frame_errors ?f ?g) \<le> card ((\<lambda>i. i + 2) ` set ?D)" by (intro card_mono) simp_all
  also have "\<dots> \<le> card (set ?D)" by (rule card_image_le) simp
  also have "\<dots> \<le> length ?D" by (rule card_length)
  finally have "card (frame_errors ?f ?g) \<le> 8" using z by (simp add: body_noise_def)
  moreover have "take 2 ?g = take 2 p"
  proof -
    have "take 2 ?f = take 2 p" using lf(2) by (simp add: frame_of_def)
    moreover have "take 2 ?f = take 2 ?g" by (subst f) (simp only: two)
    ultimately show ?thesis by simp
  qed
  ultimately show ?thesis using p(1) lf(2) by (simp add: arrives_def received_frame_len)
qed

text \<open>Room in a ring depends only on the sizes of the frames.\<close>

lemma ring_rooms_sizes:
  assumes "list_all2 (\<lambda>f g. length f = length g \<and> frame_len f = frame_len g) fs gs"
  shows "ring_rooms r es w fs \<Longrightarrow> list_all2 (\<lambda>f g. length f = length g \<and> frame_len f = frame_len g) es ds \<Longrightarrow> ring_rooms r ds w gs"
  using assms
proof (induction fs gs arbitrary: es ds w rule: list_all2_induct)
  case (Cons f fs g gs)
  have "ring_slots r es = ring_slots r ds" if "list_all2 (\<lambda>f g. length f = length g \<and> frame_len f = frame_len g) es ds" for r
    using that by (induction es ds arbitrary: r rule: list_all2_induct) simp_all
  from this[OF Cons.prems(2)] Cons.hyps(1) Cons.IH[of "es @ [f]" "rx_next w (frame_len f)" "ds @ [g]"] Cons.prems show ?case
    by (simp add: ring_room_def list_all2_appendI)
qed simp

lemma link_sends:
  assumes ps: "ps \<noteq> []" "\<forall>p\<in>set ps. packet_fits p \<and> frame_len p = 74"
    and tx: "ring_frames m r (map frame_of ps) w" "in_ring r" "rd16 m 2 = Some r" "rd16 m 0 = Some w" "waiting s"
  shows "\<exists>n words m' s' tail. tx_cycles TX_OTHER_IMAGE n m s = Some (words, m', s') \<and> waiting s' \<and> rd16 m' 2 = Some w \<and> length tail \<le> 30
    \<and> concat (map shifted_out words) = received_line (map (\<lambda>p. body_symbols (drop 2 (frame_of p))) ps) @ tail"
proof -
  have fits: "\<forall>f\<in>set (map frame_of ps). frame_fits f" "\<forall>f\<in>set (map frame_of ps). frame_len f = 74"
    using ps(2) frame_of_len by (auto simp: frame_fits_def packet_fits_def)
  from tx_sends_ring[OF tx(1) _ fits(1) tx(2-5)] ps(1) obtain n words m' s' q where
    a: "q \<le> 15" "tx_cycles TX_OTHER_IMAGE n m s = Some (words, m', s')" "waiting s'" "rd16 m' 2 = Some w"
    "concat (map shifted_out words) = line_symbols (map frame_of ps) @ take (2 * q) tail_symbols" by auto
  have "line_symbols (map frame_of ps) = received_line (map (\<lambda>p. body_symbols (drop 2 (frame_of p))) ps)"
    using line_received[OF fits(2)] by (simp add: comp_def)
  with a show ?thesis
    by (intro exI[of _ n] exI[of _ words] exI[of _ m'] exI[of _ s'] exI[of _ "take (2 * q) tail_symbols"]) simp
qed

lemma link_stores:
  assumes ps: "\<forall>p\<in>set ps. packet_fits p \<and> frame_len p = 74"
    and rx: "searching 1 0 prev x" "prev \<le> 1" "rx_ring m r [] r" "ring_rooms r [] r (map frame_of ps)"
    and zs: "length zs = length ps" "\<forall>z\<in>set zs. length z = 1568" "length noise \<le> 30"
  shows "\<exists>m' x' w. rx_bits m x (received_line zs @ noise) = Some (m', x', []) \<and> rx_ring m' r (map received_frame zs) w"
proof -
  have "\<forall>p\<in>set ps. length (frame_of p) = 100 \<and> frame_len (frame_of p) = 74"
    using ps frame_of_len by (auto simp: packet_fits_def)
  then have "list_all2 (\<lambda>f g. length f = length g \<and> frame_len f = frame_len g) (map frame_of ps) (map received_frame zs)"
    using zs(1) by (auto simp: list_all2_conv_all_nth received_frame_len)
  from ring_rooms_sizes[OF this rx(4)] have rooms: "ring_rooms r [] r (map received_frame zs)" by simp
  from line_stored[OF rx(1-3) rooms zs(2)] obtain m' x1 w prev1 where
    c: "rx_bits m x (received_line zs) = Some (m', x1, [])" "searching 1 0 prev1 x1" "rx_ring m' r (map received_frame zs) w" by auto
  have "length noise < symbols_needed x1" "x_r4 x1 \<le> 2" "\<not> x_final x1" using c(2) zs(3) by (simp_all add: searching_def symbols_needed_def)
  from quiet_symbols[OF this, of m'] obtain x2 where "rx_bits m' x1 noise = Some (m', x2, [])" by blast
  with rx_bits_append[OF c(1), of noise] c(3) show ?thesis by auto
qed

lemma link_delivers:
  assumes ps: "\<forall>p\<in>set ps. packet_fits p \<and> frame_len p = 74"
    and rx: "searching 1 0 prev x" "prev \<le> 1" "rx_ring (rx_pru t) r [] r" "ring_rooms r [] r (map frame_of ps)" "rx_pkt_ok t"
    and zs: "list_all2 (\<lambda>p. body_noise (frame_of p)) ps zs" "length noise \<le> 30"
  shows "\<exists>m x' t'. rx_bits (rx_pru t) x (received_line zs @ noise) = Some (m, x', [])
    \<and> pru_phy_decoding uninit (vlc_rs v) (map (\<lambda>p. (True, False)) ps) (t\<lparr>rx_pru := m\<rparr>) = Some (None, t')
    \<and> map sk_mac (netif_rx t') = map sk_mac (netif_rx t) @ handed_up (map (\<lambda>p. True) ps) ps (map received_frame zs)"
proof -
  have arr: "list_all2 arrives ps (map received_frame zs)"
    using zs(1) ps noise_arrives by (auto simp: list_all2_conv_all_nth)
  have z: "length zs = length ps" "\<forall>z\<in>set zs. length z = 1568"
    using zs(1) by (auto simp: list_all2_conv_all_nth body_noise_def in_set_conv_nth)
  from link_stores[OF ps rx(1-4) z zs(2)] obtain m x' w where
    s: "rx_bits (rx_pru t) x (received_line zs @ noise) = Some (m, x', [])" "rx_ring m r (map received_frame zs) w" by blast
  then have ring: "ring_frames m r (map received_frame zs) w" "in_ring r" "rd16 m 2 = Some r" "rd16 m 0 = Some w"
    by (simp_all add: rx_ring_def)
  from thread_takes_frames[OF arr, of "map (\<lambda>p. True) ps" "t\<lparr>rx_pru := m\<rparr>" r w uninit v] ring rx(5) s(1) show ?thesis
    by (auto simp: rx_pkt_ok_def comp_def)
qed

text \<open>The second symbol of a pair does not matter in the body.\<close>

lemma demodulate_take: "demodulate (take (2 * n) zs) = take n (demodulate zs)"
proof (induction zs arbitrary: n rule: demodulate.induct)
  case (1 a b zs)
  then show ?case by (cases n) simp_all
qed (simp_all add: take_Cons drop_Cons split: nat.split)

lemma demodulate_drop: "demodulate (drop (2 * n) zs) = drop n (demodulate zs)"
proof (induction zs arbitrary: n rule: demodulate.induct)
  case (1 a b zs)
  then show ?case by (cases n) simp_all
qed (simp_all add: take_Cons drop_Cons split: nat.split)

lemma received_bytes_demodulated: "demodulate zs = demodulate ys \<Longrightarrow> received_bytes n zs = received_bytes n ys"
proof (induction n arbitrary: zs ys)
  case (Suc n)
  have d: "demodulate (take 16 zs) = demodulate (take 16 ys)" "demodulate (drop 16 zs) = demodulate (drop 16 ys)"
    using demodulate_take[of 8 zs] demodulate_take[of 8 ys] demodulate_drop[of 8 zs] demodulate_drop[of 8 ys] Suc.prems by simp_all
  show ?case unfolding received_bytes.simps d(1) Suc.IH[OF d(2)] by (rule refl)
qed simp

lemma frame_demodulated:
  assumes "packet_fits p" "frame_len p = 74" "demodulate z = demodulate (body_symbols (drop 2 (frame_of p)))"
  shows "received_frame z = frame_of p"
  unfolding received_frame_def received_bytes_demodulated[OF assms(3)]
  by (rule frame_received[OF assms(1,2), unfolded received_frame_def])

section \<open>After the ring has run empty\<close>

lemma length_shifted_out: "length (concat (map shifted_out words)) = 16 * length words"
  by (induction words) (simp_all add: shifted_out_def)

lemma length_frame_head: "length frame_head = 72"
  by (simp add: frame_head_def preamble_alternates length_concat sum_list_replicate)

text \<open>A single frame, then a wait: whatever burst comes next, the receiver takes the first frame and searches on through the
  head of the next.\<close>

lemma next_frame_lost:
  assumes p: "packet_fits p" "frame_len p = 74"
    and tx: "ring_frames m r [frame_of p] w" "in_ring r" "rd16 m 2 = Some r" "rd16 m 0 = Some w" "waiting s"
    and rx: "searching 1 0 prev x" "prev \<le> 1" "rx_ring mr r' [] r'" "ring_rooms r' [] r' [frame_of p]"
  shows "\<exists>n words m' s'. tx_cycles TX_OTHER_IMAGE n m s = Some (words, m', s') \<and> waiting s' \<and> rd16 m' 2 = Some w
    \<and> (\<forall>n2 words2 m2 m3 s3 rest. tx_cycles TX_OTHER_IMAGE n2 m2 s' = Some (words2, m3, s3) \<longrightarrow>
        concat (map shifted_out words2) = frame_head @ rest \<longrightarrow>
        (\<exists>mx x' w1. rx_bits mr x (take (16 * length words + 72) (concat (map shifted_out (words @ words2)))) = Some (mx, x', [])
          \<and> searching 2 0 0 x' \<and> rx_ring mx r' [frame_of p] w1))"
proof -
  let ?f = "frame_of p"
  have f: "frame_fits ?f" "frame_len ?f = 74" "length ?f = 100" using frame_of_len[OF p(1)] p by (auto simp: frame_fits_def packet_fits_def)
  from tx_sends_ring[OF tx(1) _ _ tx(2-5)] f(1) obtain n words m' s' q where
    a: "q \<le> 15" "tx_cycles TX_OTHER_IMAGE n m s = Some (words, m', s')" "waiting s'" "rd16 m' 2 = Some w"
    "concat (map shifted_out words) = frame_symbols ?f @ take (2 * q) tail_symbols" by auto
  let ?z = "body_symbols (drop 2 ?f)"
  have l: "received_line [?z] = frame_symbols ?f" using frame_symbols_head[OF f(2)] by (simp add: received_line_def)
  have z: "length ?z = 1568" using f(3) by (simp add: length_body_symbols)
  have lt: "length tail_symbols = 30"
    by (simp add: tail_symbols_def separator_def preamble_alternates length_concat sum_list_replicate)
  have "16 * length words = 1640 + 2 * q"
    using arg_cong[OF a(5), of length] a(1) z lt frame_symbols_head[OF f(2)] by (simp add: length_shifted_out length_frame_head)
  then have q: "3 \<le> q" "q \<le> 14" using a(1) by presburger+
  have "ring_rooms r' [] r' (map received_frame [?z])" using rx(4) frame_received[OF p] by simp
  from line_stored[OF rx(1-3) this] z frame_received[OF p] obtain mx x1 w1 prev1 where
    c: "rx_bits mr x (frame_symbols ?f) = Some (mx, x1, [])" "searching 1 0 prev1 x1" "prev1 \<le> 1" "rx_ring mx r' [?f] w1" by (auto simp: l)
  from lost_head[OF c(2,3) q, of mx] obtain x2 where x2: "rx_bits mx x1 (take (2 * q) tail_symbols @ frame_head) = Some (mx, x2, [])" "searching 2 0 0 x2"
    by blast
  have "take (16 * length words + 72) (concat (map shifted_out words) @ frame_head @ rest) = concat (map shifted_out words) @ frame_head" for rest
    unfolding length_shifted_out[of words, symmetric] by (simp add: length_frame_head)
  then have "take (16 * length words + 72) (concat (map shifted_out words) @ frame_head @ rest) = frame_symbols ?f @ take (2 * q) tail_symbols @ frame_head" for rest
    using a(5) by simp
  with rx_bits_append[OF c(1)] x2 c(4) a(2,3,4) show ?thesis
    by (intro exI[of _ n] exI[of _ words] exI[of _ m'] exI[of _ s']) (auto intro!: exI[of _ mx] exI[of _ x2] exI[of _ w1])
qed

section \<open>The program built from its source\<close>

lemma words_run:
  "tx_macs other (8 * n) m s = Some (xs, m1, c1) \<Longrightarrow> running other m s \<Longrightarrow> ring_ahead other (8 * n + 1) w m s \<Longrightarrow>
    \<exists>k words s'. tx_cycles other k m s = Some (words, m1, s') \<and> core s' = c1 \<and> running other m1 s'
      \<and> concat (map shifted_out words) = symbols_of xs"
proof (induction n arbitrary: m s xs)
  case 0
  then show ?case by (intro exI[of _ 0]) auto
next
  case (Suc n)
  have le: "8 \<le> 8 * Suc n" by simp
  from tx_macs_split[OF Suc.prems(1) le] obtain m2 c2 where
    a: "tx_macs other 8 m s = Some (take 8 xs, m2, c2)" and b: "tx_macs other (8 * n) m2 c2 = Some (drop 8 xs, m1, c1)" by auto
  have "8 < 8 * Suc n + 1" by simp
  with Suc.prems(3) a have ne: "\<not> ring_empty m2" "rd16 m2 0 = Some w" unfolding ring_ahead_def by blast+
  from word_on[OF a Suc.prems(2) ne] obtain k x s3 where
    s3: "tx_cycles other k m s = Some ([x], m2, s3)" "shifted_out x = symbols_of (take 8 xs)" "core s3 = c2" "running other m2 s3" by blast
  have same: "tx_macs other j m2 s3 = tx_macs other j m2 c2" for j using tx_macs_core[of other j m2 s3] s3(3) by simp
  have "ring_ahead other (8 * n + 1) w m2 s3"
    unfolding ring_ahead_def same
  proof (intro allI impI)
    fix j ys mk ck assume j: "j < 8 * n + 1" "tx_macs other j m2 c2 = Some (ys, mk, ck)"
    then have "8 + j < 8 * Suc n + 1" by simp
    with tx_macs_join[OF a j(2)] Suc.prems(3) show "\<not> ring_empty mk \<and> rd16 mk 0 = Some w" unfolding ring_ahead_def by blast
  qed
  from Suc.IH[OF _ s3(4) this] b same obtain k2 words s' where
    r: "tx_cycles other k2 m2 s3 = Some (words, m1, s')" "core s' = c1" "running other m1 s'" "concat (map shifted_out words) = symbols_of (drop 8 xs)"
    by auto
  have "symbols_of xs = symbols_of (take 8 xs) @ symbols_of (drop 8 xs)" by (metis append_take_drop_id symbols_of_simps(3))
  with r s3(2) tx_cycles_join[OF s3(1) r(1)] show ?case by (intro exI[of _ "k + k2"] exI[of _ "x # words"] exI[of _ s']) simp
qed

text \<open>With 24 bytes for the sequence number the program reads 20 bytes more than the frame has: the read index lands behind
  the write index, and the program goes on with whatever stands there.\<close>

lemma source_runs_past:
  assumes f: "cget m (uint r) (int (unat l) + 46) = Some f" "frame_len f = l" "unat r + unat l + 46 < 6004"
    and m: "rd16 m 2 = Some r" "rd16 m 0 = Some (rx_next r l)" and s: "waiting s"
  shows "\<exists>n words m' s' tail. tx_cycles TX_OTHER_SOURCE n m s = Some (words, m', s') \<and> \<not> t_poll s'
    \<and> rd16 m' 2 = Some (r + l + 46) \<and> rd16 m' 0 = Some (rx_next r l) \<and> r + l + 46 \<noteq> rx_next r l
    \<and> concat (map shifted_out words) = frame_symbols f @ tail"
proof -
  let ?o = TX_OTHER_SOURCE and ?r = "r + l + 46" and ?w = "rx_next r l"
  let ?s = "s\<lparr>t_r9 := unat r, t_r27 := False, t_r26 := False, t_poll := False\<rparr>" and ?K = "36 + 8 * (unat l + 44)"
  have ur: "unat ?r = unat r + unat l + 46" using f(3) by (simp add: unat_word_ariths)
  have uw: "unat ?w = unat r + unat l + 26" using f(3) by (intro rx_next_straight) simp
  then have ne: "unat r \<noteq> unat ?w" "?r \<noteq> ?w" using ur by (auto simp: word_unat_eq_iff)
  have 1: "tx_cycles ?o 1 m s = Some ([], m, ?s)"
    using s m ne(1) by (simp add: tx_cycle_def check_index_def waiting_def Let_def)
  have run: "running ?o m ?s" using s by (simp add: running_def waiting_def even_pos_def)
  have lf: "length f = unat (frame_len f) + 2 + ?o" "0 < ?o" using cget_SomeD[OF f(1)] f(2) by (simp_all add: TX_OTHER_SOURCE_def nat_add_distrib)
  have fr: "cget m (int (unat r)) (int (unat l) + 46) = Some f" using f(1) by simp
  have "4 \<le> length m" using rd16_len[OF m(1)] by simp
  then obtain m1 where m1: "cput m 2 (le16 ?r) = Some m1" "rd16 m1 2 = Some ?r" "rd16 m1 0 = rd16 m 0" by (rule store_index)
  have i: "unat ?r = (if PRU_BUFFER_LIMIT > unat r + length f then unat r + length f else 4)"
    using lf f(2,3) ur by (simp add: PRU_BUFFER_LIMIT_def TX_OTHER_SOURCE_def)
  have st: "cput m 2 (le16 (of_nat (unat ?r))) = Some m1" using m1(1) by simp
  have c: "t_r2 ?s = 0" "t_r7 ?s = 7" "t_r18 ?s = 0" "t_r9 ?s = unat r" using s by (simp_all add: waiting_def)
  have K: "36 + 8 * (length f - 2) = ?K" using lf f(2) by (simp add: TX_OTHER_SOURCE_def)
  from frame_steps[OF fr lf i st c, unfolded K] obtain ys b d where
    k: "tx_macs ?o ?K m ?s = Some (ys @ [(\<not> b, b, True)], m1, d)" "\<not> finishes ys"
      "symbols_of (ys @ [(\<not> b, b, True)]) = frame_symbols f" "at_end d" by (auto simp: at_end_def)
  have e: "\<not> ring_empty m" "\<not> ring_empty m1" using m m1 ne by (auto simp: ring_empty_def)
  have ah: "ring_ahead ?o ?K ?w m ?s" by (rule ring_ahead_quiet[OF k(1) _ k(2) e(1) m(2)]) simp
  obtain t5 c5 where t5: "tx_macs ?o 5 m1 d = Some (t5, m1, c5)" "\<not> finishes t5" using tail_prefix[OF k(4), of 5 ?o m1] by auto
  obtain t4 c4 where t4: "tx_macs ?o 4 m1 d = Some (t4, m1, c4)" using tail_prefix[OF k(4), of 4 ?o m1] by auto
  have "ring_ahead ?o 5 ?w m1 d"
    by (rule ring_ahead_quiet[where ys = t5 and zs = "[]"]) (use t5 e(2) m1(3) m(2) in simp_all)
  note ah2 = ring_ahead_join[OF k(1) ah this]
  have n: "?K + 5 = 8 * (unat l + 49) + 1" "?K + 4 = 8 * (unat l + 49)" by simp_all
  from words_run[OF tx_macs_join[OF k(1) t4, unfolded n] run ah2[unfolded n]] obtain kk words s' where
    w: "tx_cycles ?o kk m ?s = Some (words, m1, s')" "running ?o m1 s'" "concat (map shifted_out words) = frame_symbols f @ symbols_of t4"
    using k(3) by auto
  have "\<not> t_poll s'" using w(2) by (simp add: running_def)
  with tx_cycles_join[OF 1 w(1)] w(3) m1 m(2) ne(2) show ?thesis
    by (intro exI[of _ "1 + kk"] exI[of _ words] exI[of _ m1] exI[of _ s'] exI[of _ "symbols_of t4"]) simp
qed

section \<open>The receiver's thread and PRU on shared memory\<close>

text \<open>The driver is loaded and the program started on the same memory; then rounds of the thread, words from the line and
  turns of the loop at FINAL follow in any order. A fault would be a step without a result.\<close>

inductive receiver_runs :: "rs_control \<Rightarrow> rx_drv \<Rightarrow> rxpru \<Rightarrow> bool list \<Rightarrow> bool" for rs where
  runs_start: "rx_pkt_ok s \<Longrightarrow> 6180 \<le> length (rx_pru s) \<Longrightarrow> rxpru_start (rx_pru s) = Some (m, x)
     \<Longrightarrow> receiver_runs rs (s\<lparr>rx_pru := m\<rparr>) x []"
| runs_round: "receiver_runs rs s x rest \<Longrightarrow> decode_round uninit rs alloc stop s = Some (None, s')
     \<Longrightarrow> receiver_runs rs s' x rest"
| runs_word: "receiver_runs rs s x rest \<Longrightarrow> readdata w (rx_pru s) x rest = Some (m, x', rest')
     \<Longrightarrow> receiver_runs rs (s\<lparr>rx_pru := m\<rparr>) x' rest'"
| runs_poll: "receiver_runs rs s x rest \<Longrightarrow> poll_final (rx_pru s) x rest = Some (m, x', rest')
     \<Longrightarrow> receiver_runs rs (s\<lparr>rx_pru := m\<rparr>) x' rest'"

lemma round_keeps_rest:
  assumes inv: "rx_inv s" and r: "decode_round uninit (vlc_rs v) alloc stop s = Some (ret, s')"
  shows "length (rx_pru s') = length (rx_pru s) \<and> take 2 (rx_pru s') = take 2 (rx_pru s) \<and> drop 4 (rx_pru s') = drop 4 (rx_pru s)"
proof -
  obtain i where i: "rd16 (rx_pru s) 2 = Some i" and l: "6180 \<le> length (rx_pru s)" using inv by (auto simp: rx_inv_def)
  obtain x len where x: "rd16 (rx_pru s) 0 = Some x" "i \<noteq> x \<longrightarrow> rd16 (rx_pru s) (uint i) = Some len"
    using r i by (auto simp: decode_round_def split: if_splits Option.bind_splits)
  show ?thesis
  proof (cases "i \<noteq> x \<and> 0 < len \<and> len \<le> RX_MTU_VALUE")
    case True
    then have len: "0 < len" "len \<le> RX_MTU_VALUE" by simp_all
    from decode_frame_safe[OF inv i len, of uninit v alloc] obtain s1 where
      s1: "decode_frame uninit (vlc_rs v) alloc i len s = Some (None, s1)" "rx_pru s1 = take 2 (rx_pru s) @ le16 (rx_next i len) @ drop 4 (rx_pru s)"
      by blast
    then have "s' = s1" using r i x True by (auto simp: decode_round_def)
    then show ?thesis using s1(2) l by (simp add: min_absorb2)
  next
    case False
    then have "s' = s" using r i x by (auto simp: decode_round_def split: if_splits)
    then show ?thesis by simp
  qed
qed

lemma rxp_inv_index:
  assumes "rxp_inv m x" "length m' = length m" "take 2 m' = take 2 m" "rd16 m' 2 = Some r"
  shows "rxp_inv m' x"
proof -
  have "6005 \<le> length m" using assms(1) by (simp add: rxp_inv_def)
  then have "rd16 m' 0 = rd16 m 0" using assms(2,3) by (intro rd16_prefix) simp_all
  then show ?thesis using assms by (simp add: rxp_inv_def)
qed

lemma rx_inv_ring:
  assumes "rx_inv s" "length m = length (rx_pru s)" "take 2 (drop 2 m) = take 2 (drop 2 (rx_pru s))"
  shows "rx_inv (s\<lparr>rx_pru := m\<rparr>)"
proof -
  have "rd16 m 2 = rd16 (rx_pru s) 2" using assms by (intro rd16_index_part) (simp_all add: rx_inv_def)
  then show ?thesis using assms by (simp add: rx_inv_def rx_pkt_ok_def)
qed

lemma receiver_runs_inv: "receiver_runs (vlc_rs v) s x rest \<Longrightarrow> rx_inv s \<and> rxp_inv (rx_pru s) x"
proof (induction rule: receiver_runs.induct)
  case (runs_start s m x)
  from rxpru_start_inv[of "rx_pru s"] runs_start show ?case
    by (auto simp: rx_inv_def rx_pkt_ok_def in_ring_def BUFFER_LIMIT_def)
next
  case (runs_round s x rest uninit alloc stop s')
  from runs_round.IH have inv: "rx_inv s" "rxp_inv (rx_pru s) x" by simp_all
  from decode_round_safe[OF inv(1), of uninit v alloc stop] runs_round.hyps(2) have i: "rx_inv s'" by auto
  then obtain r where "rd16 (rx_pru s') 2 = Some r" by (auto simp: rx_inv_def)
  with rxp_inv_index[OF inv(2)] round_keeps_rest[OF inv(1) runs_round.hyps(2)] i show ?case by blast
next
  case (runs_word s x rest w m x' rest')
  with readdata_safe[of "rx_pru s" x w rest] rx_inv_ring[of s m] show ?case by (auto simp: rxp_safe_def)
next
  case (runs_poll s x rest m x' rest')
  with poll_safe[of "rx_pru s" x rest] rx_inv_ring[of s m] show ?case by (auto simp: rxp_safe_def)
qed

lemma receiver_never_faults:
  assumes "receiver_runs (vlc_rs v) s x rest"
  shows "(\<exists>ret s'. decode_round uninit (vlc_rs v) alloc stop s = Some (ret, s'))
    \<and> (\<exists>m x' rest'. readdata w (rx_pru s) x rest = Some (m, x', rest')) \<and> (\<exists>m x' rest'. poll_final (rx_pru s) x rest = Some (m, x', rest'))
    \<and> (\<exists>i k. rd16 (rx_pru s) 2 = Some i \<and> in_ring i \<and> rd16 (rx_pru s) 0 = Some k \<and> in_ring k)"
proof -
  from receiver_runs_inv[OF assms] have inv: "rx_inv s" "rxp_inv (rx_pru s) x" by simp_all
  have "\<exists>i. rd16 (rx_pru s) 2 = Some i \<and> in_ring i" "\<exists>k. rd16 (rx_pru s) 0 = Some k \<and> in_ring k"
    using inv by (auto simp: rx_inv_def rxp_inv_def)
  with decode_round_safe[OF inv(1), of uninit v alloc stop] readdata_safe[OF inv(2), of w rest] poll_safe[OF inv(2), of rest]
  show ?thesis by blast
qed

end
