(* ===== verification/Pru_System.thy ===== *)
theory Pru_System
  imports End_To_End Pru_Link
begin

text \<open>
  Drivers, PRUs and programs together: from one network stack to the other over the light link, and from the gateway to the
  node, for packets with the payload the gateway generates, 74 bytes, which is the only one the receiver's PRU takes.
\<close>

section \<open>From network stack to network stack\<close>

lemma light_channel:
  assumes "handler_inv s q" "is_write_next s" "drv_items s = []" and "int (length ps) \<le> drv_cap s" "list_all packet_fits ps"
    and "rd16 (pru s) 2 = Some r" "rd16 (pru s) 0 = Some r" and "ring_rooms r [] r (map frame_of ps)"
  shows "\<exists>s1 s2 w. enq_all drv_xmit ps s = Some s1 \<and> ticks (vlc_rs u) (length ps) q s1 = Some (s2, q) \<and> drv_items s2 = []
    \<and> rd16 (pru s2) 2 = Some r \<and> rd16 (pru s2) 0 = Some w \<and> ring_frames (pru s2) r (map frame_of ps) w
    \<and> (\<forall>fs t r' w'. list_all2 arrives ps fs \<longrightarrow> ring_frames (rx_pru t) r' fs w' \<longrightarrow> in_ring r'
        \<longrightarrow> rd16 (rx_pru t) 2 = Some r' \<longrightarrow> rd16 (rx_pru t) 0 = Some w' \<longrightarrow> rx_pkt_ok t
        \<longrightarrow> (\<exists>t'. pru_phy_decoding uninit (vlc_rs v) (map (\<lambda>p. (True, False)) ps) t = Some (None, t')
              \<and> map sk_mac (netif_rx t') = map sk_mac (netif_rx t) @ handed_up (map (\<lambda>p. True) ps) ps fs
              \<and> rd16 (rx_pru t') 2 = Some w'))"
proof -
  from xmit_all[OF assms(1,5)] assms(3,4) obtain s1 where s1: "enq_all drv_xmit ps s = Some s1" "handler_inv s1 q"
    "drv_items s1 = ps" "pru s1 = pru s" "is_write_next s1" using assms(2) by auto
  then obtain as bs where at: "drv_at s1 as bs" by (auto simp: handler_inv_def)
  have r: "in_ring r" using assms(1,7) by (auto simp: handler_inv_def ring_ok_def)
  from ticks_send[OF s1(2,5) at _ assms(5) _ _ _ r _ assms(8), of u] s1(3,4) assms(6,7) drv_at_items[OF at] obtain s2 w where
    s2: "ticks (vlc_rs u) (length ps) q s1 = Some (s2, q)" "drv_at s2 (rev bs @ as) []" "rd16 (pru s2) 2 = Some r"
    "rd16 (pru s2) 0 = Some w" "ring_frames (pru s2) r (map frame_of ps) w" by auto
  have "drv_items s2 = []" using drv_at_items[OF s2(2)] by simp
  moreover have "\<exists>t'. pru_phy_decoding uninit (vlc_rs v) (map (\<lambda>p. (True, False)) ps) t = Some (None, t')
        \<and> map sk_mac (netif_rx t') = map sk_mac (netif_rx t) @ handed_up (map (\<lambda>p. True) ps) ps fs \<and> rd16 (rx_pru t') 2 = Some w'"
    if "list_all2 arrives ps fs" "ring_frames (rx_pru t) r' fs w'" "in_ring r'" "rd16 (rx_pru t) 2 = Some r'"
      "rd16 (rx_pru t) 0 = Some w'" "rx_pkt_ok t" for fs t r' w'
    using thread_takes_frames[OF that(1) _ that(2-6), of "map (\<lambda>p. True) ps" uninit v] by (auto simp: comp_def)
  ultimately show ?thesis using s1(1) s2 by blast
qed

lemma light_link_delivers:
  assumes drv: "handler_inv s q" "is_write_next s" "drv_items s = []" "int (length ps) \<le> drv_cap s"
      "rd16 (pru s) 2 = Some r" "rd16 (pru s) 0 = Some r" "ring_rooms r [] r (map frame_of ps)"
    and ps: "ps \<noteq> []" "\<forall>p\<in>set ps. packet_fits p \<and> frame_len p = 74" and x: "waiting x"
    and rx: "searching 1 0 prev y" "prev \<le> 1" "rx_ring (rx_pru t) r' [] r'" "ring_rooms r' [] r' (map frame_of ps)" "rx_pkt_ok t"
  shows "\<exists>s1 s2 n words m x' tail. enq_all drv_xmit ps s = Some s1 \<and> ticks (vlc_rs u) (length ps) q s1 = Some (s2, q)
    \<and> tx_cycles TX_OTHER_IMAGE n (pru s2) x = Some (words, m, x') \<and> waiting x' \<and> rd16 m 2 = rd16 (pru s2) 0 \<and> length tail \<le> 30
    \<and> concat (map shifted_out words) = received_line (map (\<lambda>p. body_symbols (drop 2 (frame_of p))) ps) @ tail
    \<and> (\<forall>zs noise. list_all2 (\<lambda>p. body_noise (frame_of p)) ps zs \<longrightarrow> length noise \<le> 30 \<longrightarrow>
        (\<exists>m x' t'. rx_bits (rx_pru t) y (received_line zs @ noise) = Some (m, x', [])
          \<and> pru_phy_decoding uninit (vlc_rs v) (map (\<lambda>p. (True, False)) ps) (t\<lparr>rx_pru := m\<rparr>) = Some (None, t')
          \<and> map sk_mac (netif_rx t') = map sk_mac (netif_rx t) @ handed_up (map (\<lambda>p. True) ps) ps (map received_frame zs)))"
proof -
  have fits: "list_all packet_fits ps" using ps(2) by (simp add: list_all_iff)
  have ir: "in_ring r" using drv(1,6) by (auto simp: handler_inv_def ring_ok_def)
  from light_channel[OF drv(1-4) fits drv(5-7), of u] obtain s1 s2 w where
    d: "enq_all drv_xmit ps s = Some s1" "ticks (vlc_rs u) (length ps) q s1 = Some (s2, q)" "rd16 (pru s2) 2 = Some r"
      "rd16 (pru s2) 0 = Some w" "ring_frames (pru s2) r (map frame_of ps) w" by blast
  from link_sends[OF ps d(5) ir d(3,4) x] obtain n words m x' tail where
    l: "tx_cycles TX_OTHER_IMAGE n (pru s2) x = Some (words, m, x')" "waiting x'" "rd16 m 2 = Some w" "length tail \<le> 30"
      "concat (map shifted_out words) = received_line (map (\<lambda>p. body_symbols (drop 2 (frame_of p))) ps) @ tail" by blast
  have "rd16 m 2 = rd16 (pru s2) 0" using l(3) d(4) by simp
  with d(1,2) l link_delivers[OF ps(2) rx, of _ _ uninit v] show ?thesis by blast
qed

section \<open>From the gateway to the node\<close>

lemma light_bytes_len: "for_node p \<Longrightarrow> length (gp_data p) = 74 \<Longrightarrow> frame_len (light_bytes (numbered p)) = 74"
proof -
  assume p: "for_node p" "length (gp_data p) = 74"
  have "frame_len (light_bytes (numbered p)) = gp_payload_len p"
    by (simp add: frame_len_def light_bytes_def vlc_header_bytes_def numbered_def bytes_simps)
  moreover have "unat (gp_payload_len p) = 74" using p by (simp add: for_node_def gp_wf_def)
  ultimately show ?thesis by (simp add: word_unat_eq_iff)
qed

lemma batch_through_prus:
  assumes ps: "list_all for_node ps" "\<forall>p\<in>set ps. length (gp_data p) = 74" "ps \<noteq> []"
    and tx: "tx_inv s" "fq_items (tx_vlc_queue s) = []" "int (length ps) < QUEUE_LIMIT" "\<exists>n\<in>set tries. 0 \<le> n"
    and drv: "handler_inv d q" "is_write_next d" "drv_items d = []" "int (length ps) \<le> drv_cap d"
      "rd16 (pru d) 2 = Some r" "rd16 (pru d) 0 = Some r"
      "ring_rooms r [] r (map (\<lambda>p. frame_of (light_bytes (numbered p))) ps)" and x: "waiting x"
    and rx: "searching 1 0 prev y" "prev \<le> 1" "rx_ring (rx_pru z) r' [] r'"
      "ring_rooms r' [] r' (map (\<lambda>p. frame_of (light_bytes (numbered p))) ps)" "rx_pkt_ok z" "netif_rx z = []"
    and node: "node_inv t"
  shows "\<exists>frames s1 s2 bytes d1 d2 n words m x1 tail. gw_sends sendto ps = Some frames \<and> tx_receives frames s = Some s1
    \<and> tx_transmits tries (length ps) s1 = Some (s2, bytes) \<and> bytes = map (\<lambda>p. light_bytes (numbered p)) ps \<and> enq_all drv_xmit bytes d = Some d1
    \<and> ticks (vlc_rs u) (length ps) q d1 = Some (d2, q) \<and> tx_cycles TX_OTHER_IMAGE n (pru d2) x = Some (words, m, x1) \<and> waiting x1
    \<and> length tail \<le> 30 \<and> concat (map shifted_out words) = received_line (map (\<lambda>b. body_symbols (drop 2 (frame_of b))) bytes) @ tail
    \<and> (\<forall>zs noise. list_all2 (\<lambda>b zb. length zb = 1568 \<and> demodulate zb = demodulate (body_symbols (drop 2 (frame_of b)))) bytes zs
        \<longrightarrow> length noise \<le> 30 \<longrightarrow> (\<exists>m y' z' t'. rx_bits (rx_pru z) y (received_line zs @ noise) = Some (m, y', [])
          \<and> pru_phy_decoding uninit (vlc_rs v) (map (\<lambda>p. (True, False)) ps) (z\<lparr>rx_pru := m\<rparr>) = Some (None, z')
          \<and> node_receives (map sk_mac (netif_rx z')) t = Some t' \<and> node_inv t'
          \<and> process_queue t' = foldl (\<lambda>q p. snd (fq_push (to_node_packet (numbered p)) q)) (process_queue t) ps
          \<and> from_vlc t' = from_vlc t + int (length ps)))"
proof -
  let ?B = "map (\<lambda>p. light_bytes (numbered p)) ps"
  have fit: "\<forall>b\<in>set ?B. packet_fits b \<and> frame_len b = 74" using ps(1,2) light_bytes_fit light_bytes_len by (auto simp: list_all_iff)
  have ir: "in_ring r" using drv(1,6) by (auto simp: handler_inv_def ring_ok_def)
  have rooms: "ring_rooms r' [] r' (map frame_of ?B)" using rx(4) by (simp add: comp_def)
  from batch_over_light[OF ps(1) tx drv node, of sendto u uninit v] obtain frames s1 s2 d1 d2 w where
    run: "gw_sends sendto ps = Some frames" "tx_receives frames s = Some s1" "tx_transmits tries (length ps) s1 = Some (s2, ?B)"
      "enq_all drv_xmit ?B d = Some d1" "ticks (vlc_rs u) (length ps) q d1 = Some (d2, q)"
    and ring: "rd16 (pru d2) 2 = Some r" "rd16 (pru d2) 0 = Some w" "ring_frames (pru d2) r (map frame_of ?B) w"
    and deliver: "\<And>x r' w'. ring_frames (rx_pru x) r' (map frame_of ?B) w' \<Longrightarrow> in_ring r' \<Longrightarrow> rd16 (rx_pru x) 2 = Some r'
        \<Longrightarrow> rd16 (rx_pru x) 0 = Some w' \<Longrightarrow> rx_pkt_ok x \<Longrightarrow> netif_rx x = []
        \<Longrightarrow> \<exists>x' t'. pru_phy_decoding uninit (vlc_rs v) (map (\<lambda>p. (True, False)) ps) x = Some (None, x')
              \<and> node_receives (map sk_mac (netif_rx x')) t = Some t' \<and> node_inv t'
              \<and> process_queue t' = foldl (\<lambda>q p. snd (fq_push (to_node_packet (numbered p)) q)) (process_queue t) ps
              \<and> from_vlc t' = from_vlc t + int (length ps)" by blast
  have "?B \<noteq> []" using ps(3) by simp
  from link_sends[OF this fit ring(3) ir ring(1,2) x] obtain n words m x1 tail where
    l: "tx_cycles TX_OTHER_IMAGE n (pru d2) x = Some (words, m, x1)" "waiting x1" "length tail \<le> 30"
      "concat (map shifted_out words) = received_line (map (\<lambda>p. body_symbols (drop 2 (frame_of p))) ?B) @ tail" by blast
  have rest: "\<exists>m y' z' t'. rx_bits (rx_pru z) y (received_line zs @ noise) = Some (m, y', [])
      \<and> pru_phy_decoding uninit (vlc_rs v) (map (\<lambda>p. (True, False)) ps) (z\<lparr>rx_pru := m\<rparr>) = Some (None, z')
      \<and> node_receives (map sk_mac (netif_rx z')) t = Some t' \<and> node_inv t'
      \<and> process_queue t' = foldl (\<lambda>q p. snd (fq_push (to_node_packet (numbered p)) q)) (process_queue t) ps
      \<and> from_vlc t' = from_vlc t + int (length ps)"
    if zs: "list_all2 (\<lambda>b zb. length zb = 1568 \<and> demodulate zb = demodulate (body_symbols (drop 2 (frame_of b)))) ?B zs" "length noise \<le> 30"
    for zs noise
  proof -
    have "length zs = length ?B" "\<forall>zb\<in>set zs. length zb = 1568" using zs(1) by (auto simp: list_all2_conv_all_nth in_set_conv_nth)
    from link_stores[OF fit rx(1-3) rooms this zs(2)] obtain m y' w1 where
      m: "rx_bits (rx_pru z) y (received_line zs @ noise) = Some (m, y', [])" "rx_ring m r' (map received_frame zs) w1" by blast
    have l: "length zs = length ?B" using list_all2_lengthD[OF zs(1)] by simp
    have "received_frame (zs ! i) = frame_of (?B ! i)" if "i < length ?B" for i
      using frame_demodulated fit nth_mem[OF that] list_all2_nthD[OF zs(1) that] by blast
    then have "map received_frame zs = map frame_of ?B" using l by (intro nth_equalityI[of "map received_frame zs"]) (simp_all del: map_map)
    with m(2) have "ring_frames m r' (map frame_of ?B) w1" "in_ring r'" "rd16 m 2 = Some r'" "rd16 m 0 = Some w1"
      by (simp_all add: rx_ring_def del: map_map)
    with deliver[of "z\<lparr>rx_pru := m\<rparr>" r' w1] rx(5,6) m(1) show ?thesis by (auto simp: rx_pkt_ok_def simp del: map_map)
  qed
  show ?thesis using run l rest
    by (intro exI[of _ frames] exI[of _ s1] exI[of _ s2] exI[of _ ?B] exI[of _ d1] exI[of _ d2] exI[of _ n] exI[of _ words]
        exI[of _ m] exI[of _ x1] exI[of _ tail]) blast
qed

end
