(* ===== verification/RS_Wide.thy ===== *)
theory RS_Wide
  imports RS_Correct
begin

text \<open>
  The 16-bit entry points of the Reed-Solomon library, \<^verbatim>\<open>encode_rs16\<close> and \<^verbatim>\<open>decode_rs16\<close>: the text of
  \<^verbatim>\<open>encode_rs.c\<close> and \<^verbatim>\<open>decode_rs.c\<close> again, over data of another type. Both modules are built with them and export
  them. The loops that do not touch the data are those of the 8-bit decoder. On bytes stored in 16-bit cells they
  compute what the 8-bit ones do.
\<close>

unbundle bit_operations_syntax

section \<open>The 16-bit entry points\<close>

definition encode_rs16 ::
    "rs_control \<Rightarrow> u16 list \<Rightarrow> int \<Rightarrow> u16 list \<Rightarrow> u16 \<Rightarrow> (int \<times> u16 list) option" where
  "encode_rs16 rs data len par invmsk =
    (let msk = word_of_int (nn rs) :: u16; pad = nn rs - nroots rs - len in
     if pad < 0 \<or> pad \<ge> nn rs then Some (- ERANGE, par)
     else do {
       par \<leftarrow> cfor 0 len (\<lambda>i par. do {
         d \<leftarrow> ard data i;
         p0 \<leftarrow> ard par 0;
         fb \<leftarrow> ard (index_of rs) (uint (((d XOR invmsk) AND msk) XOR p0));
         par \<leftarrow> (if uint fb \<noteq> nn rs then
                  cfor 1 (nroots rs) (\<lambda>j par. do {
                    g \<leftarrow> ard (genpoly rs) (nroots rs - j);
                    m \<leftarrow> rs_modnn rs (uint fb + uint g);
                    a \<leftarrow> ard (alpha_to rs) m;
                    p \<leftarrow> ard par j;
                    awr par j (p XOR a) }) par
                else Some par);
         par \<leftarrow> cmemmove par 0 1 (nroots rs - 1);
         if uint fb \<noteq> nn rs then do {
           g \<leftarrow> ard (genpoly rs) 0;
           m \<leftarrow> rs_modnn rs (uint fb + uint g);
           a \<leftarrow> ard (alpha_to rs) m;
           awr par (nroots rs - 1) a }
         else awr par (nroots rs - 1) 0 }) par;
       Some (0, par) })"

definition form_syndromes16 ::
    "u16 \<Rightarrow> rs_control \<Rightarrow> u16 list \<Rightarrow> u16 list \<Rightarrow> int \<Rightarrow> u16 \<Rightarrow> u16 list option" where
  "form_syndromes16 uninit rs data par len invmsk =
    (let msk = word_of_int (nn rs) :: u16; nr = nroots rs in do {
       syn \<leftarrow> cfor 0 nr (\<lambda>i syn. do {
         d \<leftarrow> ard data 0;
         awr syn i ((d XOR invmsk) AND msk) }) (replicate (nat nr) uninit);
       syn \<leftarrow> cfor 1 len (\<lambda>j. cfor 0 nr (\<lambda>i syn. do {
         d \<leftarrow> ard data j;
         x \<leftarrow> ard syn i;
         v \<leftarrow> syn_step rs i ((d XOR invmsk) AND msk) x;
         awr syn i v })) syn;
       cfor 0 nr (\<lambda>j. cfor 0 nr (\<lambda>i syn. do {
         p \<leftarrow> ard par j;
         x \<leftarrow> ard syn i;
         v \<leftarrow> syn_step rs i (p AND msk) x;
         awr syn i v })) syn })"

definition correct_one16 ::
    "rs_control \<Rightarrow> int \<Rightarrow> u16 list \<Rightarrow> u16 list \<Rightarrow> int \<Rightarrow> u16 list \<Rightarrow> u16 list \<Rightarrow> int \<Rightarrow>
     u16 list option \<times> u16 list option \<Rightarrow> (u16 list option \<times> u16 list option) option" where
  "correct_one16 rs pad lambda omega deg_lambda root loc j = (\<lambda>(data, corr). do {
     rj \<leftarrow> ard root j;
     num1 \<leftarrow> forney_num rs omega (deg_lambda - 1) rj;
     m \<leftarrow> rs_modnn rs (uint rj * (fcr rs - 1) + nn rs);
     num2 \<leftarrow> ard (alpha_to rs) m;
     den \<leftarrow> forney_den rs lambda deg_lambda rj;
     lj \<leftarrow> ard loc j;
     if num1 \<noteq> 0 \<and> uint lj \<ge> pad then do {
       i1 \<leftarrow> ard (index_of rs) (uint num1);
       i2 \<leftarrow> ard (index_of rs) (uint num2);
       i3 \<leftarrow> ard (index_of rs) (uint den);
       m \<leftarrow> rs_modnn rs (uint i1 + uint i2 + nn rs - uint i3);
       cor \<leftarrow> ard (alpha_to rs) m;
       (case corr of
          Some c \<Rightarrow> do { c \<leftarrow> awr c j cor; Some (data, Some c) }
        | None \<Rightarrow>
            (case data of
               Some d \<Rightarrow>
                 if uint lj < nn rs - nroots rs then do {
                   x \<leftarrow> ard d (uint lj - pad);
                   d \<leftarrow> awr d (uint lj - pad) (x XOR cor);
                   Some (Some d, None) }
                 else Some (data, None)
             | None \<Rightarrow> Some (None, None))) }
     else Some (data, corr) })"

definition decode_errors16 ::
    "u16 \<Rightarrow> rs_control \<Rightarrow> u16 list option \<Rightarrow> int \<Rightarrow> u16 list \<Rightarrow> int \<Rightarrow> int list option \<Rightarrow> u16 list option \<Rightarrow>
     (int \<times> u16 list \<times> u16 list option \<times> u16 list option) option" where
  "decode_errors16 uninit rs data len s no_eras eras_pos corr =
    (let pad = nn rs - nroots rs - len in do {
       lambda \<leftarrow> erasure_locator rs no_eras eras_pos;
       lambda \<leftarrow> berlekamp_massey uninit rs s no_eras lambda;
       (deg_lambda, lambda) \<leftarrow> index_lambda rs lambda;
       (count, root, loc) \<leftarrow> chien_search uninit rs deg_lambda lambda;
       if deg_lambda \<noteq> count then Some (- EBADMSG, loc, data, corr)
       else do {
         omega \<leftarrow> omega_poly uninit rs s lambda (deg_lambda - 1);
         (data, corr) \<leftarrow> cford (count - 1) (- 1)
            (correct_one16 rs pad lambda omega deg_lambda root loc) (data, corr);
         Some (count, loc, data, corr) } })"

definition decode_rs16 ::
    "u16 \<Rightarrow> rs_control \<Rightarrow> u16 list option \<Rightarrow> u16 list \<Rightarrow> int \<Rightarrow> u16 list option \<Rightarrow> int \<Rightarrow>
     int list option \<Rightarrow> u16 \<Rightarrow> u16 list option \<Rightarrow>
     (int \<times> u16 list option \<times> int list option \<times> u16 list option) option" where
  "decode_rs16 uninit rs data par len s no_eras eras_pos invmsk corr =
    (let pad = nn rs - nroots rs - len in
     if pad < 0 \<or> pad \<ge> nn rs then None
     else do {
       (count, loc, data, corr) \<leftarrow>
         (case s of
            Some s \<Rightarrow> decode_errors16 uninit rs data len s no_eras eras_pos corr
          | None \<Rightarrow> do {
              d \<leftarrow> data;
              syn \<leftarrow> form_syndromes16 uninit rs d par len invmsk;
              (syn_error, s) \<leftarrow> index_syndromes rs syn;
              if syn_error = 0
              then Some (0, replicate (nat (nroots rs)) uninit, data, corr)
              else decode_errors16 uninit rs data len s no_eras eras_pos corr });
       eras_pos \<leftarrow>
         (case eras_pos of
            None \<Rightarrow> Some None
          | Some ep \<Rightarrow> map_option Some (cfor 0 count (\<lambda>i ep. do {
              l \<leftarrow> ard loc i;
              awr ep i (uint l - pad) }) ep));
       Some (count, data, eras_pos, corr) })"

section \<open>Bytes in 16-bit cells\<close>

lemma ard_map: "ard (map f xs) i = map_option f (ard xs i)"
  by (auto simp: ard_def)

lemma awr_map: "awr (map f xs) i (f v) = map_option (map f) (awr xs i v)"
  by (simp add: awr_def map_update)

lemma bind_map_option [simp]: "map_option f x \<bind> g = x \<bind> (\<lambda>y. g (f y))"
  by (cases x) simp_all

lemma map_option_bind: "map_option f (x \<bind> g) = x \<bind> (\<lambda>y. map_option f (g y))"
  by (cases x) simp_all

lemma cford_map:
  assumes "\<And>j t. f' j (g t) = map_option g (f j t)"
  shows "cford i m f' (g t) = map_option g (cford i m f t)"
  using assms
proof (induction i m f t rule: cford.induct)
  case (1 i m f t)
  show ?case
  proof (cases "m < i")
    case True
    then show ?thesis using 1 by (cases "f i t") (simp_all add: cford_step)
  qed (simp add: cford_end)
qed

text \<open>A structure over bytes: the antilog table holds no larger values.\<close>

definition byte_tables :: "rs_control \<Rightarrow> bool" where
  "byte_tables rs \<longleftrightarrow> (\<forall>i a. ard (alpha_to rs) i = Some a \<longrightarrow> a < 256)"

lemma byte_tables_vlc: "byte_tables (vlc_rs u)"
proof -
  have "gsym x < 256" for x using gsym_range[of x] by (simp add: word_less_def)
  then have "a < 256" if "a \<in> set alpha_tab" for a using that by (auto simp: alpha_tab_def)
  then show ?thesis by (auto simp: byte_tables_def vlc_rs_def ard_def split: if_splits)
qed

lemma ucast_xor_byte: "a < 256 \<Longrightarrow> ucast (x XOR ucast a :: u8) = (ucast x XOR a :: u16)" for a :: u16
proof -
  assume "a < 256"
  then have "take_bit 8 a = a" 
    by (simp add: word_unat_eq_iff unsigned_take_bit_eq take_bit_nat_eq_self word_less_nat_alt)
  then have "bit a n \<Longrightarrow> n < 8" for n by (metis bit_take_bit_iff)
  then show ?thesis by (auto intro!: bit_eqI simp: bit_simps)
qed

definition wide :: "u8 list option \<Rightarrow> u16 list option" where
  "wide = map_option (map ucast)"

lemma encode_rs16_bytes: "encode_rs16 rs (map ucast data) len par invmsk = encode_rs8 rs data len par invmsk"
  by (simp add: encode_rs16_def encode_rs8_def ard_map)

lemma form_syndromes16_bytes:
  "form_syndromes16 uninit rs (map ucast data) par len invmsk = form_syndromes uninit rs data par len invmsk"
  by (simp add: form_syndromes16_def form_syndromes_def ard_map)

lemma correct_one16_bytes:
  assumes "byte_tables rs"
  shows "correct_one16 rs pad lambda omega deg root loc j (apfst wide t) = map_option (apfst wide) (correct_one rs pad lambda omega deg root loc j t)"
proof -
  obtain data corr where t: "t = (data, corr)" by (cases t)
  have x: "awr (map ucast d) i (ucast x XOR a :: u16) = map_option (map ucast) (awr d i (x XOR ucast a))"
    if "ard (alpha_to rs) m = Some a" for d :: "u8 list" and i x m and a :: u16
    using awr_map[of "ucast :: u8 \<Rightarrow> u16" d i "x XOR ucast a"] ucast_xor_byte[of a x] that assms by (simp add: byte_tables_def)
  show ?thesis
    unfolding t correct_one16_def correct_one_def apfst_conv prod.case
    by (cases data; cases corr)
      (auto simp: wide_def ard_map map_option_bind x intro!: Option.bind_cong[OF refl])
qed

lemma decode_errors16_bytes:
  assumes "byte_tables rs"
  shows "decode_errors16 uninit rs (wide data) len s no_eras eras_pos corr
    = map_option (\<lambda>(count, loc, data, corr). (count, loc, wide data, corr)) (decode_errors uninit rs data len s no_eras eras_pos corr)"
proof -
  have c: "cford i m (correct_one16 rs pad lambda omega deg root loc) (wide data, corr)
      = map_option (apfst wide) (cford i m (correct_one rs pad lambda omega deg root loc) (data, corr))"
    for i m pad lambda omega deg root loc
    using cford_map[of "correct_one16 rs pad lambda omega deg root loc" "apfst wide" "correct_one rs pad lambda omega deg root loc" i m
        "(data, corr)"] correct_one16_bytes[OF assms] by simp
  show ?thesis
    unfolding decode_errors16_def decode_errors_def Let_def
    by (auto simp: c map_option_bind intro!: Option.bind_cong[OF refl] split: prod.splits)
qed

lemma wide_bind: "wide x \<bind> g = x \<bind> (\<lambda>d. g (map ucast d))"
  by (cases x) (simp_all add: wide_def)

lemma decode_rs16_bytes:
  assumes "byte_tables rs"
  shows "decode_rs16 uninit rs (wide data) par len s no_eras eras_pos invmsk corr
    = map_option (\<lambda>(count, data, eras, corr). (count, wide data, eras, corr))
        (decode_rs8 uninit rs data par len s no_eras eras_pos invmsk corr)"
proof -
  let ?F = "\<lambda>(count, loc, data, corr). (count, loc, wide data, corr)"
  have first: "(case s of
            Some s \<Rightarrow> decode_errors16 uninit rs (wide data) len s no_eras eras_pos corr
          | None \<Rightarrow> do {
              d \<leftarrow> wide data;
              syn \<leftarrow> form_syndromes16 uninit rs d par len invmsk;
              (syn_error, s) \<leftarrow> index_syndromes rs syn;
              if syn_error = 0
              then Some (0, replicate (nat (nroots rs)) uninit, wide data, corr)
              else decode_errors16 uninit rs (wide data) len s no_eras eras_pos corr })
      = map_option ?F (case s of
            Some s \<Rightarrow> decode_errors uninit rs data len s no_eras eras_pos corr
          | None \<Rightarrow> do {
              d \<leftarrow> data;
              syn \<leftarrow> form_syndromes uninit rs d par len invmsk;
              (syn_error, s) \<leftarrow> index_syndromes rs syn;
              if syn_error = 0
              then Some (0, replicate (nat (nroots rs)) uninit, data, corr)
              else decode_errors uninit rs data len s no_eras eras_pos corr })"
    by (cases s) (auto simp: wide_bind decode_errors16_bytes[OF assms] form_syndromes16_bytes map_option_bind
        intro!: Option.bind_cong[OF refl] split: prod.splits)
  show ?thesis
    unfolding decode_rs16_def decode_rs8_def Let_def first
    by (auto simp: map_option_bind intro!: Option.bind_cong[OF refl] split: prod.splits)
qed

end
