(* ===== verification/Startup.thy ===== *)
theory Startup
  imports System
begin

text \<open>
  How the three programs start: the socket set-up functions and \<^verbatim>\<open>main\<close> of gateway, node and VLC transmitter. The
  operating system is a parameter: the record \<open>os\<close> holds what it answers to the calls on one socket, and a function says
  which \<^verbatim>\<open>pthread_create\<close> succeed. A socket is its descriptor; \<open>sk_open\<close> are the descriptors that are open.
  \<open>None\<close> is a copy past the end of a name buffer, or a write behind an address table.
\<close>

section \<open>Sockets\<close>

record os =
  os_socket :: int
  os_hwaddr :: "u8 list option"
  os_index :: "int option"
  os_reuse :: bool
  os_bindtodevice :: bool
  os_bind :: bool

record ifreq =
  ifr_name :: "u8 list"
  ifr_hwaddr :: "u8 list"
  ifr_ifindex :: int

record sock =
  sk_fd :: int
  sk_if_mac :: ifreq
  sk_if_idx :: ifreq
  sk_sll_ifindex :: int
  sk_sll_addr :: "u8 list"
  sk_bound :: bool
  sk_open :: "int list"

datatype 'a outcome = Ret 'a | Exit int

definition IFNAMSIZ :: nat where "IFNAMSIZ = 16"
definition RF_IF_NAME :: "u8 list" where "RF_IF_NAME = map of_char ''ra0''"
definition ETH_IF_NAME :: "u8 list" where "ETH_IF_NAME = map of_char ''eth0''"
definition VLC_INTERFACE :: "u8 list" where "VLC_INTERFACE = map of_char ''vlc0''"

definition zero_ifreq :: ifreq where
  "zero_ifreq = \<lparr>ifr_name = replicate IFNAMSIZ 0, ifr_hwaddr = replicate 14 0, ifr_ifindex = 0\<rparr>"

text \<open>C strings: \<^verbatim>\<open>strcpy\<close> of a literal with its \<^verbatim>\<open>NUL\<close>, \<^verbatim>\<open>strncpy\<close> out of a buffer, padded with \<^verbatim>\<open>NUL\<close>.\<close>

definition c_strcpy :: "u8 list \<Rightarrow> u8 list \<Rightarrow> u8 list option" where
  "c_strcpy dst src = cput dst 0 (src @ [0])"

definition c_strncpy :: "u8 list \<Rightarrow> u8 list \<Rightarrow> nat \<Rightarrow> u8 list option" where
  "c_strncpy dst src n = cput dst 0 (take n (takeWhile (\<lambda>b. b \<noteq> 0) src @ replicate n 0))"

definition sk_close :: "sock \<Rightarrow> sock" where
  "sk_close s = s\<lparr>sk_open := filter (\<lambda>f. f \<noteq> sk_fd s) (sk_open s)\<rparr>"

text \<open>The request for the hardware address: a failure is printed and otherwise ignored.\<close>

definition get_hwaddr :: "os \<Rightarrow> u8 list \<Rightarrow> sock \<Rightarrow> sock option" where
  "get_hwaddr os if_name s = do {
     name \<leftarrow> c_strncpy (ifr_name zero_ifreq) if_name (IFNAMSIZ - 1);
     let r = zero_ifreq\<lparr>ifr_name := name\<rparr>;
     Some (s\<lparr>sk_if_mac := (case os_hwaddr os of None \<Rightarrow> r | Some a \<Rightarrow> r\<lparr>ifr_hwaddr := a\<rparr>)\<rparr>) }"

text \<open>The two \<^verbatim>\<open>setsockopt\<close> calls at the end of the RF and Ethernet set-up.\<close>

definition set_options :: "os \<Rightarrow> sock \<Rightarrow> int \<times> sock" where
  "set_options os s =
     (if \<not> os_reuse os then (- 1, sk_close s)
      else if \<not> os_bindtodevice os then (- 1, sk_close s)
      else (0, s))"

section \<open>The gateway\<close>

definition gw_setup_rf_socket :: "os \<Rightarrow> u8 list \<Rightarrow> sock \<Rightarrow> (int \<times> sock) option" where
  "gw_setup_rf_socket os uninit s = do {
     rf_if_name \<leftarrow> c_strcpy uninit RF_IF_NAME;
     let s = s\<lparr>sk_fd := os_socket os\<rparr>;
     if sk_fd s = - 1 then Some (- 1, s)
     else do {
       let s = s\<lparr>sk_open := sk_fd s # sk_open s\<rparr>;
       s \<leftarrow> get_hwaddr os rf_if_name s;
       name \<leftarrow> c_strncpy (ifr_name zero_ifreq) rf_if_name (IFNAMSIZ - 1);
       let s = s\<lparr>sk_if_idx := zero_ifreq\<lparr>ifr_name := name\<rparr>\<rparr>;
       (case os_index os of
          None \<Rightarrow> Some (- 1, s)
        | Some i \<Rightarrow> Some (set_options os (s\<lparr>sk_if_idx := (sk_if_idx s)\<lparr>ifr_ifindex := i\<rparr>\<rparr>))) } }"

definition setup_sending_vlc_packet :: "os \<Rightarrow> u8 list \<Rightarrow> sock \<Rightarrow> (int \<times> sock) option" where
  "setup_sending_vlc_packet os uninit s = do {
     eth_if_name \<leftarrow> c_strcpy uninit ETH_IF_NAME;
     let s = s\<lparr>sk_fd := os_socket os\<rparr>;
     if sk_fd s = - 1 then Some (- 1, s)
     else do {
       let s = s\<lparr>sk_open := sk_fd s # sk_open s\<rparr>;
       s \<leftarrow> get_hwaddr os eth_if_name s;
       Some (set_options os s) } }"

section \<open>The node\<close>

definition node_setup_rf_socket :: "os \<Rightarrow> u8 list \<Rightarrow> sock \<Rightarrow> (int \<times> sock) option" where
  "node_setup_rf_socket os uninit s = do {
     rf_if_name \<leftarrow> c_strcpy uninit RF_IF_NAME;
     let s = s\<lparr>sk_fd := os_socket os\<rparr>;
     if sk_fd s = - 1 then Some (- 1, s)
     else do {
       let s = s\<lparr>sk_open := sk_fd s # sk_open s\<rparr>;
       s \<leftarrow> get_hwaddr os rf_if_name s;
       Some (set_options os s) } }"

text \<open>The VLC socket, the same in node and transmitter but for the address: every failure is only printed. \<open>ifr\<close> is the
  uninitialised request on the stack.\<close>

definition vlc_ifindex :: "os \<Rightarrow> ifreq \<Rightarrow> ifreq option" where
  "vlc_ifindex os ifr = do {
     name \<leftarrow> (if length VLC_INTERFACE < IFNAMSIZ then c_strcpy (ifr_name ifr) VLC_INTERFACE else Some (ifr_name ifr));
     let ifr = ifr\<lparr>ifr_name := name\<rparr>;
     Some (case os_index os of None \<Rightarrow> ifr | Some i \<Rightarrow> ifr\<lparr>ifr_ifindex := i\<rparr>) }"

definition open_socket :: "os \<Rightarrow> sock \<Rightarrow> sock" where
  "open_socket os s =
    (let s = s\<lparr>sk_fd := os_socket os\<rparr> in
     if sk_fd s = - 1 then s else s\<lparr>sk_open := sk_fd s # sk_open s\<rparr>)"

definition node_setup_vlc_socket :: "os \<Rightarrow> ifreq \<Rightarrow> sock \<Rightarrow> sock option" where
  "node_setup_vlc_socket os ifr s = do {
     let s = open_socket os s;
     ifr \<leftarrow> vlc_ifindex os ifr;
     Some (s\<lparr>sk_if_idx := ifr, sk_sll_ifindex := ifr_ifindex ifr, sk_sll_addr := replicate 6 0xff @ drop 6 (sk_sll_addr s),
       sk_bound := os_bind os\<rparr>) }"

section \<open>The VLC transmitter\<close>

definition tx_setup_eth_socket :: "os \<Rightarrow> u8 list \<Rightarrow> sock \<Rightarrow> (int outcome \<times> sock) option" where
  "tx_setup_eth_socket os uninit s = do {
     if_name \<leftarrow> c_strcpy uninit ETH_IF_NAME;
     let s = s\<lparr>sk_fd := os_socket os\<rparr>;
     if sk_fd s = - 1 then Some (Ret (- 1), s)
     else do {
       let s = s\<lparr>sk_open := sk_fd s # sk_open s\<rparr>;
       name \<leftarrow> c_strncpy (ifr_name zero_ifreq) if_name (IFNAMSIZ - 1);
       let r = zero_ifreq\<lparr>ifr_name := name\<rparr>;
       let s = s\<lparr>sk_if_idx := (case os_index os of None \<Rightarrow> r | Some i \<Rightarrow> r\<lparr>ifr_ifindex := i\<rparr>)\<rparr>;
       s \<leftarrow> get_hwaddr os if_name s;
       Some (if \<not> os_reuse os then (Exit 1, sk_close s)
             else if \<not> os_bindtodevice os then (Ret (- 1), sk_close s)
             else (Ret 1, s)) } }"

definition tx_setup_vlc_socket :: "os \<Rightarrow> ifreq \<Rightarrow> sock \<Rightarrow> sock option" where
  "tx_setup_vlc_socket os ifr s = do {
     let s = open_socket os s;
     ifr \<leftarrow> vlc_ifindex os ifr;
     Some (s\<lparr>sk_if_idx := ifr, sk_sll_ifindex := ifr_ifindex ifr, sk_sll_addr := replicate 8 0, sk_bound := os_bind os\<rparr>) }"

section \<open>Threads and main\<close>

text \<open>The chain of \<^verbatim>\<open>pthread_create\<close> joined by \<^verbatim>\<open>||\<close>: the first failure ends it. The result says whether one failed and
  which cells of the array hold a thread.\<close>

fun create_threads :: "(nat \<Rightarrow> int) \<Rightarrow> (nat \<times> string) list \<Rightarrow> (nat \<rightharpoonup> string) \<Rightarrow> bool \<times> (nat \<rightharpoonup> string)" where
  "create_threads pthread_create [] threads = (False, threads)"
| "create_threads pthread_create ((i, f) # rest) threads =
     (if pthread_create i \<noteq> 0 then (True, threads) else create_threads pthread_create rest (threads(i \<mapsto> f)))"

record stack =
  st_name1 :: "u8 list"
  st_name2 :: "u8 list"
  st_ifr :: ifreq
  st_buf1 :: "u8 list"
  st_buf2 :: "u8 list"
  st_packets :: "int \<Rightarrow> gateway_packet"

record 'p program =
  pr_state :: 'p
  pr_sock1 :: sock
  pr_sock2 :: sock
  pr_threads :: "nat \<rightharpoonup> string"

definition gw_threads :: "(nat \<times> string) list" where
  "gw_threads = [(0, ''transmit_rf''), (1, ''receive_report''), (4, ''add_token''), (5, ''tbf_transmit''),
     (2, ''receive_vlc_report''), (3, ''transmit_vlc''), (6, ''generate_packet''), (8, ''schedule_packet'')]"

definition node_threads :: "(nat \<times> string) list" where
  "node_threads = [(0, ''receive_vlc''), (1, ''receive_rf''), (2, ''process_data''), (3, ''vlc_quality_measurement''),
     (5, ''send_report'')]"

definition tx_threads :: "(nat \<times> string) list" where
  "tx_threads = [(0, ''transmit_vlc''), (1, ''send_queue_report'')]"

text \<open>\<^verbatim>\<open>main\<close> up to the loop that joins the threads, or to the receiver loop of the transmitter. The results of the socket
  set-up are ignored by the callers. \<open>node_cells\<close> and \<open>vlc_cells\<close> are the numbers of entries the blocks of the gateway's address tables
  have room for.\<close>

definition gw_main :: "nat \<Rightarrow> nat \<Rightarrow> os \<Rightarrow> os \<Rightarrow> (nat \<Rightarrow> int) \<Rightarrow> stack \<Rightarrow> sock \<Rightarrow> sock \<Rightarrow> gw_state program outcome option" where
  "gw_main node_cells vlc_cells os_rf os_eth pthread_create st rf eth = do {
     nodes \<leftarrow> setup_node_address node_cells;
     vlcs \<leftarrow> setup_vlc_address vlc_cells;
     (_, rf) \<leftarrow> gw_setup_rf_socket os_rf (st_name1 st) rf;
     (_, eth) \<leftarrow> setup_sending_vlc_packet os_eth (st_name2 st) eth;
     let (failed, threads) = create_threads pthread_create gw_threads Map.empty;
     Some (if failed then Exit (- 1)
           else Ret \<lparr>pr_state = gw_init nodes vlcs (st_packets st) (st_buf1 st) (st_buf2 st), pr_sock1 = rf, pr_sock2 = eth,
                  pr_threads = threads\<rparr>) }"

definition node_main :: "os \<Rightarrow> os \<Rightarrow> (nat \<Rightarrow> int) \<Rightarrow> stack \<Rightarrow> sock \<Rightarrow> sock \<Rightarrow> node_state program outcome option" where
  "node_main os_vlc os_rf pthread_create st vlc rf = do {
     vlc \<leftarrow> node_setup_vlc_socket os_vlc (st_ifr st) vlc;
     (_, rf) \<leftarrow> node_setup_rf_socket os_rf (st_name1 st) rf;
     let (failed, threads) = create_threads pthread_create node_threads Map.empty;
     Some (if failed then Exit (- 1)
           else Ret \<lparr>pr_state = node_init (st_buf1 st), pr_sock1 = vlc, pr_sock2 = rf, pr_threads = threads\<rparr>) }"

definition tx_main :: "os \<Rightarrow> os \<Rightarrow> (nat \<Rightarrow> int) \<Rightarrow> stack \<Rightarrow> sock \<Rightarrow> sock \<Rightarrow> tx_state program outcome option" where
  "tx_main os_eth os_vlc pthread_create st eth vlc = do {
     (ret, eth) \<leftarrow> tx_setup_eth_socket os_eth (st_name1 st) eth;
     (case ret of
        Exit e \<Rightarrow> Some (Exit e)
      | Ret _ \<Rightarrow> do {
          vlc \<leftarrow> tx_setup_vlc_socket os_vlc (st_ifr st) vlc;
          let (failed, threads) = create_threads pthread_create tx_threads Map.empty;
          Some (if failed then Exit (- 1)
                else Ret \<lparr>pr_state = tx_init (st_buf1 st), pr_sock1 = eth, pr_sock2 = vlc, pr_threads = threads\<rparr>) }) }"

section \<open>The copies of the interface names\<close>

lemmas name_defs = RF_IF_NAME_def ETH_IF_NAME_def VLC_INTERFACE_def IFNAMSIZ_def

lemma strcpy_name:
  assumes "length buf = IFNAMSIZ" "length name < IFNAMSIZ"
  shows "c_strcpy buf name = Some (name @ 0 # drop (Suc (length name)) buf)"
  using assms by (simp add: c_strcpy_def cput_0)

lemma strncpy_name:
  assumes "length name < IFNAMSIZ" "\<forall>b\<in>set name. b \<noteq> 0"
  shows "c_strncpy (ifr_name zero_ifreq) (name @ 0 # rest) (IFNAMSIZ - 1) = Some (name @ replicate (IFNAMSIZ - length name) 0)"
proof -
  have tw: "takeWhile (\<lambda>b. b \<noteq> 0) (name @ 0 # rest) = name" using assms(2) by (induction name) auto
  have n: "IFNAMSIZ - 1 - length name + 1 = IFNAMSIZ - length name" using assms(1) by (simp add: IFNAMSIZ_def)
  have "replicate (IFNAMSIZ - 1 - length name) 0 @ [0] = (replicate (IFNAMSIZ - length name) 0 :: u8 list)"
    unfolding n[symmetric] replicate_add by simp
  then show ?thesis using assms(1) unfolding c_strncpy_def tw
    by (simp add: cput_0 zero_ifreq_def IFNAMSIZ_def)
qed

lemma names_fit: "length RF_IF_NAME < IFNAMSIZ" "length ETH_IF_NAME < IFNAMSIZ" "length VLC_INTERFACE < IFNAMSIZ"
    "\<forall>b\<in>set RF_IF_NAME. b \<noteq> 0" "\<forall>b\<in>set ETH_IF_NAME. b \<noteq> 0"
  by (simp_all add: name_defs of_char_def)

lemma get_hwaddr_name:
  assumes "length name < IFNAMSIZ" "\<forall>b\<in>set name. b \<noteq> 0"
  shows "\<exists>m. get_hwaddr os (name @ 0 # rest) s = Some (s\<lparr>sk_if_mac := m\<rparr>)
    \<and> ifr_hwaddr m = (case os_hwaddr os of None \<Rightarrow> replicate 14 0 | Some a \<Rightarrow> a)"
  using strncpy_name[OF assms] by (auto simp: get_hwaddr_def zero_ifreq_def split: option.splits)

section \<open>What the set-up functions return, and what stays open\<close>

lemma set_options_result:
  assumes "sk_open s = f # fs" "sk_fd s = f" "f \<notin> set fs"
  shows "fst (set_options os s) = (if os_reuse os \<and> os_bindtodevice os then 0 else - 1)"
    "set (sk_open (snd (set_options os s))) = (if os_reuse os \<and> os_bindtodevice os then insert f (set fs) else set fs)"
    "sk_if_mac (snd (set_options os s)) = sk_if_mac s"
  using assms by (auto simp: set_options_def sk_close_def)

text \<open>The Ethernet socket of the gateway and the RF socket of the node, set up alike: on failure nothing stays open.\<close>

lemma plain_setup_result:
  assumes n: "length uninit = IFNAMSIZ" and f: "os_socket os \<notin> set (sk_open s)"
    and fn: "fn = setup_sending_vlc_packet \<or> fn = node_setup_rf_socket"
  shows "\<exists>r s'. fn os uninit s = Some (r, s')
    \<and> r = (if os_socket os \<noteq> - 1 \<and> os_reuse os \<and> os_bindtodevice os then 0 else - 1)
    \<and> set (sk_open s') = (if r = 0 then insert (os_socket os) (set (sk_open s)) else set (sk_open s))"
proof -
  let ?s = "s\<lparr>sk_fd := os_socket os, sk_open := os_socket os # sk_open s\<rparr>"
  obtain name where name: "length name < IFNAMSIZ" "\<forall>b\<in>set name. b \<noteq> 0" and
    su: "fn os uninit s = do {
     if_name \<leftarrow> c_strcpy uninit name;
     let s = s\<lparr>sk_fd := os_socket os\<rparr>;
     if sk_fd s = - 1 then Some (- 1, s)
     else do {
       let s = s\<lparr>sk_open := sk_fd s # sk_open s\<rparr>;
       s \<leftarrow> get_hwaddr os if_name s;
       Some (set_options os s) } }"
    using fn names_fit by (auto simp: setup_sending_vlc_packet_def node_setup_rf_socket_def)
  obtain m where m: "get_hwaddr os (name @ 0 # drop (Suc (length name)) uninit) ?s = Some (?s\<lparr>sk_if_mac := m\<rparr>)"
    using get_hwaddr_name[OF name] by blast
  show ?thesis
    using set_options_result[of "?s\<lparr>sk_if_mac := m\<rparr>" "os_socket os" "sk_open s" os] f m
    by (cases "set_options os (?s\<lparr>sk_if_mac := m\<rparr>)") (auto simp: su Let_def strcpy_name[OF n name(1)])
qed

text \<open>The RF socket of the gateway: when the index of the interface cannot be found the socket stays open.\<close>

lemma gw_rf_setup_result:
  assumes n: "length uninit = IFNAMSIZ" and f: "os_socket os \<notin> set (sk_open s)"
  shows "\<exists>r s'. gw_setup_rf_socket os uninit s = Some (r, s')
    \<and> r = (if os_socket os \<noteq> - 1 \<and> os_index os \<noteq> None \<and> os_reuse os \<and> os_bindtodevice os then 0 else - 1)
    \<and> set (sk_open s') = (if r = 0 \<or> os_socket os \<noteq> - 1 \<and> os_index os = None then insert (os_socket os) (set (sk_open s))
        else set (sk_open s))
    \<and> (os_socket os \<noteq> - 1 \<longrightarrow> ifr_hwaddr (sk_if_mac s') = (case os_hwaddr os of None \<Rightarrow> replicate 14 0 | Some a \<Rightarrow> a))"
proof -
  let ?s = "s\<lparr>sk_fd := os_socket os, sk_open := os_socket os # sk_open s\<rparr>"
  obtain m where m: "get_hwaddr os (RF_IF_NAME @ 0 # drop (Suc (length RF_IF_NAME)) uninit) ?s = Some (?s\<lparr>sk_if_mac := m\<rparr>)"
    "ifr_hwaddr m = (case os_hwaddr os of None \<Rightarrow> replicate 14 0 | Some a \<Rightarrow> a)"
    using get_hwaddr_name[OF names_fit(1,4)] by blast
  let ?t = "\<lambda>i. ?s\<lparr>sk_if_mac := m, sk_if_idx := i\<rparr>"
  have so: "fst (set_options os (?t i)) = (if os_reuse os \<and> os_bindtodevice os then 0 else - 1)"
    "set (sk_open (snd (set_options os (?t i)))) = (if os_reuse os \<and> os_bindtodevice os then insert (os_socket os) (set (sk_open s)) else set (sk_open s))"
    "sk_if_mac (snd (set_options os (?t i))) = m" for i
    using set_options_result[of "?t i" "os_socket os" "sk_open s" os] f by simp_all
  show ?thesis
  proof (cases "os_socket os = - 1 \<or> os_index os = None")
    case True
    then show ?thesis using m strncpy_name[OF names_fit(1,4)]
      by (auto simp: gw_setup_rf_socket_def Let_def strcpy_name[OF n names_fit(1)])
  next
    case False
    then obtain i where i: "os_socket os \<noteq> - 1" "os_index os = Some i" by auto
    let ?i = "zero_ifreq\<lparr>ifr_name := RF_IF_NAME @ replicate (IFNAMSIZ - length RF_IF_NAME) 0, ifr_ifindex := i\<rparr>"
    have "gw_setup_rf_socket os uninit s = Some (set_options os (?t ?i))"
      using m i strncpy_name[OF names_fit(1,4)] by (simp add: gw_setup_rf_socket_def Let_def strcpy_name[OF n names_fit(1)])
    with so[of ?i] m(2) i show ?thesis by (cases "set_options os (?t ?i)") auto
  qed
qed

text \<open>The Ethernet socket of the transmitter: the only set-up that can end the program.\<close>

lemma tx_eth_setup_result:
  assumes n: "length uninit = IFNAMSIZ" and f: "os_socket os \<notin> set (sk_open s)"
  shows "\<exists>r s'. tx_setup_eth_socket os uninit s = Some (r, s')
    \<and> r = (if os_socket os = - 1 then Ret (- 1) else if \<not> os_reuse os then Exit 1
        else if \<not> os_bindtodevice os then Ret (- 1) else Ret 1)
    \<and> set (sk_open s') = (if r = Ret 1 then insert (os_socket os) (set (sk_open s)) else set (sk_open s))"
proof -
  let ?s = "\<lambda>i. s\<lparr>sk_fd := os_socket os, sk_open := os_socket os # sk_open s, sk_if_idx := i\<rparr>"
  have "\<exists>m. get_hwaddr os (ETH_IF_NAME @ 0 # drop (Suc (length ETH_IF_NAME)) uninit) (?s i) = Some ((?s i)\<lparr>sk_if_mac := m\<rparr>)" for i
    using get_hwaddr_name[OF names_fit(2,5)] by blast
  then obtain m where m: "\<And>i. get_hwaddr os (ETH_IF_NAME @ 0 # drop (Suc (length ETH_IF_NAME)) uninit) (?s i)
      = Some ((?s i)\<lparr>sk_if_mac := m i\<rparr>)" by metis
  show ?thesis
    using f m strncpy_name[OF names_fit(2,5)]
    by (auto simp: tx_setup_eth_socket_def Let_def strcpy_name[OF n names_fit(2)] sk_close_def)
qed

lemma vlc_setup_result:
  assumes "length (ifr_name ifr) = IFNAMSIZ"
  shows "\<exists>s'. node_setup_vlc_socket os ifr s = Some s' \<and> sk_fd s' = os_socket os \<and> sk_bound s' = os_bind os"
    and "\<exists>s'. tx_setup_vlc_socket os ifr s = Some s' \<and> sk_fd s' = os_socket os \<and> sk_bound s' = os_bind os"
  using names_fit(3) strcpy_name[OF assms names_fit(3)]
  by (simp_all add: node_setup_vlc_socket_def tx_setup_vlc_socket_def vlc_ifindex_def open_socket_def Let_def)

section \<open>How the programs start\<close>

lemma create_threads_result:
  shows "\<forall>t\<in>set ts. pc (fst t) = 0 \<Longrightarrow> create_threads pc ts th = (False, th ++ map_of (rev ts))"
    and "\<exists>t\<in>set ts. pc (fst t) \<noteq> 0 \<Longrightarrow> fst (create_threads pc ts th)"
proof (induction ts arbitrary: th)
  case (Cons t ts)
  { case 1 then show ?case using Cons(1) by (cases t) (simp add: map_add_assoc) }
  { case 2 then show ?case using Cons(2) by (cases t) auto }
qed simp_all

text \<open>A stack frame of the sizes the programs declare, and sockets before the set-up.\<close>

definition stack_ok :: "stack \<Rightarrow> bool" where
  "stack_ok st \<longleftrightarrow> length (st_name1 st) = IFNAMSIZ \<and> length (st_name2 st) = IFNAMSIZ
     \<and> length (ifr_name (st_ifr st)) = IFNAMSIZ \<and> length (st_buf1 st) = 1024 \<and> length (st_buf2 st) = 1024"

lemma gw_main_result:
  assumes st: "stack_ok st" and rf: "sk_open rf = []" and eth: "sk_open eth = []"
    and tables: "2 \<le> node_cells" "2 \<le> vlc_cells"
  shows "\<exists>pr. gw_main node_cells vlc_cells os_rf os_eth pc st rf eth
      = Some (if \<exists>i\<in>{0, 1, 2, 3, 4, 5, 6, 8}. pc i \<noteq> 0 then Exit (- 1) else Ret pr)
    \<and> gw_inv (pr_state pr) \<and> dom (pr_threads pr) = {0, 1, 2, 3, 4, 5, 6, 8}
    \<and> (sk_open (pr_sock1 pr) = [] \<longleftrightarrow> os_socket os_rf = - 1 \<or> os_index os_rf \<noteq> None \<and> \<not> (os_reuse os_rf \<and> os_bindtodevice os_rf))
    \<and> (sk_open (pr_sock2 pr) = [] \<longleftrightarrow> os_socket os_eth = - 1 \<or> \<not> (os_reuse os_eth \<and> os_bindtodevice os_eth))"
proof -
  note st = st[unfolded stack_ok_def]
  from gw_rf_setup_result[of "st_name1 st" os_rf rf] st rf obtain r1 rf' where
    1: "gw_setup_rf_socket os_rf (st_name1 st) rf = Some (r1, rf')"
    "set (sk_open rf') = (if os_socket os_rf \<noteq> - 1 \<and> (os_index os_rf = None \<or> os_reuse os_rf \<and> os_bindtodevice os_rf) then {os_socket os_rf} else {})"
    by (auto split: if_splits)
  from plain_setup_result[of "st_name2 st" os_eth eth setup_sending_vlc_packet] st eth obtain r2 eth' where
    2: "setup_sending_vlc_packet os_eth (st_name2 st) eth = Some (r2, eth')"
    "set (sk_open eth') = (if os_socket os_eth \<noteq> - 1 \<and> os_reuse os_eth \<and> os_bindtodevice os_eth then {os_socket os_eth} else {})"
    by (auto split: if_splits)
  from tables obtain nodes vlcs where tb: "setup_node_address node_cells = Some nodes" "setup_vlc_address vlc_cells = Some vlcs"
    by (simp add: setup_tables)
  let ?pr = "\<lparr>pr_state = gw_init nodes vlcs (st_packets st) (st_buf1 st) (st_buf2 st), pr_sock1 = rf', pr_sock2 = eth',
      pr_threads = map_of (rev gw_threads)\<rparr>"
  have m: "gw_main node_cells vlc_cells os_rf os_eth pc st rf eth = Some (if \<exists>i\<in>{0, 1, 2, 3, 4, 5, 6, 8}. pc i \<noteq> 0 then Exit (- 1) else Ret ?pr)"
    unfolding gw_main_def 1(1) 2(1) tb using create_threads_result[of gw_threads pc Map.empty]
    by (cases "create_threads pc gw_threads Map.empty") (auto simp: gw_threads_def Let_def split: if_splits)
  have d: "dom (pr_threads ?pr) = {0, 1, 2, 3, 4, 5, 6, 8}" by (auto simp: gw_threads_def dom_map_of_conv_image_fst)
  have o: "sk_open rf' = [] \<longleftrightarrow> os_socket os_rf = - 1 \<or> os_index os_rf \<noteq> None \<and> \<not> (os_reuse os_rf \<and> os_bindtodevice os_rf)"
    "sk_open eth' = [] \<longleftrightarrow> os_socket os_eth = - 1 \<or> \<not> (os_reuse os_eth \<and> os_bindtodevice os_eth)"
    unfolding set_empty[symmetric] 1(2) 2(2) by auto
  have "gw_inv (pr_state ?pr)" using gw_inv_init[OF tb] st by simp
  with m d o show ?thesis by (intro exI[of _ ?pr]) simp
qed

text \<open>With tables of the size the gateway asks for, it does not get as far.\<close>

lemma gw_main_small_tables: "node_cells < 2 \<or> vlc_cells < 2 \<Longrightarrow> gw_main node_cells vlc_cells os_rf os_eth pc st rf eth = None"
  by (auto simp: gw_main_def setup_tables split: Option.bind_splits)

lemma node_main_result:
  assumes st: "stack_ok st" and rf: "sk_open rf = []"
  shows "\<exists>pr. node_main os_vlc os_rf pc st vlc rf = Some (if \<exists>i\<in>{0, 1, 2, 3, 5}. pc i \<noteq> 0 then Exit (- 1) else Ret pr)
    \<and> node_inv (pr_state pr) \<and> dom (pr_threads pr) = {0, 1, 2, 3, 5} \<and> sk_bound (pr_sock1 pr) = os_bind os_vlc
    \<and> (sk_open (pr_sock2 pr) = [] \<longleftrightarrow> os_socket os_rf = - 1 \<or> \<not> (os_reuse os_rf \<and> os_bindtodevice os_rf))"
proof -
  note st = st[unfolded stack_ok_def]
  from vlc_setup_result(1)[of "st_ifr st" os_vlc vlc] st obtain vlc' where
    1: "node_setup_vlc_socket os_vlc (st_ifr st) vlc = Some vlc'" "sk_bound vlc' = os_bind os_vlc" by auto
  from plain_setup_result[of "st_name1 st" os_rf rf node_setup_rf_socket] st rf obtain r2 rf' where
    2: "node_setup_rf_socket os_rf (st_name1 st) rf = Some (r2, rf')"
    "set (sk_open rf') = (if os_socket os_rf \<noteq> - 1 \<and> os_reuse os_rf \<and> os_bindtodevice os_rf then {os_socket os_rf} else {})"
    by (auto split: if_splits)
  let ?pr = "\<lparr>pr_state = node_init (st_buf1 st), pr_sock1 = vlc', pr_sock2 = rf', pr_threads = map_of (rev node_threads)\<rparr>"
  have m: "node_main os_vlc os_rf pc st vlc rf = Some (if \<exists>i\<in>{0, 1, 2, 3, 5}. pc i \<noteq> 0 then Exit (- 1) else Ret ?pr)"
    unfolding node_main_def 1(1) 2(1) using create_threads_result[of node_threads pc Map.empty]
    by (cases "create_threads pc node_threads Map.empty") (auto simp: node_threads_def Let_def split: if_splits)
  have d: "dom (pr_threads ?pr) = {0, 1, 2, 3, 5}" by (auto simp: node_threads_def dom_map_of_conv_image_fst)
  have o: "sk_open rf' = [] \<longleftrightarrow> os_socket os_rf = - 1 \<or> \<not> (os_reuse os_rf \<and> os_bindtodevice os_rf)"
    unfolding set_empty[symmetric] 2(2) by auto
  have "node_inv (pr_state ?pr)" using node_inv_init st by simp
  with m d o 1(2) show ?thesis by (intro exI[of _ ?pr]) simp
qed

lemma tx_main_result:
  assumes st: "stack_ok st" and eth: "sk_open eth = []"
  shows "\<exists>pr. tx_main os_eth os_vlc pc st eth vlc
      = Some (if os_socket os_eth \<noteq> - 1 \<and> \<not> os_reuse os_eth then Exit 1
          else if \<exists>i\<in>{0, 1}. pc i \<noteq> 0 then Exit (- 1) else Ret pr)
    \<and> tx_inv (pr_state pr) \<and> dom (pr_threads pr) = {0, 1}"
proof -
  note st = st[unfolded stack_ok_def]
  from vlc_setup_result(2)[of "st_ifr st" os_vlc vlc] st obtain vlc' where
    1: "tx_setup_vlc_socket os_vlc (st_ifr st) vlc = Some vlc'" by auto
  from tx_eth_setup_result[of "st_name1 st" os_eth eth] st eth obtain r2 eth' where
    2: "tx_setup_eth_socket os_eth (st_name1 st) eth = Some (r2, eth')"
    "r2 = (if os_socket os_eth = - 1 then Ret (- 1) else if \<not> os_reuse os_eth then Exit 1
        else if \<not> os_bindtodevice os_eth then Ret (- 1) else Ret 1)" by auto
  let ?pr = "\<lparr>pr_state = tx_init (st_buf1 st), pr_sock1 = eth', pr_sock2 = vlc', pr_threads = map_of (rev tx_threads)\<rparr>"
  have m: "tx_main os_eth os_vlc pc st eth vlc
      = Some (if os_socket os_eth \<noteq> - 1 \<and> \<not> os_reuse os_eth then Exit 1
          else if \<exists>i\<in>{0, 1}. pc i \<noteq> 0 then Exit (- 1) else Ret ?pr)"
    unfolding tx_main_def 1(1) 2 using create_threads_result[of tx_threads pc Map.empty]
    by (cases "create_threads pc tx_threads Map.empty") (auto simp: 1 tx_threads_def Let_def split: if_splits)
  have d: "dom (pr_threads ?pr) = {0, 1}" by (auto simp: tx_threads_def dom_map_of_conv_image_fst)
  have "tx_inv (pr_state ?pr)" using tx_inv_init st by simp
  with m d show ?thesis by (intro exI[of _ ?pr]) simp
qed

section \<open>A gateway that could not learn its address\<close>

text \<open>The source address of its frames is then zero, and no node takes them.\<close>

lemma rf_zero_mac:
  assumes os: "os_socket os \<noteq> - 1" "os_hwaddr os = None" "length uninit = IFNAMSIZ" "sk_open sk = []"
    and p: "gp_wf p" "length (gp_data p) \<le> 1000" and s: "length (rf_buf s) = 1024"
  shows "\<exists>r sk' frame b. gw_setup_rf_socket os uninit sk = Some (r, sk')
    \<and> transmit_packet_rf sendto (ifr_hwaddr (sk_if_mac sk')) p = Some (sendto frame, frame)
    \<and> receive_rf (Some frame) s = Some (s\<lparr>rf_buf := b\<rparr>)"
proof -
  from gw_rf_setup_result[of uninit os sk] os obtain r sk' where
    sk: "gw_setup_rf_socket os uninit sk = Some (r, sk')" "ifr_hwaddr (sk_if_mac sk') = replicate 14 0" by auto
  have "take 6 (replicate 14 0) = [0, 0, 0, 0, 0, 0 :: u8]" by (simp add: eval_nat_numeral)
  then have "take 6 (replicate 14 0) \<noteq> RF_MAC" by (simp add: RF_MAC_def)
  with rf_hop[OF p s, of "replicate 14 0" sendto] sk show ?thesis by fastforce
qed

section \<open>Code that is not started\<close>

text \<open>The thread of the node that \<^verbatim>\<open>main\<close> does not start, one iteration: what it prints, and its clock. \<open>now1\<close> and \<open>now2\<close> are the
  two readings of the clock. The alarm handler of the gateway sets a flag nothing reads.\<close>

record output_clock =
  beginning_flag :: int
  beginning :: timespec
  current_time :: timespec

definition output_data :: "timespec \<Rightarrow> timespec \<Rightarrow> node_state \<Rightarrow> output_clock \<Rightarrow> output_clock \<times> (real \<times> int \<times> int) option" where
  "output_data now1 now2 s c =
    (if from_vlc s > 0 \<or> from_rf s > 0 then
       let c = (if beginning_flag c = 0 then c\<lparr>beginning_flag := 1, beginning := now1\<rparr> else c);
           c = c\<lparr>current_time := now2\<rparr>;
           x_axis = (of_int (tv_sec (current_time c) - tv_sec (beginning c)) * 1000000000
             + of_int (tv_nsec (current_time c) - tv_nsec (beginning c))) / 1000
       in (c, Some (x_axis, from_vlc s, from_rf s))
     else (c, None))"

definition handle_scheduler :: "int \<Rightarrow> int \<Rightarrow> int" where
  "handle_scheduler sig is_scheduling_flag = 1"

text \<open>With a clock that does not run backwards the times printed begin at or after 0 and never decrease.\<close>

definition nanoseconds :: "timespec \<Rightarrow> int" where
  "nanoseconds t = tv_sec t * 1000000000 + tv_nsec t"

lemma output_times:
  assumes 1: "output_data a b s c = (c1, Some (x, out))" and 2: "output_data a' b' s' c1 = (c2, Some (y, out'))"
    and clock: "nanoseconds a \<le> nanoseconds b" "nanoseconds b \<le> nanoseconds b'"
    and begun: "beginning_flag c = 0 \<or> nanoseconds (beginning c) \<le> nanoseconds b"
  shows "0 \<le> x \<and> x \<le> y \<and> beginning c2 = beginning c1"
proof -
  have f: "beginning_flag c1 \<noteq> 0" "x = of_int (nanoseconds b - nanoseconds (beginning c1)) / 1000"
    "nanoseconds (beginning c1) \<le> nanoseconds b"
    using 1 clock begun by (auto simp: output_data_def Let_def nanoseconds_def algebra_simps split: if_splits)
  then have "y = of_int (nanoseconds b' - nanoseconds (beginning c1)) / 1000" "beginning c2 = beginning c1"
    using 2 by (auto simp: output_data_def Let_def nanoseconds_def algebra_simps split: if_splits)
  with f clock show ?thesis by (simp add: divide_right_mono)
qed

end
