(* ===== verification/Spec2Isabelle.thy ===== *)
theory Spec2Isabelle
  imports Pru_System RS_Wide Startup
begin

text \<open>
  \<^bold>\<open>A hybrid visible-light and radio network: verification of the gateway, the VLC transmitter, the node and their drivers.\<close>

  \<^bold>\<open>The system.\<close> A gateway (\<^verbatim>\<open>gateway (eth)_gateway/\<close>) generates packets for nodes, decides for each whether it goes
  over radio (RF) or over visible light (VLC), limits the RF rate by a token bucket, and reads the reports of nodes and
  transmitters. A VLC transmitter (\<^verbatim>\<open>VLC TX1 (Eth)_vlc_tx/\<close>) queues what the gateway sends it and hands it to the
  network device of its kernel module (\<^verbatim>\<open>VLC TX1 (Eth)_ourvlc/\<close>), which adds Reed-Solomon parity and writes frames
  into a ring in memory shared with a PRU, the processor that drives the lamp; its program (\<^verbatim>\<open>TXPRU/TXPRU.p\<close>) sends
  them as symbols of light. At the node, a PRU (\<^verbatim>\<open>RXPRU/RXPRU.p\<close>) finds frames in the symbols and fills such a ring, the
  receiver's kernel module (\<^verbatim>\<open>node (rf)_ourvlc/\<close>) corrects and delivers the frames, and the node program
  (\<^verbatim>\<open>node (rf)_node1/\<close>) merges what arrives over RF and VLC into an acknowledgement window and reports it.

  \<^bold>\<open>The theories and the code they model.\<close>
  \<^item> \<open>CPrelude\<close>: unsigned C types as words, bounds-checked array access, \<^verbatim>\<open>memcpy\<close>, \<^verbatim>\<open>memmove\<close>, counting loops with
    total-correctness rules, little-endian integers in buffers, the range of \<^verbatim>\<open>int\<close>. Every other theory rests on it.
    \<open>Double\<close>: the rounding of \<^verbatim>\<open>double\<close>, for node and gateway.
  \<^item> \<open>RS_Codec\<close>: \<^verbatim>\<open>rslib.h\<close>, \<^verbatim>\<open>reed_solomon.c\<close>, \<^verbatim>\<open>encode_rs.c\<close>, \<^verbatim>\<open>decode_rs.c\<close>, one definition per function and per loop.
    \<open>GF256\<close> is the field, an instance of the library's class \<^verbatim>\<open>field\<close>. \<open>RS_Tables\<close> proves that \<^verbatim>\<open>init_rs\<close> builds tables
    that fulfil the locales \<open>rs_tables\<close> and \<open>rs_code\<close>; \<open>RS_Encode\<close> and \<open>RS_Syndrome\<close> refine encoder and syndrome loops
    to polynomials over the field; \<open>RS_Locator\<close> is the algebra of an error pattern (locale \<open>error_pattern\<close>: Massey's
    bound, uniqueness of the locator, Forney's formula); \<open>RS_Massey\<close> proves the Berlekamp-Massey loop against it,
    \<open>RS_Chien\<close> the root search, \<open>RS_Correct\<close> the whole decoder. \<open>RS_Wide\<close> holds the 16-bit entry points and their
    equivalence with the 8-bit ones.
  \<^item> \<open>Packet_Queue\<close>: \<^verbatim>\<open>packet_queue.c\<close> of gateway, node and transmitter as linked lists in an explicit store. The
    interface is the locale \<open>bounded_fifo\<close> (with \<open>by_value_fifo\<close>), interpreted by both linked lists, by the list-valued
    queue \<open>fifo\<close> with which the programs are modelled, and by the driver's pool and transmit queue.
  \<^item> \<open>Packets\<close>: \<^verbatim>\<open>gateway_packet.c\<close>, \<^verbatim>\<open>node_packet.c\<close> and the frame builders, parsers and address filters of the three
    \<^verbatim>\<open>main.c\<close>. \<open>Parsers\<close>: the packet parsers on arbitrary bytes. \<open>Status_Report\<close>: both \<^verbatim>\<open>status_report_packet.c\<close>.
  \<^item> \<open>Node\<close>, \<open>Gateway\<close>, \<open>Vlc_Tx\<close>: the three \<^verbatim>\<open>main.c\<close> with \<^verbatim>\<open>node.c\<close> and \<^verbatim>\<open>gateway.c\<close>. The globals of a program are a
    record (\<open>node_state\<close>, \<open>gw_state\<close>, \<open>tx_state\<close>). In node and gateway an iteration of a thread is a function on it, and
    runs are interleavings of iterations (\<open>node_reach\<close>, \<open>gw_run\<close>). The threads of the transmitter are step functions with
    a program counter (\<open>r_step\<close>, \<open>t_step\<close>), a run interleaves their steps (\<open>tx_step\<close>, \<open>tx_runs\<close>), and \<open>tx_receive\<close> and
    \<open>tx_transmit_vlc\<close> are the iterations that nothing interrupts.
  \<^item> \<open>Vlc_Driver\<close>, \<open>Vlc_Rx\<close>, \<open>Vlc_Module\<close>: the two \<^verbatim>\<open>ourvlc-1.c\<close>: pool, transmit queue, framing and timer handler;
    decoding thread and delivery; loading and unloading, with the decoding thread as \<^verbatim>\<open>kthread_stop\<close> finds it as the record
    \<open>kthread\<close> and a call that does not return as \<open>Waiting\<close>. \<open>drv_reach\<close> and \<open>rx_reach\<close> are the runs of the two drivers,
    in which the PRU writes into the shared memory between steps. \<open>Ring\<close>: the shared memory as a sequence of frames, and
    the two drivers as a channel for any number of packets.
  \<^item> \<open>Pru_Tx\<close>, \<open>Pru_Rx\<close>: the assembly programs of the two PRUs, one definition per label. \<open>Pru_Send\<close>: the symbols the
    transmitter puts on the line for the frames of its ring. \<open>Pru_Receive\<close>: what the receiver makes of symbols. \<open>Pru_Link\<close>:
    one behind the other, with a damaged line between, and the runs of receiver program and decoding thread on the memory
    they share (\<open>receiver_runs\<close>). \<open>Pru_System\<close>: the light link from network stack to network stack.
  \<^item> \<open>System\<close>: frames from one program to the next. \<open>End_To_End\<close>: batches of packets from the gateway to the node.
  \<^item> \<open>Startup\<close>: the socket set-up functions and \<^verbatim>\<open>main\<close> of the three programs, with the answers of the operating system
    as the record \<open>os\<close>; the thread of the node that is not started and the alarm handler of the gateway.
  \<^item> This theory: the properties C1 to C40, with the concrete states on which their witnesses evaluate them.

  \<^bold>\<open>How code is modelled.\<close> A fault (access outside an array, dereference of \<^verbatim>\<open>NULL\<close>, double free, \<^verbatim>\<open>BUG_ON\<close>) is \<open>None\<close>;
  error returns are values. The registers of the PRUs are natural
  numbers, as no sum of their programs reaches 32 bits. Unsigned fixed-width integers are words and wrap. \<^verbatim>\<open>int\<close> is the
  integers: where a value can leave the range of the type, in the gateway's counter \<^verbatim>\<open>r\<close>, its scheduler and the index of a
  reported packet, \<open>chk\<close> makes the overflow a fault; elsewhere the values are bounded by the code. Only the
  counters that are at most printed (\<^verbatim>\<open>from_rf\<close>, \<^verbatim>\<open>from_vlc\<close> and \<^verbatim>\<open>rs_error_bytes\<close> of the node; those local to a thread are left
  out) have no bound. \<^verbatim>\<open>double\<close> is the real
  numbers, each operation rounded to 53 bits by \<open>fl64\<close>. Loops that may run forever are \<open>partial_function (option)\<close>
  and their termination is proved (C2, C6, C8, C22, C23, C25); no definition uses fuel. What the programs get from outside is an argument: the
  blocks \<^verbatim>\<open>kmalloc\<close> returns, the contents of uninitialised arrays, received frames, results of \<^verbatim>\<open>sendto\<close> and \<^verbatim>\<open>write\<close>,
  clock and random numbers, and in \<open>Vlc_Module\<close> the answers of the kernel (record \<open>kernel\<close>). The hypotheses on them
  state documented behaviour: an allocator hands out blocks of the asked size (\<open>kmalloc_sound\<close>) that are not in use
  (\<open>fresh_blocks\<close>); the network stack does not call the transmit entry point while the device queue is stopped.

  \<^bold>\<open>What is shown.\<close>
  \<^item> Reed-Solomon (C1, C2, C6, C7): the codec corrects any eight wrong bytes of a block, the decoder is total on every
    input, the control structure is built, shared and freed correctly, the 8-bit and 16-bit entry points agree.
  \<^item> The light path (C3 to C5, C12, C13, C29): packets handed to one driver come out of the other in order, through both
    PRUs, with up to eight damaged bytes in each frame corrected; the receiver, its program and its thread in any order,
    never faults whatever the line carries; the transmitter's handler can overwrite frames that were not yet read. C13 is
    the whole way, from the gateway to the queue of the node. C3 and C13 are about the first burst after the start.
  \<^item> The PRUs (C8, C12, C14, C21): the transmitter's program sends all frames of its ring and waits again, the receiver's
    stores whatever follows a good head; the first frame after the ring has run empty is lost; a transmitter program
    assembled from the source, unlike the image beside it, reads past the frames.
  \<^item> Gateway (C9, C10, C32, C34 to C36): order and rate of the packets over RF in every run, absence of faults while the
    counters of the scheduler stay in range, its decision with rounding and overflow, and three defects of the report path
    and the token bucket.
  \<^item> Frames and reports (C11, C15, C16, C20, C33): what one program sends the next one parses back, the parsers
    accept nothing else, and the two serialisers of a report agree.
  \<^item> Node (C17, C18, C37, C38): the acknowledgement window, and the two arrays it can leave.
  \<^item> Queues (C19, C22): refinement of a bounded queue, first-in-first-out, termination. Transmitter (C31): the counter and
    the queue in every run in which the two updates of the counter do not overlap, and a run in which one is lost.
  \<^item> Drivers (C23 to C28, C39, C40): the device queue, safety of the timer handler in every run, loading and
    unloading, the proc file, and the ways in which the receiver gets stuck and the modules fail to unload.
  \<^item> Start (C30): the gateway writes past its address tables, unless the allocator gave larger blocks; apart from that,
    whatever the operating system answers, the programs exit or run from a state of their invariant.

  \<^bold>\<open>Bounds.\<close> The code of the drivers is fixed to 8-bit symbols, polynomial \<^verbatim>\<open>0x11d\<close> and 16 parity bytes (\<open>vlc_rs\<close>), which
  is how both call it. Frame theorems concern packets of one block (less than 200 bytes with header), the
  theorems on the whole channel packets of at most 150 bytes of payload, the receiver's limit;
  those on the PRUs packets of 74 bytes, the only payload the receiver's program accepts and the one the gateway generates.

  \<^bold>\<open>Not modelled.\<close> Locks, and preemption inside an iteration of node and gateway: their iterations are atomic, which is
  coarser than the code where it takes no lock. In the transmitter a call of \<^verbatim>\<open>Enqueue\<close> or \<^verbatim>\<open>Dequeue\<close> is one step. Rounds that the
  decoding thread makes while \<^verbatim>\<open>cleanup_module\<close> is still freeing are left out: the thread is looked at from the call of
  \<^verbatim>\<open>kthread_stop\<close> on. Infinities and the smallest numbers of \<^verbatim>\<open>double\<close>; the times \<^verbatim>\<open>output_data\<close> prints are exact. Prints, sleeping, and the end of \<^verbatim>\<open>main\<close>,
  which joins threads that do not end. The loaders of the PRU programs are hardware access. Of the PRUs: the set-up of
  their shift registers, the two words of zeros loaded at the start and what the shift registers repeat while the
  program waits, the start bit, and the debug counters; the symbols one program loads are the line.
  \<open>drv_reach\<close> and \<open>rx_reach\<close> let a PRU do anything to the part of the memory it owns. Test
  programs, \<^verbatim>\<open>main_old.c\<close>, \<^verbatim>\<open>packet_queue_old.c\<close>,
  \<^verbatim>\<open>rs.c\<close>, \<^verbatim>\<open>server.c\<close> and \<^verbatim>\<open>scheduler.c\<close> are
  not part of any of the programs; \<^verbatim>\<open>vlc.mod.c\<close> is generated. The queue of the node, the pool
  functions of the receiver's module and its copy of the Reed-Solomon library repeat files that are modelled, and
  share their definitions.
\<close>

unbundle bit_operations_syntax

section \<open>Concrete states for the witnesses\<close>

definition zeros :: "u8 list" where "zeros = replicate 1024 0"

definition packet0 :: gateway_packet where
  "packet0 = \<lparr>gp_node_id = 1, gp_vlc_id = 0, gp_payload_len = 2, gp_seq_number = 7, gp_data = [5, 6]\<rparr>"

text \<open>The gateway after a start on an allocator that rounds blocks up to two entries.\<close>

definition gw0 :: gw_state where
  "gw0 = gw_init (the (setup_node_address 2)) (the (setup_vlc_address 2)) (\<lambda>i. packet0) zeros zeros"

definition tx0 :: tx_state where "tx0 = tx_init zeros"

definition tx1 :: tx_state where
  "tx1 = tx0\<lparr>tx_vlc_queue := (tx_vlc_queue tx0)\<lparr>fq_items := [packet0\<lparr>gp_vlc_id := 1\<rparr>]\<rparr>, queue_size := 1\<rparr>"

definition node0 :: node_state where "node0 = node_init zeros"

definition kmalloc0 :: kallocator where "kmalloc0 k n = Some (replicate (nat n) 0)"

definition rx0 :: "u8 list \<Rightarrow> rx_drv" where
  "rx0 m = \<lparr>rx_pru = le16 100 @ le16 4 @ drop 4 m, rx_pkt = \<lparr>datalen = 0, pk_data = replicate 2010 0\<rparr>,
     rx_dropped = 0, tx_packets = 0, tx_bytes = 0, rx_int_enabled = 1, netif_rx = []\<rparr>"

definition drv0 :: drv where
  "drv0 = the (drv_init 2 (\<lambda>i. Some (nat (i + 1))) (\<lambda>i. \<lparr>datalen = 0, pk_data = replicate 2010 0\<rparr>) Map.empty
     (le16 4 @ le16 4 @ replicate 6226 0))"

definition status0 :: node_status where
  "status0 = \<lparr>rcv_seq = 1, rcv_state = (\<lambda>i. if i = 0 then 1 else 0), last_rcv_seq = 0\<rparr>"

definition heap0 :: "nat heap" where
  "heap0 = [0 \<mapsto> \<lparr>nd_data = 10, nd_next = None\<rparr>, 1 \<mapsto> \<lparr>nd_data = 11, nd_next = None\<rparr>]"

definition queue0 :: packet_queue where "queue0 = the (construct_queue True 5)"

definition rx_stuck :: rx_drv where "rx_stuck = rx0 (replicate 6230 0)"

definition packet4 :: gateway_packet where
  "packet4 = \<lparr>gp_node_id = 2, gp_vlc_id = 1, gp_payload_len = 4, gp_seq_number = 7, gp_data = [5, 6, 7, 8]\<rparr>"

definition rx_noise :: "u8 list \<Rightarrow> rx_drv" where
  "rx_noise frame = (rx0 [])\<lparr>rx_pru := le16 100 @ le16 4 @ frame[7 := frame ! 7 XOR 1] @ replicate 6196 0\<rparr>"

definition gw_full :: gw_state where
  "gw_full = gw0\<lparr>tbf_queue := (tbf_queue gw0)\<lparr>fq_items := [(generate_random_node (\<lambda>i. 0) 1)\<lparr>gp_seq_number := 0\<rparr>]\<rparr>,
     tbf_queue_length := 1, n_token := 1\<rparr>"

text \<open>A kernel that grants everything, the modules before loading.\<close>

definition kernel0 :: kernel where
  "kernel0 = \<lparr>k_netdev = Some \<lparr>hard_header_len = 0, mtu = 0, tx_queue_len = 0, addr_len = 0, dev_addr = [0, 0],
       queue_on = False, noarp = False, hw_csum = False, skb_sharing = False\<rparr>,
     k_mtu = 100, k_register = 0, k_ioremap = Some (replicate 25000 0), k_rs_kmalloc = kmalloc0, k_pool_size = 2,
     k_kmalloc = (\<lambda>i. Some (nat (i + 1))), k_body = (\<lambda>i. \<lparr>datalen = 0, pk_data = replicate 2010 0\<rparr>),
     k_q = Some (replicate 2010 0), k_timer_init = 0, k_timer_start = 0, k_kthread = 0, k_thread = \<lparr>th_at_test = False, th_sees = []\<rparr>\<rparr>"

definition tx_mod0 :: tx_mod where
  "tx_mod0 = \<lparr>m_devs = None, m_drv = drv0\<lparr>mem := Map.empty\<rparr>, m_q = None, m_rslist = [], m_rs = None, m_log = []\<rparr>"

definition rx_mod0 :: rx_mod where
  "rx_mod0 = \<lparr>n_devs = None, n_mem = Map.empty, n_pool = None, n_rx_pkt = None, n_rs_error_pkt = None, n_int_enabled = 0,
     n_rslist = [], n_rs = None, n_task = False, n_log = []\<rparr>"

text \<open>Two packets of 3 bytes with their headers; an operating system that opens no socket.\<close>

definition packets2 :: "u8 list list" where
  "packets2 = [le16 3 @ replicate 11 0, le16 3 @ replicate 11 7]"

definition os0 :: os where
  "os0 = \<lparr>os_socket = - 1, os_hwaddr = None, os_index = None, os_reuse = False, os_bindtodevice = False, os_bind = False\<rparr>"

definition sock0 :: sock where
  "sock0 = \<lparr>sk_fd = 0, sk_if_mac = zero_ifreq, sk_if_idx = zero_ifreq, sk_sll_ifindex = 0, sk_sll_addr = replicate 8 0,
     sk_bound = False, sk_open = []\<rparr>"

definition stack0 :: stack where
  "stack0 = \<lparr>st_name1 = replicate 16 1, st_name2 = replicate 16 2, st_ifr = zero_ifreq, st_buf1 = zeros, st_buf2 = zeros,
     st_packets = (\<lambda>i. packet0)\<rparr>"

text \<open>Two packets with the payload the receiver's PRU takes, as bytes and at the gateway; the memory of a PRU with an empty ring,
  and with one frame in it; the receiver after its start.\<close>

definition packets74 :: "u8 list list" where
  "packets74 = [le16 74 @ replicate 82 3, le16 74 @ replicate 82 7]"

definition packet74 :: gateway_packet where
  "packet74 = packet0\<lparr>gp_payload_len := 74, gp_data := replicate 74 5\<rparr>"

definition batch74 :: "gateway_packet list" where
  "batch74 = [packet74, packet74\<lparr>gp_seq_number := 8\<rparr>]"

definition ring0 :: "u8 list" where
  "ring0 = le16 4 @ le16 4 @ replicate 6226 0"

definition ring1 :: "u8 list" where
  "ring1 = le16 104 @ le16 4 @ frame_of (hd packets74) @ replicate 6126 0"

definition rxpru0 :: rxpru where
  "rxpru0 = snd (the (rxpru_start ring0))"

definition rx_fresh :: rx_drv where
  "rx_fresh = (rx0 [])\<lparr>rx_pru := ring0\<rparr>"

lemma zeros_length [simp]: "length zeros = 1024"
  by (simp add: zeros_def)

lemma packet0_wf: "gp_wf packet0"
  by (simp add: gp_wf_def packet0_def)

lemma packet4_ok: "gp_wf packet4" "4 \<le> length (gp_data packet4)" "length (gp_data packet4) \<le> 100"
  "gp_node_id packet4 \<noteq> RX_DUMMY_NODE_ID" "gp_vlc_id packet4 = 1"
  by (simp_all add: packet4_def gp_wf_def RX_DUMMY_NODE_ID_def)

lemma packet4_len: "length (gp_data packet4) = 4" "length (gp_payload packet4) = 4" "drop 4 (gp_data packet4) = []"
  by (simp_all add: packet4_def gp_payload_def)

lemma rx_noise_ok: "rd16 (rx_pru (rx_noise frame)) 2 = Some 4" "rd16 (rx_pru (rx_noise frame)) 0 = Some 100"
  "rx_pkt_ok (rx_noise frame)" "netif_rx (rx_noise frame) = []"
  by (simp_all add: rx_noise_def rx0_def rx_pkt_ok_def PKT_DATA_def bytes_simps)

lemma rx_noise_frame: "length frame = 30 \<Longrightarrow>
    cget (rx_pru (rx_noise frame)) (uint (4 :: u16)) 30 = Some (frame[7 := frame ! 7 XOR 1])"
  by (simp add: rx_noise_def cget_def)

lemma flip_low_byte: "(ucast (x :: u16) :: u8) \<noteq> ucast (x XOR 1)"
proof
  assume "(ucast x :: u8) = ucast (x XOR 1)"
  then have "bit (ucast x :: u8) 0 = bit (ucast (x XOR 1) :: u8) 0" by simp
  then show False by (simp add: bit_simps)
qed

lemma rx_stuck_inv: "rx_inv rx_stuck"
  by (simp add: rx_inv_def rx_stuck_def rx0_def rx_pkt_ok_def PKT_DATA_def bytes_simps in_ring_def BUFFER_LIMIT_def)

lemma tables2: "setup_node_address 2 = Some (the (setup_node_address 2))" "setup_vlc_address 2 = Some (the (setup_vlc_address 2))"
  by (simp_all add: setup_tables)

lemma gw0_inv: "gw_inv gw0"
  unfolding gw0_def by (rule gw_inv_init[OF tables2]) simp_all

lemma gw0_fields: "gw_r gw0 = 0" "vk gw0 = [0]" "gn gw0 = [0]" "gw_e gw0 = [[0]]" "pipeline gw0 = []" "n_token gw0 = 0"
  by (simp_all add: gw0_def gw_init_def initialize_algorithm_3_variables_def gw_consts pipeline_def node_queue_def fq_new_def)

lemma tx0_inv: "tx_inv tx0"
  by (simp add: tx0_def tx_inv_init)

lemma tx1_inv: "tx_inv tx1"
  using tx0_inv packet0_wf by (simp add: tx_inv_def tx1_def QUEUE_LIMIT_def gp_wf_def)

lemma node0_inv: "node_inv node0"
  by (simp add: node0_def node_inv_init)

lemma kmalloc0_sound: "kmalloc_sound kmalloc0"
  by (simp add: kmalloc_sound_def kmalloc0_def)

lemma status0_inv: "node_inv (node0\<lparr>status := status0\<rparr>)"
  using node0_inv by (auto simp: node_inv_def status_ok_def status0_def MAX_SEQ_NUMBER_def max_ACK_bit_pattern_def)

lemma drv0_ok: "\<exists>as. drv_init 2 (\<lambda>i. Some (nat (i + 1))) (\<lambda>i. \<lparr>datalen = 0, pk_data = replicate 2010 0\<rparr>) Map.empty
     (le16 4 @ le16 4 @ replicate 6226 0) = Some drv0 \<and> drv_at drv0 as [] \<and> length as = 2"
  using drv_init_ok[of "\<lambda>i. Some (nat (i + 1))" 2 "\<lambda>i. \<lparr>datalen = 0, pk_data = replicate 2010 0\<rparr>" Map.empty
     "le16 4 @ le16 4 @ replicate 6226 0"]
  by (fastforce simp: PKT_DATA_def drv0_def)

lemma drv0_handler: "handler_inv drv0 (quality_bytes 99 @ drop 84 (replicate 2010 0))"
proof -
  from drv0_ok obtain as where as: "drv_at drv0 as []" "drv_init 2 (\<lambda>i. Some (nat (i + 1))) (\<lambda>i. \<lparr>datalen = 0,
     pk_data = replicate 2010 0\<rparr>) Map.empty (le16 4 @ le16 4 @ replicate 6226 0) = Some drv0" by blast
  then have p: "pru drv0 = le16 4 @ le16 4 @ replicate 6226 0" "is_write_next drv0"
    using drv_init_start by blast+
  then have "ring_ok drv0" by (simp add: ring_ok_def bytes_simps in_ring_def BUFFER_LIMIT_def)
  moreover have "short_pkt (quality_bytes 99 @ drop 84 (replicate 2010 0))"
    by (rule init_vlc_quality_packet_ok) (simp add: PKT_DATA_def)
  ultimately show ?thesis using as(1) unfolding handler_inv_def by (metis empty_iff list.set(1))
qed

lemma drv0_start: "is_write_next drv0" "drv_items drv0 = []" "rd16 (pru drv0) 2 = Some 4" "rd16 (pru drv0) 0 = Some 4"
  "drv_cap drv0 = 2"
proof -
  from drv0_ok obtain as where as: "drv_at drv0 as []" "length as = 2" "drv_init 2 (\<lambda>i. Some (nat (i + 1))) (\<lambda>i. \<lparr>datalen = 0,
     pk_data = replicate 2010 0\<rparr>) Map.empty (le16 4 @ le16 4 @ replicate 6226 0) = Some drv0" by blast
  then have "pru drv0 = le16 4 @ le16 4 @ replicate 6226 0" "is_write_next drv0" using drv_init_start by blast+
  with as show "is_write_next drv0" "drv_items drv0 = []" "rd16 (pru drv0) 2 = Some 4" "rd16 (pru drv0) 0 = Some 4" "drv_cap drv0 = 2"
    by (simp_all add: drv_at_items drv_at_cap bytes_simps)
qed

lemma packets2_length: "length packets2 = 2"
  by (simp add: packets2_def)

lemma packets2_fit: "list_all packet_fits packets2"
  by (simp add: packets2_def packet_fits_def frame_len_def bytes_simps RX_MTU_VALUE_def)

lemma skb0_ok: "skb_ok [3, 0, 7, 7]" "length [3, 0, 7, 7 :: u8] \<le> PKT_DATA"
  by (simp_all add: skb_ok_def rd16_def ard_def of_le16_def PKT_DATA_def)

lemma kernel0_ok: "fresh_blocks kernel0 Map.empty" "grants kernel0" "fresh_blocks (kernel0\<lparr>k_ioremap := None\<rparr>) Map.empty"
  using kmalloc0_sound by (auto simp: kernel0_def fresh_blocks_def grants_def PKT_DATA_def kmalloc0_def)

lemma packets74_fit: "\<forall>p\<in>set packets74. packet_fits p \<and> frame_len p = 74" "packets74 \<noteq> []" "length packets74 = 2"
  by (simp_all add: packets74_def packet_fits_def frame_len_def bytes_simps RX_MTU_VALUE_def)

lemma frame74_len: "packet_fits p \<Longrightarrow> frame_len p = 74 \<Longrightarrow> length (body_symbols (drop 2 (frame_of p))) = 1568"
  using frame_of_len[of p] by (simp add: packet_fits_def length_body_symbols)

lemma clean_body_noise: "packet_fits p \<Longrightarrow> frame_len p = 74 \<Longrightarrow> body_noise (frame_of p) (body_symbols (drop 2 (frame_of p)))"
  using frame74_len by (simp add: body_noise_def damaged_bytes_def)

lemma packets74_rooms: "ring_rooms 4 [] 4 (map frame_of packets74)" "ring_rooms 4 [] 4 [frame_of (hd packets74)]"
proof -
  show "ring_rooms 4 [] 4 (map frame_of packets74)"
    by (rule ring_rooms_straight) (use packets74_fit in \<open>simp_all add: list_all_iff\<close>, simp add: packets74_def)
  then show "ring_rooms 4 [] 4 [frame_of (hd packets74)]" by (simp add: packets74_def)
qed

lemma batch74_ok: "list_all for_node batch74" "\<forall>p\<in>set batch74. length (gp_data p) = 74" "batch74 \<noteq> []" "length batch74 = 2"
  "ring_rooms 4 [] 4 (map (\<lambda>p. frame_of (light_bytes (numbered p))) batch74)"
proof -
  show b: "list_all for_node batch74" "\<forall>p\<in>set batch74. length (gp_data p) = 74" "batch74 \<noteq> []" "length batch74 = 2"
    by (simp_all add: batch74_def packet74_def for_node_def packet0_def gp_wf_def)
  then have "list_all packet_fits (map (\<lambda>p. light_bytes (numbered p)) batch74)"
    using light_bytes_fit by (auto simp: list_all_iff)
  then have "ring_rooms 4 [] 4 (map frame_of (map (\<lambda>p. light_bytes (numbered p)) batch74))"
    by (intro ring_rooms_straight) (simp_all add: batch74_def packet74_def packet0_def light_bytes_def numbered_def gp_payload_def)
  then show "ring_rooms 4 [] 4 (map (\<lambda>p. frame_of (light_bytes (numbered p))) batch74)" by (simp add: comp_def)
qed

lemma rxpru_started: "rxpru_start ring0 = Some (ring0, rxpru0)" "searching 1 0 0 rxpru0" "rx_ring ring0 4 [] 4"
  "rx_pru rx_fresh = ring0" "rx_pkt_ok rx_fresh" "netif_rx rx_fresh = []"
proof -
  have "le32 0x00040004 = (le16 4 @ le16 4 :: u8 list)" by (simp add: le32_def le16_def drop_bit_eq_div)
  then have "cput ring0 0 (le32 0x00040004) = Some ring0" by (simp add: ring0_def cput_def)
  then show "rxpru_start ring0 = Some (ring0, rxpru0)" "searching 1 0 0 rxpru0"
    by (simp_all add: rxpru0_def rxpru_start_def searching_def)
  show "rx_ring ring0 4 [] 4"
    by (simp add: rx_ring_def ring0_def bytes_simps aligned_def in_ring_def BUFFER_LIMIT_def)
  show "rx_pru rx_fresh = ring0" "rx_pkt_ok rx_fresh" "netif_rx rx_fresh = []"
    by (simp_all add: rx_fresh_def rx0_def rx_pkt_ok_def PKT_DATA_def)
qed

lemma packet74_frame: "length (frame_of (hd packets74)) = 100" "frame_len (frame_of (hd packets74)) = 74" "packet_fits (hd packets74)"
  "frame_len (hd packets74) = 74"
proof -
  show p: "packet_fits (hd packets74)" "frame_len (hd packets74) = 74" using packets74_fit by (cases packets74; simp)+
  with frame_of_len[OF p(1)] show "length (frame_of (hd packets74)) = 100" "frame_len (frame_of (hd packets74)) = 74"
    by (simp_all add: packet_fits_def)
qed

lemma ring1_frames: "ring_frames ring1 4 [frame_of (hd packets74)] 104" "rd16 ring1 2 = Some 4" "rd16 ring1 0 = Some 104" "in_ring 4"
  using packet74_frame(1,2)
  by (simp_all add: ring1_def bytes_simps cget_def rx_next_def BUFFER_LIMIT_def in_ring_def)

section \<open>The Reed-Solomon code\<close>

text \<open>C1. The drivers' code corrects eight wrong bytes: for every message of 1 to 239 bytes the encoder succeeds with
  16 parity symbols, and the decoder, given any message and parity that differ from these in at most eight bytes
  altogether, restores the message, leaves what lies behind it alone and returns the number of wrong bytes.\<close>

theorem rs_corrects:
  assumes "1 \<le> len" and "len \<le> 239" and "len \<le> length msg"
  shows "\<exists>par0. encode_rs8 (vlc_rs u) msg (int len) (replicate 16 0) invmsk = Some (0, par0) \<and> length par0 = 16
    \<and> (\<forall>data par. len \<le> length data \<longrightarrow> 16 \<le> length par
        \<longrightarrow> card (wrong_data len msg data) + card (wrong_par 16 par0 par) \<le> 8
        \<longrightarrow> decode_rs8 uninit (vlc_rs v) (Some data) par (int len) None 0 None invmsk None
          = Some (int (card (wrong_data len msg data) + card (wrong_par 16 par0 par)),
              Some (take len msg @ drop len data), None, None))"
proof -
  have nr: "nroots (vlc_rs x) = 16" for x by (simp add: vlc_rs_def)
  from vlc.encode_decode[of "int len" u msg invmsk uninit 0 None None] assms obtain par0 where
    par0: "encode_rs8 (vlc_rs u) msg (int len) (replicate 16 0) invmsk = Some (0, par0)" "length par0 = 16"
    by (auto simp: nr)
  then have "encode_rs8 (vlc_rs v) msg (int len) (replicate 16 0) invmsk = Some (0, par0)"
    using encode_users[of len msg u invmsk v] assms by simp
  with par0 show ?thesis
    using vlc_plain.decode_corrects[of len v msg _ _ invmsk par0 uninit] assms by (simp add: nr)
qed

theorem rs_corrects_witness:
  "\<exists>par0. encode_rs8 (vlc_rs 1) [5, 6, 7] 3 (replicate 16 0) 0 = Some (0, par0)
    \<and> decode_rs8 0 (vlc_rs 1) (Some [5, 9, 7]) (par0[3 := par0 ! 3 XOR 1]) 3 None 0 None 0 None = Some (2, Some [5, 6, 7], None, None)"
proof -
  from rs_corrects[of 3 "[5, 6, 7]" 1 0 0 1] obtain par0 where
    e: "encode_rs8 (vlc_rs 1) [5, 6, 7] 3 (replicate 16 0) 0 = Some (0, par0)" "length par0 = 16"
    and d: "card (wrong_data 3 [5, 6, 7] [5, 9, 7]) + card (wrong_par 16 par0 par) \<le> 8 \<Longrightarrow> 16 \<le> length par \<Longrightarrow>
      decode_rs8 0 (vlc_rs 1) (Some [5, 9, 7]) par 3 None 0 None 0 None
        = Some (int (card (wrong_data 3 [5, 6, 7] [5, 9, 7]) + card (wrong_par 16 par0 par)), Some [5, 6, 7], None, None)" for par
    by fastforce
  have "wrong_data 3 [5, 6, 7] [5, 9, 7] = {1}" by (auto simp: wrong_data_def less_Suc_eq numeral_3_eq_3 nth_Cons')
  moreover have "wrong_par 16 par0 (par0[3 := par0 ! 3 XOR 1]) = {3}"
    using e(2) by (auto simp: wrong_par_def nth_list_update flip_low_byte)
  ultimately show ?thesis using e d[of "par0[3 := par0 ! 3 XOR 1]"] by simp
qed

text \<open>C2. The decoder is total: whatever message and parity it is given, of whatever number of errors, it returns without an
  access out of bounds, either \<^verbatim>\<open>-EBADMSG\<close> with the data unchanged or a count between 0 and 16, and it never touches what
  lies behind the message.\<close>

theorem decoder_total:
  assumes "1 \<le> len" and "len \<le> 239" and "len \<le> length data" and "16 \<le> length par"
  shows "\<exists>count data'. decode_rs8 uninit (vlc_rs u) (Some data) par (int len) None 0 None invmsk None
      = Some (count, Some data', None, None)
    \<and> (count = - EBADMSG \<and> data' = data \<or> 0 \<le> count \<and> count \<le> 16)
    \<and> length data' = length data \<and> drop len data' = drop len data"
proof -
  have nr: "nroots (vlc_rs u) = 16" by (simp add: vlc_rs_def)
  show ?thesis using vlc_plain.decode_total[of len u data par uninit invmsk] assms by (simp add: nr)
qed

theorem decoder_total_witness:
  "\<exists>count data'. decode_rs8 0 (vlc_rs 1) (Some [1, 2, 3]) (replicate 16 77) (int 2) None 0 None 0 None
      = Some (count, Some data', None, None) \<and> drop 2 data' = [3]"
  using decoder_total[of 2 "[1, 2, 3]" "replicate 16 77" 0 1 0] by auto

text \<open>C4. The light path corrects, and marks: if one to eight bytes of a packet's frame arrive wrong, none of them in the length
  word, the node still pushes the packet into its queue, with its sequence number and length; but it is then taken for the
  node's own whichever node it was addressed to, and the number of wrong bytes has replaced the first four bytes of its
  payload.\<close>

theorem noisy_light_delivery:
  assumes p: "gp_wf p" "4 \<le> length (gp_data p)" "length (gp_data p) \<le> 100"
      "gp_node_id p \<noteq> RX_DUMMY_NODE_ID" "gp_vlc_id p = 1"
    and data: "data = vlc_header_bytes p @ gp_payload p @ rest" "length data = PKT_DATA" and m: "unat w + 226 \<le> length m"
  shows "\<exists>w' d' m' frame. write_packet_to_pru_memory (vlc_rs u) data w m = Some (w', d', m')
    \<and> cget m' (uint w) (int (length (gp_data p)) + 26) = Some frame \<and> length frame = length (gp_data p) + 26
    \<and> (\<forall>frame' s r x t. cget (rx_pru s) (uint r) (int (length (gp_data p)) + 26) = Some frame'
        \<longrightarrow> take 2 frame' = take 2 frame \<longrightarrow> 1 \<le> card (frame_errors frame frame') \<longrightarrow> card (frame_errors frame frame') \<le> 8
        \<longrightarrow> rd16 (rx_pru s) 2 = Some r \<longrightarrow> rd16 (rx_pru s) 0 = Some x \<longrightarrow> x \<noteq> r \<longrightarrow> rx_pkt_ok s \<longrightarrow> node_inv t
        \<longrightarrow> (\<exists>s' bytes t'. decode_round uninit (vlc_rs v) True stop s = Some (if stop then Some 0 else None, s')
              \<and> map sk_mac (netif_rx s') = map sk_mac (netif_rx s) @ [bytes]
              \<and> receive_vlc (Some bytes) t = Some t'
              \<and> process_queue t' = snd (fq_push (to_node_packet (p\<lparr>
                  gp_data := le32 (of_nat (card (frame_errors frame frame'))) @ drop 4 (gp_data p), gp_node_id := SELF_ID\<rparr>))
                  (process_queue t))
              \<and> rs_error_bytes t' = rs_error_bytes t + int (card (frame_errors frame frame'))))"
proof -
  have L: "unat (gp_payload_len p) = length (gp_data p)" using p(1) by (simp add: gp_wf_def)
  then have l: "gp_payload_len p \<le> RX_MTU_VALUE" using p(3) by (simp add: RX_MTU_VALUE_def word_le_nat_alt)
  have rd: "rd16 data 0 = Some (gp_payload_len p)" unfolding data(1) vlc_header_bytes_def by (simp add: bytes_simps)
  from write_frame[OF rd l data(2) m, of u, unfolded L] obtain w' d' m' frame where
    wr: "write_packet_to_pru_memory (vlc_rs u) data w m = Some (w', d', m')"
    and fr: "cget m' (uint w) (int (length (gp_data p)) + 26) = Some frame" "length frame = length (gp_data p) + 26" by blast
  show ?thesis
    by (rule exI[of _ w'], rule exI[of _ d'], rule exI[of _ m'], rule exI[of _ frame],
        rule conjI[OF wr], rule conjI[OF fr(1)], rule conjI[OF fr(2)], intro allI impI,
        rule noisy_light_path[OF p data wr m fr(1)])
qed

theorem noisy_light_delivery_witness:
  "\<exists>frame s' bytes t'. decode_round 0 (vlc_rs 1) True False (rx_noise frame) = Some (None, s')
    \<and> map sk_mac (netif_rx s') = [bytes] \<and> receive_vlc (Some bytes) node0 = Some t'
    \<and> process_queue t' = snd (fq_push (to_node_packet (packet4\<lparr>gp_data := le32 1, gp_node_id := SELF_ID\<rparr>)) (process_queue node0))
    \<and> rs_error_bytes t' = rs_error_bytes node0 + 1"
proof -
  let ?data = "vlc_header_bytes packet4 @ gp_payload packet4 @ replicate 1996 0"
  have pre: "length ?data = PKT_DATA" "unat (4 :: u16) + 226 \<le> length (replicate 6230 (0 :: u8))"
    by (simp_all add: packet4_len PKT_DATA_def)
  have i30: "int 4 + 26 = 30" "4 + 26 = (30 :: nat)" by simp_all
  from noisy_light_delivery[OF packet4_ok refl pre, of 1 0 1 False, unfolded packet4_len append_Nil2 if_False i30]
  obtain frame where lf: "length frame = 30" and deliver: "\<forall>frame' s r x t. cget (rx_pru s) (uint r) 30 = Some frame'
        \<longrightarrow> take 2 frame' = take 2 frame \<longrightarrow> 1 \<le> card (frame_errors frame frame') \<longrightarrow> card (frame_errors frame frame') \<le> 8
        \<longrightarrow> rd16 (rx_pru s) 2 = Some r \<longrightarrow> rd16 (rx_pru s) 0 = Some x \<longrightarrow> x \<noteq> r \<longrightarrow> rx_pkt_ok s \<longrightarrow> node_inv t
        \<longrightarrow> (\<exists>s' bytes t'. decode_round 0 (vlc_rs 1) True False s = Some (None, s')
              \<and> map sk_mac (netif_rx s') = map sk_mac (netif_rx s) @ [bytes]
              \<and> receive_vlc (Some bytes) t = Some t'
              \<and> process_queue t' = snd (fq_push (to_node_packet (packet4\<lparr>
                  gp_data := le32 (of_nat (card (frame_errors frame frame'))), gp_node_id := SELF_ID\<rparr>)) (process_queue t))
              \<and> rs_error_bytes t' = rs_error_bytes t + int (card (frame_errors frame frame')))"
    by (elim exE conjE)
  let ?f = "frame[7 := frame ! 7 XOR 1]"
  have "x \<noteq> x XOR 1" for x :: u8 by (auto dest: arg_cong[of _ _ "\<lambda>w. bit w 0"] simp: bit_simps)
  then have "frame_errors frame ?f = {7}" using lf by (auto simp: frame_errors_def nth_list_update)
  then have one: "card (frame_errors frame ?f) = 1" by simp
  have "\<exists>s' bytes t'. decode_round 0 (vlc_rs 1) True False (rx_noise frame) = Some (None, s')
              \<and> map sk_mac (netif_rx s') = map sk_mac (netif_rx (rx_noise frame)) @ [bytes]
              \<and> receive_vlc (Some bytes) node0 = Some t'
              \<and> process_queue t' = snd (fq_push (to_node_packet (packet4\<lparr>
                  gp_data := le32 (of_nat (card (frame_errors frame ?f))), gp_node_id := SELF_ID\<rparr>)) (process_queue node0))
              \<and> rs_error_bytes t' = rs_error_bytes node0 + int (card (frame_errors frame ?f))"
    by (rule deliver[rule_format, OF rx_noise_frame[OF lf] _ _ _ rx_noise_ok(1,2) _ rx_noise_ok(3) node0_inv])
      (simp_all add: one)
  then show ?thesis unfolding one rx_noise_ok(4) by (intro exI[of _ frame]) simp
qed

text \<open>C6. With an allocator that delivers the sizes asked for, the first \<^verbatim>\<open>init_rs\<close> of a driver builds the log
  and antilog tables of GF(256) and the generator polynomial with roots 1, alpha, ..., alpha^15; a second
  call shares the structure, and the last of two \<^verbatim>\<open>free_rs\<close> removes it.\<close>

theorem rs_control_lifecycle:
  assumes "kmalloc_sound kmalloc"
    and "kmalloc 0 1 \<noteq> None" "kmalloc 1 256 \<noteq> None" "kmalloc 2 256 \<noteq> None" "kmalloc 3 17 \<noteq> None"
  shows "init_rs kmalloc fptr [] 8 0x11d 0 1 16 = Some ([vlc_rs 1], Some (vlc_rs 1))
    \<and> init_rs kmalloc fptr [vlc_rs 1] 8 0x11d 0 1 16 = Some ([vlc_rs 2], Some (vlc_rs 2))
    \<and> free_rs [vlc_rs 2] 0 = Some [vlc_rs 1] \<and> free_rs [vlc_rs 1] 0 = Some []"
  using init_rs_first[OF assms, of fptr] init_rs_again[of kmalloc fptr 1 "[]"] free_rs_vlc[of 1] free_rs_vlc[of 2]
  by simp

theorem rs_control_lifecycle_witness:
  "init_rs kmalloc0 (\<lambda>g x. x) [] 8 0x11d 0 1 16 = Some ([vlc_rs 1], Some (vlc_rs 1))"
  using rs_control_lifecycle[OF kmalloc0_sound, of "\<lambda>g x. x"] by (simp add: kmalloc0_def)

text \<open>C7. The 16-bit entry points the modules also export agree with the 8-bit ones: on bytes stored in 16-bit cells the encoder
  computes the same parity, and the decoder, whatever syndromes, erasures and correction array it is given, the same count,
  positions, corrections and data, or fails alike.\<close>

theorem wide_codec_agrees:
  "encode_rs16 (vlc_rs u) (map ucast msg) len par0 invmsk = encode_rs8 (vlc_rs u) msg len par0 invmsk
    \<and> decode_rs16 uninit (vlc_rs u) (map_option (map ucast) data) par len s no_eras eras_pos invmsk corr
      = map_option (\<lambda>(count, data, eras_pos, corr). (count, map_option (map ucast) data, eras_pos, corr))
          (decode_rs8 uninit (vlc_rs u) data par len s no_eras eras_pos invmsk corr)"
  using encode_rs16_bytes decode_rs16_bytes[OF byte_tables_vlc, of uninit u data par len s no_eras eras_pos invmsk corr]
  by (simp add: wide_def)

section \<open>The light link\<close>

text \<open>C3. The light link, from network stack to network stack, for the first burst after the start: the driver is idle and the
  transmitter's ring empty with room for all frames, and the receiver's PRU searches with nothing of a preamble seen, over an
  empty ring with room for all frames. (After an earlier burst it is not in that state, see C14.) Packets of 74 bytes of payload
  handed to the driver, no more than its pool holds, are then
  queued, as many ticks of the timer write their frames into the ring, and the transmitter's PRU sends all of them, preamble,
  delimiter, length and body, with a separator between two, and waits again. Whatever up to eight bytes of each body the line
  damages, and whatever follows within thirty symbols, the receiver's PRU stores the frames in its ring, and as many rounds
  of the decoding thread hand exactly these packets to the stack, in order, marked where something was corrected.\<close>

theorem light_link:
  assumes "handler_inv s q" "is_write_next s" "drv_items s = []" "int (length ps) \<le> drv_cap s"
    and "rd16 (pru s) 2 = Some r" "rd16 (pru s) 0 = Some r" "ring_rooms r [] r (map frame_of ps)"
    and "ps \<noteq> []" "\<forall>p\<in>set ps. packet_fits p \<and> frame_len p = 74" and "waiting x"
    and "searching 1 0 prev y" "prev \<le> 1" "rx_ring (rx_pru t) r' [] r'" "ring_rooms r' [] r' (map frame_of ps)" "rx_pkt_ok t"
  shows "\<exists>s1 s2 n words m x' tail. enq_all drv_xmit ps s = Some s1 \<and> ticks (vlc_rs u) (length ps) q s1 = Some (s2, q)
    \<and> tx_cycles TX_OTHER_IMAGE n (pru s2) x = Some (words, m, x') \<and> waiting x' \<and> rd16 m 2 = rd16 (pru s2) 0 \<and> length tail \<le> 30
    \<and> concat (map shifted_out words) = received_line (map (\<lambda>p. body_symbols (drop 2 (frame_of p))) ps) @ tail
    \<and> (\<forall>zs noise. list_all2 (\<lambda>p. body_noise (frame_of p)) ps zs \<longrightarrow> length noise \<le> 30 \<longrightarrow>
        (\<exists>m x' t'. rx_bits (rx_pru t) y (received_line zs @ noise) = Some (m, x', [])
          \<and> pru_phy_decoding uninit (vlc_rs v) (map (\<lambda>p. (True, False)) ps) (t\<lparr>rx_pru := m\<rparr>) = Some (None, t')
          \<and> map sk_mac (netif_rx t') = map sk_mac (netif_rx t) @ handed_up (map (\<lambda>p. True) ps) ps (map received_frame zs)))"
  by (rule light_link_delivers[OF assms])

theorem light_link_witness:
  "\<exists>s1 s2 n words m x' y' t' mr. enq_all drv_xmit packets74 drv0 = Some s1
    \<and> ticks (vlc_rs 1) (length packets74) (quality_bytes 99 @ drop 84 (replicate 2010 0)) s1 = Some (s2, quality_bytes 99 @ drop 84 (replicate 2010 0))
    \<and> tx_cycles TX_OTHER_IMAGE n (pru s2) tx_start = Some (words, m, x')
    \<and> rx_bits ring0 rxpru0 (concat (map shifted_out words)) = Some (mr, y', [])
    \<and> pru_phy_decoding 0 (vlc_rs 1) (map (\<lambda>p. (True, False)) packets74) (rx_fresh\<lparr>rx_pru := mr\<rparr>) = Some (None, t')
    \<and> map sk_mac (netif_rx t') = packets74"
proof -
  note st = drv0_start
  have cap: "int (length packets74) \<le> drv_cap drv0" using st(5) packets74_fit(3) by simp
  have ring: "rx_ring (rx_pru rx_fresh) 4 [] 4" using rxpru_started(3,4) by simp
  from light_link[OF drv0_handler st(1,2) cap st(3,4) packets74_rooms(1) packets74_fit(2,1) tx_start_waits rxpru_started(2) _ ring
    packets74_rooms(1) rxpru_started(5), of 1 0 1]
  obtain s1 s2 n words m x' tail where
    run: "enq_all drv_xmit packets74 drv0 = Some s1"
      "ticks (vlc_rs 1) (length packets74) (quality_bytes 99 @ drop 84 (replicate 2010 0)) s1 = Some (s2, quality_bytes 99 @ drop 84 (replicate 2010 0))"
      "tx_cycles TX_OTHER_IMAGE n (pru s2) tx_start = Some (words, m, x')" "length tail \<le> 30"
      "concat (map shifted_out words) = received_line (map (\<lambda>p. body_symbols (drop 2 (frame_of p))) packets74) @ tail"
    and rx: "\<And>zs noise. list_all2 (\<lambda>p. body_noise (frame_of p)) packets74 zs \<Longrightarrow> length noise \<le> 30 \<Longrightarrow>
        \<exists>m x' t'. rx_bits (rx_pru rx_fresh) rxpru0 (received_line zs @ noise) = Some (m, x', [])
          \<and> pru_phy_decoding 0 (vlc_rs 1) (map (\<lambda>p. (True, False)) packets74) (rx_fresh\<lparr>rx_pru := m\<rparr>) = Some (None, t')
          \<and> map sk_mac (netif_rx t') = map sk_mac (netif_rx rx_fresh) @ handed_up (map (\<lambda>p. True) packets74) packets74 (map received_frame zs)"
    by auto
  let ?zs = "map (\<lambda>p. body_symbols (drop 2 (frame_of p))) packets74"
  have "list_all2 (\<lambda>p. body_noise (frame_of p)) packets74 ?zs"
    using packets74_fit(1) clean_body_noise by (simp add: list_all2_conv_all_nth)
  from rx[OF this run(4)] obtain mr y' t' where r: "rx_bits ring0 rxpru0 (received_line ?zs @ tail) = Some (mr, y', [])"
    "pru_phy_decoding 0 (vlc_rs 1) (map (\<lambda>p. (True, False)) packets74) (rx_fresh\<lparr>rx_pru := mr\<rparr>) = Some (None, t')"
    "map sk_mac (netif_rx t') = handed_up (map (\<lambda>p. True) packets74) packets74 (map received_frame ?zs)"
    using rxpru_started(4,6) by auto
  have "map received_frame ?zs = map frame_of packets74" using packets74_fit(1) frame_received by simp
  then have "map sk_mac (netif_rx t') = packets74"
    using r(3) handed_up_clean[of packets74] by (simp only: map_replicate_const)
  with run(1-3) r(1,2) show ?thesis unfolding run(5)[symmetric] by blast
qed

text \<open>C8. The program of the transmitter's PRU: whenever it waits and frames stand in its ring, then after some turns of its main
  loop all of them are on the line, and it waits again with the ring empty and nothing but the read index changed. So
  GETVALUE, which returns only when it has collected exactly sixteen symbols, always does, and beyond the last frame at most
  thirty symbols are sent.\<close>

theorem transmitter_pru:
  assumes "ring_frames m r fs w" "fs \<noteq> []" "\<forall>f\<in>set fs. frame_fits f" "in_ring r" "rd16 m 2 = Some r" "rd16 m 0 = Some w"
    and "waiting s"
  shows "\<exists>n words m' s' q. q \<le> 15 \<and> tx_cycles TX_OTHER_IMAGE n m s = Some (words, m', s') \<and> waiting s'
    \<and> concat (map shifted_out words) = line_symbols fs @ take (2 * q) tail_symbols
    \<and> rd16 m' 2 = Some w \<and> rd16 m' 0 = Some w \<and> drop 4 m' = drop 4 m \<and> length m' = length m"
  by (rule tx_sends_ring[OF assms])

theorem transmitter_pru_witness:
  "\<exists>n words m' s' q. tx_cycles TX_OTHER_IMAGE n ring1 tx_start = Some (words, m', s') \<and> waiting s'
    \<and> concat (map shifted_out words) = frame_symbols (frame_of (hd packets74)) @ take (2 * q) tail_symbols \<and> rd16 m' 2 = Some 104"
proof -
  have "\<forall>f\<in>set [frame_of (hd packets74)]. frame_fits f" using packet74_frame by (simp add: frame_fits_def RX_MTU_VALUE_def)
  from transmitter_pru[OF ring1_frames(1) _ this ring1_frames(4,2,3) tx_start_waits] show ?thesis
    unfolding line_symbols.simps by blast
qed

text \<open>C12. The program of the receiver's PRU on a frame behind a clean preamble and delimiter: with a length word of 74 it takes
  any symbols for the body, stores length and body at the write index and publishes them, as long as there is room; any
  other length, which the driver would accept up to 150, sends it back to its search without a trace.\<close>

theorem receiver_pru:
  assumes "searching 1 0 prev s" "prev \<le> 1" "rx_ring m r gs w" "ring_room r gs w (received_frame z)" "length z = 1568" "l < 65536"
  shows "(l = RXP_PAYLOAD_LEN \<longrightarrow> (\<exists>m' s'. rx_bits m s (preamble @ manchester (msb_first 8 SFD_VALUE) @ manchester (msb_first 16 l) @ z) = Some (m', s', [])
        \<and> searching 1 0 0 s' \<and> rx_ring m' r (gs @ [received_frame z]) (rx_next w 74)))
    \<and> (l \<noteq> RXP_PAYLOAD_LEN \<longrightarrow> (\<exists>s'. rx_bits m s (preamble @ manchester (msb_first 8 SFD_VALUE) @ manchester (msb_first 16 l)) = Some (m, s', [])
        \<and> searching 1 0 0 s'))"
proof -
  from preamble_found(1)[OF assms(1,2), of m] obtain s0 where "rx_bits m s preamble = Some (m, s0, [])" "locked s0" by blast
  from frame_stored[OF this assms(3-5)] other_length_ignored[OF assms(1,2,6), of m] show ?thesis by blast
qed

theorem receiver_pru_witness:
  "\<exists>m' s'. rx_bits ring0 rxpru0 (frame_head @ replicate 1568 True) = Some (m', s', []) \<and> rx_ring m' 4 [received_frame (replicate 1568 True)] 104"
proof -
  let ?z = "replicate 1568 True"
  have room: "ring_room 4 [] 4 (received_frame ?z)" by (simp add: ring_room_def)
  have "length ?z = 1568" "(74 :: nat) < 65536" by simp_all
  from receiver_pru[OF rxpru_started(2) _ rxpru_started(3) room this] show ?thesis
    by (auto simp: frame_head_def RXP_PAYLOAD_LEN_def rx_next_def BUFFER_LIMIT_def)
qed

text \<open>C5. The receiver withstands its line: from the start of the PRU program on the driver's memory, whatever words arrive and
  however they alternate with rounds of the decoding thread and with turns of the program's wait for room, no next round,
  word or turn faults, and both indices stay inside the ring.\<close>

theorem receiver_system:
  assumes "receiver_runs (vlc_rs v) s x rest"
  shows "(\<exists>ret s'. decode_round uninit (vlc_rs v) alloc stop s = Some (ret, s'))
    \<and> (\<exists>m x' rest'. readdata w (rx_pru s) x rest = Some (m, x', rest')) \<and> (\<exists>m x' rest'. poll_final (rx_pru s) x rest = Some (m, x', rest'))
    \<and> (\<exists>i k. rd16 (rx_pru s) 2 = Some i \<and> in_ring i \<and> rd16 (rx_pru s) 0 = Some k \<and> in_ring k)"
  by (rule receiver_never_faults[OF assms])

theorem receiver_system_witness:
  "\<exists>m x' rest'. readdata 0xAAAA (rx_pru rx_fresh) rxpru0 [] = Some (m, x', rest')"
proof -
  have "receiver_runs (vlc_rs 1) (rx_fresh\<lparr>rx_pru := ring0\<rparr>) rxpru0 []"
    by (rule runs_start) (use rxpru_started in \<open>simp_all add: ring0_def\<close>)
  then have "receiver_runs (vlc_rs 1) rx_fresh rxpru0 []" using rxpru_started(4) by (metis rx_drv.surjective rx_drv.update_convs(1) rx_drv.select_convs(1))
  from receiver_system[OF this, of 0 True False "0xAAAA"] show ?thesis by blast
qed

text \<open>C14. A frame is lost when the ring has run empty: after a single frame the transmitter's PRU waits, but the symbols it has
  loaded by then contain the beginning of a preamble. Whatever burst of frames comes next, a receiver that sees the loaded
  words one after the other takes these symbols for the beginning of its preamble, looks for the delimiter too early, and is
  still searching, with nothing but the first frame in its ring, when the head of the next frame has gone by.\<close>

theorem drained_ring_loses_frame:
  assumes "packet_fits p" "frame_len p = 74"
    and "ring_frames m r [frame_of p] w" "in_ring r" "rd16 m 2 = Some r" "rd16 m 0 = Some w" "waiting s"
    and "searching 1 0 prev x" "prev \<le> 1" "rx_ring mr r' [] r'" "ring_rooms r' [] r' [frame_of p]"
  shows "\<exists>n words m' s'. tx_cycles TX_OTHER_IMAGE n m s = Some (words, m', s') \<and> waiting s' \<and> rd16 m' 2 = Some w
    \<and> (\<forall>ps m2 w2. ps \<noteq> [] \<longrightarrow> (\<forall>p\<in>set ps. packet_fits p \<and> frame_len p = 74) \<longrightarrow> ring_frames m2 w (map frame_of ps) w2
        \<longrightarrow> rd16 m2 2 = Some w \<longrightarrow> rd16 m2 0 = Some w2 \<longrightarrow>
        (\<exists>n2 words2 m3 s3 mx x' w1. tx_cycles TX_OTHER_IMAGE n2 m2 s' = Some (words2, m3, s3) \<and> waiting s3
          \<and> take 72 (concat (map shifted_out words2)) = frame_head
          \<and> rx_bits mr x (take (16 * length words + 72) (concat (map shifted_out (words @ words2)))) = Some (mx, x', [])
          \<and> searching 2 0 0 x' \<and> rx_ring mx r' [frame_of p] w1))"
proof -
  from next_frame_lost[OF assms] obtain n words m' s' where
    a: "tx_cycles TX_OTHER_IMAGE n m s = Some (words, m', s')" "waiting s'" "rd16 m' 2 = Some w"
    and lost: "\<And>n2 words2 m2 m3 s3 rest. tx_cycles TX_OTHER_IMAGE n2 m2 s' = Some (words2, m3, s3) \<Longrightarrow>
        concat (map shifted_out words2) = frame_head @ rest \<Longrightarrow>
        \<exists>mx x' w1. rx_bits mr x (take (16 * length words + 72) (concat (map shifted_out (words @ words2)))) = Some (mx, x', [])
          \<and> searching 2 0 0 x' \<and> rx_ring mx r' [frame_of p] w1" by blast
  have "w = rx_next r 74" using assms(3) frame_of_len[OF assms(1)] assms(2) by simp
  then have w: "in_ring w" using assms(4) by (simp add: rx_next_in_ring RX_MTU_VALUE_def)
  have "\<exists>n2 words2 m3 s3 mx x' w1. tx_cycles TX_OTHER_IMAGE n2 m2 s' = Some (words2, m3, s3) \<and> waiting s3
      \<and> take 72 (concat (map shifted_out words2)) = frame_head
      \<and> rx_bits mr x (take (16 * length words + 72) (concat (map shifted_out (words @ words2)))) = Some (mx, x', [])
      \<and> searching 2 0 0 x' \<and> rx_ring mx r' [frame_of p] w1"
    if ps: "ps \<noteq> []" "\<forall>p\<in>set ps. packet_fits p \<and> frame_len p = 74" and ring: "ring_frames m2 w (map frame_of ps) w2"
      "rd16 m2 2 = Some w" "rd16 m2 0 = Some w2" for ps m2 w2
  proof -
    from link_sends[OF ps ring(1) w ring(2,3) a(2)] obtain n2 words2 m3 s3 tail where
      b: "tx_cycles TX_OTHER_IMAGE n2 m2 s' = Some (words2, m3, s3)" "waiting s3"
        "concat (map shifted_out words2) = received_line (map (\<lambda>p. body_symbols (drop 2 (frame_of p))) ps) @ tail" by blast
    obtain rest where h: "concat (map shifted_out words2) = frame_head @ rest" using b(3) ps(1) by (cases ps) (simp_all add: received_line_def)
    then have "take 72 (concat (map shifted_out words2)) = frame_head" by (simp add: length_frame_head)
    with b(1,2) lost[OF b(1) h] show ?thesis by blast
  qed
  with a show ?thesis by blast
qed

theorem drained_ring_loses_frame_witness:
  "\<exists>n words m' s' n2 words2 m3 s3 mx x' w1. tx_cycles TX_OTHER_IMAGE n ring1 tx_start = Some (words, m', s')
    \<and> tx_cycles TX_OTHER_IMAGE n2 (le16 204 @ le16 104 @ replicate 100 0 @ frame_of (hd packets74) @ replicate 6026 0) s' = Some (words2, m3, s3)
    \<and> rx_bits ring0 rxpru0 (take (16 * length words + 72) (concat (map shifted_out (words @ words2)))) = Some (mx, x', [])
    \<and> rx_ring mx 4 [frame_of (hd packets74)] w1"
proof -
  let ?m = "le16 204 @ le16 104 @ replicate 100 0 @ frame_of (hd packets74) @ replicate 6026 0"
  from drained_ring_loses_frame[OF packet74_frame(3,4) ring1_frames(1,4,2,3) tx_start_waits rxpru_started(2) _ rxpru_started(3) packets74_rooms(2)]
  obtain n words m' s' where a: "tx_cycles TX_OTHER_IMAGE n ring1 tx_start = Some (words, m', s')"
    and l: "\<And>ps m2 w2. ps \<noteq> [] \<Longrightarrow> (\<forall>p\<in>set ps. packet_fits p \<and> frame_len p = 74) \<Longrightarrow> ring_frames m2 104 (map frame_of ps) w2
        \<Longrightarrow> rd16 m2 2 = Some 104 \<Longrightarrow> rd16 m2 0 = Some w2 \<Longrightarrow>
        \<exists>n2 words2 m3 s3 mx x' w1. tx_cycles TX_OTHER_IMAGE n2 m2 s' = Some (words2, m3, s3) \<and> waiting s3
          \<and> take 72 (concat (map shifted_out words2)) = frame_head
          \<and> rx_bits ring0 rxpru0 (take (16 * length words + 72) (concat (map shifted_out (words @ words2)))) = Some (mx, x', [])
          \<and> searching 2 0 0 x' \<and> rx_ring mx 4 [frame_of (hd packets74)] w1" by auto
  have ring: "ring_frames ?m 104 (map frame_of [hd packets74]) 204" "rd16 ?m 2 = Some 104" "rd16 ?m 0 = Some 204"
    using packet74_frame(1,2) by (simp_all add: bytes_simps cget_def rx_next_def BUFFER_LIMIT_def)
  have "[hd packets74] \<noteq> []" "\<forall>p\<in>set [hd packets74]. packet_fits p \<and> frame_len p = 74" using packet74_frame(3,4) by simp_all
  from l[OF this ring] a show ?thesis by blast
qed

text \<open>C21. The program of the transmitter's PRU built from its source, which gives the sequence number 24 bytes where the drivers
  write 4: it sends 20 bytes more than the frame has and moves the read index as far behind the write index, does not find
  the ring empty, and goes on with whatever stands there.\<close>

theorem rebuilt_transmitter:
  assumes "cget m (uint r) (int (unat l) + 46) = Some f" "frame_len f = l" "unat r + unat l + 46 < 6004"
    and "rd16 m 2 = Some r" "rd16 m 0 = Some (rx_next r l)" and "waiting s"
  shows "\<exists>n words m' s' tail. tx_cycles TX_OTHER_SOURCE n m s = Some (words, m', s') \<and> \<not> t_poll s'
    \<and> rd16 m' 2 = Some (r + l + 46) \<and> rd16 m' 0 = Some (rx_next r l) \<and> r + l + 46 \<noteq> rx_next r l
    \<and> concat (map shifted_out words) = frame_symbols f @ tail"
  by (rule source_runs_past[OF assms])

theorem rebuilt_transmitter_witness:
  "\<exists>n words m' s'. tx_cycles TX_OTHER_SOURCE n (le16 104 @ le16 4 @ le16 74 @ replicate 6224 0) tx_start = Some (words, m', s')
    \<and> \<not> t_poll s' \<and> rd16 m' 2 = Some 124 \<and> rd16 m' 0 = Some 104"
proof -
  let ?m = "le16 104 @ le16 4 @ le16 74 @ replicate 6224 0" and ?f = "le16 74 @ replicate 118 (0 :: u8)"
  have p: "cget ?m (uint (4 :: u16)) (int (unat (74 :: u16)) + 46) = Some ?f" "frame_len ?f = 74" "unat (4 :: u16) + unat (74 :: u16) + 46 < 6004"
    "rd16 ?m 2 = Some 4" "rd16 ?m 0 = Some (rx_next 4 74)"
    by (simp_all add: cget_def frame_len_def bytes_simps rx_next_def BUFFER_LIMIT_def)
  from rebuilt_transmitter[OF p tx_start_waits] show ?thesis by (auto simp: rx_next_def BUFFER_LIMIT_def)
qed

section \<open>The gateway\<close>

text \<open>C9. Whatever the threads of the gateway do in whatever order, from the start, once the address tables are set up (C30): the
  packets sent over RF are packets generated, in the order of generation and without duplicates, and no more of them than
  tokens were added.\<close>

theorem gateway_order_and_rate:
  assumes "setup_node_address n = Some nodes" "setup_vlc_address m = Some vlcs"
    and "length g1 = 1024" "length g2 = 1024" and "list_all macs_ok evs"
    and "gw_run evs (gw_init nodes vlcs blank g1 g2) = Some (s', gen, sent)"
  shows "gw_inv s' \<and> subseq (sent @ pipeline s') gen
    \<and> n_token s' + int (length sent) \<le> (\<Sum>ev\<leftarrow>evs. tokens_of ev)"
proof -
  let ?s = "gw_init nodes vlcs blank g1 g2"
  have "pipeline ?s = []" "n_token ?s = 0"
    by (simp_all add: pipeline_def node_queue_def gw_init_def initialize_algorithm_3_variables_def gw_consts fq_new_def)
  with gw_run_ok[OF gw_inv_init[OF assms(1-4), of blank] assms(5,6)] show ?thesis by simp
qed

theorem gateway_order_and_rate_witness:
  "\<exists>s' gen sent. gw_run [Generate_packet (\<lambda>i j k. 7), Schedule_packet (\<lambda>i. \<lparr>tv_sec = 0, tv_nsec = 0\<rparr>), Transmit_rf, Add_token,
      Tbf_transmit NODE_MAC 1, Tbf_transmit NODE_MAC 1] gw0 = Some (s', gen, sent)
    \<and> subseq (sent @ pipeline s') gen \<and> n_token s' + int (length sent) \<le> 1"
proof -
  let ?evs = "[Generate_packet (\<lambda>i j k. 7), Schedule_packet (\<lambda>i. \<lparr>tv_sec = 0, tv_nsec = 0\<rparr>), Transmit_rf, Add_token,
      Tbf_transmit NODE_MAC 1, Tbf_transmit NODE_MAC 1]"
  have ok: "list_all macs_ok ?evs" by (simp add: macs_ok_def)
  have "\<exists>res. gw_run ?evs gw0 = Some res"
    by (rule gw_run_total[OF gw0_inv ok]) (auto simp: parses_input_def scheduled_def gw0_fields NODE_QUEUE_SIZE_def)
  then obtain s' gen sent where run: "gw_run ?evs gw0 = Some (s', gen, sent)" by (metis prod_cases3)
  from gateway_order_and_rate[OF tables2 zeros_length zeros_length ok run[unfolded gw0_def]] run show ?thesis
    by (simp add: tokens_of_def)
qed

text \<open>C10. No thread of the gateway faults, except possibly the two that parse what the network delivers: from a state the invariant
  allows every run of the others, in any order, reaches such a state again, with every access in bounds, every packet fitting
  its frame and no \<^verbatim>\<open>int\<close> of the state overflowing, as long as the counter \<^verbatim>\<open>r\<close> and the number of scheduling rounds stay below 2^31 together (the
  counter goes up even when the full RF queue refuses the packet) and the queue length the transmitter last reported is at
  least 10^6 - 2^31.\<close>

theorem gateway_no_fault:
  assumes "gw_inv s" and "list_all macs_ok evs" and "\<And>ev. ev \<in> set evs \<Longrightarrow> \<not> parses_input ev"
    and "gw_r s + (\<Sum>ev\<leftarrow>evs. scheduled ev) < 2 ^ 31" and "NODE_QUEUE_SIZE - 2 ^ 31 \<le> vk s ! 0"
  shows "\<exists>s' gen sent. gw_run evs s = Some (s', gen, sent) \<and> gw_inv s'"
proof -
  from gw_run_total[OF assms] obtain s' gen sent where run: "gw_run evs s = Some (s', gen, sent)" by auto
  with gw_run_ok[OF assms(1,2)] show ?thesis by blast
qed

theorem gateway_no_fault_witness:
  "\<exists>s' gen sent. gw_run [Generate_packet (\<lambda>i j k. 7), Transmit_rf, Schedule_packet (\<lambda>i. \<lparr>tv_sec = 0, tv_nsec = 0\<rparr>), Add_token] gw0
      = Some (s', gen, sent) \<and> gw_inv s'"
  by (rule gateway_no_fault) (auto simp: gw0_inv macs_ok_def parses_input_def scheduled_def gw0_fields NODE_QUEUE_SIZE_def)

section \<open>Packets between the machines\<close>

text \<open>C11. A packet the gateway sends over RF passes the node's filter exactly when the gateway sends it from its own address,
  and is then queued for processing with the node, length, sequence number and payload it had; the transmitter id in it
  is 0. From any other address, also from the zeros that are left when the address could not be read at the start, it
  is dropped.\<close>

theorem rf_delivery:
  assumes "gp_wf p" and "length (gp_data p) \<le> 1000" and "length (rf_buf s) = 1024" and "6 \<le> length mac"
  shows "\<exists>frame b. transmit_packet_rf sendto mac p = Some (sendto frame, frame)
    \<and> receive_rf (Some frame) s = Some (if take 6 mac = RF_MAC
        then s\<lparr>rf_buf := b, process_queue := snd (fq_push (to_node_packet (p\<lparr>gp_vlc_id := 0\<rparr>)) (process_queue s)),
          from_rf := from_rf s + 1\<rparr>
        else s\<lparr>rf_buf := b\<rparr>)"
  using assms by (rule rf_hop)

theorem rf_delivery_witness:
  "\<exists>frame s'. transmit_packet_rf (\<lambda>f. 1) RF_MAC packet0 = Some (1, frame) \<and> receive_rf (Some frame) node0 = Some s'
    \<and> process_queue s' = snd (fq_push (to_node_packet (packet0\<lparr>gp_vlc_id := 0\<rparr>)) (process_queue node0))"
proof -
  have "length (gp_data packet0) \<le> 1000" "length (rf_buf node0) = 1024" "6 \<le> length RF_MAC" "take 6 RF_MAC = RF_MAC"
    using node0_inv by (simp_all add: packet0_def node_inv_def RF_MAC_def)
  with rf_delivery[OF packet0_wf, of node0 RF_MAC "\<lambda>f. 1"] show ?thesis by force
qed

text \<open>C15. The status report of a node that has acknowledged something and whose window is at most 7984 packets
  arrives: the gateway takes over the acknowledgement number and the error probability of the link, in the rounding of
  \<^verbatim>\<open>double\<close>.\<close>

theorem status_report_delivery:
  assumes "node_inv s" and "gw_inv g" and "\<exists>n\<in>set tries. 0 \<le> n"
    and "1 \<le> rcv_seq (status s)" and "last_rcv_seq (status s) - rcv_seq (status s) + 1 \<le> 7984"
  shows "\<exists>frame g'. send_report tries NODE_MAC s = Some frame \<and> receive_report (Some frame) g = Some g'
    \<and> unacked_seq (gw_status g') = [rcv_seq (status s)]
    \<and> gw_e g' = [[fl64 (1 - fl64 (of_int (c_trunc (fl64 (VLC_LQ s ! 0 * 255))) / 255))]]"
  using assms by (rule status_report_hop)

theorem status_report_delivery_witness:
  "\<exists>frame g'. send_report [1] NODE_MAC (node0\<lparr>status := status0\<rparr>) = Some frame
    \<and> receive_report (Some frame) gw0 = Some g' \<and> unacked_seq (gw_status g') = [1]"
  using status_report_delivery[OF status0_inv gw0_inv, of "[1]"] by (auto simp: status0_def)

text \<open>C16. A report converted to bytes and parsed again is the same report, its pattern reduced to the lowest bits.\<close>

theorem report_round_trip:
  assumes "report_wf r" and "length b0 = 1000" and "(length (ACK_bit_pattern r) + 7) div 8 + 2 * length (vlc_data r) \<le> 990"
  shows "\<exists>out n. convert_report_packet_to_string b0 r (n_vlc r) = Some (out, n)
    \<and> generate_status_report_from_string out = Some (r\<lparr>ACK_bit_pattern := map (\<lambda>b. b AND 1) (ACK_bit_pattern r)\<rparr>)"
proof -
  let ?B = "report_bytes (sr_node_id r) (ACK_number r) (ACK_bit_pattern r) (vlc_data r)"
  have "length ?B \<le> 1000" using assms(3) by (simp add: length_report_bytes)
  from convert_report_bytes[OF assms(1,2) this]
  have "convert_report_packet_to_string b0 r (n_vlc r) = Some (?B @ drop (length ?B) b0, int (length ?B))" .
  moreover have "generate_status_report_from_string (?B @ drop (length ?B) b0)
      = Some (r\<lparr>ACK_bit_pattern := map (\<lambda>b. b AND 1) (ACK_bit_pattern r)\<rparr>)"
    using assms(1) by (subst parse_report_bytes) (auto simp: report_wf_def)
  ultimately show ?thesis by blast
qed

theorem report_round_trip_witness:
  "\<exists>out n. convert_report_packet_to_string (replicate 1000 0) generate_dummy_report_for_testing
        (n_vlc generate_dummy_report_for_testing) = Some (out, n)
    \<and> generate_status_report_from_string out = Some (generate_dummy_report_for_testing\<lparr>ACK_bit_pattern :=
        map (\<lambda>b. b AND 1) (ACK_bit_pattern generate_dummy_report_for_testing)\<rparr>)"
  by (rule report_round_trip)
    (simp_all add: generate_dummy_report_for_testing_def report_wf_def byte_int_def c_int_def)

text \<open>C33. The node does not use its converter for the report it sends, it repeats it: while the window has at most 7904 packets,
  the frame \<^verbatim>\<open>send_report\<close> sends carries exactly the bytes \<^verbatim>\<open>convert_report_packet_to_string\<close> produces for the report of
  its state, behind the Ethernet header.\<close>

theorem report_serialisers_agree:
  assumes "node_inv s" and "6 \<le> length mac" and "\<exists>n\<in>set tries. 0 \<le> n" and "length b0 = 1000"
    and "last_rcv_seq (status s) - rcv_seq (status s) + 1 \<le> 7904"
  shows "\<exists>out n. convert_report_packet_to_string b0 (state_report s) N_VLC = Some (out, n)
    \<and> send_report tries mac s = Some (RF_MAC @ take 6 mac @ ETH_P_ALL_be @ take (nat n) out)"
  using assms by (rule send_report_converts)

theorem report_serialisers_agree_witness:
  "\<exists>out n. convert_report_packet_to_string (replicate 1000 0) (state_report node0) N_VLC = Some (out, n)
    \<and> send_report [1] NODE_MAC node0 = Some (RF_MAC @ take 6 NODE_MAC @ ETH_P_ALL_be @ take (nat n) out)"
  by (rule report_serialisers_agree)
    (use node0_inv in \<open>simp_all add: node0_def node_init_def initialize_node_status_def\<close>)

text \<open>C20. The packet parsers of transmitter and node accept exactly the serialisations of well formed packets, with anything
  behind: on any bytes, each returns a packet just when the bytes begin with its header, in the order of that link, and
  with as much payload as the header announces.\<close>

theorem parsers_exact:
  "(generate_gateway_packet_from_bytes b = Some p \<longleftrightarrow> header_first b p)
    \<and> (rf_arrived_packet b = Some np \<longleftrightarrow> (\<exists>p. np = to_node_packet p \<and> header_first b p))
    \<and> (generate_from_bytes b = Some np \<longleftrightarrow> (\<exists>p. np = to_node_packet p \<and> length_first b p))"
  using from_bytes_exact rf_arrived_exact generate_from_bytes_exact by blast

text \<open>C13. From the gateway to the node over light, PRUs included, for the first burst after the start, with the state of driver,
  rings and receiver's PRU as in C3 (after an earlier burst it is not so, see C14): packets for the node with the payload the
  gateway generates, sent by the gateway to a VLC transmitter with an empty queue, pass its filter, its queue and its
  transmitting thread, which take their turns one after the other, the driver's queue
  and the timer handler, in order, and the PRU sends their frames. When the first symbol of each pair of their bodies
  arrives as it was sent, the receiver's PRU stores them, the decoding thread delivers them, and the node receives every one of
  them in the order sent, unchanged but for the transmitter id, and pushes it into its processing queue: if the queue has room
  for all, they are behind what was in it; a full queue drops the push, as \<open>fq_push\<close> says.\<close>

theorem gateway_to_node:
  assumes "list_all for_node ps" "\<forall>p\<in>set ps. length (gp_data p) = 74" "ps \<noteq> []"
    and "tx_inv s" "fq_items (tx_vlc_queue s) = []" "int (length ps) < QUEUE_LIMIT" "\<exists>n\<in>set tries. 0 \<le> n"
    and "handler_inv d q" "is_write_next d" "drv_items d = []" "int (length ps) \<le> drv_cap d"
      "rd16 (pru d) 2 = Some r" "rd16 (pru d) 0 = Some r"
      "ring_rooms r [] r (map (\<lambda>p. frame_of (light_bytes (numbered p))) ps)" and "waiting x"
    and "searching 1 0 prev y" "prev \<le> 1" "rx_ring (rx_pru z) r' [] r'"
      "ring_rooms r' [] r' (map (\<lambda>p. frame_of (light_bytes (numbered p))) ps)" "rx_pkt_ok z" "netif_rx z = []"
    and "node_inv t"
  shows "\<exists>frames s1 s2 bytes d1 d2 n words m x1 tail. gw_sends sendto ps = Some frames \<and> tx_receives frames s = Some s1
    \<and> tx_transmits tries (length ps) s1 = Some (s2, bytes) \<and> bytes = map (\<lambda>p. light_bytes (numbered p)) ps \<and> enq_all drv_xmit bytes d = Some d1
    \<and> ticks (vlc_rs u) (length ps) q d1 = Some (d2, q) \<and> tx_cycles TX_OTHER_IMAGE n (pru d2) x = Some (words, m, x1) \<and> waiting x1
    \<and> length tail \<le> 30 \<and> concat (map shifted_out words) = received_line (map (\<lambda>b. body_symbols (drop 2 (frame_of b))) bytes) @ tail
    \<and> (\<forall>zs noise. list_all2 (\<lambda>b zb. length zb = 1568 \<and> demodulate zb = demodulate (body_symbols (drop 2 (frame_of b)))) bytes zs
        \<longrightarrow> length noise \<le> 30 \<longrightarrow> (\<exists>m y' z' t'. rx_bits (rx_pru z) y (received_line zs @ noise) = Some (m, y', [])
          \<and> pru_phy_decoding uninit (vlc_rs v) (map (\<lambda>p. (True, False)) ps) (z\<lparr>rx_pru := m\<rparr>) = Some (None, z')
          \<and> node_receives (map sk_mac (netif_rx z')) t = Some t' \<and> node_inv t'
          \<and> (process_queue t' = foldl (\<lambda>q p. snd (fq_push (to_node_packet (numbered p)) q)) (process_queue t) ps
            \<and> (int (length (fq_items (process_queue t))) + int (length ps) \<le> fq_limit (process_queue t)
              \<longrightarrow> fq_items (process_queue t') = fq_items (process_queue t) @ map (\<lambda>p. to_node_packet (numbered p)) ps))
          \<and> from_vlc t' = from_vlc t + int (length ps)))"
  unfolding queued_def[symmetric] unfolding queued_iff by (rule batch_through_prus[OF assms])

theorem gateway_to_node_witness:
  "\<exists>frames s1 s2 bytes d1 d2 n words m x1 mr y' z' t'. gw_sends (\<lambda>f. 1) batch74 = Some frames \<and> tx_receives frames tx0 = Some s1
    \<and> tx_transmits [12] (length batch74) s1 = Some (s2, bytes) \<and> enq_all drv_xmit bytes drv0 = Some d1
    \<and> ticks (vlc_rs 1) (length batch74) (quality_bytes 99 @ drop 84 (replicate 2010 0)) d1
      = Some (d2, quality_bytes 99 @ drop 84 (replicate 2010 0))
    \<and> tx_cycles TX_OTHER_IMAGE n (pru d2) tx_start = Some (words, m, x1)
    \<and> rx_bits ring0 rxpru0 (concat (map shifted_out words)) = Some (mr, y', [])
    \<and> pru_phy_decoding 0 (vlc_rs 1) (map (\<lambda>p. (True, False)) batch74) (rx_fresh\<lparr>rx_pru := mr\<rparr>) = Some (None, z')
    \<and> node_receives (map sk_mac (netif_rx z')) node0 = Some t'
    \<and> fq_items (process_queue t') = map (\<lambda>p. to_node_packet (numbered p)) batch74"
proof -
  let ?q = "quality_bytes 99 @ drop 84 (replicate 2010 0)"
  note st = drv0_start
  have tx: "fq_items (tx_vlc_queue tx0) = []" "int (length batch74) < QUEUE_LIMIT" "int (length batch74) \<le> drv_cap drv0"
    "\<exists>n\<in>set [12 :: int]. 0 \<le> n"
    using st(5) batch74_ok(4) by (simp_all add: tx0_def tx_init_def fq_new_def QUEUE_LIMIT_def)
  have ring: "rx_ring (rx_pru rx_fresh) 4 [] 4" using rxpru_started(3,4) by simp
  have q0: "fq_items (process_queue node0) = []" "int (length batch74) \<le> fq_limit (process_queue node0)"
    using batch74_ok(4) by (simp_all add: node0_def node_init_def fq_new_def MAX_PROCESS_QUEUE_def)
  from gateway_to_node[OF batch74_ok(1-3) tx0_inv tx(1,2,4) drv0_handler st(1,2) tx(3) st(3,4) batch74_ok(5) tx_start_waits
    rxpru_started(2) _ ring batch74_ok(5) rxpru_started(5,6) node0_inv, of "\<lambda>f. 1" 1 0 1]
  obtain frames s1 s2 bytes d1 d2 n words m x1 tail where run: "gw_sends (\<lambda>f. 1) batch74 = Some frames" "tx_receives frames tx0 = Some s1"
    "tx_transmits [12] (length batch74) s1 = Some (s2, bytes)" "bytes = map (\<lambda>p. light_bytes (numbered p)) batch74" "enq_all drv_xmit bytes drv0 = Some d1"
    "ticks (vlc_rs 1) (length batch74) ?q d1 = Some (d2, ?q)" "tx_cycles TX_OTHER_IMAGE n (pru d2) tx_start = Some (words, m, x1)"
    and line: "length tail \<le> 30" "concat (map shifted_out words) = received_line (map (\<lambda>b. body_symbols (drop 2 (frame_of b))) bytes) @ tail"
    and rx: "\<And>zs noise. list_all2 (\<lambda>b zb. length zb = 1568 \<and> demodulate zb = demodulate (body_symbols (drop 2 (frame_of b)))) bytes zs
        \<Longrightarrow> length noise \<le> 30 \<Longrightarrow> \<exists>m y' z' t'. rx_bits (rx_pru rx_fresh) rxpru0 (received_line zs @ noise) = Some (m, y', [])
          \<and> pru_phy_decoding 0 (vlc_rs 1) (map (\<lambda>p. (True, False)) batch74) (rx_fresh\<lparr>rx_pru := m\<rparr>) = Some (None, z')
          \<and> node_receives (map sk_mac (netif_rx z')) node0 = Some t' \<and> node_inv t'
          \<and> (process_queue t' = foldl (\<lambda>q p. snd (fq_push (to_node_packet (numbered p)) q)) (process_queue node0) batch74
            \<and> (int (length (fq_items (process_queue node0))) + int (length batch74) \<le> fq_limit (process_queue node0)
              \<longrightarrow> fq_items (process_queue t') = fq_items (process_queue node0) @ map (\<lambda>p. to_node_packet (numbered p)) batch74))
          \<and> from_vlc t' = from_vlc node0 + int (length batch74)"
    by auto
  let ?zs = "map (\<lambda>b. body_symbols (drop 2 (frame_of b))) bytes"
  have "\<forall>b\<in>set bytes. packet_fits b \<and> frame_len b = 74"
    using batch74_ok(1,2) light_bytes_fit light_bytes_len unfolding run(4) by (auto simp: list_all_iff)
  then have "list_all2 (\<lambda>b zb. length zb = 1568 \<and> demodulate zb = demodulate (body_symbols (drop 2 (frame_of b)))) bytes ?zs"
    using frame74_len by (simp add: list_all2_conv_all_nth)
  from rx[OF this line(1)] obtain mr y' z' t' where
    "rx_bits ring0 rxpru0 (concat (map shifted_out words)) = Some (mr, y', [])"
    "pru_phy_decoding 0 (vlc_rs 1) (map (\<lambda>p. (True, False)) batch74) (rx_fresh\<lparr>rx_pru := mr\<rparr>) = Some (None, z')"
    "node_receives (map sk_mac (netif_rx z')) node0 = Some t'" "fq_items (process_queue t') = map (\<lambda>p. to_node_packet (numbered p)) batch74"
    using rxpru_started(4) line(2) q0 by auto
  with run show ?thesis by blast
qed

section \<open>The node\<close>

text \<open>C17. In every reachable state of the node the acknowledgement window is well formed and at most 100000 packets
  wide, the queue is within its limit and the link qualities are between 0 and 1.\<close>

theorem node_invariant:
  assumes "node_reach s"
  shows "status_ok (status s) \<and> fq_ok (process_queue s) \<and> (\<exists>q. VLC_LQ s = [q] \<and> 0 \<le> q \<and> q \<le> 1)"
  using node_reach_inv[OF assms] by (auto simp: node_inv_def)

theorem node_invariant_witness: "status_ok (status node0) \<and> fq_ok (process_queue node0)"
proof -
  have "node_reach node0" unfolding node0_def by (rule node_reach_init) simp
  from node_invariant[OF this] show ?thesis by blast
qed

text \<open>C18. Processing a packet keeps the window well formed, never takes an acknowledgement back and forgets no packet
  it has seen; and it does return as long as another sequence number in the window is still missing.\<close>

theorem process_packet_correct:
  assumes "status_ok st" and "sint (np_seq_number p) < MAX_SEQ_NUMBER"
    and "rcv_seq st \<le> j" "j < MAX_SEQ_NUMBER" "j \<noteq> sint (np_seq_number p)" "rcv_state st j \<noteq> 1"
  shows "\<exists>st'. process_packet p st = Some st' \<and> status_ok st' \<and> rcv_seq st \<le> rcv_seq st'
    \<and> last_rcv_seq st \<le> last_rcv_seq st' \<and> (\<forall>j. rcv_state st j = 1 \<longrightarrow> rcv_state st' j = 1)"
proof -
  from process_packet_total[OF assms] obtain st' where st': "process_packet p st = Some st'" by blast
  with process_packet_ok[OF assms(1) st'] show ?thesis by blast
qed

theorem process_packet_correct_witness:
  "\<exists>st'. process_packet (to_node_packet packet0) (initialize_node_status 500000) = Some st' \<and> status_ok st'
    \<and> rcv_seq (initialize_node_status 500000) \<le> rcv_seq st'"
  using process_packet_correct[OF status_ok_init, of "to_node_packet packet0" 500000 100]
  by (auto simp: to_node_packet_def packet0_def MAX_SEQ_NUMBER_def initialize_node_status_def)

section \<open>The packet queues\<close>

text \<open>C19. The linked list refines a bounded list: pushing a node that is not yet in it and popping give the answers and the
  contents of push and pop on the list, keep the structure well formed, and the node handed out is no longer in the queue.\<close>

theorem queue_refines:
  assumes "q_inv s"
  shows "(\<forall>a. q_fresh a s \<longrightarrow> (\<exists>s'. push_op a s = Some (fst (fq_push (node_val a s) (q_abs s)), s')
      \<and> q_inv s' \<and> q_abs s' = snd (fq_push (node_val a s) (q_abs s))))
    \<and> (\<exists>p s'. pop_op s = Some (p, s') \<and> q_inv s' \<and> q_abs s' = snd (fq_pop (q_abs s))
      \<and> map_option (\<lambda>a. node_val a s') p = fst (fq_pop (q_abs s)) \<and> (\<forall>a. p = Some a \<longrightarrow> q_fresh a s'))"
  using push_refines[OF assms] pop_refines[OF assms] by blast

lemma queue0_at: "queue_at heap0 queue0 []"
  unfolding queue0_def by (rule construct_queue_at)

lemma queue0_inv: "q_inv (heap0, queue0)"
  by (rule q_invI[OF queue0_at])

lemma queue0_fresh: "a \<in> {0, 1} \<Longrightarrow> q_fresh a (heap0, queue0)"
  using queue_at_addrs[OF queue0_at] by (auto simp: q_fresh_def heap0_def)

theorem queue_refines_witness:
  "\<exists>s' p s''. push_op 0 (heap0, queue0) = Some (fst (fq_push (node_val 0 (heap0, queue0)) (q_abs (heap0, queue0))), s') \<and> q_inv s'
    \<and> pop_op (heap0, queue0) = Some (p, s'') \<and> q_inv s''"
  using queue_refines[OF queue0_inv] queue0_fresh[of 0] by fastforce

text \<open>C22. Destroying a well formed queue terminates and frees exactly the nodes in it.\<close>

theorem queue_destruct:
  assumes "queue_at h q as"
  shows "destruct_queue h (Some q) = Some (h |` (- set as))"
  using assms by (rule destruct_queue_frees)

theorem queue_destruct_witness: "destruct_queue heap0 (Some queue0) = Some (heap0 |` (- set []))"
  by (rule queue_destruct[OF queue0_at])

section \<open>The driver of the transmitter\<close>

text \<open>C23. The transmit entry point and the dequeue side form a first-in-first-out queue with flow control: any sequence of
  socket buffers that fit and are no more than the pool holds is taken without fault and comes out in order.\<close>

theorem driver_fifo:
  assumes "drv_inv s" and "drv_items s = []" and "\<And>skb. skb \<in> set skbs \<Longrightarrow> length skb \<le> PKT_DATA"
    and "int (length skbs) \<le> drv_cap s"
  shows "\<exists>s1 s2. enq_all drv_xmit skbs s = Some s1
    \<and> deq_n drv_take (\<lambda>skb s. skb) (length skbs) s1 = Some (skbs, s2) \<and> drv_inv s2 \<and> drv_items s2 = []"
  using dq.fifo_values[OF assms(1,2), of skbs] assms(3,4) by simp

theorem driver_fifo_witness:
  "\<exists>s1 s2. enq_all drv_xmit [[1], [1]] drv0 = Some s1
    \<and> deq_n drv_take (\<lambda>skb s. skb) 2 s1 = Some ([[1], [1]], s2)"
proof -
  from drv0_ok obtain as where as: "drv_at drv0 as []" "length as = 2" by blast
  then have "drv_inv drv0" "drv_items drv0 = []" "drv_cap drv0 = 2"
    by (auto simp: drv_inv_def drv_at_items drv_at_cap)
  with driver_fifo[of drv0 "[[1], [1]]"] show ?thesis by (auto simp: PKT_DATA_def numeral_2_eq_2)
qed

text \<open>C24. However the network stack, the timer and the PRU take turns: while every packet handed over fits one block, the
  timer handler and the transmit entry point never fault, the write index, the one it keeps and the one it stores, stays between
  4 and 6003 (the read index is the PRU's), the frames inside the mapped memory, and the pool and the queue stay disjoint lists.\<close>

theorem timer_handler_safe:
  assumes "handler_inv s0 q0" and "drv_reach (vlc_rs u) (s0, q0) (s, q)" and "skb_ok skb"
  shows "handler_inv s q
    \<and> (\<exists>s' q'. phy_timer_handler (vlc_rs u) q s = Some (s', q') \<and> handler_inv s' q')
    \<and> (\<exists>b s'. drv_xmit skb s = Some (b, s') \<and> handler_inv s' q)"
proof -
  have inv: "handler_inv s q" using drv_reach_keeps[OF assms(2,1)] by blast
  with handler_keeps[OF this, of u] xmit_keeps[OF this assms(3)] show ?thesis by blast
qed

theorem timer_handler_safe_witness:
  "\<exists>s' q'. phy_timer_handler (vlc_rs 1) (quality_bytes 99 @ drop 84 (replicate 2010 0)) drv0 = Some (s', q')
    \<and> handler_inv s' q'"
  using timer_handler_safe[OF drv0_handler drv_reach_start skb0_ok(1), of 1] by blast

text \<open>C25. Loading the transmitter's module with a kernel that grants every request returns 0, whatever
  \<^verbatim>\<open>register_netdev\<close> answered, and leaves a full pool, an empty ring, the quality packet, the decoder and a running
  timer, in a state from which the driver is safe. Unloading it before a packet was sent, after whatever calls of the transmit
  entry point, ticks of the timer that send no packet of the queue, and turns of the PRU, frees exactly the memory the
  load allocated, and the decoder.\<close>

theorem transmitter_load_unload:
  assumes "fresh_blocks k (mem (m_drv s))" and "grants k" and "k_timer_init k = 0" "k_timer_start k = 0"
    and "m_rslist s = []"
  shows "\<exists>s1 q0. tx_init_module k fptr s = Some (0, s1) \<and> tx_loaded k (mem (m_drv s)) (m_log s) s1 \<and> m_q s1 = Some q0
    \<and> (\<forall>d q. unsent_runs (vlc_rs 1) (m_drv s1, q0) (d, q) \<longrightarrow> (\<exists>s2. tx_cleanup_module (s1\<lparr>m_drv := d, m_q := Some q\<rparr>) = Some s2
      \<and> (\<forall>c. mem (m_drv s2) c = None \<longleftrightarrow> mem (m_drv s) c = None)
      \<and> m_rslist s2 = [] \<and> m_log s2 = m_log s @ tx_load_log @ tx_unload_log))"
proof -
  from tx_init_ok[OF assms(1,2,5), of fptr] assms(3,4) obtain s1 where s1: "tx_init_module k fptr s = Some (0, s1)"
    "tx_loaded k (mem (m_drv s)) (m_log s) s1" by auto
  then obtain q0 where "m_q s1 = Some q0" by (auto simp: tx_loaded_def)
  with tx_unload_unsent[OF s1(2) this] s1 show ?thesis by blast
qed

theorem transmitter_load_unload_witness:
  "\<exists>s1 q0 b d s2. tx_init_module kernel0 (\<lambda>g x. x) tx_mod0 = Some (0, s1) \<and> m_q s1 = Some q0
    \<and> drv_xmit [3, 0, 7, 7] (m_drv s1) = Some (b, d) \<and> tx_cleanup_module (s1\<lparr>m_drv := d, m_q := Some q0\<rparr>) = Some s2
    \<and> m_rslist s2 = [] \<and> m_log s2 = tx_load_log @ tx_unload_log"
proof -
  have p: "fresh_blocks kernel0 (mem (m_drv tx_mod0))" "k_timer_init kernel0 = 0" "k_timer_start kernel0 = 0" "m_rslist tx_mod0 = []"
    "m_log tx_mod0 = []" using kernel0_ok(1) by (simp_all add: tx_mod0_def kernel0_def)
  from transmitter_load_unload[OF p(1) kernel0_ok(2) p(2-4), of "\<lambda>g x. x"] obtain s1 q0 where
    s1: "tx_init_module kernel0 (\<lambda>g x. x) tx_mod0 = Some (0, s1)" "tx_loaded kernel0 (mem (m_drv tx_mod0)) (m_log tx_mod0) s1" "m_q s1 = Some q0"
    and un: "\<And>d q. unsent_runs (vlc_rs 1) (m_drv s1, q0) (d, q) \<Longrightarrow> \<exists>s2. tx_cleanup_module (s1\<lparr>m_drv := d, m_q := Some q\<rparr>) = Some s2
      \<and> m_rslist s2 = [] \<and> m_log s2 = m_log tx_mod0 @ tx_load_log @ tx_unload_log" by blast
  have "handler_inv (m_drv s1) q0" using s1(2,3) by (auto simp: tx_loaded_def)
  from xmit_keeps[OF this skb0_ok(1)] obtain b d where x: "drv_xmit [3, 0, 7, 7] (m_drv s1) = Some (b, d)" by blast
  from un[OF unsent_xmit[OF unsent_start skb0_ok(1) x]] x s1(1,3) p(5) show ?thesis by auto
qed

text \<open>C26. Once the timer handler has sent one packet of the queue the module cannot be unloaded any more: whatever happens
  afterwards, \<^verbatim>\<open>cleanup_module\<close> frees the last packet sent twice, through the pool or the queue and through
  \<^verbatim>\<open>tx_pkt\<close>.\<close>

theorem unload_double_free:
  assumes "handler_inv s0 q0" and "is_write_next s0" and "tx_queue s0 \<noteq> None"
    and "phy_timer_handler (vlc_rs u) q0 s0 = Some (s1, q1)" and "drv_reach (vlc_rs u) (s1, q1) (s, q)"
    and "m_drv t = s" and "m_devs t \<noteq> None"
  shows "tx_cleanup_module t = None"
proof -
  have "handler_inv s1 q1" "tx_spent s1" using handler_keeps[OF assms(1), of u] assms(2-4) by auto
  with drv_reach_keeps[OF assms(5)] have "tx_spent s" by blast
  with tx_unload_spent[of t] assms(6,7) show ?thesis by simp
qed

theorem unload_double_free_witness:
  "\<exists>b s0 s1 q1. drv_xmit [3, 0, 7, 7] drv0 = Some (b, s0)
    \<and> phy_timer_handler (vlc_rs 1) (quality_bytes 99 @ drop 84 (replicate 2010 0)) s0 = Some (s1, q1)
    \<and> tx_cleanup_module (tx_mod0\<lparr>m_drv := s1, m_devs := k_netdev kernel0\<rparr>) = None"
proof -
  let ?q = "quality_bytes 99 @ drop 84 (replicate 2010 0)"
  from xmit_keeps[OF drv0_handler skb0_ok(1)] obtain b s0 where x: "drv_xmit [3, 0, 7, 7] drv0 = Some (b, s0)"
    "handler_inv s0 ?q" by blast
  from drv0_ok obtain as where as: "drv_at drv0 as []" "length as = 2" "drv_init 2 (\<lambda>i. Some (nat (i + 1)))
    (\<lambda>i. \<lparr>datalen = 0, pk_data = replicate 2010 0\<rparr>) Map.empty (le16 4 @ le16 4 @ replicate 6226 0) = Some drv0" by blast
  then obtain a as' where "as = a # as'" by (cases as) auto
  with as(1) have "drv_at drv0 (a # as') []" by simp
  from vlc_tx_ok[OF this skb0_ok(2)] obtain s' where v: "vlc_tx [3, 0, 7, 7] drv0 = Some (0, s')" "drv_at s' as' [a]" by auto
  have "s0 = s'" using x(1) v(1) as(1,2) by (auto simp: drv_xmit_def drv_at_def)
  then have "tx_queue s0 \<noteq> None" "is_write_next s0"
    using v(2) vlc_tx_frame[OF v(1)] drv_init_start[OF as(3)] by (auto simp: drv_at_def)
  moreover from handler_keeps[OF x(2), of 1] obtain s1 q1 where h: "phy_timer_handler (vlc_rs 1) ?q s0 = Some (s1, q1)" by blast
  ultimately have "tx_cleanup_module (tx_mod0\<lparr>m_drv := s1, m_devs := k_netdev kernel0\<rparr>) = None"
    using unload_double_free[OF x(2) _ _ h drv_reach_start, of "tx_mod0\<lparr>m_drv := s1, m_devs := k_netdev kernel0\<rparr>"]
    by (simp add: kernel0_def)
  with x(1) h show ?thesis by blast
qed

text \<open>C29. The timer handler does not protect frames the PRU has not read: when the frame at the read index begins inside the place
  of the next one, the tick writes over it, publishes the new write index and leaves the read index where it is.\<close>

theorem ring_overrun:
  assumes "handler_inv s q" "is_write_next s" "drv_items s = p # ps" "packet_fits p"
    and "rd16 (pru s) 2 = Some r" "rd16 (pru s) 0 = Some w" and "unat w < unat r" "unat r < unat w + length p + 16"
    and "rx_next w (frame_len p) \<noteq> r"
  shows "\<exists>s'. phy_timer_handler (vlc_rs u) q s = Some (s', q)
    \<and> rd16 (pru s') 0 = Some (rx_next w (frame_len p)) \<and> rd16 (pru s') 2 = Some r
    \<and> pru s' ! unat r = frame_of p ! (unat r - unat w)"
proof -
  from assms(1) obtain as bs where at: "drv_at s as bs" by (auto simp: handler_inv_def)
  with assms(3) drv_at_items[OF at] obtain b bs' where "bs = b # bs'" "p = pkt_bytes (mem s) b" by (cases bs) auto
  with tick_overruns[OF assms(1,2) _ _ assms(4-9), of as b bs' u] at show ?thesis by simp
qed

theorem ring_overrun_witness:
  "\<exists>s1 s'. enq_all drv_xmit packets2 drv0 = Some s1
    \<and> phy_timer_handler (vlc_rs 1) (quality_bytes 99 @ drop 84 (replicate 2010 0)) (s1\<lparr>pru := le16 4 @ le16 10 @ replicate 6226 0\<rparr>)
      = Some (s', quality_bytes 99 @ drop 84 (replicate 2010 0))
    \<and> rd16 (pru s') 0 = Some 33 \<and> rd16 (pru s') 2 = Some 10"
proof -
  let ?q = "quality_bytes 99 @ drop 84 (replicate 2010 0)" and ?m = "le16 4 @ le16 10 @ replicate 6226 (0 :: u8)"
  from xmit_all[OF drv0_handler packets2_fit] drv0_start obtain s1 where s1: "enq_all drv_xmit packets2 drv0 = Some s1"
    "handler_inv s1 ?q" "drv_items s1 = packets2" "is_write_next s1" by (auto simp: packets2_def)
  let ?s = "s1\<lparr>pru := ?m\<rparr>"
  have m: "rd16 ?m 0 = Some 4" "rd16 ?m 2 = Some 10" by (simp_all add: bytes_simps)
  have inv: "handler_inv ?s ?q" using s1(2,4) m
    by (auto simp: handler_inv_def ring_ok_def drv_at_def in_ring_def BUFFER_LIMIT_def)
  obtain p ps where p: "packets2 = p # ps" "packet_fits p" "frame_len p = 3" "length p = 13"
    using packets2_fit by (auto simp: packets2_def frame_len_def bytes_simps)
  have "drv_items ?s = p # ps" using s1(3) p(1) by (simp add: drv_items_def)
  from ring_overrun[OF inv _ this p(2) _ _ _ _ _, of 10 4 1] s1(1,4) m p(3,4) show ?thesis
    by (auto simp: rx_next_def BUFFER_LIMIT_def)
qed

text \<open>C27. The proc file: a decimal number, digits and a newline, is stored modulo 2^32 and all its characters are consumed; and
  what reading the file gives, written back, stores the same value again, except that a negative one is refused.\<close>

theorem proc_file:
  "((\<forall>d\<in>set ds. d < 10) \<and> (\<forall>i<length ds. user i = Some (48 + ds ! i)) \<and> user (length ds) = Some 10 \<and> length ds < count
      \<longrightarrow> proc_write user count = (int (length ds + 1), Some (foldl (\<lambda>a d. a * 10 + ucast d) 0 ds)))
    \<and> (proc_read val = (page, n) \<and> (\<forall>i<length page. user' i = Some (page ! i))
      \<longrightarrow> proc_write user' (length page) = (if sint val < 0 then (- EINVAL, None) else (n, Some val)))"
  using proc_write_loop_digits[of ds user 0 count 0] proc_read_write[of page user' val n] by (simp add: proc_write_def)

theorem proc_file_witness:
  "proc_write (\<lambda>i. if i = 0 then Some 52 else if i = 1 then Some 50 else Some 10) 3
      = (int (length [4 :: u8, 2] + 1), Some (foldl (\<lambda>a d. a * 10 + ucast d) 0 [4 :: u8, 2]))
    \<and> proc_write (\<lambda>i. Some (if i = 0 then 45 else 49)) 2 = (- EINVAL, None)"
proof -
  let ?u = "\<lambda>i. if i = 0 then Some 52 else if i = 1 then Some 50 else Some 10"
    and ?v = "\<lambda>i. Some (if i = 0 then 45 else 49 :: u8)"
  have "digs 1 = [1]" by (subst digs.simps) simp
  then have r: "proc_read (- 1) = ([45, 49], 2)" by (simp add: proc_read_def)
  have u: "\<forall>d\<in>set [4 :: u8, 2]. d < 10" "\<forall>i<length [4 :: u8, 2]. ?u i = Some (48 + [4, 2] ! i)"
      "?u (length [4 :: u8, 2]) = Some 10" "length [4 :: u8, 2] < 3"
    and v: "\<forall>i<length [45 :: u8, 49]. ?v i = Some ([45, 49] ! i)"
    by (auto simp: less_Suc_eq nth_Cons')
  note pf = proc_file[of "[4, 2]" ?u 3 "- 1" "[45, 49]" 2 ?v]
  have "proc_write ?u 3 = (int (length [4 :: u8, 2] + 1), Some (foldl (\<lambda>a d. a * 10 + ucast d) 0 [4 :: u8, 2]))"
    by (rule mp[OF conjunct1[OF pf]]) (intro conjI u)
  moreover have "proc_write ?v (length [45 :: u8, 49]) = (if sint (- 1 :: u32) < 0 then (- EINVAL, None) else (2, Some (- 1)))"
    by (rule mp[OF conjunct2[OF pf]]) (intro conjI r v)
  moreover have "length [45 :: u8, 49] = 2" "sint (- 1 :: u32) < 0" by simp_all
  ultimately show ?thesis by (simp only: if_True)
qed

section \<open>The driver of the receiver\<close>

text \<open>C28. When the decoding thread does not decode: it returns only when it was asked to stop, and then with 0, since the error
  return for an uncorrectable block compares an unsigned count; while the ring is empty it never looks at the stop request,
  whatever is requested; and a frame whose length word is 0 or above 150 stops it for good, no later round gets past it.\<close>

theorem receiver_thread:
  "(pru_phy_decoding uninit rs env s = Some (Some ret, s') \<longrightarrow> ret = 0 \<and> (\<exists>e\<in>set env. snd e))
    \<and> (rd16 (rx_pru s) 2 = Some r \<and> rd16 (rx_pru s) 0 = Some r \<longrightarrow> pru_phy_decoding uninit rs env s = Some (None, s))
    \<and> (rd16 (rx_pru s) 2 = Some r \<and> rd16 (rx_pru s) 0 = Some w \<and> r \<noteq> w \<and> rd16 (rx_pru s) (uint r) = Some l
        \<and> (l = 0 \<or> l > RX_MTU_VALUE)
      \<longrightarrow> pru_phy_decoding uninit rs env s = Some (if \<exists>e\<in>set env. snd e then Some 0 else None, s))"
  using thread_returns_0 idle_never_stops bad_length_stuck by blast

lemma rx_stuck_reads: "rd16 (rx_pru rx_stuck) 2 = Some 4" "rd16 (rx_pru rx_stuck) 0 = Some 100"
  "rd16 (rx_pru rx_stuck) (uint (4 :: u16)) = Some 0"
proof -
  show "rd16 (rx_pru rx_stuck) 2 = Some 4" "rd16 (rx_pru rx_stuck) 0 = Some 100"
    by (simp_all add: rx_stuck_def rx0_def bytes_simps)
  show "rd16 (rx_pru rx_stuck) (uint (4 :: u16)) = Some 0"
    by (simp add: rx_stuck_def rx0_def rd16_skip) (simp add: rd16_def ard_def of_le16_def)
qed

theorem receiver_thread_witness:
  "pru_phy_decoding 0 (vlc_rs 1) [(True, True)] rx_stuck = Some (Some 0, rx_stuck) \<and> (0 :: int) = 0
    \<and> pru_phy_decoding 0 (vlc_rs 1) [(True, True)] (rx_stuck\<lparr>rx_pru := le16 4 @ le16 4\<rparr>)
      = Some (None, rx_stuck\<lparr>rx_pru := le16 4 @ le16 4\<rparr>)"
proof -
  have "pru_phy_decoding 0 (vlc_rs 1) [(True, True)] rx_stuck = Some (Some 0, rx_stuck)"
    using receiver_thread[of 0 "vlc_rs 1" "[(True, True)]" rx_stuck _ _ 4 100 0] rx_stuck_reads by simp
  moreover have "rd16 (le16 4 @ le16 4) 2 = Some 4" "rd16 (le16 4 @ le16 4) 0 = Some 4"
    by (simp_all add: le16_def rd16_def ard_def of_le16_def)
  ultimately show ?thesis
    using receiver_thread[of 0 "vlc_rs 1" "[(True, True)]" "rx_stuck\<lparr>rx_pru := le16 4 @ le16 4\<rparr>" _ _ 4] by simp
qed

section \<open>The VLC transmitter\<close>

text \<open>C31. The counter of the transmitter program, statement by statement: receiver loop, transmitting thread (with its retries of
  \<^verbatim>\<open>write\<close>) and reporting thread take their steps in any order, one call of \<^verbatim>\<open>Enqueue\<close>, \<^verbatim>\<open>Dequeue\<close> or \<^verbatim>\<open>write\<close> a step. As long as
  the two updates of \<^verbatim>\<open>queue_size\<close> do not overlap, the counter, which is what is reported, is the length of the queue plus the
  packet that is being transmitted less the one that is not yet counted, it stays below the limit, every packet is well
  formed and no \<^verbatim>\<open>Enqueue\<close> is refused. Nothing keeps the updates apart: there is a run at whose end both loops are between
  two iterations and the queue is empty, and the counter is 1.\<close>

theorem transmitter_invariant:
  "(tx_runs updates_apart (t, r, s) \<longrightarrow>
      queue_size s = int (length (fq_items (tx_vlc_queue s))) + t_pending t - r_pending r \<and> queue_size s < QUEUE_LIMIT
      \<and> fq_limit (tx_vlc_queue s) = QUEUE_LIMIT \<and> (\<forall>p\<in>set (fq_items (tx_vlc_queue s)). gp_wf p)
      \<and> (\<forall>p. r = R_enqueue p \<longrightarrow> fst (fq_push p (tx_vlc_queue s))))
    \<and> (\<exists>s. tx_runs (\<lambda>x. True) (T_idle, R_recv, s) \<and> fq_items (tx_vlc_queue s) = [] \<and> queue_size s = 1)"
proof -
  have "length (gp_data packet0) \<le> 1000" by (simp add: packet0_def)
  from lost_update[OF packet0_wf this] have "\<exists>s. tx_runs (\<lambda>x. True) (T_idle, R_recv, s) \<and> fq_items (tx_vlc_queue s) = [] \<and> queue_size s = 1"
    unfolding tx_shape_def by blast
  moreover have "tx_prog_inv (t, r, s)" if "tx_runs updates_apart (t, r, s)" using tx_runs_inv[OF that] .
  moreover have "fst (fq_push p (tx_vlc_queue s))" if "tx_prog_inv (t, r, s)" "r = R_enqueue p" for p
    using tx_push_taken that by blast
  ultimately show ?thesis by (auto simp: tx_prog_inv_def)
qed

text \<open>A packet has arrived and is in the queue, but not yet counted.\<close>

theorem transmitter_invariant_witness:
  "\<exists>s. tx_runs updates_apart (T_idle, R_load, s) \<and> length (fq_items (tx_vlc_queue s)) = 1 \<and> queue_size s = 0"
proof -
  have p: "length (gp_data packet0) \<le> 1000" "0 + 1 < QUEUE_LIMIT" "int (length []) < QUEUE_LIMIT" "length zeros = 1024"
    by (simp_all add: packet0_def QUEUE_LIMIT_def)
  from run_arrive[OF runs_init[OF p(4)] tx_init_shape[OF p(4)] packet0_wf p(1-3), of updates_apart] obtain s where
    s: "tx_runs updates_apart (T_idle, R_load, s)" "length (fq_items (tx_vlc_queue s)) = 1"
    by (auto simp: updates_apart_def tx_shape_def)
  from conjunct1[OF transmitter_invariant[of T_idle R_load s]] s show ?thesis by (intro exI[of _ s]) simp
qed

section \<open>The start of the programs\<close>

text \<open>C30. How the three programs start, whatever the operating system answers. The gateway fills two entries of each of its address
  tables, though it asks for blocks of one: in blocks without room for the second it writes out of bounds. When
  the allocator happens to have rounded the blocks up, and for node and transmitter always, the start stays inside its
  buffers and ends in one of two
  ways: the process exits, with -1 exactly when a thread cannot be created, or with 1 in the transmitter when its socket
  cannot be reused; or all threads run on a state that fulfils the invariant of the program. Sockets that could not be
  set up do not keep gateway and node from running.\<close>

theorem programs_start:
  assumes "stack_ok st" and "sk_open s1 = []" and "sk_open s2 = []"
  shows "(node_cells < 2 \<or> vlc_cells < 2 \<longrightarrow> gw_main node_cells vlc_cells os1 os2 pthread_create st s1 s2 = None)
    \<and> (2 \<le> node_cells \<and> 2 \<le> vlc_cells \<longrightarrow> (\<exists>pr. gw_main node_cells vlc_cells os1 os2 pthread_create st s1 s2
        = Some (if \<exists>i\<in>{0, 1, 2, 3, 4, 5, 6, 8}. pthread_create i \<noteq> 0 then Exit (- 1) else Ret pr)
      \<and> gw_inv (pr_state pr) \<and> dom (pr_threads pr) = {0, 1, 2, 3, 4, 5, 6, 8}
      \<and> (sk_open (pr_sock1 pr) = [] \<longleftrightarrow> os_socket os1 = - 1 \<or> os_index os1 \<noteq> None \<and> \<not> (os_reuse os1 \<and> os_bindtodevice os1))
      \<and> (sk_open (pr_sock2 pr) = [] \<longleftrightarrow> os_socket os2 = - 1 \<or> \<not> (os_reuse os2 \<and> os_bindtodevice os2))))
    \<and> (\<exists>pr. node_main os1 os2 pthread_create st s1 s2
        = Some (if \<exists>i\<in>{0, 1, 2, 3, 5}. pthread_create i \<noteq> 0 then Exit (- 1) else Ret pr)
      \<and> node_inv (pr_state pr) \<and> dom (pr_threads pr) = {0, 1, 2, 3, 5} \<and> sk_bound (pr_sock1 pr) = os_bind os1
      \<and> (sk_open (pr_sock2 pr) = [] \<longleftrightarrow> os_socket os2 = - 1 \<or> \<not> (os_reuse os2 \<and> os_bindtodevice os2)))
    \<and> (\<exists>pr. tx_main os1 os2 pthread_create st s1 s2
        = Some (if os_socket os1 \<noteq> - 1 \<and> \<not> os_reuse os1 then Exit 1
            else if \<exists>i\<in>{0, 1}. pthread_create i \<noteq> 0 then Exit (- 1) else Ret pr)
      \<and> tx_inv (pr_state pr) \<and> dom (pr_threads pr) = {0, 1})"
  by (intro conjI impI gw_main_small_tables gw_main_result[OF assms] node_main_result[OF assms(1,3)] tx_main_result[OF assms(1,2)])
    simp_all

theorem programs_start_witness:
  "gw_main (nat N_NODE) (nat GW_N_VLC) os0 os0 (\<lambda>i. 0) stack0 sock0 sock0 = None
    \<and> (\<exists>pr. gw_main 3 3 os0 os0 (\<lambda>i. 0) stack0 sock0 sock0 = Some (Ret pr) \<and> gw_inv (pr_state pr) \<and> sk_open (pr_sock1 pr) = [])"
proof -
  have p: "stack_ok stack0" "sk_open sock0 = []" "os_socket os0 = - 1"
    by (simp_all add: stack_ok_def stack0_def sock0_def os0_def IFNAMSIZ_def zero_ifreq_def)
  note start = programs_start[OF p(1,2,2), of _ _ os0 os0 "\<lambda>i. 0"]
  from conjunct1[OF start[of "nat N_NODE" "nat GW_N_VLC"]] conjunct1[OF conjunct2[OF start[of 3 3]]] p(3) show ?thesis
    by (auto simp: N_NODE_def)
qed

section \<open>The scheduler of the gateway\<close>

text \<open>C32. With one node and one transmitter, in the arithmetic of the machine: the search of Algorithm 3 overflows an \<^verbatim>\<open>int\<close> just when
  the negated length of the node's queue, or its sum with \<^verbatim>\<open>r\<close> or with the queue length the transmitter reported, leaves the range; a
  report can make it, as any 32-bit value is taken over. Otherwise it decides for VLC exactly when the cost of the
  transmitter, rounded as \<^verbatim>\<open>double\<close> is, is below both 0 and the cost of RF, and else for RF exactly when the RF queue is shorter
  than the node's. With an error probability of 0 the cost is the exact difference of the queue lengths. Whatever the search
  found, \<^verbatim>\<open>schedule\<close> answers RF, when it answers.\<close>

theorem scheduler_decision:
  assumes "length (gn s) = 1" "length (vk s) = 1" "length (gw_e s) = 1" "length (gw_e s ! 0) = 1"
    and "c_int (vk s ! 0)" "c_int (gw_r s)"
  shows "schedule_search s 0 =
      (if \<not> (c_int (- (gn s ! 0)) \<and> c_int (gw_r s - gn s ! 0) \<and> c_int (vk s ! 0 - gn s ! 0)) then None
       else if first_cost s < of_int (min 0 (gw_r s - gn s ! 0)) then Some (VLC_MODE, [0], 1)
       else Some (if gw_r s < gn s ! 0 then RF_MODE else IDLE_MODE, [0], 0))
    \<and> (gw_e s ! 0 ! 0 = 0 \<and> c_int (vk s ! 0 - gn s ! 0) \<longrightarrow> first_cost s = of_int (vk s ! 0 - gn s ! 0))
    \<and> schedule s 0 = map_option (\<lambda>x. \<lparr>mode = RF_MODE, vlc_tgt_set = [0], n_vlc_tgt = 1\<rparr>) (schedule_search s 0)"
  using schedule_search_1[OF assms] schedule_1[OF assms] first_cost_lossless[of s]
  by (simp add: schedule_in_range_def RF_MODE_def)

theorem scheduler_decision_witness:
  "schedule_search (gw0\<lparr>gn := [3], gw_r := 1\<rparr>) 0 = Some (VLC_MODE, [0], 1)
    \<and> schedule (gw0\<lparr>gn := [3], gw_r := 1\<rparr>) 0 = Some \<lparr>mode = RF_MODE, vlc_tgt_set = [0], n_vlc_tgt = 1\<rparr>
    \<and> schedule_search (gw0\<lparr>gn := [3], gw_r := 1, vk := [2]\<rparr>) 0 = Some (RF_MODE, [0], 0)
    \<and> schedule_search (gw0\<lparr>gn := [1], vk := [- (2 ^ 31)]\<rparr>) 0 = None"
proof -
  let ?s = "gw0\<lparr>gn := [3], gw_r := 1\<rparr>" and ?t = "gw0\<lparr>gn := [3], gw_r := 1, vk := [2]\<rparr>" and ?u = "gw0\<lparr>gn := [1], vk := [- (2 ^ 31)]\<rparr>"
  have "length (gn ?s) = 1" "length (vk ?s) = 1" "length (gw_e ?s) = 1" "length (gw_e ?s ! 0) = 1" "c_int (vk ?s ! 0)" "c_int (gw_r ?s)"
    by (simp_all add: gw0_fields c_int_def)
  note s = scheduler_decision[OF this]
  have "length (gn ?t) = 1" "length (vk ?t) = 1" "length (gw_e ?t) = 1" "length (gw_e ?t ! 0) = 1" "c_int (vk ?t ! 0)" "c_int (gw_r ?t)"
    by (simp_all add: gw0_fields c_int_def)
  note t = scheduler_decision[OF this]
  have "length (gn ?u) = 1" "length (vk ?u) = 1" "length (gw_e ?u) = 1" "length (gw_e ?u ! 0) = 1" "c_int (vk ?u ! 0)" "c_int (gw_r ?u)"
    by (simp_all add: gw0_fields c_int_def)
  note u = scheduler_decision[OF this]
  have fs: "first_cost ?s = - 3" using conjunct1[OF conjunct2[OF s]] by (simp add: gw0_fields c_int_def)
  have ft: "first_cost ?t = - 1" using conjunct1[OF conjunct2[OF t]] by (simp add: gw0_fields c_int_def)
  have 1: "schedule_search ?s 0 = Some (VLC_MODE, [0], 1)"
    by (subst conjunct1[OF s]) (simp add: gw0_fields c_int_def fs)
  have 2: "schedule_search ?t 0 = Some (RF_MODE, [0], 0)"
    by (subst conjunct1[OF t]) (simp add: gw0_fields c_int_def ft)
  have 3: "schedule_search ?u 0 = None"
    by (subst conjunct1[OF u]) (simp add: gw0_fields c_int_def)
  have 4: "schedule ?s 0 = Some \<lparr>mode = RF_MODE, vlc_tgt_set = [0], n_vlc_tgt = 1\<rparr>"
    by (subst conjunct2[OF conjunct2[OF s]]) (simp add: 1)
  show ?thesis by (intro conjI 1 2 3 4)
qed

section \<open>Behaviour the code does not mean to have\<close>

text \<open>C34. No report ever acknowledges a packet: whatever arrives, \<^verbatim>\<open>receive_report\<close> changes at most the acknowledgement
  numbers, the error probabilities and its buffer, and nothing else of the state, because it compares the parsed bits with the
  character \<^verbatim>\<open>'1'\<close>. In particular the states of the packets and the packets kept for a repetition stay.\<close>

theorem reports_never_acknowledge:
  assumes "receive_report rx s = Some s'"
  shows "(\<exists>u e b. s' = s\<lparr>gw_status := (gw_status s)\<lparr>unacked_seq := u\<rparr>, gw_e := e, report_buf := b\<rparr>)
    \<and> pkt_state (gw_status s') = pkt_state (gw_status s) \<and> n_unacked_vlc_packet s' = n_unacked_vlc_packet s
    \<and> unacked_vlc_packet s' = unacked_vlc_packet s"
  using receive_report_frame[OF assms] unfolding report_frame_eq_def by (elim exE conjE) (simp, blast)

text \<open>The node reports packets 2 and 3 received, the gateway waits for their acknowledgement, and keeps waiting.\<close>

definition status3 :: node_status where
  "status3 = \<lparr>rcv_seq = 1, rcv_state = (\<lambda>i. if i \<in> {0, 2, 3} then 1 else 0), last_rcv_seq = 3\<rparr>"

definition gw_waiting :: gw_state where
  "gw_waiting = gw0\<lparr>gw_status := (gw_status gw0)\<lparr>pkt_state := [\<lambda>j. VLC_unacked]\<rparr>\<rparr>"

lemma waiting_ok: "node_inv (node0\<lparr>status := status3\<rparr>)" "gw_inv gw_waiting"
proof -
  show "node_inv (node0\<lparr>status := status3\<rparr>)"
    using node0_inv by (auto simp: node_inv_def status_ok_def status3_def MAX_SEQ_NUMBER_def max_ACK_bit_pattern_def)
  have "gw_inv (g\<lparr>gw_status := (gw_status g)\<lparr>pkt_state := [f]\<rparr>\<rparr>)" if "gw_inv g" for g f
    using that by (simp add: gw_inv_def gw_shape_def node_queue_def)
  from this[OF gw0_inv] show "gw_inv gw_waiting" by (simp add: gw_waiting_def)
qed

theorem reports_never_acknowledge_witness:
  "\<exists>frame g'. send_report [1] NODE_MAC (node0\<lparr>status := status3\<rparr>) = Some frame \<and> receive_report (Some frame) gw_waiting = Some g'
    \<and> unacked_seq (gw_status g') = [1] \<and> pkt_state (gw_status g') = [\<lambda>j. VLC_unacked]"
proof -
  have "1 \<le> rcv_seq (status (node0\<lparr>status := status3\<rparr>))"
    "last_rcv_seq (status (node0\<lparr>status := status3\<rparr>)) - rcv_seq (status (node0\<lparr>status := status3\<rparr>)) + 1 \<le> 7984"
    by (simp_all add: status3_def)
  from status_report_hop[OF waiting_ok _ this, of "[1]"] obtain frame g' where
    r: "send_report [1] NODE_MAC (node0\<lparr>status := status3\<rparr>) = Some frame" "receive_report (Some frame) gw_waiting = Some g'"
      "unacked_seq (gw_status g') = [1]" by (auto simp: status3_def)
  have "pkt_state (gw_status gw_waiting) = [\<lambda>j. VLC_unacked]" by (simp add: gw_waiting_def)
  with reports_never_acknowledge[OF r(2)] r show ?thesis by auto
qed

text \<open>C35. After one failed send over RF with a packet in the filter nothing is sent over RF any more, whatever the
  threads do from then on.\<close>

theorem failed_send_is_final:
  assumes "gw_inv s" and "6 \<le> length mac" and "fq_items (tbf_queue s) \<noteq> []" and "0 < n_token s" and "n \<le> 0"
    and "list_all macs_ok evs" and "gw_run (Tbf_transmit mac n # evs) s = Some (s', gen, sent)"
  shows "sent = []"
proof -
  from failed_send_starves[OF assms(1-5)] obtain s1 where s1: "tbf_transmit mac n s = Some (s1, [])" "starved s1" by blast
  from tbf_transmit_step[OF assms(1,2), of n] s1 have "gw_inv s1" by (auto simp: step_ok_def)
  from s1 assms(7) obtain gen' sent' where r: "gw_run evs s1 = Some (s', gen', sent')" "sent = sent'"
    by (auto split: Option.bind_splits)
  from starved_run[OF \<open>gw_inv s1\<close> assms(6) s1(2) r(1)] r(2) show ?thesis by simp
qed

lemma gw_full_inv: "gw_inv gw_full"
proof -
  let ?p = "(generate_random_node (\<lambda>i. 0) 1)\<lparr>gp_seq_number := 0\<rparr>"
  have p: "packet_ok ?p" by (rule packet_ok_generated)
  have "gw_inv (g\<lparr>tbf_queue := (tbf_queue g)\<lparr>fq_items := [?p]\<rparr>, tbf_queue_length := 1, n_token := 1\<rparr>)"
    if "gw_inv g" for g
    using that p unfolding gw_inv_def gw_shape_def node_queue_def by (simp add: BURST_def LIMIT_def)
  from this[OF gw0_inv] show ?thesis by (simp add: gw_full_def)
qed

theorem failed_send_is_final_witness:
  "\<exists>s' gen. gw_run [Tbf_transmit NODE_MAC 0, Add_token, Transmit_rf, Tbf_transmit NODE_MAC 1] gw_full = Some (s', gen, [])"
proof -
  let ?evs = "[Add_token, Transmit_rf, Tbf_transmit NODE_MAC 1]"
  have ok: "list_all macs_ok (Tbf_transmit NODE_MAC 0 # ?evs)" by (simp add: macs_ok_def)
  have "\<exists>res. gw_run (Tbf_transmit NODE_MAC 0 # ?evs) gw_full = Some res"
    by (rule gw_run_total[OF gw_full_inv ok]) (auto simp: parses_input_def scheduled_def gw_full_def gw0_fields NODE_QUEUE_SIZE_def)
  then obtain s' gen sent where run: "gw_run (Tbf_transmit NODE_MAC 0 # ?evs) gw_full = Some (s', gen, sent)"
    by (metis prod_cases3)
  have "sent = []"
    by (rule failed_send_is_final[OF gw_full_inv _ _ _ _ _ run])
      (use ok in \<open>simp_all add: gw_full_def\<close>)
  with run show ?thesis by blast
qed

text \<open>C36. The report of a node that has not acknowledged anything yet makes the gateway read the packet state at index
  -1.\<close>

theorem first_report_out_of_bounds:
  assumes "node_inv s" and "gw_inv g" and "\<exists>n\<in>set tries. 0 \<le> n"
    and "rcv_seq (status s) = 0" and "last_rcv_seq (status s) \<le> 7983"
  shows "\<exists>frame. send_report tries NODE_MAC s = Some frame \<and> receive_report (Some frame) g = None"
  using assms by (rule first_report_fault)

theorem first_report_out_of_bounds_witness:
  "\<exists>frame. send_report [1] NODE_MAC node0 = Some frame \<and> receive_report (Some frame) gw0 = None"
proof (rule first_report_out_of_bounds[OF node0_inv gw0_inv])
  show "rcv_seq (status node0) = 0" "last_rcv_seq (status node0) \<le> 7983"
    by (simp_all add: node0_def node_init_def initialize_node_status_def)
qed simp

text \<open>C37. A window of more than 7984 packets, which the node allows up to 100000, overflows the buffer of the status
  report; up to 7984 the report is sent (C15, C33).\<close>

theorem report_buffer_overflow:
  assumes "status_ok (status s)" and "6 \<le> length mac" and "7984 < last_rcv_seq (status s) - rcv_seq (status s) + 1"
  shows "send_report tries mac s = None"
  using assms by (rule send_report_overflow)

theorem report_buffer_overflow_witness:
  "send_report [1] NODE_MAC (node0\<lparr>status := \<lparr>rcv_seq = 0, rcv_state = (\<lambda>i. if i = 9000 then 1 else 0), last_rcv_seq = 9000\<rparr>\<rparr>) = None"
  by (rule report_buffer_overflow) (auto simp: status_ok_def MAX_SEQ_NUMBER_def max_ACK_bit_pattern_def)

text \<open>C38. When the packet that completes the whole sequence space arrives, the loop of \<^verbatim>\<open>process_data\<close> runs past the
  array of received packets.\<close>

theorem last_packet_out_of_bounds:
  assumes "status_ok st" and "rcv_seq st \<le> sint (np_seq_number p)"
    and "\<And>j. rcv_seq st \<le> j \<Longrightarrow> j < MAX_SEQ_NUMBER \<Longrightarrow> j \<noteq> sint (np_seq_number p) \<Longrightarrow> rcv_state st j = 1"
  shows "process_packet p st = None"
  using assms by (rule process_packet_last)

theorem last_packet_out_of_bounds_witness:
  "process_packet ((to_node_packet packet0)\<lparr>np_seq_number := 499999\<rparr>)
     \<lparr>rcv_seq = 499999, rcv_state = (\<lambda>i. if 0 \<le> i \<and> i < 499999 then 1 else 0), last_rcv_seq = 499998\<rparr> = None"
  by (rule last_packet_out_of_bounds) (auto simp: status_ok_def MAX_SEQ_NUMBER_def max_ACK_bit_pattern_def)

text \<open>C39. Loading the receiver's module with a kernel that grants every request but possibly the registration returns 0, or, when
  \<^verbatim>\<open>register_netdev\<close> failed, unloads what it has loaded and returns the answer of \<^verbatim>\<open>register_netdev\<close>, if the unloading returns.
  Unloading frees exactly the memory the load allocated, and the decoder, and last waits for the decoding thread to stop,
  in whatever state that is. It returns when the thread does. A thread that is just about to look at the request stops. Otherwise
  unloading does not return while the thread, with the memory still within its reach, finds the ring empty, and when the thread's
  next round finds the memory unmapped, as \<^verbatim>\<open>iounmap\<close> has left it, that is a fault.\<close>

theorem receiver_load_unload:
  assumes "fresh_blocks k (n_mem s)" and "grants k" and "0 \<le> k_kthread k" and "n_rslist s = []"
  shows "\<exists>s1 s2. rx_loaded k (n_mem s) (n_log s) s1
    \<and> rx_init_module k fptr s = (if k_register k = 0 then Some (Done (0, s1))
        else map_option (map_blocking (\<lambda>s. (k_register k, s))) (rx_cleanup_module (k_thread k) s1))
    \<and> (\<forall>th. rx_cleanup_module th s1 = (case kthread_stop th of
        None \<Rightarrow> None | Some None \<Rightarrow> Some (Waiting s2) | Some (Some ret) \<Rightarrow> Some (Done (s2\<lparr>n_task := False\<rparr>))))
    \<and> (\<forall>c. n_mem s2 c = None \<longleftrightarrow> n_mem s c = None) \<and> n_rslist s2 = []
    \<and> n_log s2 = n_log s @ rx_load_log @ rx_unload_log \<and> last (n_log s2) = Kthread_stop
    \<and> (\<forall>th. th_at_test th \<longrightarrow> rx_cleanup_module th s1 = Some (Done (s2\<lparr>n_task := False\<rparr>)))
    \<and> (\<forall>th. \<not> th_at_test th \<longrightarrow> (\<forall>v\<in>set (th_sees th). \<exists>m i. v = Some m \<and> rd16 m 2 = Some i \<and> rd16 m 0 = Some i)
        \<longrightarrow> rx_cleanup_module th s1 = Some (Waiting s2))
    \<and> (\<forall>th vs. \<not> th_at_test th \<longrightarrow> th_sees th = None # vs \<longrightarrow> rx_cleanup_module th s1 = None)"
proof -
  from rx_init_ok[OF assms, of fptr] obtain s1 where s1: "rx_loaded k (n_mem s) (n_log s) s1"
    "rx_init_module k fptr s = (if k_register k = 0 then Some (Done (0, s1))
        else map_option (map_blocking (\<lambda>s. (k_register k, s))) (rx_cleanup_module (k_thread k) s1))" by blast
  from rx_unload[OF s1(1)] obtain s2 where s2: "\<forall>th. rx_cleanup_module th s1 = (case kthread_stop th of
        None \<Rightarrow> None | Some None \<Rightarrow> Some (Waiting s2) | Some (Some ret) \<Rightarrow> Some (Done (s2\<lparr>n_task := False\<rparr>)))"
    "\<forall>c. n_mem s2 c = None \<longleftrightarrow> n_mem s c = None" "n_rslist s2 = []" "n_log s2 = n_log s @ rx_load_log @ rx_unload_log" by blast
  have l: "last (n_log s2) = Kthread_stop" by (simp add: s2(4) rx_unload_log_def)
  have "th_at_test th \<Longrightarrow> kthread_stop th = Some (Some 0)" for th by (simp add: kthread_stop_def)
  with s1 s2 l kthread_stop_idle kthread_stop_unmapped show ?thesis
    by (intro exI[of _ s1] exI[of _ s2]) (simp only: simp_thms option.case, simp)
qed

theorem receiver_load_unload_witness:
  "\<exists>s1 s2. rx_init_module kernel0 (\<lambda>g x. x) rx_mod0 = Some (Done (0, s1))
    \<and> rx_cleanup_module \<lparr>th_at_test = True, th_sees = []\<rparr> s1 = Some (Done (s2\<lparr>n_task := False\<rparr>))
    \<and> rx_cleanup_module \<lparr>th_at_test = False, th_sees = replicate 1000 (Some ring0)\<rparr> s1 = Some (Waiting s2)
    \<and> rx_cleanup_module \<lparr>th_at_test = False, th_sees = [None]\<rparr> s1 = None
    \<and> n_log s2 = rx_load_log @ rx_unload_log"
proof -
  have p: "fresh_blocks kernel0 (n_mem rx_mod0)" "0 \<le> k_kthread kernel0" "n_rslist rx_mod0 = []" "k_register kernel0 = 0" "n_log rx_mod0 = []"
    using kernel0_ok(1) by (simp_all add: rx_mod0_def kernel0_def)
  from receiver_load_unload[OF p(1) kernel0_ok(2) p(2,3), of "\<lambda>g x. x"] obtain s1 s2 where
    s: "rx_init_module kernel0 (\<lambda>g x. x) rx_mod0 = Some (Done (0, s1))" "n_log s2 = rx_load_log @ rx_unload_log"
      "\<And>th. th_at_test th \<Longrightarrow> rx_cleanup_module th s1 = Some (Done (s2\<lparr>n_task := False\<rparr>))"
      "\<And>th. \<not> th_at_test th \<Longrightarrow> (\<forall>v\<in>set (th_sees th). \<exists>m i. v = Some m \<and> rd16 m 2 = Some i \<and> rd16 m 0 = Some i)
        \<Longrightarrow> rx_cleanup_module th s1 = Some (Waiting s2)"
      "\<And>th vs. \<not> th_at_test th \<Longrightarrow> th_sees th = None # vs \<Longrightarrow> rx_cleanup_module th s1 = None"
    using p(4,5) by auto
  have "rd16 ring0 2 = Some 4" "rd16 ring0 0 = Some 4" by (simp_all add: ring0_def bytes_simps)
  with s show ?thesis by (intro exI[of _ s1] exI[of _ s2]) auto
qed

text \<open>C40. Loads that fail: without the PRU mapping, and with the device registered, both modules report success, though neither
  has a timer or a thread then; and when the timer of the transmitter cannot be set up, its module reports the error and leaves everything it
  had allocated behind.\<close>

theorem failing_loads:
  assumes "k_ioremap k = None" and "k_netdev k \<noteq> None" and "k_register k = 0"
    and "fresh_blocks k (mem (m_drv s))" and "fresh_blocks k (n_mem r)"
    and "fresh_blocks k' (mem (m_drv s))" and "grants k'" and "k_timer_init k' = e" and "e \<noteq> 0" and "m_rslist s = []"
  shows "(\<exists>s' r'. tx_init_module k fptr s = Some (0, s')
      \<and> m_log s' = m_log s @ [Alloc_netdev, Register_netdev, Proc_mkdir, Create_proc ''tx'', Ioremap]
      \<and> rx_init_module k fptr r = Some (Done (0, r'))
      \<and> n_log r' = n_log r @ [Alloc_netdev, Register_netdev, Proc_mkdir, Create_proc ''rx'', Create_proc ''tx'', Ioremap])
    \<and> (\<exists>s'. tx_loaded k' (mem (m_drv s)) (m_log s) s'
      \<and> tx_init_module k' fptr s = Some (e, s'\<lparr>m_log := m_log s @ butlast tx_load_log\<rparr>))"
  using load_without_mapping[OF assms(1-5), of fptr] tx_init_ok[OF assms(6,7,10), of fptr] assms(8,9) by auto

theorem failing_loads_witness:
  "\<exists>s' r'. tx_init_module (kernel0\<lparr>k_ioremap := None\<rparr>) (\<lambda>g x. x) tx_mod0 = Some (0, s')
      \<and> m_log s' = [Alloc_netdev, Register_netdev, Proc_mkdir, Create_proc ''tx'', Ioremap]
      \<and> rx_init_module (kernel0\<lparr>k_ioremap := None\<rparr>) (\<lambda>g x. x) rx_mod0 = Some (Done (0, r'))"
  using failing_loads[of "kernel0\<lparr>k_ioremap := None\<rparr>" tx_mod0 rx_mod0 "kernel0\<lparr>k_timer_init := - 12\<rparr>" "- 12" "\<lambda>g x. x"]
    kernel0_ok
  by (auto simp: tx_mod0_def rx_mod0_def kernel0_def fresh_blocks_def grants_def)

end
